(* ===== verification/Go_Prelude.thy ===== *)
theory Go_Prelude
  imports Main "HOL-Library.Word"
begin

text \<open>
  Shared vocabulary of the development: the control effects of Go (a panic, a goroutine that
  blocks for ever), fixed-width integers, checked slice access, \<open>sync.RWMutex\<close>, and the generic
  lemmas on lists and words that the component theories use.

  A Go function that can panic or block is modelled by a function into \<open>'a go\<close>.  Error
  values are ordinary results in Go, so they are part of \<open>'a\<close>: a pair \<open>(value, err)\<close> of which
  only one half is meaningful is the sum type \<open>error + value\<close>.
\<close>

named_theorems go_simps \<open>unfolding rules for the Go run-time primitives\<close>

section \<open>Control effects\<close>

datatype go_fault =
    Nil_Deref
  | Index_Out_Of_Range
  | Explicit_Panic string

datatype 'a go =
    Ret 'a
  | Panic go_fault
  | Hang

fun go_bind :: "'a go \<Rightarrow> ('a \<Rightarrow> 'b go) \<Rightarrow> 'b go" where
  "go_bind (Ret x) f = f x"
| "go_bind (Panic p) f = Panic p"
| "go_bind Hang f = Hang"

fun is_Ret :: "'a go \<Rightarrow> bool" where
  "is_Ret (Ret x) = True"
| "is_Ret _ = False"

section \<open>Integers\<close>

text \<open>
  Go's \<open>int\<close> and \<open>int64\<close> are 64-bit two's complement (the builds the project supports are
  64-bit).  Their values are modelled by \<open>int\<close>; an operation that can leave the range is
  written with \<open>wrap64\<close>.  \<open>uint\<close> is \<open>64 word\<close>, bytes are \<open>8 word\<close>.  Integer division
  truncates towards zero.
\<close>

type_synonym byte = "8 word"
type_synonym uint = "64 word"

definition wrap64 :: "int \<Rightarrow> int" where
  "wrap64 x = (x + 2 ^ 63) mod 2 ^ 64 - 2 ^ 63"

definition is_int64 :: "int \<Rightarrow> bool" where
  "is_int64 x \<longleftrightarrow> - (2 ^ 63) \<le> x \<and> x < 2 ^ 63"

definition go_quot :: "int \<Rightarrow> int \<Rightarrow> int" where
  "go_quot a b = sgn a * sgn b * (\<bar>a\<bar> div \<bar>b\<bar>)"

section \<open>Slices\<close>

definition slice_get :: "'a list \<Rightarrow> int \<Rightarrow> 'a go" where
  "slice_get xs i = (if 0 \<le> i \<and> i < int (length xs) then Ret (xs ! nat i) else Panic Index_Out_Of_Range)"

definition slice_set :: "'a list \<Rightarrow> int \<Rightarrow> 'a \<Rightarrow> 'a list go" where
  "slice_set xs i v =
     (if 0 \<le> i \<and> i < int (length xs) then Ret (xs[nat i := v]) else Panic Index_Out_Of_Range)"

section \<open>Read-write mutexes\<close>

text \<open>
  \<open>sync.RWMutex\<close> as seen by one goroutine: acquiring blocks (\<open>Hang\<close>) where the lock is held
  in a conflicting mode.  When the holder is the acquiring goroutine itself, or one that never
  releases, the block is permanent.
\<close>

record rwmutex =
  readers :: nat
  writer :: bool

definition free_mutex :: rwmutex where
  "free_mutex = \<lparr>readers = 0, writer = False\<rparr>"

definition mu_RLock :: "rwmutex \<Rightarrow> rwmutex go" where
  "mu_RLock m = (if writer m then Hang else Ret (m\<lparr>readers := readers m + 1\<rparr>))"

definition mu_RUnlock :: "rwmutex \<Rightarrow> rwmutex go" where
  "mu_RUnlock m =
     (if readers m = 0 then Panic (Explicit_Panic ''sync: RUnlock of unlocked RWMutex'')
      else Ret (m\<lparr>readers := readers m - 1\<rparr>))"

definition mu_Lock :: "rwmutex \<Rightarrow> rwmutex go" where
  "mu_Lock m = (if writer m \<or> readers m > 0 then Hang else Ret (m\<lparr>writer := True\<rparr>))"

definition mu_Unlock :: "rwmutex \<Rightarrow> rwmutex go" where
  "mu_Unlock m =
     (if writer m then Ret (m\<lparr>writer := False\<rparr>)
      else Panic (Explicit_Panic ''sync: Unlock of unlocked RWMutex''))"

section \<open>Generic lemmas\<close>

lemma go_bind_Ret_right [simp]: "go_bind m Ret = m"
  by (cases m) simp_all

lemma go_bind_cong [fundef_cong]:
  "m = m' \<Longrightarrow> (\<And>x. m' = Ret x \<Longrightarrow> f x = f' x) \<Longrightarrow> go_bind m f = go_bind m' f'"
  by (cases m') simp_all

lemma go_bind_assoc: "go_bind (go_bind m f) g = go_bind m (\<lambda>x. go_bind (f x) g)"
  by (cases m) simp_all

lemma go_bind_eq_Ret [simp]: "go_bind m f = Ret y \<longleftrightarrow> (\<exists>x. m = Ret x \<and> f x = Ret y)"
  by (cases m) simp_all

lemma go_bind_eq_Panic:
  "go_bind m f = Panic p \<longleftrightarrow> m = Panic p \<or> (\<exists>x. m = Ret x \<and> f x = Panic p)"
  by (cases m) simp_all

lemma go_bind_eq_Hang:
  "go_bind m f = Hang \<longleftrightarrow> m = Hang \<or> (\<exists>x. m = Ret x \<and> f x = Hang)"
  by (cases m) simp_all

lemma map_go_bind: "map_go f (go_bind m g) = go_bind m (\<lambda>x. map_go f (g x))"
  by (cases m) simp_all

lemma map_go_eq_Ret [simp]: "map_go f m = Ret y \<longleftrightarrow> (\<exists>x. m = Ret x \<and> f x = y)"
  by (cases m) auto

lemma is_Ret_iff: "is_Ret m \<longleftrightarrow> (\<exists>x. m = Ret x)"
  by (cases m) simp_all

lemma wrap64_id [simp]: "is_int64 x \<Longrightarrow> wrap64 x = x"
  by (simp add: wrap64_def is_int64_def)

lemma is_int64_wrap64 [simp]: "is_int64 (wrap64 x)"
proof -
  have "0 \<le> (x + 2 ^ 63) mod 2 ^ 64" "(x + 2 ^ 63) mod 2 ^ 64 < 2 ^ 64"
    by simp_all
  then show ?thesis
    by (simp add: wrap64_def is_int64_def)
qed

lemma go_quot_nonneg [simp]: "0 \<le> a \<Longrightarrow> 0 < b \<Longrightarrow> go_quot a b = a div b"
  by (cases "a = 0") (simp_all add: go_quot_def)

lemma slice_get_nat [simp]: "i < length xs \<Longrightarrow> slice_get xs (int i) = Ret (xs ! i)"
  by (simp add: slice_get_def)

lemma slice_set_nat [simp]: "i < length xs \<Longrightarrow> slice_set xs (int i) v = Ret (xs[i := v])"
  by (simp add: slice_set_def)

lemma slice_get_beyond [simp]:
  "length xs \<le> i \<Longrightarrow> slice_get xs (int i) = Panic Index_Out_Of_Range"
  by (simp add: slice_get_def)

lemma slice_set_beyond [simp]:
  "length xs \<le> i \<Longrightarrow> slice_set xs (int i) v = Panic Index_Out_Of_Range"
  by (simp add: slice_set_def)

declare slice_get_def [go_simps] slice_set_def [go_simps]
declare mu_RLock_def [go_simps] mu_RUnlock_def [go_simps] mu_Lock_def [go_simps]
  mu_Unlock_def [go_simps] free_mutex_def [go_simps]

lemma free_mutex_cycle [simp]:
  "mu_Lock free_mutex = Ret \<lparr>readers = 0, writer = True\<rparr>"
  "mu_Unlock \<lparr>readers = 0, writer = True\<rparr> = Ret free_mutex"
  "mu_RLock free_mutex = Ret \<lparr>readers = Suc 0, writer = False\<rparr>"
  "mu_RUnlock \<lparr>readers = Suc 0, writer = False\<rparr> = Ret free_mutex"
  by (simp_all add: go_simps)

text \<open>A mutex that its own goroutine holds for writing can be acquired in neither mode.\<close>

lemma mutex_not_reentrant:
  "mu_Lock m = Ret m' \<Longrightarrow> mu_RLock m' = Hang \<and> mu_Lock m' = Hang"
  by (auto simp: go_simps split: if_splits)

lemma mutex_leaked_reader:
  "mu_RLock m = Ret m' \<Longrightarrow> mu_Lock m' = Hang"
  by (auto simp: go_simps split: if_splits)

end
