(* ===== verification/Go_Strings.thy ===== *)
theory Go_Strings
  imports Go_Prelude
begin

text \<open>
  The parts of Go's standard library that the sources use on strings and byte slices:
  \<open>strings.Split\<close> and \<open>strings.Replace\<close>, \<open>strconv.Itoa\<close>, \<open>FormatInt\<close>, \<open>Atoi\<close> and \<open>ParseInt\<close>
  (with their behaviour on malformed and out-of-range input, because the callers discard the
  error), conversions between \<open>string\<close> and \<open>[]byte\<close>, hexadecimal output, and the fixed-width
  encodings of \<open>encoding/binary\<close>.  A Go string is a sequence of bytes: \<open>char list\<close>.
\<close>

abbreviation newline :: char where
  "newline \<equiv> CHR 0x0A"

section \<open>Splitting and replacing\<close>

fun go_split :: "char \<Rightarrow> string \<Rightarrow> string list" where
  "go_split c [] = [[]]"
| "go_split c (x # xs) =
     (if x = c then [] # go_split c xs
      else (case go_split c xs of [] \<Rightarrow> [[x]] | y # ys \<Rightarrow> (x # y) # ys))"

fun go_join :: "char \<Rightarrow> string list \<Rightarrow> string" where
  "go_join c [] = []"
| "go_join c [s] = s"
| "go_join c (s # t # ss) = s @ c # go_join c (t # ss)"

text \<open>\<open>strings.Replace(s, a, b, -1)\<close> for one-byte \<open>a\<close> and \<open>b\<close>.\<close>

definition go_replace :: "char \<Rightarrow> char \<Rightarrow> string \<Rightarrow> string" where
  "go_replace a b s = map (\<lambda>c. if c = a then b else c) s"

section \<open>Decimal conversion\<close>

definition digit_char :: "nat \<Rightarrow> char" where
  "digit_char d = char_of (48 + d)"

definition char_digit :: "char \<Rightarrow> nat option" where
  "char_digit c = (let k = (of_char c :: nat) in if 48 \<le> k \<and> k \<le> 57 then Some (k - 48) else None)"

fun nat_digits :: "nat \<Rightarrow> string" where
  "nat_digits n = (if n < 10 then [digit_char n] else nat_digits (n div 10) @ [digit_char (n mod 10)])"

declare nat_digits.simps [simp del]

definition Itoa :: "int \<Rightarrow> string" where
  "Itoa i = (if i < 0 then CHR ''-'' # nat_digits (nat (- i)) else nat_digits (nat i))"

datatype num_error = ErrSyntax | ErrRange

text \<open>
  The scanning loop of \<open>strconv.ParseUint(s, 10, 64)\<close>: left to right, so that an overflow is
  reported before a later invalid character is seen.
\<close>

fun parse_uint_loop :: "nat \<Rightarrow> string \<Rightarrow> nat \<times> num_error option" where
  "parse_uint_loop n [] = (n, None)"
| "parse_uint_loop n (c # cs) =
     (case char_digit c of
        None \<Rightarrow> (0, Some ErrSyntax)
      | Some d \<Rightarrow>
          if n * 10 + d > 2 ^ 64 - 1 then (2 ^ 64 - 1, Some ErrRange)
          else parse_uint_loop (n * 10 + d) cs)"

definition ParseUint :: "string \<Rightarrow> nat \<times> num_error option" where
  "ParseUint s = (if s = [] then (0, Some ErrSyntax) else parse_uint_loop 0 s)"

definition ParseInt :: "string \<Rightarrow> int \<times> num_error option" where
  "ParseInt s =
     (case s of
        [] \<Rightarrow> (0, Some ErrSyntax)
      | c # cs \<Rightarrow>
          let neg = (c = CHR ''-'');
              body = (if c = CHR ''+'' \<or> c = CHR ''-'' then cs else s)
          in case ParseUint body of
               (_, Some ErrSyntax) \<Rightarrow> (0, Some ErrSyntax)
             | (un, _) \<Rightarrow>
                 if \<not> neg \<and> un \<ge> 2 ^ 63 then (2 ^ 63 - 1, Some ErrRange)
                 else if neg \<and> un > 2 ^ 63 then (- (2 ^ 63), Some ErrRange)
                 else (if neg then - int un else int un, None))"

section \<open>Bytes\<close>

definition byte_of_char :: "char \<Rightarrow> byte" where
  "byte_of_char c = word_of_nat (of_char c)"

definition char_of_byte :: "byte \<Rightarrow> char" where
  "char_of_byte b = char_of (unat b)"

abbreviation bytes_of_string :: "string \<Rightarrow> byte list" where
  "bytes_of_string \<equiv> map byte_of_char"

abbreviation string_of_bytes :: "byte list \<Rightarrow> string" where
  "string_of_bytes \<equiv> map char_of_byte"

text \<open>\<open>binary.BigEndian.PutUint16\<close> and \<open>binary.LittleEndian.PutUint32\<close>, and reading back.\<close>

definition be16 :: "16 word \<Rightarrow> byte list" where
  "be16 w = [ucast (drop_bit 8 w), ucast w]"

definition le32 :: "32 word \<Rightarrow> byte list" where
  "le32 w = [ucast w, ucast (drop_bit 8 w), ucast (drop_bit 16 w), ucast (drop_bit 24 w)]"

fun le32_read :: "byte list \<Rightarrow> 32 word option" where
  "le32_read (a # b # c # d # _) =
     Some (ucast a + push_bit 8 (ucast b) + push_bit 16 (ucast c) + push_bit 24 (ucast d))"
| "le32_read _ = None"

section \<open>Lemmas\<close>

lemma go_split_nonempty [simp]: "go_split c s \<noteq> []"
  by (induction s) (simp_all split: list.splits)

lemma go_split_join: "go_join c (go_split c s) = s"
proof (induction s)
  case (Cons x xs)
  then show ?case
    by (cases "go_split c xs"; cases "tl (go_split c xs)") (auto split: list.splits)
qed simp

lemma go_split_pieces: "p \<in> set (go_split c s) \<Longrightarrow> c \<notin> set p"
  by (induction s arbitrary: p) (auto split: list.splits if_splits)

lemma go_split_no_sep: "c \<notin> set s \<Longrightarrow> go_split c s = [s]"
  by (induction s) auto

lemma go_split_append_sep: "c \<notin> set s \<Longrightarrow> go_split c (s @ c # t) = s # go_split c t"
  by (induction s) auto

lemma go_join_split:
  "ss \<noteq> [] \<Longrightarrow> \<forall>s \<in> set ss. c \<notin> set s \<Longrightarrow> go_split c (go_join c ss) = ss"
  by (induction c ss rule: go_join.induct) (simp_all add: go_split_no_sep go_split_append_sep)

lemma of_char_digit_char: "d < 10 \<Longrightarrow> (of_char (digit_char d) :: nat) = 48 + d"
  by (simp add: digit_char_def)

lemma char_digit_digit_char [simp]: "d < 10 \<Longrightarrow> char_digit (digit_char d) = Some d"
  by (simp add: char_digit_def of_char_digit_char Let_def)

lemma digit_char_neq: "d < 10 \<Longrightarrow> (of_char c :: nat) < 48 \<Longrightarrow> digit_char d \<noteq> c"
  using of_char_digit_char by fastforce

lemma nat_digits_nonempty [simp]: "nat_digits n \<noteq> []"
  by (subst nat_digits.simps) simp

lemma nat_digits_chars: "c \<in> set (nat_digits n) \<Longrightarrow> \<exists>d < 10. c = digit_char d"
proof (induction n rule: nat_digits.induct)
  case (1 n)
  show ?case
  proof (cases "n < 10")
    case True
    with "1.prems" show ?thesis by (auto simp: nat_digits.simps [of n])
  next
    case False
    with "1.prems" have "c \<in> set (nat_digits (n div 10)) \<or> c = digit_char (n mod 10)"
      by (auto simp: nat_digits.simps [of n])
    with "1.IH" [OF False] show ?thesis
      by (metis mod_less_divisor zero_less_numeral)
  qed
qed

lemma nat_digits_no_low: "(of_char c :: nat) < 48 \<Longrightarrow> c \<notin> set (nat_digits n)"
  using nat_digits_chars digit_char_neq by blast

lemma Itoa_no_newline: "newline \<notin> set (Itoa i)"
  by (simp add: Itoa_def nat_digits_no_low)

lemma parse_uint_loop_append:
  "parse_uint_loop m (xs @ ys) =
     (case parse_uint_loop m xs of (k, None) \<Rightarrow> parse_uint_loop k ys | r \<Rightarrow> r)"
  by (induction m xs rule: parse_uint_loop.induct) (simp_all split: option.splits)

lemma parse_nat_digits: "n < 2 ^ 64 \<Longrightarrow> parse_uint_loop 0 (nat_digits n) = (n, None)"
proof (induction n rule: nat_digits.induct)
  case (1 n)
  show ?case
  proof (cases "n < 10")
    case True
    then show ?thesis by (subst nat_digits.simps) simp
  next
    case False
    moreover have "n div 10 < 2 ^ 64" using "1.prems" by simp
    ultimately have "parse_uint_loop 0 (nat_digits (n div 10)) = (n div 10, None)"
      using "1.IH" by simp
    moreover have "\<not> n div 10 * 10 + n mod 10 > 2 ^ 64 - 1" using "1.prems" by simp
    ultimately show ?thesis
      using False by (subst nat_digits.simps) (simp add: parse_uint_loop_append)
  qed
qed

lemma ParseInt_digits: "n < 2 ^ 63 \<Longrightarrow> ParseInt (nat_digits n) = (int n, None)"
proof -
  assume n: "n < 2 ^ 63"
  obtain c cs where cs: "nat_digits n = c # cs"
    by (cases "nat_digits n") auto
  then have "c \<noteq> CHR ''-''" "c \<noteq> CHR ''+''"
    using nat_digits_no_low [of "CHR ''-''" n] nat_digits_no_low [of "CHR ''+''" n] by auto
  moreover have "ParseUint (nat_digits n) = (n, None)"
    using n parse_nat_digits [of n] by (simp add: ParseUint_def)
  ultimately show ?thesis
    using n cs by (simp add: ParseInt_def Let_def)
qed

text \<open>Formatting an \<open>int64\<close> and parsing it back is the identity, with no error.\<close>

lemma ParseInt_Itoa [simp]: "is_int64 i \<Longrightarrow> ParseInt (Itoa i) = (i, None)"
proof (cases "i < 0")
  case True
  assume i: "is_int64 i"
  let ?n = "nat (- i)"
  have n: "?n \<le> 2 ^ 63" using i True by (simp add: is_int64_def)
  have "ParseUint (nat_digits ?n) = (?n, None)"
    using n parse_nat_digits [of ?n] by (simp add: ParseUint_def)
  then show ?thesis
    using True n by (simp add: Itoa_def ParseInt_def Let_def)
next
  case False
  assume i: "is_int64 i"
  then have "nat i < 2 ^ 63" using False by (simp add: is_int64_def)
  then show ?thesis
    using False ParseInt_digits [of "nat i"] by (simp add: Itoa_def)
qed

lemma char_of_byte_of_char [simp]: "char_of_byte (byte_of_char c) = c"
  by (simp add: char_of_byte_def byte_of_char_def take_bit_eq_mod unat_of_nat)

lemma byte_of_char_of_byte [simp]: "byte_of_char (char_of_byte b) = b"
proof -
  have "unat b < 256" using unsigned_less [of b] by simp
  then show ?thesis by (simp add: char_of_byte_def byte_of_char_def)
qed

lemma char_byte_comp [simp]: "char_of_byte \<circ> byte_of_char = id" "byte_of_char \<circ> char_of_byte = id"
  by (simp_all add: fun_eq_iff)

lemma length_be16 [simp]: "length (be16 w) = 2"
  by (simp add: be16_def)

lemma length_le32 [simp]: "length (le32 w) = 4"
  by (simp add: le32_def)

end
