(* ===== verification/Framed_Stream.thy ===== *)
theory Framed_Stream
  imports Go_Prelude
begin

text \<open>
  The contract of a reader that takes messages off a byte stream.  The program has two: the frames
  of the cluster protocol (\<open>Frames\<close>) and those of the websocket library (\<open>Ws_Read\<close>).  A message may
  have several encodings; one round yields the messages it delivers, possibly none, and the reader
  moved on.
\<close>

fun recv_n :: "('r \<Rightarrow> ('m list \<times> 'r) go) \<Rightarrow> nat \<Rightarrow> 'r \<Rightarrow> ('m list \<times> 'r) go" where
  "recv_n recv 0 r = Ret ([], r)"
| "recv_n recv (Suc n) r =
     go_bind (recv r) (\<lambda>(ms, r'). go_bind (recv_n recv n r') (\<lambda>(ms', r''). Ret (ms @ ms', r'')))"

locale framed_reader =
  fixes ready :: "'r \<Rightarrow> bool"
    and input :: "'r \<Rightarrow> 'b list"
    and recv :: "'r \<Rightarrow> ('m list \<times> 'r) go"
    and encodes :: "'m \<Rightarrow> 'b list \<Rightarrow> bool"
  assumes recv_ok: "ready r \<Longrightarrow> encodes m bs \<Longrightarrow> input r = bs @ rest \<Longrightarrow> \<exists>r'. recv r = Ret ([m], r') \<and> ready r' \<and> input r' = rest"
begin

lemma recv_n_delivers:
  assumes "ready r" and "list_all2 encodes ms bss" and "input r = concat bss @ rest"
  shows "\<exists>r'. recv_n recv (length ms) r = Ret (ms, r') \<and> ready r' \<and> input r' = rest"
  using assms(2,1,3)
proof (induction arbitrary: r rule: list_all2_induct)
  case (Cons m ms bs bss)
  then obtain r1 where r1: "recv r = Ret ([m], r1)" "ready r1" "input r1 = concat bss @ rest"
    using recv_ok [of r m bs "concat bss @ rest"] by auto
  then show ?case using Cons.IH [of r1] by auto
qed simp

end

end
