(* ===== verification/Frames.thy ===== *)
theory Frames
  imports Go_Strings Framed_Stream
begin

unbundle bit_operations_syntax

text \<open>
  Framing of the master-slave connection: \<open>src/clustering/bytesutils.go\<close> and \<open>readData\<close> of
  \<open>src/clustering/network.go\<close>.  A message is sent as a big-endian 16-bit length followed by its
  bytes; the receiver reassembles it from whatever pieces the socket delivers, keeping surplus
  bytes of the last piece in a second buffer for the next call.

  A TCP connection is modelled by what the successive \<open>Read\<close> calls will find (a list of pieces;
  no piece left is an error return) and by what has been written.  \<open>readData\<close> works on buffers of
  fixed size, with the index checks of the source.
\<close>

section \<open>Connections and nodes\<close>

record TCPConn =
  rx :: "byte list list"
  tx :: "byte list"
  tx_fails :: bool

definition tcp_Read :: "nat \<Rightarrow> TCPConn \<Rightarrow> (byte list \<times> TCPConn) option" where
  "tcp_Read n c =
     (case rx c of
        [] \<Rightarrow> None
      | p # ps \<Rightarrow> if length p \<le> n then Some (p, c\<lparr>rx := ps\<rparr>) else Some (take n p, c\<lparr>rx := drop n p # ps\<rparr>))"

definition tcp_Write :: "byte list \<Rightarrow> TCPConn \<Rightarrow> bool \<times> TCPConn" where
  "tcp_Write bs c = (if tx_fails c then (False, c) else (True, c\<lparr>tx := tx c @ bs\<rparr>))"

text \<open>
  The struct of a peer.  Its buffer lock is never acquired (the calls are commented out); its
  channel is the queue of at most one element that \<open>masterHandler\<close> and \<open>executeSlaveQueue\<close> share,
  \<open>None\<close> where the field is nil.
\<close>

record Node =
  complexity :: uint
  saved :: uint
  index :: int
  closed :: bool
  address :: string
  conn :: "TCPConn option"
  read_buffer :: "byte list"
  level_2_buffer :: "byte list"
  level_2_buffer_size :: int
  bufferLock :: "rwmutex option"
  channel :: "int list option"

section \<open>Copying between buffers\<close>

fun append_loop :: "nat \<Rightarrow> byte list \<Rightarrow> byte list \<Rightarrow> int \<Rightarrow> int \<Rightarrow> int \<Rightarrow> byte list go" where
  "append_loop 0 dst src i begindst beginsrc = Ret dst"
| "append_loop (Suc n) dst src i begindst beginsrc =
     go_bind (slice_get src (i - begindst + beginsrc)) (\<lambda>b.
     go_bind (slice_set dst i b) (\<lambda>dst'. append_loop n dst' src (i + 1) begindst beginsrc))"

definition append_buffer :: "byte list \<Rightarrow> byte list \<Rightarrow> int \<Rightarrow> int \<Rightarrow> int \<Rightarrow> byte list go" where
  "append_buffer dst src begindst beginsrc len = append_loop (nat len) dst src begindst begindst beginsrc"

section \<open>Reading one message\<close>

definition buffer_size :: nat where
  "buffer_size = 4096"

text \<open>\<open>conn.Read(temp[i:])\<close> overwrites the buffer from position \<open>i\<close>.\<close>

definition overlay :: "byte list \<Rightarrow> nat \<Rightarrow> byte list \<Rightarrow> byte list" where
  "overlay temp i bs = take i temp @ bs @ drop (i + length bs) temp"

definition frame_length :: "byte \<Rightarrow> byte \<Rightarrow> int" where
  "frame_length b0 b1 = sint (push_bit 8 (0 OR (ucast b0 :: 16 word)) OR ucast b1)"

text \<open>The first fill of the temporary buffer; \<open>None\<close> is the early return of zero.\<close>

definition first_read :: "Node \<Rightarrow> TCPConn \<Rightarrow> ((byte list \<times> int) option \<times> Node) go" where
  "first_read node c =
     (let temp = replicate buffer_size 0 in
      if level_2_buffer_size node > 1 then
        go_bind (append_buffer temp (level_2_buffer node) 0 0 (level_2_buffer_size node)) (\<lambda>temp'.
        Ret (Some (temp', level_2_buffer_size node), node\<lparr>level_2_buffer_size := 0\<rparr>))
      else if level_2_buffer_size node = 1 then
        go_bind (append_buffer temp (level_2_buffer node) 0 0 (level_2_buffer_size node)) (\<lambda>temp'.
        Ret (case tcp_Read (buffer_size - 1) c of
               None \<Rightarrow> (None, node\<lparr>level_2_buffer_size := 0\<rparr>)
             | Some (bs, c') \<Rightarrow>
                 (Some (overlay temp' 1 bs, int (length bs) + 1),
                  node\<lparr>level_2_buffer_size := 0, conn := Some c'\<rparr>)))
      else
        Ret (case tcp_Read buffer_size c of
               None \<Rightarrow> (None, node)
             | Some (bs, c') \<Rightarrow> (Some (overlay temp 0 bs, int (length bs)), node\<lparr>conn := Some c'\<rparr>)))"

text \<open>The loop that reads on until the message is complete.\<close>

function read_loop :: "int \<Rightarrow> int \<Rightarrow> byte list \<Rightarrow> Node \<Rightarrow> (int \<times> Node) go" where
  "read_loop msg_size sofar temp node =
     (let bytes_to_read = msg_size - sofar in
      case conn node of
        None \<Rightarrow> Ret (0, node)
      | Some c \<Rightarrow>
          (case tcp_Read buffer_size c of
             None \<Rightarrow> Ret (0, node)
           | Some (bs, c') \<Rightarrow>
               let temp' = overlay temp 0 bs;
                   sz = int (length bs);
                   current = sofar + sz;
                   node1 = node\<lparr>conn := Some c'\<rparr>
               in if current \<ge> msg_size then
                    go_bind (append_buffer (level_2_buffer node1) temp' 0 bytes_to_read (current - msg_size)) (\<lambda>l2.
                    go_bind (append_buffer (read_buffer node1) temp' sofar 0 bytes_to_read) (\<lambda>rb.
                    Ret (msg_size,
                         node1\<lparr>level_2_buffer := l2, level_2_buffer_size := current - msg_size, read_buffer := rb\<rparr>)))
                  else
                    go_bind (append_buffer (read_buffer node1) temp' sofar 0 sz) (\<lambda>rb.
                    read_loop msg_size current temp' (node1\<lparr>read_buffer := rb\<rparr>))))"
  by pat_completeness auto
termination
proof (relation "measure (\<lambda>(m, s, t, node). case conn node of None \<Rightarrow> 0 | Some c \<Rightarrow> sum_list (map (\<lambda>p. Suc (length p)) (rx c)))", goal_cases)
  case (2 msg_size sofar temp node x c x2 bs c' x1 xa xb xc xd)
  then show ?case
    by (auto simp: tcp_Read_def buffer_size_def split: list.splits if_splits)
qed auto

declare read_loop.simps [simp del]

definition readData :: "Node option \<Rightarrow> (nat \<times> Node option) go" where
  "readData nodeo =
     (case nodeo of
        None \<Rightarrow> Ret (0, None)
      | Some node \<Rightarrow>
          (case conn node of
             None \<Rightarrow> Ret (0, Some node)
           | Some c \<Rightarrow>
               go_bind (first_read node c) (\<lambda>(r, node1).
                 case r of
                   None \<Rightarrow> Ret (0, Some node1)
                 | Some (temp, sz) \<Rightarrow>
                     let msg_size = frame_length (temp ! 0) (temp ! 1) in
                     if msg_size < 0 then Ret (0, Some node1)
                     else if msg_size \<le> sz - 2 then
                       go_bind (append_buffer (read_buffer node1) temp 0 2 msg_size) (\<lambda>rb.
                       go_bind (append_buffer (level_2_buffer node1) temp 0 (msg_size + 2) (sz - 2 - msg_size)) (\<lambda>l2.
                       Ret (nat msg_size,
                            Some (node1\<lparr>read_buffer := rb, level_2_buffer := l2,
                                        level_2_buffer_size := sz - 2 - msg_size\<rparr>))))
                     else
                       go_bind (append_buffer (read_buffer node1) temp 0 2 (sz - 2)) (\<lambda>rb.
                       go_bind (read_loop msg_size (sz - 2) temp (node1\<lparr>read_buffer := rb\<rparr>)) (\<lambda>(n, node2).
                       Ret (nat n, Some node2))))))"

section \<open>Lemmas on the buffers\<close>

lemma append_loop_ok:
  assumes "bd + j + n \<le> length dst" and "bs + j + n \<le> length src"
  shows "append_loop n dst src (int (bd + j)) (int bd) (int bs) =
     Ret (take (bd + j) dst @ take n (drop (bs + j) src) @ drop (bd + j + n) dst)"
  using assms
proof (induction n arbitrary: j dst)
  case (Suc n)
  let ?i = "bd + j" and ?b = "src ! (bs + j)"
  have get: "slice_get src (int ?i - int bd + int bs) = Ret ?b"
    using Suc.prems by (simp add: slice_get_def nat_add_distrib add.commute)
  have set: "slice_set dst (int ?i) ?b = Ret (dst[?i := ?b])"
    using Suc.prems by (intro slice_set_nat) simp
  have IH: "append_loop n (dst[?i := ?b]) src (int (bd + Suc j)) (int bd) (int bs) =
      Ret (take (bd + Suc j) (dst[?i := ?b]) @ take n (drop (bs + Suc j) src) @ drop (bd + Suc j + n) (dst[?i := ?b]))"
    using Suc.prems by (intro Suc.IH) simp_all
  have "take (bd + Suc j) (dst[?i := ?b]) = take ?i dst @ [?b]"
    using Suc.prems by (simp add: take_Suc_conv_app_nth)
  moreover have "take (Suc n) (drop (bs + j) src) = ?b # take n (drop (bs + Suc j) src)"
    using Suc.prems by (simp add: Cons_nth_drop_Suc [symmetric])
  ultimately show ?case
    using get set IH by (simp add: algebra_simps)
qed simp

lemma append_buffer_ok:
  assumes "bd + n \<le> length dst" and "bs + n \<le> length src"
  shows "append_buffer dst src (int bd) (int bs) (int n) =
     Ret (take bd dst @ take n (drop bs src) @ drop (bd + n) dst)"
  using append_loop_ok [of bd 0 n dst bs src] assms by (simp add: append_buffer_def)

lemma append_buffer_zero:
  "0 \<le> n \<Longrightarrow> nat n \<le> length dst \<Longrightarrow> nat n \<le> length src \<Longrightarrow>
   append_buffer dst src 0 0 n = Ret (take (nat n) src @ drop (nat n) dst)"
  using append_buffer_ok [of 0 "nat n" dst 0 src] by simp

lemma append_buffer_negative:
  "0 < n \<Longrightarrow> append_buffer dst src (- 1) bs n = Panic Index_Out_Of_Range"
  by (cases "nat n") (auto simp: append_buffer_def slice_get_def slice_set_def)

lemma append_buffer_none [simp]: "n \<le> 0 \<Longrightarrow> append_buffer dst src bd bs n = Ret dst"
  by (simp add: append_buffer_def)

lemma length_overlay [simp]: "i + length bs \<le> length temp \<Longrightarrow> length (overlay temp i bs) = length temp"
  by (simp add: overlay_def)

lemma take_overlay_0: "take (length bs) (overlay temp 0 bs) = bs"
  by (simp add: overlay_def)

lemma frame_length_be16: "frame_length (be16 w ! 0) (be16 w ! 1) = sint w"
proof -
  have "push_bit 8 (0 OR (ucast (ucast (drop_bit 8 w) :: byte) :: 16 word)) OR ucast (ucast w :: byte) = w"
    by (rule bit_word_eqI) (auto simp: bit_simps)
  then show ?thesis by (simp add: frame_length_def be16_def)
qed

lemma sint_small16: "n < 2 ^ 15 \<Longrightarrow> sint (word_of_nat n :: 16 word) = int n"
  by (simp add: signed_of_nat signed_take_bit_int_eq_self)

section \<open>Reassembly\<close>

text \<open>The bytes that have arrived or will arrive and are not yet part of a delivered message.\<close>

definition pending :: "Node \<Rightarrow> byte list" where
  "pending node = take (nat (level_2_buffer_size node)) (level_2_buffer node) @
     (case conn node of None \<Rightarrow> [] | Some c \<Rightarrow> concat (rx c))"

text \<open>
  Well-formed receivers: buffers as allocated, and a socket that delivers non-empty pieces which
  fit the temporary buffer (a larger piece would reach \<open>Read\<close> in parts anyway) and have at least
  \<open>lo\<close> bytes.
\<close>

definition pieces_ok :: "nat \<Rightarrow> byte list list \<Rightarrow> bool" where
  "pieces_ok lo ps \<longleftrightarrow> (\<forall>p \<in> set ps. p \<noteq> [] \<and> lo \<le> length p \<and> length p < buffer_size)"

definition node_ok :: "nat \<Rightarrow> Node \<Rightarrow> bool" where
  "node_ok lo node \<longleftrightarrow> length (read_buffer node) = buffer_size \<and> length (level_2_buffer node) = buffer_size \<and>
     0 \<le> level_2_buffer_size node \<and> level_2_buffer_size node \<le> int buffer_size \<and>
     (\<exists>c. conn node = Some c \<and> pieces_ok lo (rx c))"

definition frame :: "byte list \<Rightarrow> byte list" where
  "frame m = be16 (word_of_nat (length m)) @ m"

lemma tcp_Read_piece:
  "rx c = p # ps \<Longrightarrow> length p \<le> n \<Longrightarrow> tcp_Read n c = Some (p, c\<lparr>rx := ps\<rparr>)"
  by (simp add: tcp_Read_def)

text \<open>Completing a message: the surplus of the last piece goes to the second buffer.\<close>

lemma split_last_piece:
  fixes p rest m' :: "'a list"
  assumes "p @ q = m' @ rest" and "length m' \<le> length p"
  shows "take (length m') p = m'" and "drop (length m') p @ q = rest"
proof -
  have "take (length m') (p @ q) = m'" "drop (length m') (p @ q) = rest"
    unfolding assms(1) by simp_all
  then show "take (length m') p = m'" "drop (length m') p @ q = rest"
    using assms(2) by simp_all
qed

text \<open>The state of the loop: \<open>k\<close> bytes of \<open>m\<close> are in the read buffer.\<close>

definition loop_inv :: "nat \<Rightarrow> byte list \<Rightarrow> byte list \<Rightarrow> nat \<Rightarrow> byte list \<Rightarrow> Node \<Rightarrow> TCPConn \<Rightarrow> bool" where
  "loop_inv lo m rest k temp node c \<longleftrightarrow> node_ok lo node \<and> conn node = Some c \<and> length temp = buffer_size \<and>
     k < length m \<and> length m \<le> buffer_size \<and> take k (read_buffer node) = take k m \<and>
     concat (rx c) = drop k m @ rest"

lemma loop_invD:
  assumes "loop_inv lo m rest k temp node c" and "rx c = p # ps"
  shows "length (read_buffer node) = buffer_size" and "length (level_2_buffer node) = buffer_size"
    and "length p < buffer_size" and "pieces_ok lo ps"
    and "tcp_Read buffer_size c = Some (p, c\<lparr>rx := ps\<rparr>)"
    and "length (overlay temp 0 p) = buffer_size" and "p @ concat ps = drop k m @ rest"
  using assms by (auto simp: loop_inv_def node_ok_def pieces_ok_def intro!: tcp_Read_piece)

lemma read_loop_last:
  assumes inv: "loop_inv lo m rest k temp node c" and rx: "rx c = p # ps" and fin: "length m \<le> k + length p"
  shows "\<exists>node'. read_loop (int (length m)) (int k) temp node = Ret (int (length m), node') \<and>
     node_ok lo node' \<and> take (length m) (read_buffer node') = m \<and> pending node' = rest"
proof -
  let ?N = "length m" and ?t = "overlay temp 0 p" and ?r = "length m - k"
  note d = loop_invD [OF inv rx]
  have k: "k < ?N" "?N \<le> buffer_size" "take k (read_buffer node) = take k m" "conn node = Some c"
    using inv by (simp_all add: loop_inv_def)
  have r: "?r \<le> length p" "length (drop k m) = ?r" using fin by simp_all
  have e: "int ?N - int k = int ?r" "int k + int (length p) - int ?N = int (length p - ?r)"
    using fin k(1) by simp_all
  have "take ?r p = drop k m" "drop ?r p @ concat ps = rest"
    using split_last_piece [OF d(7)] r by simp_all
  then have piece: "take ?r ?t = drop k m" "take (length p - ?r) (drop ?r ?t) @ concat ps = rest"
    using r(1) by (simp_all add: overlay_def)
  let ?l2 = "take (length p - ?r) (drop ?r ?t) @ drop (length p - ?r) (level_2_buffer node)"
  let ?rb = "take k (read_buffer node) @ take ?r ?t @ drop ?N (read_buffer node)"
  let ?node = "node\<lparr>conn := Some (c\<lparr>rx := ps\<rparr>), level_2_buffer := ?l2,
      level_2_buffer_size := int (length p - ?r), read_buffer := ?rb\<rparr>"
  have l2: "append_buffer (level_2_buffer node) ?t 0 (int ?r) (int (length p - ?r)) = Ret ?l2"
    using append_buffer_ok [of 0 "length p - ?r" "level_2_buffer node" ?r ?t] d r
    by (simp del: of_nat_diff)
  have rb: "append_buffer (read_buffer node) ?t (int k) 0 (int ?r) = Ret ?rb"
    using append_buffer_ok [of k ?r "read_buffer node" 0 ?t] d k(1,2) by (simp del: of_nat_diff)
  have "read_loop (int ?N) (int k) temp node = Ret (int ?N, ?node)"
    using fin d(5) l2 rb k(4) by (subst read_loop.simps) (simp add: Let_def e del: of_nat_diff)
  moreover have "take ?N ?rb = m"
    unfolding k(3) piece(1) using k(1) by simp
  moreover have "pending ?node = rest"
    using piece(2) d(6) d(3) by (simp add: pending_def)
  moreover have "node_ok lo ?node"
    using d k fin by (auto simp: node_ok_def)
  ultimately show ?thesis by auto
qed

lemma read_loop_more:
  assumes inv: "loop_inv lo m rest k temp node c" and rx: "rx c = p # ps" and more: "k + length p < length m"
  shows "\<exists>temp' node'. read_loop (int (length m)) (int k) temp node =
       read_loop (int (length m)) (int (k + length p)) temp' node' \<and>
     loop_inv lo m rest (k + length p) temp' node' (c\<lparr>rx := ps\<rparr>)"
proof -
  let ?N = "length m" and ?t = "overlay temp 0 p" and ?c = "c\<lparr>rx := ps\<rparr>"
  note d = loop_invD [OF inv rx]
  have k: "?N \<le> buffer_size" "take k (read_buffer node) = take k m" "conn node = Some c" "node_ok lo node"
    using inv by (simp_all add: loop_inv_def)
  let ?rb = "take k (read_buffer node) @ p @ drop (k + length p) (read_buffer node)"
  let ?node = "node\<lparr>conn := Some ?c, read_buffer := ?rb\<rparr>"
  have rb: "append_buffer (read_buffer node) ?t (int k) 0 (int (length p)) = Ret ?rb"
    using append_buffer_ok [of k "length p" "read_buffer node" 0 ?t] d k(1) more
    by (simp add: take_overlay_0)
  have run: "read_loop (int ?N) (int k) temp node = read_loop (int ?N) (int (k + length p)) ?t ?node"
    using more d(5) rb k(3) by (subst read_loop.simps) (simp add: Let_def)
  have split: "take (length p) (drop k m) = p" "drop (length p) (drop k m) @ rest = concat ps"
    using split_last_piece [of "drop k m" rest p "concat ps"] d(7) more by simp_all
  have "take (k + length p) ?rb = take (k + length p) m"
    unfolding k(2) take_add split(1) using more by simp
  then have "loop_inv lo m rest (k + length p) ?t ?node ?c"
    using d k more split(2) by (auto simp: loop_inv_def node_ok_def add.commute)
  with run show ?thesis by blast
qed

lemma read_loop_delivers:
  assumes "loop_inv lo m rest k temp node c"
  shows "\<exists>node'. read_loop (int (length m)) (int k) temp node = Ret (int (length m), node') \<and>
     node_ok lo node' \<and> take (length m) (read_buffer node') = m \<and> pending node' = rest"
  using assms
proof (induction "rx c" arbitrary: node c k temp)
  case Nil
  then show ?case by (auto simp: loop_inv_def)
next
  case (Cons p ps)
  show ?case
  proof (cases "length m \<le> k + length p")
    case True
    then show ?thesis using read_loop_last [OF Cons.prems Cons.hyps(2) [symmetric]] by simp
  next
    case False
    then obtain temp' node' where step: "read_loop (int (length m)) (int k) temp node =
          read_loop (int (length m)) (int (k + length p)) temp' node'"
      and inv: "loop_inv lo m rest (k + length p) temp' node' (c\<lparr>rx := ps\<rparr>)"
      using read_loop_more [OF Cons.prems] Cons.hyps(2) by (metis not_le_imp_less)
    show ?thesis unfolding step using inv by (intro Cons.hyps(1)) simp_all
  qed
qed

text \<open>
  The first fill: with at least two bytes at hand the header is complete.  The only way to get
  one byte is an empty second buffer and a piece of length one.
\<close>

definition lone_byte :: "Node \<Rightarrow> bool" where
  "lone_byte node \<longleftrightarrow> level_2_buffer_size node = 0 \<and>
     (\<exists>c b ps. conn node = Some c \<and> rx c = [b] # ps)"

definition filled :: "nat \<Rightarrow> Node \<Rightarrow> byte list \<Rightarrow> nat \<Rightarrow> Node \<Rightarrow> bool" where
  "filled lo node temp sz node1 \<longleftrightarrow> node_ok lo node1 \<and> length temp = buffer_size \<and> sz \<le> buffer_size \<and> 1 \<le> sz \<and>
     read_buffer node1 = read_buffer node \<and> level_2_buffer_size node1 = 0 \<and>
     take sz temp @ pending node1 = pending node \<and> (sz = 1 \<longleftrightarrow> lone_byte node)"

lemma first_read_fills:
  assumes ok: "node_ok lo node" and c: "conn node = Some c" and many: "2 < length (pending node)"
  shows "\<exists>temp sz node1. first_read node c = Ret (Some (temp, int sz), node1) \<and> filled lo node temp sz node1"
proof -
  define n where "n = nat (level_2_buffer_size node)"
  let ?z = "replicate buffer_size (0 :: byte)"
  have n: "level_2_buffer_size node = int n" "n \<le> buffer_size" "length (level_2_buffer node) = buffer_size"
      "pieces_ok lo (rx c)"
    using ok c by (auto simp: node_ok_def n_def)
  have copy: "append_buffer ?z (level_2_buffer node) 0 0 (int n) =
      Ret (take n (level_2_buffer node) @ drop n ?z)"
    using append_buffer_zero [of "int n" ?z "level_2_buffer node"] n by simp
  have pend: "pending node = take n (level_2_buffer node) @ concat (rx c)"
    using c n by (simp add: pending_def)
  show ?thesis
  proof (cases "n > 1")
    case True
    then show ?thesis
      using copy n ok c by (force simp: first_read_def filled_def node_ok_def pending_def lone_byte_def)
  next
    case False
    then obtain p ps where rx: "rx c = p # ps"
      using many n(3) pend by (cases "rx c") (auto simp: min_def split: if_splits)
    have p: "p \<noteq> []" "length p < buffer_size" "pieces_ok lo ps"
      using n(4) rx by (auto simp: pieces_ok_def)
    have "tcp_Read (buffer_size - 1) c = Some (p, c\<lparr>rx := ps\<rparr>)" "tcp_Read buffer_size c = Some (p, c\<lparr>rx := ps\<rparr>)"
      using p by (auto intro!: tcp_Read_piece rx)
    note rd = this
    consider "n = 1" | "n = 0" using False by linarith
    then show ?thesis
    proof cases
      case 1
      let ?t = "overlay (take 1 (level_2_buffer node) @ drop 1 ?z) 1 p"
      have len: "length (take 1 (level_2_buffer node)) = 1" using n(3) by (simp add: buffer_size_def)
      have "first_read node c = Ret (Some (?t, int (Suc (length p))),
          node\<lparr>level_2_buffer_size := 0, conn := Some (c\<lparr>rx := ps\<rparr>)\<rparr>)"
        using 1 copy n rd by (simp add: first_read_def)
      moreover have "take (Suc (length p)) ?t = take 1 (level_2_buffer node) @ p" "length ?t = buffer_size"
        using len p(2) by (simp_all add: overlay_def)
      then have "filled lo node ?t (Suc (length p)) (node\<lparr>level_2_buffer_size := 0, conn := Some (c\<lparr>rx := ps\<rparr>)\<rparr>)"
        unfolding filled_def pend using 1 n ok p rx c
        by (simp add: node_ok_def pending_def lone_byte_def)
      ultimately show ?thesis by blast
    next
      case 2
      let ?t = "overlay ?z 0 p"
      have "first_read node c = Ret (Some (?t, int (length p)), node\<lparr>conn := Some (c\<lparr>rx := ps\<rparr>)\<rparr>)"
        using 2 n rd by (simp add: first_read_def)
      moreover have "length p = 1 \<longleftrightarrow> lone_byte node"
        using 2 n c rx by (auto simp: lone_byte_def length_Suc_conv)
      moreover have "take (length p) ?t = p" "length ?t = buffer_size"
        using p(2) by (simp_all add: take_overlay_0)
      ultimately have "filled lo node ?t (length p) (node\<lparr>conn := Some (c\<lparr>rx := ps\<rparr>)\<rparr>)"
        unfolding filled_def pend using 2 n ok p rx c
        by (simp add: node_ok_def pending_def Suc_le_eq)
      then show ?thesis
        using \<open>first_read node c = _\<close> by blast
    qed
  qed
qed

text \<open>Two leading bytes of a frame are its header.\<close>

lemma frame_header:
  assumes "take sz temp @ q = frame m @ rest" and "2 \<le> sz" and "sz \<le> length temp" and "length m < 2 ^ 15"
  shows "frame_length (temp ! 0) (temp ! 1) = int (length m)"
    and "drop 2 (take sz temp) @ q = m @ rest"
proof -
  let ?h = "be16 (word_of_nat (length m))"
  have "take 2 (take sz temp @ q) = ?h" "drop 2 (take sz temp @ q) = m @ rest"
    unfolding assms(1) frame_def by simp_all
  then have h: "take 2 temp = ?h" and "drop 2 (take sz temp) @ q = m @ rest"
    using assms(2,3) by (simp_all add: min_def)
  then show "drop 2 (take sz temp) @ q = m @ rest" by simp
  have "take 2 temp ! 0 = ?h ! 0" "take 2 temp ! 1 = ?h ! 1"
    by (simp_all only: h)
  then have "temp ! 0 = ?h ! 0" "temp ! 1 = ?h ! 1"
    by simp_all
  then show "frame_length (temp ! 0) (temp ! 1) = int (length m)"
    using frame_length_be16 [of "word_of_nat (length m)"] sint_small16 [OF assms(4)] by simp
qed

text \<open>
  The two ways on from a filled lo temporary buffer that starts with the frame of \<open>m\<close>: the message
  is complete, or the loop has to fetch the rest.
\<close>

definition at_frame :: "nat \<Rightarrow> byte list \<Rightarrow> byte list \<Rightarrow> byte list \<Rightarrow> nat \<Rightarrow> Node \<Rightarrow> TCPConn \<Rightarrow> bool" where
  "at_frame lo m rest temp sz node c \<longleftrightarrow> node_ok lo node \<and> conn node = Some c \<and> length m \<le> buffer_size \<and>
     length temp = buffer_size \<and> sz \<le> buffer_size \<and> 2 \<le> sz \<and> level_2_buffer_size node = 0 \<and>
     frame_length (temp ! 0) (temp ! 1) = int (length m) \<and> drop 2 (take sz temp) @ concat (rx c) = m @ rest"

lemma at_frame_complete:
  assumes "at_frame lo m rest temp sz node c" and le: "length m \<le> sz - 2"
  shows "\<exists>rb l2. append_buffer (read_buffer node) temp 0 2 (int (length m)) = Ret rb \<and>
     append_buffer (level_2_buffer node) temp 0 (int (length m) + 2) (int sz - 2 - int (length m)) = Ret l2 \<and>
     (let node' = node\<lparr>read_buffer := rb, level_2_buffer := l2, level_2_buffer_size := int sz - 2 - int (length m)\<rparr>
      in node_ok lo node' \<and> take (length m) (read_buffer node') = m \<and> pending node' = rest)"
proof -
  let ?k = "sz - 2 - length m"
  have f: "node_ok lo node" "conn node = Some c" "length m \<le> buffer_size" "length temp = buffer_size"
      "sz \<le> buffer_size" "2 \<le> sz" "drop 2 (take sz temp) @ concat (rx c) = m @ rest"
    using assms(1) by (simp_all add: at_frame_def)
  have b: "length (read_buffer node) = buffer_size" "length (level_2_buffer node) = buffer_size"
    using f(1) by (simp_all add: node_ok_def)
  have "length m \<le> length (drop 2 (take sz temp))" using le f by simp
  then have "take (length m) (drop 2 (take sz temp)) = m" "drop (length m) (drop 2 (take sz temp)) @ concat (rx c) = rest"
    using split_last_piece [OF f(7)] by simp_all
  then have body: "take (length m) (drop 2 temp) = m" "take ?k (drop (length m + 2) temp) @ concat (rx c) = rest"
    using le by (simp_all add: drop_take min_def diff_commute)
  let ?rb = "m @ drop (length m) (read_buffer node)"
  let ?l2 = "take ?k (drop (length m + 2) temp) @ drop ?k (level_2_buffer node)"
  have e: "int sz - 2 - int (length m) = int ?k" using le f(6) by simp
  have "append_buffer (read_buffer node) temp 0 2 (int (length m)) = Ret ?rb"
    using append_buffer_ok [of 0 "length m" "read_buffer node" 2 temp] b f(3,4,5,6) le body(1) by simp
  moreover have "append_buffer (level_2_buffer node) temp 0 (int (length m) + 2) (int ?k) = Ret ?l2"
    using append_buffer_ok [of 0 ?k "level_2_buffer node" "length m + 2" temp] b f(4,5,6) le
    by (simp add: add.commute del: of_nat_diff)
  moreover have "node_ok lo (node\<lparr>read_buffer := ?rb, level_2_buffer := ?l2, level_2_buffer_size := int ?k\<rparr>)"
    using f b by (auto simp: node_ok_def)
  ultimately show ?thesis
    unfolding e using body(2) f by (auto simp: pending_def Let_def)
qed

lemma at_frame_partial:
  assumes "at_frame lo m rest temp sz node c" and lt: "sz - 2 < length m"
  shows "\<exists>rb. append_buffer (read_buffer node) temp 0 2 (int sz - 2) = Ret rb \<and>
     loop_inv lo m rest (sz - 2) temp (node\<lparr>read_buffer := rb\<rparr>) c"
proof -
  let ?k = "sz - 2"
  have f: "node_ok lo node" "conn node = Some c" "length m \<le> buffer_size" "length temp = buffer_size"
      "sz \<le> buffer_size" "2 \<le> sz" "drop 2 (take sz temp) @ concat (rx c) = m @ rest"
    using assms(1) by (simp_all add: at_frame_def)
  have b: "length (read_buffer node) = buffer_size" using f(1) by (simp add: node_ok_def)
  let ?rb = "take ?k (drop 2 temp) @ drop ?k (read_buffer node)"
  have e: "int sz - 2 = int ?k" using f(6) by simp
  have rb: "append_buffer (read_buffer node) temp 0 2 (int ?k) = Ret ?rb"
    using append_buffer_ok [of 0 ?k "read_buffer node" 2 temp] b f by (simp del: of_nat_diff)
  have got: "drop 2 (take sz temp) = take ?k (drop 2 temp)" "length (take ?k (drop 2 temp)) = ?k"
    using f by (simp_all add: drop_take)
  have "take ?k (drop 2 temp) = take ?k m" "drop ?k m @ rest = concat (rx c)"
    using split_last_piece [of m rest "take ?k (drop 2 temp)" "concat (rx c)"] f(7) got lt by simp_all
  then have "loop_inv lo m rest ?k temp (node\<lparr>read_buffer := ?rb\<rparr>) c"
    using f b lt got by (auto simp: loop_inv_def node_ok_def)
  then show ?thesis unfolding e using rb by blast
qed

lemma readData_delivers:
  assumes ok: "node_ok lo node" and pend: "pending node = frame m @ rest"
    and m: "m \<noteq> []" "length m \<le> buffer_size" and safe: "\<not> lone_byte node"
  shows "\<exists>node'. readData (Some node) = Ret (length m, Some node') \<and> node_ok lo node' \<and>
     take (length m) (read_buffer node') = m \<and> pending node' = rest"
proof -
  obtain c where c: "conn node = Some c" using ok by (auto simp: node_ok_def)
  have "2 < length (pending node)" using pend m(1) by (simp add: frame_def Suc_lessI)
  then obtain temp sz node1 where fr: "first_read node c = Ret (Some (temp, int sz), node1)"
    and fill: "filled lo node temp sz node1"
    using first_read_fills [OF ok c] by blast
  have f: "node_ok lo node1" "length temp = buffer_size" "sz \<le> buffer_size" "2 \<le> sz"
      "level_2_buffer_size node1 = 0" "take sz temp @ pending node1 = frame m @ rest"
    using fill safe pend by (auto simp: filled_def)
  obtain c1 where c1: "conn node1 = Some c1" "pending node1 = concat (rx c1)"
    using f(1,5) by (auto simp: node_ok_def pending_def)
  have af: "at_frame lo m rest temp sz node1 c1"
    using frame_header [OF f(6,4)] f c1 m(2) by (simp add: at_frame_def buffer_size_def)
  show ?thesis
  proof (cases "length m \<le> sz - 2")
    case True
    with at_frame_complete [OF af] af c fr f(4) show ?thesis
      by (auto simp: readData_def Let_def at_frame_def)
  next
    case False
    then obtain rb where rb: "append_buffer (read_buffer node1) temp 0 2 (int sz - 2) = Ret rb"
      and inv: "loop_inv lo m rest (sz - 2) temp (node1\<lparr>read_buffer := rb\<rparr>) c1"
      using at_frame_partial [OF af] by auto
    have e: "int (sz - 2) = int sz - 2" using f(4) by simp
    have "\<not> int (length m) \<le> int sz - 2" using False f(4) by linarith
    moreover obtain node' where "read_loop (int (length m)) (int sz - 2) temp (node1\<lparr>read_buffer := rb\<rparr>) = Ret (int (length m), node')"
        "node_ok lo node'" "take (length m) (read_buffer node') = m" "pending node' = rest"
      using read_loop_delivers [OF inv] unfolding e by blast
    ultimately show ?thesis
      using c fr rb af by (simp add: readData_def Let_def at_frame_def)
  qed
qed

section \<open>The listener loops\<close>

text \<open>
  \<open>n\<close> rounds of the loops of \<open>startPointListener\<close> and \<open>startLoopListener\<close>: read a message and, if
  its size is positive, hand a copy of it to the handler.
\<close>

fun listen :: "nat \<Rightarrow> Node option \<Rightarrow> (byte list list \<times> Node option) go" where
  "listen 0 nodeo = Ret ([], nodeo)"
| "listen (Suc n) nodeo =
     go_bind (readData nodeo) (\<lambda>(sz, nodeo').
     go_bind (listen n nodeo') (\<lambda>(ms, nodeo'').
     Ret ((case nodeo' of
             None \<Rightarrow> []
           | Some node \<Rightarrow> if sz > 0 then [take sz (read_buffer node)] else []) @ ms, nodeo'')))"

lemma no_lone_byte: "node_ok 2 node \<Longrightarrow> \<not> lone_byte node"
  by (auto simp: lone_byte_def node_ok_def pieces_ok_def)

text \<open>One round of the listener takes a frame off the stream.\<close>

definition listen_round :: "Node option \<Rightarrow> (byte list list \<times> Node option) go" where
  "listen_round nodeo = go_bind (readData nodeo) (\<lambda>(sz, nodeo').
     Ret (case nodeo' of None \<Rightarrow> [] | Some node \<Rightarrow> if sz > 0 then [take sz (read_buffer node)] else [], nodeo'))"

lemma listen_rounds: "listen n nodeo = recv_n listen_round n nodeo"
proof (induction n arbitrary: nodeo)
  case (Suc n)
  then show ?case by (cases "readData nodeo") (auto simp: listen_round_def)
qed simp

interpretation fr: framed_reader "\<lambda>nodeo. \<exists>node. nodeo = Some node \<and> node_ok 2 node" "\<lambda>nodeo. pending (the nodeo)"
  listen_round "\<lambda>m bs. bs = frame m \<and> m \<noteq> [] \<and> length m \<le> buffer_size"
proof
  fix r m bs rest
  assume "\<exists>node. r = Some node \<and> node_ok 2 node" and bs: "bs = frame m \<and> m \<noteq> [] \<and> length m \<le> buffer_size"
    and pend: "pending (the r) = bs @ rest"
  then obtain node where r: "r = Some node" "node_ok 2 node" by blast
  obtain node' where "readData (Some node) = Ret (length m, Some node')" "node_ok 2 node'"
      "take (length m) (read_buffer node') = m" "pending node' = rest"
    using readData_delivers [OF r(2) _ _ _ no_lone_byte [OF r(2)], of m rest] pend bs r(1) by auto
  then show "\<exists>r'. listen_round r = Ret ([m], r') \<and> (\<exists>node. r' = Some node \<and> node_ok 2 node) \<and> pending (the r') = rest"
    using r(1) bs by (auto simp: listen_round_def)
qed

lemma listen_delivers:
  assumes "node_ok 2 node" and "pending node = concat (map frame ms) @ rest"
    and "\<forall>m \<in> set ms. m \<noteq> [] \<and> length m \<le> buffer_size"
  shows "\<exists>node'. listen (length ms) (Some node) = Ret (ms, Some node') \<and> node_ok 2 node' \<and> pending node' = rest"
proof -
  have "list_all2 (\<lambda>m bs. bs = frame m \<and> m \<noteq> [] \<and> length m \<le> buffer_size) ms (map frame ms)"
    using assms(3) by (simp add: list_all2_map2 list.rel_refl_strong)
  then show ?thesis
    using fr.recv_n_delivers [of "Some node" ms "map frame ms" rest] assms(1,2) by (auto simp: listen_rounds)
qed

text \<open>A header of which only the first byte has arrived is read as if the second were zero.\<close>

lemma first_byte_length:
  assumes "n < 2 ^ 15"
  shows "0 \<le> frame_length (be16 (word_of_nat n) ! 0) 0"
proof -
  let ?w = "push_bit 8 (0 OR (ucast (ucast (drop_bit 8 (word_of_nat n :: 16 word)) :: byte) :: 16 word)) OR 0"
  have "bit ?w 15 \<longleftrightarrow> bit (word_of_nat n :: 16 word) 15"
    by (simp add: bit_simps)
  also have "\<dots> \<longleftrightarrow> sint (word_of_nat n :: 16 word) < 0"
    using bit_last_iff [of "word_of_nat n :: 16 word"] by simp
  also have "\<dots> \<longleftrightarrow> False"
    using sint_small16 [OF assms] by simp
  finally show ?thesis
    using bit_last_iff [of ?w] by (simp add: frame_length_def be16_def)
qed

lemma read_loop_negative_offset:
  assumes "0 \<le> M" and c: "conn node = Some c" and rx: "rx c = p # ps"
    and p: "p \<noteq> []" "length p < buffer_size" and len: "length temp = buffer_size" "length (level_2_buffer node) = buffer_size"
  shows "read_loop M (- 1) temp node = Panic Index_Out_Of_Range"
proof -
  let ?t = "overlay temp 0 p"
  have rd: "tcp_Read buffer_size c = Some (p, c\<lparr>rx := ps\<rparr>)"
    using p by (intro tcp_Read_piece [OF rx]) simp
  show ?thesis
  proof (cases "M < int (length p)")
    case True
    obtain j where j: "M = int j" using assms(1) by (rule nonneg_int_cases)
    let ?k = "length p - Suc j"
    have e: "int (length p) - 1 - M = int ?k" "M + 1 = int (Suc j)"
      using True j by simp_all
    have "Suc j + ?k \<le> length ?t" "?k \<le> length (level_2_buffer node)"
      using True j len p by simp_all
    then have "\<exists>l2. append_buffer (level_2_buffer node) ?t 0 (M + 1) (int (length p) - 1 - M) = Ret l2"
      unfolding e using append_buffer_ok [of 0 ?k "level_2_buffer node" "Suc j" ?t] by simp
    then show ?thesis
      using True assms(1) rd c by (subst read_loop.simps) (auto simp: Let_def append_buffer_negative)
  next
    case False
    then show ?thesis
      using rd c p(1) by (subst read_loop.simps) (simp add: Let_def append_buffer_negative)
  qed
qed

lemma lone_byte_panics:
  assumes ok: "node_ok 1 node" and "lone_byte node" and pend: "pending node = frame m @ rest"
    and m: "m \<noteq> []" "length m \<le> buffer_size"
  shows "readData (Some node) = Panic Index_Out_Of_Range"
proof -
  obtain c b ps where c: "conn node = Some c" "rx c = [b] # ps" "level_2_buffer_size node = 0"
    using assms(2) by (auto simp: lone_byte_def)
  have head: "[b] @ concat ps = be16 (word_of_nat (length m)) @ m @ rest"
    using pend c by (simp add: pending_def frame_def)
  then obtain p ps' where ps: "ps = p # ps'"
    by (cases ps) (auto simp: be16_def)
  have p: "p \<noteq> []" "length p < buffer_size" "length (level_2_buffer node) = buffer_size"
    using ok c ps by (auto simp: node_ok_def pieces_ok_def)
  let ?t = "overlay (replicate buffer_size 0) 0 [b]"
  have t: "?t ! 0 = be16 (word_of_nat (length m)) ! 0" "?t ! 1 = 0" "length ?t = buffer_size"
    using head by (simp_all add: overlay_def buffer_size_def be16_def)
  have M: "0 \<le> frame_length (?t ! 0) (?t ! 1)"
    unfolding t(1,2) using m(2) by (intro first_byte_length) (simp add: buffer_size_def)
  have "tcp_Read buffer_size c = Some ([b], c\<lparr>rx := ps\<rparr>)"
    using tcp_Read_piece [OF c(2)] by (simp add: buffer_size_def)
  then have fr: "first_read node c = Ret (Some (?t, 1), node\<lparr>conn := Some (c\<lparr>rx := ps\<rparr>)\<rparr>)"
    using c(3) by (simp add: first_read_def)
  have "read_loop (frame_length (?t ! 0) (?t ! 1)) (- 1) ?t (node\<lparr>conn := Some (c\<lparr>rx := ps\<rparr>)\<rparr>) = Panic Index_Out_Of_Range"
    using M ps p t(3) by (intro read_loop_negative_offset [of _ _ "c\<lparr>rx := ps\<rparr>" p ps']) simp_all
  then show ?thesis
    using c(1) fr M by (simp add: readData_def Let_def)
qed

section \<open>Properties\<close>

text \<open>
  C18. Reassembly is correct for every segmentation: whatever pieces of two or more bytes the
  socket delivers, after \<open>n\<close> rounds the listener has handed exactly the first \<open>n\<close> messages of the
  stream to the handler, complete, unmixed and in order, and the rest of the stream is still
  pending.  (Messages of one to 4096 bytes.)
\<close>

theorem listener_delivers_stream:
  assumes "node_ok 2 node" and "pending node = concat (map frame ms) @ rest"
    and "\<forall>m \<in> set ms. m \<noteq> [] \<and> length m \<le> 4096"
  shows "\<exists>node'. listen (length ms) (Some node) = Ret (ms, Some node') \<and> node_ok 2 node' \<and> pending node' = rest"
  using listen_delivers [OF assms(1,2)] assms(3) by (simp add: buffer_size_def)

definition sample_node :: "byte list list \<Rightarrow> Node" where
  "sample_node ps = \<lparr>complexity = 100, saved = 100, index = 0, closed = False, address = ''a'',
     conn = Some \<lparr>rx = ps, tx = [], tx_fails = False\<rparr>, read_buffer = replicate 4096 0,
     level_2_buffer = replicate 4096 0, level_2_buffer_size = 0, bufferLock = Some free_mutex, channel = Some []\<rparr>"

theorem listener_delivers_stream_witness:
  "\<exists>node'. listen (length [[7, 8, 9], [5 :: byte]]) (Some (sample_node [[0, 3, 7], [8, 9, 0], [1, 5, 0, 2]])) = Ret ([[7, 8, 9], [5]], Some node') \<and>
      pending node' = [0, 2]"
proof -
  let ?n = "sample_node [[0, 3, 7], [8, 9, 0], [1, 5, 0, 2]]"
  have "node_ok 2 ?n" "pending ?n = concat (map frame [[7, 8, 9], [5]]) @ [0, 2]"
    by (auto simp: sample_node_def node_ok_def pieces_ok_def buffer_size_def pending_def frame_def be16_def)
  moreover have "\<forall>m \<in> set [[7, 8, 9], [5 :: byte]]. m \<noteq> [] \<and> length m \<le> 4096" by simp
  ultimately show ?thesis
    using listener_delivers_stream [of ?n "[[7, 8, 9], [5]]" "[0, 2]"] by blast
qed

text \<open>
  C23. One byte is not enough: if the second buffer is empty and the socket delivers the first
  byte of a header alone, \<open>readData\<close> takes the missing byte for zero and ends in an index out of
  range, whatever the message.
\<close>

theorem split_header_panics:
  assumes "node_ok 1 node" and "lone_byte node" and "pending node = frame m @ rest"
    and "m \<noteq> []" and "length m \<le> 4096"
  shows "readData (Some node) = Panic Index_Out_Of_Range"
  using lone_byte_panics [OF assms(1-4)] assms(5) by (simp add: buffer_size_def)

theorem split_header_panics_witness:
  "readData (Some (sample_node [[0], [2, 7, 8]])) = Panic Index_Out_Of_Range"
  by (rule split_header_panics [of _ "[7, 8]" "[]"])
    (auto simp: sample_node_def node_ok_def pieces_ok_def buffer_size_def pending_def frame_def be16_def lone_byte_def)

end
