(* ===== verification/Node_Heap.thy ===== *)
theory Node_Heap
  imports Frames "HOL-Library.Multiset"
begin

text \<open>
  The ranking of the slaves by load, \<open>src/clustering/manage.go\<close>: the slice of node pointers
  \<open>slave_connections\<close> is a \<open>heap.Interface\<close> of Go's \<open>container/heap\<close>, ordered by the field
  \<open>complexity\<close>.  \<open>Less\<close>, \<open>Len\<close> and \<open>Swap\<close> take the package's read-write mutex themselves.

  The algorithms of \<open>container/heap\<close> are written once, over any implementation of the
  interface; the locale \<open>heap_interface\<close> states what an implementation promises and proves that
  they then establish the heap order.  \<open>NodeQueue\<close> is an interpretation, as long as the mutex is
  free when the algorithm is called.
\<close>

section \<open>The state of the package\<close>

text \<open>
  The package variables of \<open>network.go\<close>.  Nodes are shared by pointer between
  \<open>slave_connections\<close> and \<open>dropped_connections\<close>: \<open>nodes\<close> holds the objects, a pointer is a
  position in it.
\<close>

record cluster =
  nodes :: "Node list"
  slave_connections :: "nat list"
  master_connection :: "Node option"
  dropped_connections :: "nat list option"
  RWLock :: rwmutex

definition deref :: "cluster \<Rightarrow> nat \<Rightarrow> Node go" where
  "deref g p = (if p < length (nodes g) then Ret (nodes g ! p) else Panic Nil_Deref)"

definition upd_node :: "nat \<Rightarrow> (Node \<Rightarrow> Node) \<Rightarrow> cluster \<Rightarrow> cluster go" where
  "upd_node p f g = go_bind (deref g p) (\<lambda>n. Ret (g\<lparr>nodes := (nodes g)[p := f n]\<rparr>))"

text \<open>A section of code under the package mutex.\<close>

definition with_RLock :: "(cluster \<Rightarrow> ('a \<times> cluster) go) \<Rightarrow> cluster \<Rightarrow> ('a \<times> cluster) go" where
  "with_RLock body g =
     go_bind (mu_RLock (RWLock g)) (\<lambda>m.
     go_bind (body (g\<lparr>RWLock := m\<rparr>)) (\<lambda>(r, g').
     go_bind (mu_RUnlock (RWLock g')) (\<lambda>m'. Ret (r, g'\<lparr>RWLock := m'\<rparr>))))"

definition with_Lock :: "(cluster \<Rightarrow> ('a \<times> cluster) go) \<Rightarrow> cluster \<Rightarrow> ('a \<times> cluster) go" where
  "with_Lock body g =
     go_bind (mu_Lock (RWLock g)) (\<lambda>m.
     go_bind (body (g\<lparr>RWLock := m\<rparr>)) (\<lambda>(r, g').
     go_bind (mu_Unlock (RWLock g')) (\<lambda>m'. Ret (r, g'\<lparr>RWLock := m'\<rparr>))))"

section \<open>The heap interface of the node queue\<close>

definition node_at :: "int \<Rightarrow> cluster \<Rightarrow> Node go" where
  "node_at i g = go_bind (slice_get (slave_connections g) i) (deref g)"

definition Less :: "int \<Rightarrow> int \<Rightarrow> cluster \<Rightarrow> (bool \<times> cluster) go" where
  "Less i j = with_RLock (\<lambda>g.
     go_bind (node_at i g) (\<lambda>first.
     go_bind (node_at j g) (\<lambda>second. Ret (complexity first < complexity second, g))))"

definition Len :: "cluster \<Rightarrow> (int \<times> cluster) go" where
  "Len = with_RLock (\<lambda>g. Ret (int (length (slave_connections g)), g))"

definition Swap :: "int \<Rightarrow> int \<Rightarrow> cluster \<Rightarrow> cluster go" where
  "Swap i j g = map_go snd (with_Lock (\<lambda>g.
     go_bind (slice_get (slave_connections g) i) (\<lambda>temp.
     go_bind (slice_get (slave_connections g) j) (\<lambda>p.
     go_bind (slice_set (slave_connections g) i p) (\<lambda>s1.
     go_bind (slice_set s1 j temp) (\<lambda>s2.
     go_bind (slice_get s2 i) (\<lambda>pi.
     go_bind (slice_get s2 j) (\<lambda>pj.
     go_bind (upd_node pi (\<lambda>n. n\<lparr>index := j\<rparr>) (g\<lparr>slave_connections := s2\<rparr>)) (\<lambda>g1.
     go_bind (upd_node pj (\<lambda>n. n\<lparr>index := i\<rparr>) g1) (\<lambda>g2. Ret ((), g2)))))))))) g)"

section \<open>The algorithms of container/heap\<close>

text \<open>
  The arguments are the methods \<open>Less\<close>, \<open>Swap\<close> and \<open>Len\<close> of the interface value.  The sifting
  functions return the position where they stopped.
\<close>

function heap_down :: "(int \<Rightarrow> int \<Rightarrow> 's \<Rightarrow> (bool \<times> 's) go) \<Rightarrow> (int \<Rightarrow> int \<Rightarrow> 's \<Rightarrow> 's go) \<Rightarrow>
    int \<Rightarrow> int \<Rightarrow> 's \<Rightarrow> (int \<times> 's) go" where
  "heap_down lessf swapf i n s =
     (let j1 = 2 * i + 1; j2 = j1 + 1 in
      if j1 \<ge> n \<or> j1 < 0 then Ret (i, s)
      else go_bind (if j2 < n then lessf j2 j1 s else Ret (False, s)) (\<lambda>(right, s1).
        let j = (if right then j2 else j1) in
        go_bind (lessf j i s1) (\<lambda>(smaller, s2).
          if \<not> smaller then Ret (i, s2)
          else go_bind (swapf i j s2) (\<lambda>s3. heap_down lessf swapf j n s3))))"
  by pat_completeness auto
termination
  by (relation "measure (\<lambda>(less, swap, i, n, s). nat (n - i))") (auto split: if_splits)

function heap_up :: "(int \<Rightarrow> int \<Rightarrow> 's \<Rightarrow> (bool \<times> 's) go) \<Rightarrow> (int \<Rightarrow> int \<Rightarrow> 's \<Rightarrow> 's go) \<Rightarrow>
    int \<Rightarrow> 's \<Rightarrow> 's go" where
  "heap_up lessf swapf j s =
     (let i = go_quot (j - 1) 2 in
      if i = j then Ret s
      else go_bind (lessf j i s) (\<lambda>(smaller, s1).
        if \<not> smaller then Ret s1 else go_bind (swapf i j s1) (\<lambda>s2. heap_up lessf swapf i s2)))"
  by pat_completeness auto
termination
proof (relation "measure (\<lambda>(lessf, swapf, j, s). nat \<bar>j\<bar>)", goal_cases)
  case (2 lessf swapf j s i xa b s1 s2)
  then show ?case
    by (cases "0 < j") (auto simp: go_quot_def sgn_if)
qed simp

declare heap_down.simps [simp del] heap_up.simps [simp del]

fun heap_init_loop :: "(int \<Rightarrow> int \<Rightarrow> 's \<Rightarrow> (bool \<times> 's) go) \<Rightarrow> (int \<Rightarrow> int \<Rightarrow> 's \<Rightarrow> 's go) \<Rightarrow>
    nat \<Rightarrow> int \<Rightarrow> 's \<Rightarrow> 's go" where
  "heap_init_loop lessf swapf 0 n s = Ret s"
| "heap_init_loop lessf swapf (Suc k) n s =
     go_bind (heap_down lessf swapf (int k) n s) (\<lambda>(_, s'). heap_init_loop lessf swapf k n s')"

definition heap_Init where
  "heap_Init lenf lessf swapf s =
     go_bind (lenf s) (\<lambda>(n, s1). heap_init_loop lessf swapf (nat (n div 2)) n s1)"

definition heap_Fix where
  "heap_Fix lenf lessf swapf i s =
     go_bind (lenf s) (\<lambda>(n, s1).
     go_bind (heap_down lessf swapf i n s1) (\<lambda>(i', s2).
     if i' > i then Ret s2 else heap_up lessf swapf i s2))"

section \<open>Heap order\<close>

definition parent :: "nat \<Rightarrow> nat" where
  "parent c = (c - 1) div 2"

definition edge_ok :: "'k :: linorder list \<Rightarrow> nat \<Rightarrow> nat \<Rightarrow> bool" where
  "edge_ok xs a c \<longleftrightarrow> (0 < c \<and> c < length xs \<and> a \<le> parent c \<longrightarrow> xs ! parent c \<le> xs ! c)"

text \<open>The edges below positions from \<open>a\<close> on are ordered; \<open>a = 0\<close> is the heap order.\<close>

definition heap_above :: "nat \<Rightarrow> 'k :: linorder list \<Rightarrow> bool" where
  "heap_above a xs \<longleftrightarrow> (\<forall>c. edge_ok xs a c)"

text \<open>
  One position \<open>i\<close> may violate the order in both directions, but nothing below it is smaller
  than its parent.
\<close>

definition hole :: "nat \<Rightarrow> nat \<Rightarrow> 'k :: linorder list \<Rightarrow> bool" where
  "hole a i xs \<longleftrightarrow> (\<forall>c. parent c \<noteq> i \<and> c \<noteq> i \<longrightarrow> edge_ok xs a c) \<and>
     (\<forall>c < length xs. 0 < c \<and> parent c = i \<and> 0 < i \<and> a \<le> parent i \<longrightarrow> xs ! parent i \<le> xs ! c)"

definition children_ok :: "nat \<Rightarrow> 'k :: linorder list \<Rightarrow> bool" where
  "children_ok i xs \<longleftrightarrow> (\<forall>c < length xs. 0 < c \<and> parent c = i \<longrightarrow> xs ! i \<le> xs ! c)"

definition exchange :: "nat \<Rightarrow> nat \<Rightarrow> 'k list \<Rightarrow> 'k list" where
  "exchange i j xs = xs[i := xs ! j, j := xs ! i]"

lemma length_exchange [simp]: "length (exchange i j xs) = length xs"
  by (simp add: exchange_def)

lemma mset_exchange [simp]: "i < length xs \<Longrightarrow> j < length xs \<Longrightarrow> mset (exchange i j xs) = mset xs"
  by (simp add: exchange_def mset_swap)

lemma exchange_nth:
  "i < length xs \<Longrightarrow> j < length xs \<Longrightarrow>
   exchange i j xs ! c = (if c = j then xs ! i else if c = i then xs ! j else xs ! c)"
  by (cases "c < length xs") (auto simp: exchange_def nth_list_update)

lemma parent_less: "0 < c \<Longrightarrow> parent c < c"
  by (simp add: parent_def)

lemma parent_child [simp]: "parent (Suc (2 * i)) = i" "parent (Suc (Suc (2 * i))) = i"
  by (simp_all add: parent_def)

lemma all_children:
  "(\<forall>c < n. 0 < c \<and> parent c = i \<longrightarrow> P c) \<longleftrightarrow>
     (2 * i + 1 < n \<longrightarrow> P (2 * i + 1)) \<and> (2 * i + 2 < n \<longrightarrow> P (2 * i + 2))"
proof -
  have "0 < c \<and> parent c = i \<longleftrightarrow> c = 2 * i + 1 \<or> c = 2 * i + 2" for c
    by (auto simp: parent_def)
  then show ?thesis by auto
qed

lemma hole_stop: "hole a i xs \<Longrightarrow> children_ok i xs \<Longrightarrow> edge_ok xs a i \<Longrightarrow> heap_above a xs"
  by (auto simp: heap_above_def hole_def children_ok_def) (metis edge_ok_def)

lemma hole_step:
  assumes h: "hole a i xs" and "a \<le> i" and j: "j < length xs" "0 < j" "parent j = i"
    and least: "\<forall>c < length xs. 0 < c \<and> parent c = i \<longrightarrow> xs ! j \<le> xs ! c" and smaller: "xs ! j < xs ! i"
  shows "hole a j (exchange i j xs)" and "edge_ok (exchange i j xs) a j"
proof -
  have ij: "i < j" "i < length xs" using parent_less [OF j(2)] j by simp_all
  note nth = exchange_nth [OF ij(2) j(1)]
  show "edge_ok (exchange i j xs) a j"
    using smaller ij j by (auto simp: edge_ok_def nth)
  have "edge_ok (exchange i j xs) a c" if c: "parent c \<noteq> j" "c \<noteq> j" for c
  proof (cases "parent c = i \<or> c = i")
    case True
    then show ?thesis
      using h least c ij j by (auto simp: edge_ok_def hole_def nth)
  next
    case False
    then have "edge_ok xs a c" using h by (simp add: hole_def)
    then show ?thesis using False c by (auto simp: edge_ok_def nth)
  qed
  moreover have "exchange i j xs ! parent j \<le> exchange i j xs ! c"
    if "c < length xs" "0 < c" "parent c = j" for c
  proof -
    have "c \<noteq> i" "c \<noteq> j" "parent c \<noteq> i" using that ij parent_less [of c] by auto
    then have "edge_ok xs a c" using h by (simp add: hole_def)
    then have "xs ! j \<le> xs ! c" using that assms(2) ij by (simp add: edge_ok_def)
    then show ?thesis using j(3) ij \<open>c \<noteq> i\<close> \<open>c \<noteq> j\<close> by (simp add: nth)
  qed
  ultimately show "hole a j (exchange i j xs)"
    by (auto simp: hole_def)
qed

text \<open>Only the edge into \<open>j\<close> may be out of order.\<close>

definition only_edge :: "nat \<Rightarrow> 'k :: linorder list \<Rightarrow> bool" where
  "only_edge j xs \<longleftrightarrow> (\<forall>c. c \<noteq> j \<longrightarrow> edge_ok xs 0 c) \<and>
     (\<forall>c < length xs. 0 < c \<and> parent c = j \<and> 0 < j \<longrightarrow> xs ! parent j \<le> xs ! c)"

lemma hole_only_edge: "hole 0 j xs \<Longrightarrow> children_ok j xs \<Longrightarrow> only_edge j xs"
proof -
  assume h: "hole 0 j xs" and ch: "children_ok j xs"
  have "edge_ok xs 0 c" if "c \<noteq> j" for c
    using h ch that by (cases "parent c = j") (auto simp: hole_def children_ok_def edge_ok_def)
  then show ?thesis using h by (simp add: hole_def only_edge_def)
qed

lemma only_edge_step:
  assumes h: "only_edge j xs" and j: "0 < j" "j < length xs" and smaller: "xs ! j < xs ! parent j"
  shows "only_edge (parent j) (exchange (parent j) j xs)"
proof -
  let ?i = "parent j"
  have ij: "?i < j" "?i < length xs" using parent_less [OF j(1)] j(2) by simp_all
  note nth = exchange_nth [OF ij(2) j(2)]
  have e: "xs ! parent c \<le> xs ! c" if "c \<noteq> j" "0 < c" "c < length xs" for c
    using h that by (simp add: only_edge_def edge_ok_def)
  have g: "xs ! ?i \<le> xs ! c" if "parent c = j" "0 < c" "c < length xs" for c
    using h that j(1) by (simp add: only_edge_def)
  have "edge_ok (exchange ?i j xs) 0 c" if "c \<noteq> ?i" for c
    using e [of c] g [of c] that smaller ij
    by (auto simp: edge_ok_def nth)
  moreover have "exchange ?i j xs ! parent ?i \<le> exchange ?i j xs ! c"
    if "c < length xs" "0 < c" "parent c = ?i" "0 < ?i" for c
  proof -
    have p: "parent ?i < ?i" "c \<noteq> ?i" using parent_less [of ?i] parent_less [of c] that by auto
    then have "xs ! parent ?i \<le> xs ! ?i" using e [of ?i] that(4) ij by simp
    then show ?thesis
      using e [of c] that p ij by (auto simp: nth)
  qed
  ultimately show ?thesis by (auto simp: only_edge_def)
qed

section \<open>What the interface promises\<close>

locale heap_interface =
  fixes invar :: "'s \<Rightarrow> bool"
    and keys :: "'s \<Rightarrow> 'k :: linorder list"
    and elems :: "'s \<Rightarrow> 'e list"
    and lenf :: "'s \<Rightarrow> (int \<times> 's) go"
    and lessf :: "int \<Rightarrow> int \<Rightarrow> 's \<Rightarrow> (bool \<times> 's) go"
    and swapf :: "int \<Rightarrow> int \<Rightarrow> 's \<Rightarrow> 's go"
  assumes len_ok: "invar s \<Longrightarrow> lenf s = Ret (int (length (keys s)), s)"
    and less_ok: "invar s \<Longrightarrow> i < length (keys s) \<Longrightarrow> j < length (keys s) \<Longrightarrow>
        lessf (int i) (int j) s = Ret (keys s ! i < keys s ! j, s)"
    and swap_ok: "invar s \<Longrightarrow> i < length (keys s) \<Longrightarrow> j < length (keys s) \<Longrightarrow>
        \<exists>s'. swapf (int i) (int j) s = Ret s' \<and> invar s' \<and> keys s' = exchange i j (keys s) \<and>
          mset (elems s') = mset (elems s)"
begin

text \<open>The child that \<open>down\<close> compares with.\<close>

lemma select_child:
  assumes "invar s" and n: "n = length (keys s)" and j1: "2 * i + 1 < n"
  shows "\<exists>right j. (if 2 * int i + 1 + 1 < int n then lessf (2 * int i + 1 + 1) (2 * int i + 1) s else Ret (False, s)) = Ret (right, s) \<and>
     (if right then 2 * int i + 1 + 1 else 2 * int i + 1) = int j \<and> j < n \<and> 0 < j \<and> parent j = i \<and>
     (\<forall>c < n. 0 < c \<and> parent c = i \<longrightarrow> keys s ! j \<le> keys s ! c)"
proof -
  let ?k = "keys s"
  have e: "2 * int i + 1 = int (2 * i + 1)" "2 * int i + 1 + 1 = int (2 * i + 2)" by simp_all
  show ?thesis
  proof (cases "2 * i + 2 < n")
    case True
    then have l: "lessf (int (2 * i + 2)) (int (2 * i + 1)) s = Ret (?k ! (2 * i + 2) < ?k ! (2 * i + 1), s)"
      using assms by (intro less_ok) simp_all
    show ?thesis
    proof (cases "?k ! (2 * i + 2) < ?k ! (2 * i + 1)")
      case True
      show ?thesis unfolding e
        by (rule exI [of _ True], rule exI [of _ "2 * i + 2"])
          (use True \<open>2 * i + 2 < n\<close> l in \<open>simp_all add: all_children\<close>)
    next
      case False
      show ?thesis unfolding e
        by (rule exI [of _ False], rule exI [of _ "2 * i + 1"])
          (use False \<open>2 * i + 2 < n\<close> l in \<open>simp_all add: all_children\<close>)
    qed
  next
    case False
    show ?thesis unfolding e
      by (rule exI [of _ False], rule exI [of _ "2 * i + 1"]) (use False j1 in \<open>simp_all add: all_children\<close>)
  qed
qed

lemma down_ok:
  assumes "invar s" and "hole a i (keys s)" and "i < n" and "n = length (keys s)" and "a \<le> i"
  shows "\<exists>i' s'. heap_down lessf swapf (int i) (int n) s = Ret (int i', s') \<and> invar s' \<and>
     mset (keys s') = mset (keys s) \<and> mset (elems s') = mset (elems s) \<and> i \<le> i' \<and> (i' = i \<longrightarrow> s' = s \<and> children_ok i (keys s)) \<and>
     (i' \<noteq> i \<or> edge_ok (keys s) a i \<longrightarrow> heap_above a (keys s'))"
  using assms
proof (induction "n - i" arbitrary: i s rule: less_induct)
  case less
  show ?case
  proof (cases "2 * i + 1 < n")
    case False
    then have "heap_down lessf swapf (int i) (int n) s = Ret (int i, s)"
      by (subst heap_down.simps) (simp add: Let_def)
    moreover have c: "children_ok i (keys s)"
      using False less.prems(4) by (simp add: children_ok_def all_children)
    ultimately show ?thesis
      using less.prems hole_stop by blast
  next
    case True
    obtain right j where sel: "(if 2 * int i + 1 + 1 < int n then lessf (2 * int i + 1 + 1) (2 * int i + 1) s else Ret (False, s)) = Ret (right, s)"
        "(if right then 2 * int i + 1 + 1 else 2 * int i + 1) = int j" "j < n" "0 < j" "parent j = i"
        "\<forall>c < n. 0 < c \<and> parent c = i \<longrightarrow> keys s ! j \<le> keys s ! c"
      using select_child [OF less.prems(1,4) True] by blast
    have l: "lessf (int j) (int i) s = Ret (keys s ! j < keys s ! i, s)"
      using less.prems sel(3) by (intro less_ok) simp_all
    have in_range: "\<not> (int n \<le> 2 * int i + 1 \<or> 2 * int i + 1 < 0)"
      using True by simp
    have unf: "heap_down lessf swapf (int i) (int n) s =
        (if keys s ! j < keys s ! i then go_bind (swapf (int i) (int j) s) (heap_down lessf swapf (int j) (int n))
         else Ret (int i, s))"
      by (subst heap_down.simps, unfold Let_def if_not_P [OF in_range] sel(1) go_bind.simps prod.case,
          unfold sel(2) l go_bind.simps prod.case) simp
    show ?thesis
    proof (cases "keys s ! j < keys s ! i")
      case False
      then have "children_ok i (keys s)"
        using sel(6) less.prems(4) by (force simp: children_ok_def)
      then show ?thesis
        using False unf less.prems hole_stop by auto
    next
      case True
      obtain s1 where s1: "swapf (int i) (int j) s = Ret s1" "invar s1" "keys s1 = exchange i j (keys s)"
          "mset (elems s1) = mset (elems s)"
        using swap_ok [OF less.prems(1), of i j] less.prems sel(3) by auto
      have h: "hole a j (keys s1)" "edge_ok (keys s1) a j"
        using hole_step [OF less.prems(2,5)] sel True less.prems(4) s1(3) by simp_all
      have "i < j" using parent_less [OF sel(4)] sel(5) by simp
      then show ?thesis
        using less.hyps [of j s1] h s1 sel(3) less.prems unf True by fastforce
    qed
  qed
qed

lemma up_ok:
  assumes "invar s" and "only_edge j (keys s)" and "j < length (keys s)"
  shows "\<exists>s'. heap_up lessf swapf (int j) s = Ret s' \<and> invar s' \<and> mset (keys s') = mset (keys s) \<and> mset (elems s') = mset (elems s) \<and>
     heap_above 0 (keys s')"
  using assms
proof (induction j arbitrary: s rule: less_induct)
  case (less j)
  have q: "go_quot (int j - 1) 2 = int (parent j)"
    by (cases j) (auto simp: parent_def go_quot_def zdiv_int)
  show ?case
  proof (cases "j = 0")
    case True
    then have "heap_above 0 (keys s)" using less.prems(2) by (auto simp: only_edge_def heap_above_def edge_ok_def)
    then show ?thesis
      using True less.prems q by (subst heap_up.simps) (simp add: parent_def)
  next
    case False
    then have p: "parent j < j" "parent j < length (keys s)" using parent_less [of j] less.prems(3) by auto
    have l: "lessf (int j) (int (parent j)) s = Ret (keys s ! j < keys s ! parent j, s)"
      using less.prems p by (intro less_ok) simp_all
    have unf: "heap_up lessf swapf (int j) s = (if keys s ! j < keys s ! parent j
        then go_bind (swapf (int (parent j)) (int j) s) (heap_up lessf swapf (int (parent j))) else Ret s)"
      using p(1) l by (subst heap_up.simps) (simp add: Let_def q)
    show ?thesis
    proof (cases "keys s ! j < keys s ! parent j")
      case True
      obtain s1 where s1: "swapf (int (parent j)) (int j) s = Ret s1" "invar s1" "keys s1 = exchange (parent j) j (keys s)"
          "mset (elems s1) = mset (elems s)"
        using swap_ok [OF less.prems(1) p(2) less.prems(3)] by blast
      then show ?thesis
        using less.IH [OF p(1), of s1] only_edge_step [OF less.prems(2) _ less.prems(3) True] False p unf True less.prems(3)
        by simp
    next
      case no: False
      have "edge_ok (keys s) 0 j" using no by (simp add: edge_ok_def not_less)
      then have "heap_above 0 (keys s)"
        using less.prems(2) by (auto simp: only_edge_def heap_above_def)
      then show ?thesis using no unf less.prems by simp
    qed
  qed
qed

lemma init_loop_ok:
  assumes "invar s" and "heap_above k (keys s)" and "k \<le> length (keys s)"
  shows "\<exists>s'. heap_init_loop lessf swapf k (int (length (keys s))) s = Ret s' \<and> invar s' \<and>
     mset (keys s') = mset (keys s) \<and> mset (elems s') = mset (elems s) \<and> heap_above 0 (keys s')"
  using assms
proof (induction k arbitrary: s)
  case (Suc k)
  have "hole k k (keys s)"
    using Suc.prems(2) parent_less [of k] by (auto simp: hole_def heap_above_def edge_ok_def)
  moreover have "edge_ok (keys s) k k" using parent_less [of k] by (auto simp: edge_ok_def)
  ultimately obtain i' s1 where d: "heap_down lessf swapf (int k) (int (length (keys s))) s = Ret (int i', s1)"
      "invar s1" "mset (keys s1) = mset (keys s)" "mset (elems s1) = mset (elems s)" "heap_above k (keys s1)"
    using down_ok [OF Suc.prems(1), of k k "length (keys s)"] Suc.prems(3) by auto
  have "length (keys s1) = length (keys s)" using d(3) by (rule mset_eq_length)
  then show ?case
    using Suc.IH [OF d(2,5)] Suc.prems(3) d by simp
qed simp

text \<open>\<open>heap.Init\<close> orders any slice and only permutes it.\<close>

lemma Init_ok:
  assumes "invar s"
  shows "\<exists>s'. heap_Init lenf lessf swapf s = Ret s' \<and> invar s' \<and> mset (keys s') = mset (keys s) \<and> mset (elems s') = mset (elems s) \<and>
     heap_above 0 (keys s')"
proof -
  let ?n = "length (keys s)"
  have "heap_above (?n div 2) (keys s)"
    by (auto simp: heap_above_def edge_ok_def parent_def)
  moreover have "nat (int ?n div 2) = ?n div 2" by (simp add: nat_div_distrib)
  ultimately show ?thesis
    using init_loop_ok [OF assms] by (simp add: heap_Init_def len_ok [OF assms])
qed

text \<open>\<open>heap.Fix\<close> restores the order after one key of a heap has changed.\<close>

lemma Fix_ok:
  assumes "invar s" and "i < length (keys s)" and "hole 0 i (keys s)"
  shows "\<exists>s'. heap_Fix lenf lessf swapf (int i) s = Ret s' \<and> invar s' \<and> mset (keys s') = mset (keys s) \<and> mset (elems s') = mset (elems s) \<and>
     heap_above 0 (keys s')"
proof -
  obtain i' s1 where d: "heap_down lessf swapf (int i) (int (length (keys s))) s = Ret (int i', s1)"
      "invar s1" "mset (keys s1) = mset (keys s)" "mset (elems s1) = mset (elems s)" "i \<le> i'" "i' = i \<longrightarrow> s1 = s \<and> children_ok i (keys s)"
      "i' \<noteq> i \<longrightarrow> heap_above 0 (keys s1)"
    using down_ok [OF assms(1,3,2)] by auto
  show ?thesis
  proof (cases "i' = i")
    case True
    then show ?thesis
      using d up_ok [OF assms(1) hole_only_edge [OF assms(3)] assms(2)]
      by (simp add: heap_Fix_def len_ok [OF assms(1)])
  next
    case False
    then show ?thesis
      using d by (simp add: heap_Fix_def len_ok [OF assms(1)])
  qed
qed

end

section \<open>The node queue is such a heap\<close>

definition update :: "nat \<Rightarrow> uint \<Rightarrow> int \<Rightarrow> cluster \<Rightarrow> cluster go" where
  "update p c position g = map_go snd (with_Lock (\<lambda>g.
     go_bind (upd_node p (\<lambda>n. n\<lparr>complexity := c\<rparr>) g) (\<lambda>g1.
     go_bind (heap_Fix Len Less Swap position g1) (\<lambda>g2. Ret ((), g2)))) g)"

definition createComplexityRanking :: "cluster \<Rightarrow> cluster go" where
  "createComplexityRanking = heap_Init Len Less Swap"

text \<open>The mutex is free and every pointer of the slice is valid.\<close>

definition nodes_inv :: "cluster \<Rightarrow> bool" where
  "nodes_inv g \<longleftrightarrow> RWLock g = free_mutex \<and> (\<forall>p \<in> set (slave_connections g). p < length (nodes g))"

definition complexities :: "cluster \<Rightarrow> uint list" where
  "complexities g = map (\<lambda>p. complexity (nodes g ! p)) (slave_connections g)"

text \<open>The slaves as pointer and object, the position field left out.\<close>

definition slaves :: "cluster \<Rightarrow> (nat \<times> Node) list" where
  "slaves g = map (\<lambda>p. (p, (nodes g ! p)\<lparr>index := 0\<rparr>)) (slave_connections g)"

lemma RWLock_self [simp]: "RWLock g = m \<Longrightarrow> g\<lparr>RWLock := m\<rparr> = g"
  by (cases g) simp

lemma node_at_ok:
  "nodes_inv g \<Longrightarrow> i < length (slave_connections g) \<Longrightarrow>
   node_at (int i) (g\<lparr>RWLock := m\<rparr>) = Ret (nodes g ! (slave_connections g ! i))"
  by (simp add: node_at_def deref_def nodes_inv_def)

lemma Len_ok: "nodes_inv g \<Longrightarrow> Len g = Ret (int (length (slave_connections g)), g)"
  by (simp add: Len_def with_RLock_def nodes_inv_def)

lemma Less_ok:
  assumes "nodes_inv g" and "i < length (slave_connections g)" and "j < length (slave_connections g)"
  shows "Less (int i) (int j) g = Ret (complexities g ! i < complexities g ! j, g)"
  using assms node_at_ok [OF assms(1,2)] node_at_ok [OF assms(1,3)]
  by (simp add: Less_def with_RLock_def complexities_def) (simp add: nodes_inv_def)

definition set_index :: "nat \<Rightarrow> int \<Rightarrow> Node list \<Rightarrow> Node list" where
  "set_index p k ns = ns[p := (ns ! p)\<lparr>index := k\<rparr>]"

lemma set_index_simps [simp]:
  "length (set_index p k ns) = length ns"
  "complexity (set_index p k ns ! q) = complexity (ns ! q)"
  "(set_index p k ns ! q)\<lparr>index := 0\<rparr> = (ns ! q)\<lparr>index := 0\<rparr>"
  by (cases "p < length ns"; simp add: set_index_def nth_list_update list_update_beyond)+

lemma Swap_ok:
  assumes inv: "nodes_inv g" and i: "i < length (slave_connections g)" and j: "j < length (slave_connections g)"
  shows "Swap (int i) (int j) g = Ret (g\<lparr>slave_connections := exchange i j (slave_connections g),
     nodes := set_index (slave_connections g ! i) (int i)
       (set_index (slave_connections g ! j) (int j) (nodes g))\<rparr>)"
proof -
  let ?xs = "slave_connections g"
  have p: "?xs ! i < length (nodes g)" "?xs ! j < length (nodes g)"
    using inv i j by (auto simp: nodes_inv_def)
  have x: "exchange i j ?xs ! i = ?xs ! j" "exchange i j ?xs ! j = ?xs ! i"
    using exchange_nth [OF i j] by auto
  have s: "slice_set (?xs[i := ?xs ! j]) (int j) (?xs ! i) = Ret (exchange i j ?xs)"
      "slice_get (exchange i j ?xs) (int i) = Ret (?xs ! j)" "slice_get (exchange i j ?xs) (int j) = Ret (?xs ! i)"
    using i j x by (simp_all add: exchange_def)
  show ?thesis
    using i j p s inv
    by (simp add: Swap_def with_Lock_def upd_node_def deref_def set_index_def nodes_inv_def)
qed

interpretation nq: heap_interface nodes_inv complexities slaves Len Less Swap
proof
  fix g i j
  assume inv: "nodes_inv g"
  then show "Len g = Ret (int (length (complexities g)), g)"
    by (simp add: Len_ok complexities_def)
  assume i: "i < length (complexities g)" and j: "j < length (complexities g)"
  then have ij: "i < length (slave_connections g)" "j < length (slave_connections g)"
    by (simp_all add: complexities_def)
  then show "Less (int i) (int j) g = Ret (complexities g ! i < complexities g ! j, g)"
    by (rule Less_ok [OF inv])
  let ?g = "g\<lparr>slave_connections := exchange i j (slave_connections g),
     nodes := set_index (slave_connections g ! i) (int i) (set_index (slave_connections g ! j) (int j) (nodes g))\<rparr>"
  have "set (exchange i j (slave_connections g)) = set (slave_connections g)"
    using mset_exchange [OF ij] by (metis set_mset_mset)
  then have "nodes_inv ?g" using inv by (simp add: nodes_inv_def)
  moreover have "complexities ?g = exchange i j (complexities g)"
    using ij by (simp add: complexities_def exchange_def map_update)
  moreover have "mset (slaves ?g) = mset (slaves g)"
    using mset_exchange [OF ij] by (simp add: slaves_def)
  ultimately show "\<exists>s'. Swap (int i) (int j) g = Ret s' \<and> nodes_inv s' \<and>
      complexities s' = exchange i j (complexities g) \<and> mset (slaves s') = mset (slaves g)"
    using Swap_ok [OF inv ij] by blast
qed

lemma heap_root_least:
  assumes "heap_above 0 xs" and "c < length xs"
  shows "xs ! 0 \<le> xs ! c"
  using assms(2)
proof (induction c rule: less_induct)
  case (less c)
  show ?case
  proof (cases "c = 0")
    case False
    then have p: "parent c < c" by (simp add: parent_less)
    then have "xs ! parent c \<le> xs ! c"
      using assms(1) less.prems False by (simp add: heap_above_def edge_ok_def)
    then show ?thesis using less.IH [OF p] less.prems p by simp
  qed simp
qed

lemma heap_changed_hole:
  assumes h: "heap_above 0 xs" and "i < length xs"
  shows "hole 0 i (xs[i := v])"
proof -
  have e: "xs ! parent c \<le> xs ! c" if "0 < c" "c < length xs" for c
    using h that by (simp add: heap_above_def edge_ok_def)
  have "xs ! parent i \<le> xs ! c" if "c < length xs" "0 < c" "parent c = i" "0 < i" for c
    using e [of c] e [of i] that assms(2) by simp
  moreover have "parent i \<noteq> i" if "0 < i" using parent_less [OF that] by simp
  moreover have "c \<noteq> i" if "parent c = i" "0 < c" for c using parent_less [OF that(2)] that(1) by auto
  ultimately have "(xs[i := v]) ! parent i \<le> (xs[i := v]) ! c"
    if "c < length xs" "0 < c" "parent c = i" "0 < i" for c
    using that by (metis nth_list_update_neq)
  then show ?thesis
    using e by (auto simp: hole_def edge_ok_def)
qed

lemma upd_complexity:
  assumes inv: "nodes_inv g" and d: "distinct (slave_connections g)" and i: "i < length (slave_connections g)"
    and p: "p = slave_connections g ! i"
  shows "\<exists>g1. upd_node p (\<lambda>n. n\<lparr>complexity := c\<rparr>) g = Ret g1 \<and> nodes_inv g1 \<and>
     complexities g1 = (complexities g)[i := c]"
proof -
  have "p < length (nodes g)" using inv i p by (simp add: nodes_inv_def)
  moreover have "complexities (g\<lparr>nodes := (nodes g)[p := (nodes g ! p)\<lparr>complexity := c\<rparr>]\<rparr>) = (complexities g)[i := c]"
    using inv d i p
    by (intro nth_equalityI) (auto simp: complexities_def nodes_inv_def nth_list_update nth_eq_iff_index_eq)
  ultimately show ?thesis
    using inv by (simp add: upd_node_def deref_def nodes_inv_def)
qed

lemma update_hangs:
  assumes "p < length (nodes g)"
  shows "update p c position g = Hang"
proof (cases "mu_Lock (RWLock g)")
  case (Ret m)
  then have "mu_RLock m = Hang" using mutex_not_reentrant by blast
  then show ?thesis
    using Ret assms
    by (simp add: update_def with_Lock_def upd_node_def deref_def heap_Fix_def Len_def with_RLock_def)
qed (auto simp: update_def with_Lock_def mu_Lock_def split: if_splits)

section \<open>Properties\<close>

text \<open>
  Ranking the slaves at start-up: \<open>createComplexityRanking\<close> terminates for every number of
  slaves, leaves the same slaves (only their position fields may change), releases the mutex, and
  orders them as a heap by load, so that the first one has the least load of all.
\<close>

lemma ranking_is_heap:
  assumes "nodes_inv g"
  shows "\<exists>g'. createComplexityRanking g = Ret g' \<and> nodes_inv g' \<and> mset (slaves g') = mset (slaves g) \<and>
    (\<forall>c < length (slave_connections g'). complexities g' ! ((c - 1) div 2) \<le> complexities g' ! c \<and>
       complexities g' ! 0 \<le> complexities g' ! c)"
proof -
  obtain g' where g': "createComplexityRanking g = Ret g'" "nodes_inv g'" "mset (slaves g') = mset (slaves g)"
      "heap_above 0 (complexities g')"
    using nq.Init_ok [OF assms] by (auto simp: createComplexityRanking_def)
  have "complexities g' ! ((c - 1) div 2) \<le> complexities g' ! c" if "c < length (slave_connections g')" for c
    using g'(4) that by (cases c) (auto simp: heap_above_def edge_ok_def parent_def complexities_def)
  then show ?thesis
    using g' heap_root_least [OF g'(4)] by (auto simp: complexities_def)
qed

definition sample_cluster :: "uint list \<Rightarrow> cluster" where
  "sample_cluster cs = \<lparr>nodes = map (\<lambda>c. (sample_node [])\<lparr>complexity := c\<rparr>) cs, slave_connections = [0..<length cs],
     master_connection = None, dropped_connections = Some [], RWLock = free_mutex\<rparr>"

lemma sample_cluster_inv: "nodes_inv (sample_cluster cs)"
  by (simp add: nodes_inv_def sample_cluster_def)

text \<open>
  C31. Updating the load of a slave deadlocks: \<open>update\<close> calls \<open>heap.Fix\<close> while it holds the package
  mutex, and \<open>Fix\<close> first calls \<open>Len\<close>, which waits for the same mutex, so the call never returns,
  whatever the node, the load and the position.  The repair itself is right: the same
  assignment followed by \<open>heap.Fix\<close> without the mutex restores the heap order.
\<close>

theorem update_self_deadlock:
  assumes "nodes_inv g" and "distinct (slave_connections g)" and "i < length (slave_connections g)"
    and "p = slave_connections g ! i" and "heap_above 0 (complexities g)"
  shows "update p c (int i) g = Hang \<and>
    (\<exists>g'. go_bind (upd_node p (\<lambda>n. n\<lparr>complexity := c\<rparr>) g) (heap_Fix Len Less Swap (int i)) = Ret g' \<and>
       nodes_inv g' \<and> heap_above 0 (complexities g') \<and> mset (complexities g') = mset ((complexities g)[i := c]))"
proof -
  obtain g1 where g1: "upd_node p (\<lambda>n. n\<lparr>complexity := c\<rparr>) g = Ret g1" "nodes_inv g1"
      "complexities g1 = (complexities g)[i := c]"
    using upd_complexity [OF assms(1-4)] by blast
  have i: "i < length (complexities g)" using assms(3) by (simp add: complexities_def)
  have "\<exists>g'. heap_Fix Len Less Swap (int i) g1 = Ret g' \<and> nodes_inv g' \<and>
      mset (complexities g') = mset (complexities g1) \<and> mset (slaves g') = mset (slaves g1) \<and> heap_above 0 (complexities g')"
    using nq.Fix_ok [OF g1(2), of i] heap_changed_hole [OF assms(5) i, of c] i g1(3) by simp
  moreover have "p < length (nodes g)" using assms(1,3,4) by (simp add: nodes_inv_def)
  ultimately show ?thesis
    using update_hangs g1 by auto
qed

theorem update_self_deadlock_witness:
  "update 2 1 2 (sample_cluster [3, 5, 7]) = Hang"
proof -
  let ?g = "sample_cluster [3, 5, 7]"
  have k: "complexities ?g = [3, 5, 7]" by (simp add: complexities_def sample_cluster_def)
  have "edge_ok [3, 5, 7 :: uint] 0 c" for c
    by (cases "c = 1 \<or> c = 2") (auto simp: edge_ok_def parent_def)
  then have "heap_above 0 (complexities ?g)"
    unfolding k by (simp add: heap_above_def)
  then show ?thesis
    using update_self_deadlock [OF sample_cluster_inv, of "[3, 5, 7]" 2 2 1] by (simp add: sample_cluster_def)
qed

text \<open>
  \<open>Swap\<close> records the wrong positions: after exchanging two different slaves each of them has in
  its field \<open>index\<close> the position it has just left, not the one it occupies.
\<close>

lemma Swap_mislabels:
  assumes "nodes_inv g" and "distinct (slave_connections g)" and "i < length (slave_connections g)"
    and "j < length (slave_connections g)" and "i \<noteq> j"
  shows "\<exists>g'. Swap (int i) (int j) g = Ret g' \<and>
     slave_connections g' ! i = slave_connections g ! j \<and> slave_connections g' ! j = slave_connections g ! i \<and>
     index (nodes g' ! (slave_connections g' ! i)) = int j \<and> index (nodes g' ! (slave_connections g' ! j)) = int i"
proof -
  let ?xs = "slave_connections g"
  have p: "?xs ! i < length (nodes g)" "?xs ! j < length (nodes g)" "?xs ! i \<noteq> ?xs ! j"
    using assms by (auto simp: nodes_inv_def nth_eq_iff_index_eq)
  then show ?thesis
    using Swap_ok [OF assms(1,3,4)] exchange_nth [OF assms(3,4)] assms(5)
    by (auto simp: set_index_def nth_list_update)
qed

end
