(* ===== verification/Handshake.thy ===== *)
theory Handshake
  imports Frames
begin

text \<open>
  The authentication handshake of a master and a slave, \<open>src/clustering/network.go\<close>:
  \<open>handshakeMaster\<close>, \<open>handshakeSlave\<close>, \<open>readHandshakeData\<close> and \<open>readAndCheckTimeOut\<close>.

  Each side is a process: a tree of reads and writes, branching on what the network answers.  A
  process can be run against any script of network answers, which is how the authentication
  property is stated, or together with the other side over two FIFO links, where the two
  sides interleave in any order (a step relation).
\<close>

section \<open>Processes\<close>

text \<open>
  The outcome of a read of the connection with the five-second timer beside it: data, an
  error, or nothing in time.
\<close>

datatype rd_event = Got "byte list" | Read_Error | Timed_Out

datatype proc =
    PRead "rd_event \<Rightarrow> proc"
  | PWrite "byte list" "bool \<Rightarrow> proc"
  | PDone int
  | PPanic go_fault

text \<open>A process against scripted answers; \<open>None\<close> where the script is too short.\<close>

fun run_proc :: "proc \<Rightarrow> rd_event list \<Rightarrow> bool list \<Rightarrow> (int \<times> byte list list) go option" where
  "run_proc (PDone s) es ws = Some (Ret (s, []))"
| "run_proc (PPanic f) es ws = Some (Panic f)"
| "run_proc (PRead k) [] ws = None"
| "run_proc (PRead k) (e # es) ws = run_proc (k e) es ws"
| "run_proc (PWrite bs k) es [] = None"
| "run_proc (PWrite bs k) es (w # ws) =
     map_option (map_go (\<lambda>(s, out). (s, bs # out))) (run_proc (k w) es ws)"

section \<open>Codes\<close>

definition HANDSHAKE_L1_REQUEST :: "byte list" where "HANDSHAKE_L1_REQUEST = [100]"
definition HANDSHAKE_L1_RESPONSE_OK :: "byte list" where "HANDSHAKE_L1_RESPONSE_OK = [200]"
definition HANDSHAKE_L1_RESPONSE_AUTH :: "byte list" where "HANDSHAKE_L1_RESPONSE_AUTH = [201]"
definition HANDSHAKE_L1_RESPONSE_BAD :: "byte list" where "HANDSHAKE_L1_RESPONSE_BAD = [202]"
definition HANDSHAKE_L1_RESPONSE_REFUSE :: "byte list" where "HANDSHAKE_L1_RESPONSE_REFUSE = [203]"
definition HANDSHAKE_L1_RESPONSE_TIMEOUT :: "byte list" where "HANDSHAKE_L1_RESPONSE_TIMEOUT = [204]"
definition HANDSHAKE_L2_RESPONSE_OK :: "byte list" where "HANDSHAKE_L2_RESPONSE_OK = [210]"
definition HANDSHAKE_L2_RESPONSE_BAD :: "byte list" where "HANDSHAKE_L2_RESPONSE_BAD = [211]"
definition HANDSHAKE_L2_RESPONSE_REFUSE :: "byte list" where "HANDSHAKE_L2_RESPONSE_REFUSE = [212]"
definition HANDSHAKE_L2_RESPONSE_TIMEOUT :: "byte list" where "HANDSHAKE_L2_RESPONSE_TIMEOUT = [213]"
definition HANDSHAKE_L3_RESPONSE_OK :: "byte list" where "HANDSHAKE_L3_RESPONSE_OK = [220]"
definition HANDSHAKE_L3_RESPONSE_BAD :: "byte list" where "HANDSHAKE_L3_RESPONSE_BAD = [221]"
definition HANDSHAKE_L3_RESPONSE_TIMEOUT :: "byte list" where "HANDSHAKE_L3_RESPONSE_TIMEOUT = [222]"

definition HANDSHAKE_STATUS_SUCCESS :: int where "HANDSHAKE_STATUS_SUCCESS = 1"
definition HANDSHAKE_STATUS_TIMEOUT :: int where "HANDSHAKE_STATUS_TIMEOUT = -2"
definition HANDSHAKE_STATUS_REFUSED :: int where "HANDSHAKE_STATUS_REFUSED = -5"
definition HANDSHAKE_STATUS_BADCONN :: int where "HANDSHAKE_STATUS_BADCONN = -1"
definition HANDSHAKE_STATUS_SVR_ERR :: int where "HANDSHAKE_STATUS_SVR_ERR = -3"
definition HANDSHAKE_STATUS_UNKNOWN :: int where "HANDSHAKE_STATUS_UNKNOWN = -4"

lemmas handshake_codes = HANDSHAKE_L1_REQUEST_def HANDSHAKE_L1_RESPONSE_OK_def
  HANDSHAKE_L1_RESPONSE_AUTH_def HANDSHAKE_L1_RESPONSE_BAD_def HANDSHAKE_L1_RESPONSE_REFUSE_def
  HANDSHAKE_L1_RESPONSE_TIMEOUT_def HANDSHAKE_L2_RESPONSE_OK_def HANDSHAKE_L2_RESPONSE_BAD_def
  HANDSHAKE_L2_RESPONSE_REFUSE_def HANDSHAKE_L2_RESPONSE_TIMEOUT_def HANDSHAKE_L3_RESPONSE_OK_def
  HANDSHAKE_L3_RESPONSE_BAD_def HANDSHAKE_L3_RESPONSE_TIMEOUT_def HANDSHAKE_STATUS_SUCCESS_def
  HANDSHAKE_STATUS_TIMEOUT_def HANDSHAKE_STATUS_REFUSED_def HANDSHAKE_STATUS_BADCONN_def
  HANDSHAKE_STATUS_SVR_ERR_def HANDSHAKE_STATUS_UNKNOWN_def

section \<open>Reading a handshake message\<close>

text \<open>
  The reader goroutine takes up to 512 bytes and copies them into the 64-byte buffer of its
  caller; \<open>None\<close> is a reader that has not finished in time.
\<close>

definition readHandshakeData :: "rd_event \<Rightarrow> byte list \<Rightarrow> (nat \<times> byte list) option go" where
  "readHandshakeData e buffer =
     (case e of
        Timed_Out \<Rightarrow> Ret None
      | Read_Error \<Rightarrow> Ret (Some (0, buffer))
      | Got bs \<Rightarrow>
          let got = take 512 bs;
              temp_buffer = overlay (replicate 512 0) 0 got
          in go_bind (append_buffer buffer temp_buffer 0 0 (int (length got))) (\<lambda>buffer'.
             Ret (Some (length got, buffer'))))"

definition readAndCheckTimeOut :: "rd_event \<Rightarrow> (int \<times> byte list) go" where
  "readAndCheckTimeOut e =
     go_bind (readHandshakeData e (replicate 64 0)) (\<lambda>r.
     Ret (case r of
            None \<Rightarrow> (-2, [])
          | Some (res, buff) \<Rightarrow> if res = 0 then (-1, []) else (0, take res buff)))"

definition p_read :: "(int \<Rightarrow> byte list \<Rightarrow> proc) \<Rightarrow> proc" where
  "p_read k = PRead (\<lambda>e. case readAndCheckTimeOut e of
      Ret (code, data) \<Rightarrow> k code data
    | Panic f \<Rightarrow> PPanic f
    | Hang \<Rightarrow> PPanic (Explicit_Panic ''unreachable''))"

section \<open>The two sides\<close>

definition handshakeMaster :: "string \<Rightarrow> string \<Rightarrow> proc" where
  "handshakeMaster secret name =
     (let finish =
        PWrite (bytes_of_string name) (\<lambda>ok.
          if \<not> ok then PDone HANDSHAKE_STATUS_SVR_ERR
          else p_read (\<lambda>code data.
            if code = HANDSHAKE_STATUS_BADCONN then
              PWrite HANDSHAKE_L3_RESPONSE_BAD (\<lambda>_. PDone HANDSHAKE_STATUS_BADCONN)
            else if code = HANDSHAKE_STATUS_TIMEOUT then
              PWrite HANDSHAKE_L3_RESPONSE_TIMEOUT (\<lambda>_. PDone HANDSHAKE_STATUS_TIMEOUT)
            else PWrite HANDSHAKE_L3_RESPONSE_OK (\<lambda>ok.
              if \<not> ok then PDone HANDSHAKE_STATUS_SVR_ERR else PDone HANDSHAKE_STATUS_SUCCESS)))
      in PWrite HANDSHAKE_L1_REQUEST (\<lambda>ok.
        if \<not> ok then PDone HANDSHAKE_STATUS_SVR_ERR
        else p_read (\<lambda>code data.
          if code \<noteq> 0 then PDone code
          else if data = HANDSHAKE_L1_RESPONSE_AUTH then
            PWrite (bytes_of_string secret) (\<lambda>ok.
              if \<not> ok then PDone HANDSHAKE_STATUS_SVR_ERR
              else p_read (\<lambda>code data.
                if code \<noteq> 0 then PDone code
                else if data \<noteq> HANDSHAKE_L2_RESPONSE_OK then PDone HANDSHAKE_STATUS_REFUSED
                else finish))
          else if data = HANDSHAKE_L1_RESPONSE_OK then finish
          else PDone HANDSHAKE_STATUS_UNKNOWN)))"

definition handshakeSlave :: "string \<Rightarrow> string \<Rightarrow> proc" where
  "handshakeSlave secret name =
     (let finish =
        p_read (\<lambda>code data.
          if code = HANDSHAKE_STATUS_BADCONN then
            PWrite HANDSHAKE_L3_RESPONSE_BAD (\<lambda>_. PDone HANDSHAKE_STATUS_BADCONN)
          else if code = HANDSHAKE_STATUS_TIMEOUT then
            PWrite HANDSHAKE_L3_RESPONSE_TIMEOUT (\<lambda>_. PDone HANDSHAKE_STATUS_TIMEOUT)
          else PWrite (bytes_of_string name) (\<lambda>ok.
            if \<not> ok then PWrite HANDSHAKE_L1_RESPONSE_BAD (\<lambda>_. PDone HANDSHAKE_STATUS_SVR_ERR)
            else p_read (\<lambda>code data.
              if code \<noteq> 0 then PDone code
              else if data \<noteq> HANDSHAKE_L3_RESPONSE_OK then PDone HANDSHAKE_STATUS_REFUSED
              else PDone HANDSHAKE_STATUS_SUCCESS)))
      in p_read (\<lambda>code data.
        if code = HANDSHAKE_STATUS_BADCONN then
          PWrite HANDSHAKE_L1_RESPONSE_BAD (\<lambda>_. PDone HANDSHAKE_STATUS_BADCONN)
        else if code = HANDSHAKE_STATUS_TIMEOUT then
          PWrite HANDSHAKE_L1_RESPONSE_TIMEOUT (\<lambda>_. PDone HANDSHAKE_STATUS_TIMEOUT)
        else if data \<noteq> HANDSHAKE_L1_REQUEST then
          PWrite HANDSHAKE_L1_RESPONSE_REFUSE (\<lambda>_. PDone HANDSHAKE_STATUS_BADCONN)
        else if secret \<noteq> [] then
          PWrite HANDSHAKE_L1_RESPONSE_AUTH (\<lambda>ok.
            if \<not> ok then PWrite HANDSHAKE_L1_RESPONSE_BAD (\<lambda>_. PDone HANDSHAKE_STATUS_SVR_ERR)
            else p_read (\<lambda>code data.
              if code = HANDSHAKE_STATUS_BADCONN then
                PWrite HANDSHAKE_L2_RESPONSE_BAD (\<lambda>_. PDone HANDSHAKE_STATUS_BADCONN)
              else if code = HANDSHAKE_STATUS_TIMEOUT then
                PWrite HANDSHAKE_L2_RESPONSE_TIMEOUT (\<lambda>_. PDone HANDSHAKE_STATUS_TIMEOUT)
              else if data \<noteq> bytes_of_string secret then
                PWrite HANDSHAKE_L2_RESPONSE_REFUSE (\<lambda>_. PDone HANDSHAKE_STATUS_BADCONN)
              else PWrite HANDSHAKE_L2_RESPONSE_OK (\<lambda>ok.
                if \<not> ok then PWrite HANDSHAKE_L2_RESPONSE_BAD (\<lambda>_. PDone HANDSHAKE_STATUS_SVR_ERR)
                else finish)))
        else PWrite HANDSHAKE_L1_RESPONSE_OK (\<lambda>ok.
          if \<not> ok then PWrite HANDSHAKE_L1_RESPONSE_BAD (\<lambda>_. PDone HANDSHAKE_STATUS_SVR_ERR)
          else finish)))"

section \<open>Both sides on one connection\<close>

text \<open>
  Two processes and the segments in flight in each direction.  A write enqueues one segment (an
  empty write sends nothing), a read takes the oldest one.
\<close>

record link =
  left :: proc
  right :: proc
  to_right :: "byte list list"
  to_left :: "byte list list"

definition send_seg :: "byte list \<Rightarrow> byte list list \<Rightarrow> byte list list" where
  "send_seg bs ch = (if bs = [] then ch else ch @ [bs])"

inductive link_step :: "link \<Rightarrow> link \<Rightarrow> bool" where
  left_write: "left c = PWrite bs k \<Longrightarrow> link_step c (c\<lparr>left := k True, to_right := send_seg bs (to_right c)\<rparr>)"
| left_read: "left c = PRead k \<Longrightarrow> to_left c = s # ss \<Longrightarrow> link_step c (c\<lparr>left := k (Got s), to_left := ss\<rparr>)"
| right_write: "right c = PWrite bs k \<Longrightarrow> link_step c (c\<lparr>right := k True, to_left := send_seg bs (to_left c)\<rparr>)"
| right_read: "right c = PRead k \<Longrightarrow> to_right c = s # ss \<Longrightarrow> link_step c (c\<lparr>right := k (Got s), to_right := ss\<rparr>)"

inductive_cases link_stepE: "link_step c c'"

text \<open>One schedule: the left side first.\<close>

definition left_next :: "link \<Rightarrow> link option" where
  "left_next c = (case left c of
      PWrite bs k \<Rightarrow> Some (c\<lparr>left := k True, to_right := send_seg bs (to_right c)\<rparr>)
    | PRead k \<Rightarrow> (case to_left c of [] \<Rightarrow> None | s # ss \<Rightarrow> Some (c\<lparr>left := k (Got s), to_left := ss\<rparr>))
    | _ \<Rightarrow> None)"

definition right_next :: "link \<Rightarrow> link option" where
  "right_next c = (case right c of
      PWrite bs k \<Rightarrow> Some (c\<lparr>right := k True, to_left := send_seg bs (to_left c)\<rparr>)
    | PRead k \<Rightarrow> (case to_right c of [] \<Rightarrow> None | s # ss \<Rightarrow> Some (c\<lparr>right := k (Got s), to_right := ss\<rparr>))
    | _ \<Rightarrow> None)"

fun link_run :: "nat \<Rightarrow> link \<Rightarrow> link" where
  "link_run 0 c = c"
| "link_run (Suc n) c =
     (case left_next c of
        Some c' \<Rightarrow> link_run n c'
      | None \<Rightarrow> (case right_next c of Some c' \<Rightarrow> link_run n c' | None \<Rightarrow> c))"

definition start_link :: "proc \<Rightarrow> proc \<Rightarrow> link" where
  "start_link l r = \<lparr>left = l, right = r, to_right = [], to_left = []\<rparr>"

definition link_final :: "link \<Rightarrow> bool" where
  "link_final c \<longleftrightarrow> left_next c = None \<and> right_next c = None"

section \<open>Every schedule has the same outcome\<close>

lemma link_step_iff: "link_step c c' \<longleftrightarrow> left_next c = Some c' \<or> right_next c = Some c'"
  by (auto simp: left_next_def right_next_def link_step.simps split: proc.splits list.splits)

lemma link_diamond:
  assumes "left_next c = Some c1" and "right_next c = Some c2"
  shows "\<exists>d. link_step c1 d \<and> link_step c2 d"
proof -
  have "right_next c1 \<noteq> None \<and> right_next c1 = left_next c2"
    using assms by (cases c) (auto simp: left_next_def right_next_def send_seg_def split: proc.splits list.splits)
  then show ?thesis by (metis link_step_iff option.exhaust)
qed

lemma link_step_diamond:
  assumes "link_step c c1" and "link_step c c2" and "c1 \<noteq> c2"
  shows "\<exists>d. link_step c1 d \<and> link_step c2 d"
proof (cases "left_next c = Some c1")
  case True
  then have "right_next c = Some c2" using assms by (auto simp: link_step_iff)
  with True show ?thesis by (rule link_diamond)
next
  case False
  then have "right_next c = Some c1" "left_next c = Some c2" using assms by (auto simp: link_step_iff)
  then show ?thesis using link_diamond by blast
qed

lemma link_finalD: "link_final c \<Longrightarrow> \<not> link_step c c'"
  by (simp add: link_final_def link_step_iff)

lemma link_step_postpones:
  assumes "link_step c c1" and "(link_step ^^ Suc m) c t" and "link_final t"
  shows "(link_step ^^ m) c1 t"
  using assms(1,2)
proof (induction m arbitrary: c c1)
  case 0
  then have "link_step c t" by (simp add: eq_OO)
  then have "c1 = t"
    using link_step_diamond [OF 0(1)] link_finalD [OF assms(3)] by blast
  then show ?case by simp
next
  case (Suc m)
  obtain c' where c': "link_step c c'" "(link_step ^^ Suc m) c' t"
    using Suc.prems(2) by (meson relpowp_Suc_D2)
  show ?case
  proof (cases "c1 = c'")
    case False
    then obtain d where "link_step c1 d" "link_step c' d"
      using link_step_diamond [OF Suc.prems(1) c'(1)] by blast
    then show ?thesis
      using Suc.IH c'(2) by (meson relpowp_Suc_I2)
  qed (use c' in simp)
qed

lemma link_confluent:
  assumes "(link_step ^^ k) c c'" and "(link_step ^^ m) c t" and "link_final t"
  shows "k \<le> m \<and> (link_step ^^ (m - k)) c' t"
  using assms(1,2)
proof (induction k arbitrary: c m)
  case (Suc k)
  obtain c1 where c1: "link_step c c1" "(link_step ^^ k) c1 c'"
    using Suc.prems(1) by (meson relpowp_Suc_D2)
  show ?case
  proof (cases m)
    case 0
    then show ?thesis using Suc.prems(2) c1(1) link_finalD [OF assms(3)] by auto
  next
    case (Suc m')
    then have "(link_step ^^ m') c1 t"
      using link_step_postpones [OF c1(1) _ assms(3)] Suc.prems(2) by simp
    then show ?thesis using Suc.IH [OF c1(2)] Suc by simp
  qed
qed simp

lemma link_run_steps: "\<exists>m \<le> n. (link_step ^^ m) c (link_run n c)"
proof (induction n arbitrary: c)
  case (Suc n)
  have step: "\<exists>m \<le> Suc n. (link_step ^^ m) c (link_run n c')" if "link_step c c'" for c'
    using Suc.IH [of c'] that by (meson Suc_le_mono relpowp_Suc_I2)
  show ?case
  proof (cases "left_next c")
    case None
    then show ?thesis
      using step by (cases "right_next c") (auto simp: link_step_iff [of c] intro: exI [of _ 0])
  next
    case (Some c')
    then show ?thesis using step [of c'] by (simp add: link_step_iff [of c])
  qed
qed (auto intro: exI [of _ 0])

text \<open>One complete run decides all of them.\<close>

lemma link_run_decides:
  assumes "link_final (link_run n c)" and "(link_step ^^ k) c c'"
  shows "k \<le> n \<and> link_step\<^sup>*\<^sup>* c' (link_run n c)"
  using link_run_steps [of n c] link_confluent [OF assms(2) _ assms(1)]
  by (meson le_trans relpowp_imp_rtranclp)

section \<open>Reading\<close>

lemma readAndCheckTimeOut_Got:
  assumes "bs \<noteq> []" and "length bs \<le> 64"
  shows "readAndCheckTimeOut (Got bs) = Ret (0, bs)"
proof -
  have "append_buffer (replicate 64 0) (overlay (replicate 512 0) 0 bs) 0 0 (int (length bs)) =
      Ret (bs @ drop (length bs) (replicate 64 0))"
    using append_buffer_ok [of 0 "length bs" "replicate 64 0" 0 "overlay (replicate 512 0) 0 bs"] assms(2)
    by (simp add: take_overlay_0)
  then show ?thesis
    using assms by (simp add: readAndCheckTimeOut_def readHandshakeData_def Let_def)
qed

lemma append_loop_overflow:
  assumes "length dst \<le> i + n" and "i \<le> length dst" and "length dst < i + n" and "i + n \<le> length src"
  shows "append_loop n dst src (int i) 0 0 = Panic Index_Out_Of_Range"
  using assms
proof (induction n arbitrary: i dst)
  case (Suc n)
  show ?case
  proof (cases "i = length dst")
    case True
    then show ?thesis using Suc.prems by simp
  next
    case False
    then have "append_loop n (dst[i := src ! i]) src (int (Suc i)) 0 0 = Panic Index_Out_Of_Range"
      using Suc.prems by (intro Suc.IH) simp_all
    then show ?thesis using False Suc.prems by (simp add: add.commute)
  qed
qed simp

lemma readAndCheckTimeOut_too_long:
  assumes "64 < length bs"
  shows "readAndCheckTimeOut (Got bs) = Panic Index_Out_Of_Range"
proof -
  let ?n = "min (length bs) 512"
  have "append_loop ?n (replicate 64 0) (overlay (replicate 512 0) 0 (take 512 bs)) (int 0) 0 0 = Panic Index_Out_Of_Range"
    using assms by (intro append_loop_overflow) simp_all
  then show ?thesis
    by (simp add: readAndCheckTimeOut_def readHandshakeData_def Let_def append_buffer_def min.commute)
qed

lemma readAndCheckTimeOut_cases:
  "readAndCheckTimeOut e =
     (case e of Timed_Out \<Rightarrow> Ret (-2, []) | Read_Error \<Rightarrow> Ret (-1, [])
      | Got bs \<Rightarrow> if bs = [] then Ret (-1, []) else if length bs \<le> 64 then Ret (0, bs) else Panic Index_Out_Of_Range)"
  using readAndCheckTimeOut_Got readAndCheckTimeOut_too_long
  by (cases e) (auto simp: readAndCheckTimeOut_def readHandshakeData_def not_le)

lemma p_read_PRead: "p_read k = PRead (\<lambda>e. case e of
     Timed_Out \<Rightarrow> k (-2) [] | Read_Error \<Rightarrow> k (-1) []
   | Got bs \<Rightarrow> if bs = [] then k (-1) [] else if length bs \<le> 64 then k 0 bs else PPanic Index_Out_Of_Range)"
  by (auto simp: p_read_def readAndCheckTimeOut_cases fun_eq_iff split: rd_event.splits)

text \<open>What fits a handshake message.\<close>

definition fits :: "string \<Rightarrow> bool" where
  "fits s \<longleftrightarrow> s \<noteq> [] \<and> length s \<le> 64"

lemmas handshake_eval = start_link_def handshakeMaster_def handshakeSlave_def p_read_PRead Let_def
  left_next_def right_next_def send_seg_def handshake_codes fits_def link_final_def

lemma inj_byte_of_char: "inj byte_of_char"
  by (rule inj_on_inverseI [of _ char_of_byte]) simp

text \<open>The result both sides should reach.\<close>

definition expected :: "string \<Rightarrow> string \<Rightarrow> int \<times> int" where
  "expected msecret ssecret =
     (if ssecret = [] \<or> msecret = ssecret then (HANDSHAKE_STATUS_SUCCESS, HANDSHAKE_STATUS_SUCCESS)
      else (HANDSHAKE_STATUS_REFUSED, HANDSHAKE_STATUS_BADCONN))"

lemma link_run_outcome:
  assumes "ssecret = [] \<or> fits ssecret" and "ssecret = [] \<or> fits msecret" and "fits mname" and "fits sname"
  shows "link_final (link_run 14 (start_link (handshakeMaster msecret mname) (handshakeSlave ssecret sname))) \<and>
     left (link_run 14 (start_link (handshakeMaster msecret mname) (handshakeSlave ssecret sname))) =
       PDone (fst (expected msecret ssecret)) \<and>
     right (link_run 14 (start_link (handshakeMaster msecret mname) (handshakeSlave ssecret sname))) =
       PDone (snd (expected msecret ssecret))"
proof (cases "ssecret = [] \<or> msecret = ssecret")
  case True
  then show ?thesis
    using assms by (cases "ssecret = []") (simp_all add: numeral_eq_Suc handshake_eval expected_def)
next
  case False
  then have "bytes_of_string msecret \<noteq> bytes_of_string ssecret"
    using inj_byte_of_char by (simp add: inj_map_eq_map)
  then show ?thesis
    using False assms by (simp add: numeral_eq_Suc handshake_eval expected_def)
qed

text \<open>Inversion of a scripted run.\<close>

lemma run_p_read:
  "run_proc (p_read k) es ws = Some (Ret r) \<longleftrightarrow>
     (\<exists>e es'. es = e # es' \<and>
        ((\<exists>bs. e = Got bs \<and> bs \<noteq> [] \<and> length bs \<le> 64 \<and> run_proc (k 0 bs) es' ws = Some (Ret r)) \<or>
         (e = Got [] \<or> e = Read_Error) \<and> run_proc (k (-1) []) es' ws = Some (Ret r) \<or>
         e = Timed_Out \<and> run_proc (k (-2) []) es' ws = Some (Ret r)))"
  by (cases es) (auto simp: p_read_PRead split: rd_event.splits)

lemma run_proc_PWrite:
  "run_proc (PWrite bs k) es ws = Some (Ret (s, out)) \<longleftrightarrow>
     (\<exists>w ws' out'. ws = w # ws' \<and> out = bs # out' \<and> run_proc (k w) es ws' = Some (Ret (s, out')))"
  by (cases ws) auto

section \<open>Properties\<close>



text \<open>
  C33. Authentication of the master, against any peer and any network: with a secret configured,
  the slave's handshake succeeds only if the first thing it read was the request and the second
  was exactly its secret, and it acknowledged the secret before it disclosed its name.
\<close>

theorem slave_success_authenticates:
  assumes "secret \<noteq> []" and "run_proc (handshakeSlave secret name) es ws = Some (Ret (HANDSHAKE_STATUS_SUCCESS, out))"
  shows "\<exists>rest. es = Got HANDSHAKE_L1_REQUEST # Got (bytes_of_string secret) # rest \<and>
     out = [HANDSHAKE_L1_RESPONSE_AUTH, HANDSHAKE_L2_RESPONSE_OK, bytes_of_string name]"
  using assms
  by (auto simp: handshakeSlave_def Let_def run_p_read run_proc_PWrite handshake_codes split: if_splits)

theorem slave_success_authenticates_witness:
  "run_proc (handshakeSlave ''k'' ''s'') [Got [100], Got (bytes_of_string ''k''), Got [77], Got [220]] [True, True, True] =
     Some (Ret (HANDSHAKE_STATUS_SUCCESS, [[201], [210], bytes_of_string ''s''])) \<and>
   (\<exists>rest. [Got [100], Got (bytes_of_string ''k''), Got [77], Got [220]] =
      Got HANDSHAKE_L1_REQUEST # Got (bytes_of_string ''k'') # rest)"
proof -
  have "run_proc (handshakeSlave ''k'' ''s'') [Got [100], Got (bytes_of_string ''k''), Got [77], Got [220]] [True, True, True] =
     Some (Ret (HANDSHAKE_STATUS_SUCCESS, [[201], [210], bytes_of_string ''s'']))"
    by (simp add: handshakeSlave_def p_read_PRead Let_def handshake_codes)
  then show ?thesis
    using slave_success_authenticates [of "''k''" "''s''" "[Got [100], Got (bytes_of_string ''k''), Got [77], Got [220]]"]
    by simp
qed

text \<open>
  A long first message kills the process: any peer that can open the connection and sends more
  than 64 bytes in one segment, before it has authenticated, makes the reader goroutine index
  beyond the 64-byte buffer.
\<close>

lemma handshake_overflow_panics:
  assumes "64 < length bs"
  shows "run_proc (handshakeSlave secret name) (Got bs # es) ws = Some (Panic Index_Out_Of_Range)"
  using assms by (cases bs) (simp_all add: handshakeSlave_def p_read_PRead Let_def)

end
