(* ===== verification/Go_Json.thy ===== *)
theory Go_Json
  imports Go_Strings
begin

text \<open>
  The part of Go's \<open>encoding/json\<close> that \<open>src/jsonwrapper\<close> uses: \<open>json.NewDecoder(r)\<close> with
  \<open>UseNumber\<close>, decoding one value into an \<open>interface{}\<close>, and \<open>json.Marshal\<close> of the result.  The decoder reads the first value of
  the input and ignores what follows it; numbers stay text (\<open>json.Number\<close>); a later
  duplicate of a key replaces the earlier one; bytes that are not UTF-8 and unpaired surrogates
  become U+FFFD.

  The parser works on the remaining input with a bound on the number of calls; the bound that
  \<open>json_decode\<close> passes is never exhausted (\<open>parse_fuel_enough\<close>).
\<close>

datatype json =
    JNull
  | JBool bool
  | JNumber string
  | JString string
  | JArray "json list"
  | JObject "(string \<times> json) list"

section \<open>Lexical structure\<close>

definition is_space :: "char \<Rightarrow> bool" where
  "is_space c \<longleftrightarrow> c = CHR '' '' \<or> c = CHR 0x09 \<or> c = CHR 0x0A \<or> c = CHR 0x0D"

definition skip_ws :: "string \<Rightarrow> string" where
  "skip_ws = dropWhile is_space"

definition is_digit :: "char \<Rightarrow> bool" where
  "is_digit c \<longleftrightarrow> char_digit c \<noteq> None"

text \<open>\<open>-?(0|[1-9][0-9]*)(\.[0-9]+)?([eE][+-]?[0-9]+)?\<close>, as far as it goes.\<close>

definition lex_digits :: "string \<Rightarrow> (string \<times> string) option" where
  "lex_digits s = (let ds = takeWhile is_digit s in if ds = [] then None else Some (ds, dropWhile is_digit s))"

definition lex_int :: "string \<Rightarrow> (string \<times> string) option" where
  "lex_int s = (case s of
      [] \<Rightarrow> None
    | c # cs \<Rightarrow> if c = CHR ''0'' then Some ([c], cs) else lex_digits s)"

definition lex_frac :: "string \<Rightarrow> (string \<times> string) option" where
  "lex_frac s = (case s of
      [] \<Rightarrow> Some ([], s)
    | c # cs \<Rightarrow> if c = CHR ''.'' then map_option (\<lambda>(d, r). (c # d, r)) (lex_digits cs) else Some ([], s))"

definition lex_exp :: "string \<Rightarrow> (string \<times> string) option" where
  "lex_exp s = (case s of
      [] \<Rightarrow> Some ([], s)
    | c # cs \<Rightarrow>
        if c = CHR ''e'' \<or> c = CHR ''E'' then
          (case cs of
             [] \<Rightarrow> None
           | d # ds \<Rightarrow>
               if d = CHR ''+'' \<or> d = CHR ''-'' then map_option (\<lambda>(x, r). (c # d # x, r)) (lex_digits ds)
               else map_option (\<lambda>(x, r). (c # x, r)) (lex_digits cs))
        else Some ([], s))"

definition lex_number :: "string \<Rightarrow> (string \<times> string) option" where
  "lex_number s =
     (let (sign, body) = (case s of [] \<Rightarrow> ([], s) | c # cs \<Rightarrow> if c = CHR ''-'' then ([c], cs) else ([], s)) in
      case lex_int body of
        None \<Rightarrow> None
      | Some (i, r1) \<Rightarrow>
          (case lex_frac r1 of
             None \<Rightarrow> None
           | Some (f, r2) \<Rightarrow>
               (case lex_exp r2 of
                  None \<Rightarrow> None
                | Some (e, r3) \<Rightarrow> Some (sign @ i @ f @ e, r3))))"

section \<open>Strings\<close>

definition code :: "char \<Rightarrow> nat" where
  "code c = of_char c"

definition hex_val :: "char \<Rightarrow> nat option" where
  "hex_val c =
     (if 48 \<le> code c \<and> code c \<le> 57 then Some (code c - 48)
      else if 97 \<le> code c \<and> code c \<le> 102 then Some (code c - 87)
      else if 65 \<le> code c \<and> code c \<le> 70 then Some (code c - 55)
      else None)"

text \<open>Four hexadecimal digits at the front of the input.\<close>

definition hex4 :: "string \<Rightarrow> nat option" where
  "hex4 s = (if length s < 4 then None else
     (case (hex_val (s ! 0), hex_val (s ! 1), hex_val (s ! 2), hex_val (s ! 3)) of
        (Some a, Some b, Some c, Some d) \<Rightarrow> Some (((a * 16 + b) * 16 + c) * 16 + d)
      | _ \<Rightarrow> None))"

definition utf8 :: "nat \<Rightarrow> string" where
  "utf8 r =
     (if r < 0x80 then [char_of r]
      else if r < 0x800 then [char_of (0xC0 + r div 64), char_of (0x80 + r mod 64)]
      else if r < 0x10000 then
        [char_of (0xE0 + r div 4096), char_of (0x80 + r div 64 mod 64), char_of (0x80 + r mod 64)]
      else [char_of (0xF0 + r div 262144), char_of (0x80 + r div 4096 mod 64),
            char_of (0x80 + r div 64 mod 64), char_of (0x80 + r mod 64)])"

definition replacement :: string where
  "replacement = utf8 0xFFFD"

text \<open>
  The number of bytes of the valid UTF-8 sequence at the front, zero when there is none
  (\<open>utf8.DecodeRune\<close>).
\<close>

definition cont_byte :: "nat \<Rightarrow> nat \<Rightarrow> string \<Rightarrow> nat \<Rightarrow> bool" where
  "cont_byte lo hi s i \<longleftrightarrow> i < length s \<and> lo \<le> code (s ! i) \<and> code (s ! i) \<le> hi"

definition utf8_len :: "string \<Rightarrow> nat" where
  "utf8_len s = (case s of
      [] \<Rightarrow> 0
    | ch # _ \<Rightarrow>
        let c = code ch; tail = cont_byte 0x80 0xBF s in
        if c < 0x80 then 1
        else if 0xC2 \<le> c \<and> c \<le> 0xDF then (if tail 1 then 2 else 0)
        else if 0xE0 \<le> c \<and> c \<le> 0xEF then
          (if cont_byte (if c = 0xE0 then 0xA0 else 0x80) (if c = 0xED then 0x9F else 0xBF) s 1 \<and> tail 2 then 3 else 0)
        else if 0xF0 \<le> c \<and> c \<le> 0xF4 then
          (if cont_byte (if c = 0xF0 then 0x90 else 0x80) (if c = 0xF4 then 0x8F else 0xBF) s 1 \<and> tail 2 \<and> tail 3 then 4 else 0)
        else 0)"

definition simple_escape :: "char \<Rightarrow> char option" where
  "simple_escape c =
     (if c = CHR 0x22 \<or> c = CHR 0x5C \<or> c = CHR ''/'' then Some c
      else if c = CHR ''b'' then Some (CHR 0x08)
      else if c = CHR ''f'' then Some (CHR 0x0C)
      else if c = CHR ''n'' then Some (CHR 0x0A)
      else if c = CHR ''r'' then Some (CHR 0x0D)
      else if c = CHR ''t'' then Some (CHR 0x09)
      else None)"

text \<open>
  The escape \<open>\u\<close>: what it stands for and how many further bytes it uses up.  A high surrogate
  looks for a low one right behind it.
\<close>

definition unicode_escape :: "nat \<Rightarrow> string \<Rightarrow> string \<times> nat" where
  "unicode_escape r rest =
     (if 0xD800 \<le> r \<and> r < 0xE000 then
        (if r < 0xDC00 \<and> take 2 rest = [CHR 0x5C, CHR ''u''] then
           (case hex4 (drop 2 rest) of
              Some r2 \<Rightarrow>
                if 0xDC00 \<le> r2 \<and> r2 < 0xE000 then (utf8 ((r - 0xD800) * 1024 + (r2 - 0xDC00) + 0x10000), 6)
                else (replacement, 0)
            | None \<Rightarrow> (replacement, 0))
         else (replacement, 0))
      else (utf8 r, 0))"

text \<open>The contents of a string literal after its opening quote, and the input behind it.\<close>

function scan_string :: "string \<Rightarrow> (string \<times> string) option" where
  "scan_string s =
     (case s of
        [] \<Rightarrow> None
      | c # cs \<Rightarrow>
          if c = CHR 0x22 then Some ([], cs)
          else if c = CHR 0x5C then
            (case cs of
               [] \<Rightarrow> None
             | e # es \<Rightarrow>
                 if e = CHR ''u'' then
                   (case hex4 es of
                      None \<Rightarrow> None
                    | Some r \<Rightarrow>
                        let (out, used) = unicode_escape r (drop 4 es) in
                        map_option (\<lambda>(t, rest). (out @ t, rest)) (scan_string (drop (4 + used) es)))
                 else (case simple_escape e of
                         None \<Rightarrow> None
                       | Some ch \<Rightarrow> map_option (\<lambda>(t, rest). (ch # t, rest)) (scan_string es)))
          else if code c < 0x20 then None
          else if utf8_len s = 0 then map_option (\<lambda>(t, rest). (replacement @ t, rest)) (scan_string cs)
          else map_option (\<lambda>(t, rest). (take (utf8_len s) s @ t, rest)) (scan_string (drop (utf8_len s - 1) cs)))"
  by pat_completeness auto
termination
  by (relation "measure length") auto

declare scan_string.simps [simp del]

section \<open>Values\<close>

text \<open>A Go map keeps one value per key.\<close>

fun set_key :: "string \<Rightarrow> json \<Rightarrow> (string \<times> json) list \<Rightarrow> (string \<times> json) list" where
  "set_key k v [] = [(k, v)]"
| "set_key k v ((k', v') # kvs) = (if k = k' then (k, v) # kvs else (k', v') # set_key k v kvs)"

definition lex_word :: "string \<Rightarrow> json \<Rightarrow> string \<Rightarrow> (json \<times> string) option" where
  "lex_word w v s = (if take (length w) s = w then Some (v, drop (length w) s) else None)"

text \<open>A member name and the colon behind it.\<close>

definition parse_key :: "string \<Rightarrow> (string \<times> string) option" where
  "parse_key s =
     (case skip_ws s of
        [] \<Rightarrow> None
      | c # cs \<Rightarrow>
          if c \<noteq> CHR 0x22 then None
          else (case scan_string cs of
                  None \<Rightarrow> None
                | Some (k, r) \<Rightarrow>
                    (case skip_ws r of
                       [] \<Rightarrow> None
                     | d # ds \<Rightarrow> if d = CHR '':'' then Some (k, ds) else None)))"

fun parse_value :: "nat \<Rightarrow> string \<Rightarrow> (json \<times> string) option"
and parse_elems :: "nat \<Rightarrow> json list \<Rightarrow> string \<Rightarrow> (json \<times> string) option"
and parse_members :: "nat \<Rightarrow> (string \<times> json) list \<Rightarrow> string \<Rightarrow> (json \<times> string) option" where
  "parse_value 0 s = None"
| "parse_value (Suc n) s =
     (case skip_ws s of
        [] \<Rightarrow> None
      | c # cs \<Rightarrow>
          if c = CHR ''{'' then
            (case skip_ws cs of
               [] \<Rightarrow> None
             | d # ds \<Rightarrow> if d = CHR ''}'' then Some (JObject [], ds) else parse_members n [] (d # ds))
          else if c = CHR ''['' then
            (case skip_ws cs of
               [] \<Rightarrow> None
             | d # ds \<Rightarrow> if d = CHR '']'' then Some (JArray [], ds) else parse_elems n [] (d # ds))
          else if c = CHR 0x22 then map_option (\<lambda>(t, r). (JString t, r)) (scan_string cs)
          else if c = CHR ''t'' then lex_word ''true'' (JBool True) (c # cs)
          else if c = CHR ''f'' then lex_word ''false'' (JBool False) (c # cs)
          else if c = CHR ''n'' then lex_word ''null'' JNull (c # cs)
          else map_option (\<lambda>(t, r). (JNumber t, r)) (lex_number (c # cs)))"
| "parse_elems 0 acc s = None"
| "parse_elems (Suc n) acc s =
     (case parse_value n s of
        None \<Rightarrow> None
      | Some (v, r) \<Rightarrow>
          (case skip_ws r of
             [] \<Rightarrow> None
           | c # cs \<Rightarrow>
               if c = CHR '','' then parse_elems n (acc @ [v]) cs
               else if c = CHR '']'' then Some (JArray (acc @ [v]), cs)
               else None))"
| "parse_members 0 acc s = None"
| "parse_members (Suc n) acc s =
     (case parse_key s of
        None \<Rightarrow> None
      | Some (k, ds) \<Rightarrow>
          (case parse_value n ds of
             None \<Rightarrow> None
           | Some (v, r) \<Rightarrow>
               (case skip_ws r of
                  [] \<Rightarrow> None
                | e # es \<Rightarrow>
                    if e = CHR '','' then parse_members n (set_key k v acc) es
                    else if e = CHR ''}'' then Some (JObject (set_key k v acc), es)
                    else None)))"

definition json_decode :: "string \<Rightarrow> json option" where
  "json_decode s = map_option fst (parse_value (2 * length s + 2) s)"

section \<open>Encoding\<close>

text \<open>
  \<open>json.Marshal\<close> of decoded data: no white space, map keys in byte order, strings with the
  characters escaped that JSON or HTML give a meaning, bytes that are not UTF-8 replaced.
\<close>

definition hex_lower :: "nat \<Rightarrow> char" where
  "hex_lower d = (if d < 10 then char_of (48 + d) else char_of (87 + d))"

definition u_escape :: "nat \<Rightarrow> string" where
  "u_escape r = [CHR 0x5C, CHR ''u'', hex_lower (r div 4096 mod 16), hex_lower (r div 256 mod 16),
     hex_lower (r div 16 mod 16), hex_lower (r mod 16)]"

definition encode_ascii :: "char \<Rightarrow> string" where
  "encode_ascii c =
     (if c = CHR 0x22 \<or> c = CHR 0x5C then [CHR 0x5C, c]
      else if c = CHR 0x0A then [CHR 0x5C, CHR ''n'']
      else if c = CHR 0x0D then [CHR 0x5C, CHR ''r'']
      else if c = CHR 0x09 then [CHR 0x5C, CHR ''t'']
      else if code c < 0x20 \<or> c = CHR ''<'' \<or> c = CHR ''>'' \<or> c = CHR ''&'' then u_escape (code c)
      else [c])"

function encode_chars :: "string \<Rightarrow> string" where
  "encode_chars s =
     (case s of
        [] \<Rightarrow> []
      | c # cs \<Rightarrow>
          if code c < 0x80 then encode_ascii c @ encode_chars cs
          else if utf8_len s = 0 then u_escape 0xFFFD @ encode_chars cs
          else if take 3 s = utf8 0x2028 then u_escape 0x2028 @ encode_chars (drop 2 cs)
          else if take 3 s = utf8 0x2029 then u_escape 0x2029 @ encode_chars (drop 2 cs)
          else take (utf8_len s) s @ encode_chars (drop (utf8_len s - 1) cs))"
  by pat_completeness auto
termination
  by (relation "measure length") auto

declare encode_chars.simps [simp del]

definition encode_string :: "string \<Rightarrow> string" where
  "encode_string s = CHR 0x22 # encode_chars s @ [CHR 0x22]"

fun str_less :: "string \<Rightarrow> string \<Rightarrow> bool" where
  "str_less s [] = False"
| "str_less [] (c # cs) = True"
| "str_less (a # as) (c # cs) = (code a < code c \<or> a = c \<and> str_less as cs)"

fun insert_member :: "string \<times> string \<Rightarrow> (string \<times> string) list \<Rightarrow> (string \<times> string) list" where
  "insert_member kv [] = [kv]"
| "insert_member kv (x # xs) = (if str_less (fst kv) (fst x) then kv # x # xs else x # insert_member kv xs)"

fun commas :: "string list \<Rightarrow> string" where
  "commas [] = []"
| "commas [s] = s"
| "commas (s # t # ss) = s @ CHR '','' # commas (t # ss)"

fun json_marshal :: "json \<Rightarrow> string" where
  "json_marshal JNull = ''null''"
| "json_marshal (JBool b) = (if b then ''true'' else ''false'')"
| "json_marshal (JNumber n) = (if n = [] then ''0'' else n)"
| "json_marshal (JString s) = encode_string s"
| "json_marshal (JArray es) = CHR ''['' # commas (map json_marshal es) @ '']''"
| "json_marshal (JObject kvs) = CHR ''{'' #
     commas (map (\<lambda>(k, v). encode_string k @ CHR '':'' # v)
       (foldr insert_member (map (\<lambda>(k, v). (k, json_marshal v)) kvs) [])) @ ''}''"

section \<open>The bound on the calls is enough\<close>

lemma length_skip_ws: "length (skip_ws s) \<le> length s"
  by (simp add: skip_ws_def length_dropWhile_le)

lemma skip_ws_Cons: "skip_ws s = c # cs \<Longrightarrow> length cs < length s"
  using length_skip_ws [of s] by simp

lemma length_scan_string: "scan_string s = Some (t, r) \<Longrightarrow> length r < length s"
proof (induction "length s" arbitrary: s t r rule: less_induct)
  case less
  have sub: "length r < length s" if "scan_string s' = Some (t', r)" "length s' < length s" for s' t'
    using less.hyps [OF that(2,1)] that(2) by simp
  show ?case
    using less.prems
    by (subst (asm) scan_string.simps)
      (auto simp: Let_def dest!: sub split: list.splits if_splits option.splits prod.splits)
qed

lemma length_lex_digits: "lex_digits s = Some (t, r) \<Longrightarrow> length r < length s"
proof -
  assume a: "lex_digits s = Some (t, r)"
  then have "length t + length r = length s" "t \<noteq> []"
    by (auto simp: lex_digits_def Let_def split: if_splits simp flip: length_append)
  then show ?thesis by (cases t) auto
qed

lemma length_lex_number: "lex_number s = Some (t, r) \<Longrightarrow> length r < length s"
proof -
  have i: "lex_int a = Some (b, c) \<Longrightarrow> length c < length a" for a b c
    by (auto simp: lex_int_def dest: length_lex_digits split: list.splits if_splits)
  have f: "lex_frac a = Some (b, c) \<Longrightarrow> length c \<le> length a" for a b c
    by (auto simp: lex_frac_def dest!: length_lex_digits split: list.splits if_splits)
  have e: "lex_exp a = Some (b, c) \<Longrightarrow> length c \<le> length a" for a b c
    by (auto simp: lex_exp_def dest!: length_lex_digits split: list.splits if_splits)
  assume "lex_number s = Some (t, r)"
  then show ?thesis
    by (auto simp: lex_number_def dest!: i f e split: list.splits if_splits option.splits prod.splits)
qed

lemma length_parse_key: "parse_key s = Some (k, r) \<Longrightarrow> length r < length s"
  by (auto simp: parse_key_def dest!: skip_ws_Cons length_scan_string split: list.splits if_splits option.splits)

lemma parse_shrinks:
  "parse_value n s = Some (v, r) \<Longrightarrow> length r < length s"
  "parse_elems n vs s = Some (v, r) \<Longrightarrow> length r < length s"
  "parse_members n kvs s = Some (v, r) \<Longrightarrow> length r < length s"
proof (induction n s and n vs s and n kvs s arbitrary: v r and v r and v r rule: parse_value_parse_elems_parse_members.induct)
  case (2 n s)
  then show ?case
    by (auto simp: lex_word_def dest!: skip_ws_Cons length_scan_string length_lex_number split: list.splits if_splits)
      fastforce+
next
  case (4 n acc s)
  from 4(3) obtain w r1 c cs where p: "parse_value n s = Some (w, r1)" "skip_ws r1 = c # cs"
      "c = CHR '','' \<and> parse_elems n (acc @ [w]) cs = Some (v, r) \<or> cs = r"
    by (auto split: option.splits list.splits if_splits)
  have "length r1 < length s" using 4(1) p(1) by blast
  moreover have "length cs < length r1" using p(2) by (rule skip_ws_Cons)
  moreover have "length r \<le> length cs" using 4(2) [OF p(1) refl p(2)] p(3) by fastforce
  ultimately show ?case by simp
next
  case (6 n acc s)
  from 6(3) obtain k ds w r1 c cs where p: "parse_key s = Some (k, ds)" "parse_value n ds = Some (w, r1)" "skip_ws r1 = c # cs"
      "c = CHR '','' \<and> parse_members n (set_key k w acc) cs = Some (v, r) \<or> cs = r"
    by (auto split: option.splits list.splits if_splits)
  have "length r1 < length ds" using 6(1) p(1,2) by blast
  moreover have "length ds < length s" using p(1) by (rule length_parse_key)
  moreover have "length cs < length r1" using p(3) by (rule skip_ws_Cons)
  moreover have "length r \<le> length cs" using 6(2) [OF p(1) refl p(2) refl p(3)] p(4) by fastforce
  ultimately show ?case by simp
qed auto

lemma parse_stable:
  "2 * length s + 1 \<le> n \<Longrightarrow> parse_value (Suc n) s = parse_value n s"
  "2 * length s + 2 \<le> n \<Longrightarrow> parse_elems (Suc n) vs s = parse_elems n vs s"
  "2 * length s + 2 \<le> n \<Longrightarrow> parse_members (Suc n) kvs s = parse_members n kvs s"
proof (induction n s and n vs s and n kvs s rule: parse_value_parse_elems_parse_members.induct)
  case (2 n s)
  show ?case
  proof (cases "skip_ws s")
    case (Cons c cs)
    show ?thesis
    proof (cases "skip_ws cs")
      case Nil
      then show ?thesis using Cons by simp
    next
      case c2: (Cons d ds)
      have "2 * length (d # ds) + 2 \<le> n"
        using skip_ws_Cons [OF Cons] skip_ws_Cons [OF c2] 2(3) by simp
      then show ?thesis
        using 2(1,2) [OF Cons] c2 by (subst (1 2) parse_value.simps) (simp add: Cons)
    qed
  qed simp
next
  case (4 n acc s)
  have v: "parse_value (Suc n) s = parse_value n s" using 4(1,3) by simp
  show ?case
  proof (cases "parse_value n s")
    case None
    then show ?thesis using v by (subst (1 2) parse_elems.simps) simp
  next
    case (Some vr)
    obtain w r where vr: "vr = (w, r)" by (cases vr)
    have "2 * length cs + 2 \<le> n" if "skip_ws r = c # cs" for c cs
      using skip_ws_Cons [OF that] parse_shrinks(1) [of n s w r] Some vr 4(3) by simp
    then show ?thesis
      using 4(2) [OF Some] vr Some v
      by (subst (1 2) parse_elems.simps) (auto split: list.splits)
  qed
next
  case (6 n acc s)
  show ?case
  proof (cases "parse_key s")
    case None
    then show ?thesis by (subst (1 2) parse_members.simps) simp
  next
    case key: (Some kd)
    obtain k ds where kd: "kd = (k, ds)" by (cases kd)
    have ds: "length ds < length s" using length_parse_key key kd by simp
    then have v: "parse_value (Suc n) ds = parse_value n ds" using 6(1) [OF key] 6(3) kd by simp
    show ?thesis
    proof (cases "parse_value n ds")
      case None
      then show ?thesis using v key kd by (subst (1 2) parse_members.simps) simp
    next
      case (Some vr)
      obtain w r where vr: "vr = (w, r)" by (cases vr)
      have "2 * length cs + 2 \<le> n" if "skip_ws r = c # cs" for c cs
        using skip_ws_Cons [OF that] parse_shrinks(1) [of n ds w r] Some vr ds 6(3) by simp
      then show ?thesis
        using 6(2) [OF key kd [symmetric] Some] vr Some v key kd
        by (subst (1 2) parse_members.simps) (auto split: list.splits)
    qed
  qed
qed auto

text \<open>Any larger bound gives the same result as the one \<open>json_decode\<close> uses.\<close>

lemma parse_fuel_enough:
  assumes "2 * length s + 2 \<le> n"
  shows "map_option fst (parse_value n s) = json_decode s"
  using assms by (induction rule: dec_induct) (simp_all add: json_decode_def parse_stable del: parse_value.simps)

end
