(* ===== verification/Json_Wrapper.thy ===== *)
theory Json_Wrapper
  imports Go_Json
begin

text \<open>
  The typed view of decoded JSON, \<open>src/jsonwrapper/jsonwrapper.go\<close>: a \<open>Value\<close> wraps the decoded
  data, an \<open>Object\<close> adds a map from member names to values, and the getters walk a path of member
  names and convert what they find.  As in Go a getter returns a value and an error; on error
  the value is the zero value of its type, which some callers use before they look at the error.
\<close>

section \<open>Values, objects and errors\<close>

datatype json_error =
    ErrNotNull
  | ErrNotArray
  | ErrNotNumber
  | ErrNotBool
  | ErrNotObject
  | ErrNotString
  | KeyNotFoundError string
  | ErrDecode
  | ErrNum num_error

record Value =
  data :: json
  exists :: bool

record Object =
  o_value :: Value
  o_map :: "(string \<times> Value) list"
  o_valid :: bool

definition KeyNotFoundError_Error :: "string \<Rightarrow> string" where
  "KeyNotFoundError_Error key =
     (if key \<noteq> [] then ''key '' @ [CHR 0x27] @ key @ [CHR 0x27] @ '' not found'' else ''key not found'')"

definition Map :: "Object \<Rightarrow> (string \<times> Value) list" where
  "Map v = o_map v"

section \<open>Conversions of a value\<close>

definition Null :: "Value \<Rightarrow> json_error option" where
  "Null v = (let valid = (case data v of JNull \<Rightarrow> exists v | _ \<Rightarrow> False) in
     if valid then None else Some ErrNotNull)"

definition Array :: "Value \<Rightarrow> Value list \<times> json_error option" where
  "Array v = (case data v of
      JArray es \<Rightarrow> (map (\<lambda>e. \<lparr>data = e, exists = True\<rparr>) es, None)
    | _ \<Rightarrow> ([], Some ErrNotArray))"

definition Number :: "Value \<Rightarrow> string \<times> json_error option" where
  "Number v = (case data v of JNumber n \<Rightarrow> (n, None) | _ \<Rightarrow> ([], Some ErrNotNumber))"

text \<open>\<open>json.Number.Float64\<close> is \<open>strconv.ParseFloat\<close>; the float type and its parser are arguments.\<close>

definition Float64 :: "(string \<Rightarrow> 'f \<times> num_error option) \<Rightarrow> 'f \<Rightarrow> Value \<Rightarrow> 'f \<times> json_error option" where
  "Float64 parse_float zero v =
     (case Number v of
        (n, Some e) \<Rightarrow> (zero, Some e)
      | (n, None) \<Rightarrow> map_prod id (map_option ErrNum) (parse_float n))"

definition Int64 :: "Value \<Rightarrow> int \<times> json_error option" where
  "Int64 v =
     (case Number v of
        (n, Some e) \<Rightarrow> (0, Some e)
      | (n, None) \<Rightarrow> map_prod id (map_option ErrNum) (ParseInt n))"

definition Boolean :: "Value \<Rightarrow> bool \<times> json_error option" where
  "Boolean v = (case data v of JBool b \<Rightarrow> (b, None) | _ \<Rightarrow> (False, Some ErrNotBool))"

text \<open>The new object is built with \<open>new(Object)\<close>, so its own field \<open>exists\<close> is false.\<close>

definition as_Object :: "Value \<Rightarrow> json_error + Object" where
  "as_Object v = (case data v of
      JObject kvs \<Rightarrow>
        Inr \<lparr>o_value = \<lparr>data = data v, exists = False\<rparr>,
             o_map = map (\<lambda>(k, e). (k, \<lparr>data = e, exists = True\<rparr>)) kvs, o_valid = True\<rparr>
    | _ \<Rightarrow> Inl ErrNotObject)"

definition as_String :: "Value \<Rightarrow> string \<times> json_error option" where
  "as_String v = (case data v of JString s \<Rightarrow> (s, None) | _ \<Rightarrow> ([], Some ErrNotString))"

definition Interface :: "Value \<Rightarrow> json" where
  "Interface v = data v"

text \<open>\<open>Marshal\<close> of a value and \<open>String\<close> of an object; decoded data always has an encoding.\<close>

definition Marshal :: "Value \<Rightarrow> byte list" where
  "Marshal v = bytes_of_string (json_marshal (data v))"

definition Object_String :: "Object \<Rightarrow> string" where
  "Object_String v = json_marshal (data (o_value v))"

section \<open>Construction\<close>

definition NewValueFromReader :: "string \<Rightarrow> Value \<times> json_error option" where
  "NewValueFromReader input =
     (case json_decode input of
        Some j \<Rightarrow> (\<lparr>data = j, exists = False\<rparr>, None)
      | None \<Rightarrow> (\<lparr>data = JNull, exists = False\<rparr>, Some ErrDecode))"

definition NewValueFromBytes :: "byte list \<Rightarrow> Value \<times> json_error option" where
  "NewValueFromBytes b = NewValueFromReader (string_of_bytes b)"

definition objectFromValue :: "Value \<times> json_error option \<Rightarrow> json_error + Object" where
  "objectFromValue ve = (case ve of (v, Some e) \<Rightarrow> Inl e | (v, None) \<Rightarrow> as_Object v)"

definition NewObjectFromBytes :: "byte list \<Rightarrow> json_error + Object" where
  "NewObjectFromBytes b = objectFromValue (NewValueFromBytes b)"

definition NewObjectFromReader :: "string \<Rightarrow> json_error + Object" where
  "NewObjectFromReader input = objectFromValue (NewValueFromReader input)"

section \<open>Paths\<close>

text \<open>The methods of \<open>Object\<close> reach the path functions through its embedded value.\<close>

definition v_get :: "Value \<Rightarrow> string \<Rightarrow> json_error + Value" where
  "v_get v key =
     (case as_Object v of
        Inr obj \<Rightarrow>
          (case map_of (Map obj) key of
             Some child \<Rightarrow> Inr child
           | None \<Rightarrow> Inl (KeyNotFoundError key))
      | Inl e \<Rightarrow> Inl e)"

fun getPath :: "string list \<Rightarrow> Value \<Rightarrow> json_error + Value" where
  "getPath [] v = Inr v"
| "getPath (key # keys) v = (case v_get v key of Inl e \<Rightarrow> Inl e | Inr child \<Rightarrow> getPath keys child)"

text \<open>The common shape of the getters: walk the path, then convert.\<close>

definition at_path :: "'a \<Rightarrow> (Value \<Rightarrow> 'a \<times> json_error option) \<Rightarrow> Object \<Rightarrow> string list \<Rightarrow> 'a \<times> json_error option" where
  "at_path zero conv v keys = (case getPath keys (o_value v) of Inl e \<Rightarrow> (zero, Some e) | Inr child \<Rightarrow> conv child)"

text \<open>A conversion whose result is dropped on error.\<close>

definition strict :: "'a \<Rightarrow> ('v \<Rightarrow> 'a \<times> json_error option) \<Rightarrow> 'v \<Rightarrow> 'a \<times> json_error option" where
  "strict zero conv v = (case conv v of (x, Some e) \<Rightarrow> (zero, Some e) | (x, None) \<Rightarrow> (x, None))"

text \<open>The loop over the elements of an array.\<close>

definition result :: "'a \<times> json_error option \<Rightarrow> json_error + 'a" where
  "result r = (case r of (x, None) \<Rightarrow> Inr x | (x, Some e) \<Rightarrow> Inl e)"

fun typed_items :: "(Value \<Rightarrow> json_error + 'a) \<Rightarrow> Value list \<Rightarrow> 'a list \<Rightarrow> 'a list \<times> json_error option" where
  "typed_items item [] acc = (rev acc, None)"
| "typed_items item (v # vs) acc =
     (case item v of
        Inl e \<Rightarrow> ([], Some e)
      | Inr x \<Rightarrow> typed_items item vs (x # acc))"

definition typed_array :: "(Value \<Rightarrow> json_error + 'a) \<Rightarrow> Value \<Rightarrow> 'a list \<times> json_error option" where
  "typed_array item child =
     (case Array child of (_, Some e) \<Rightarrow> ([], Some e) | (array, None) \<Rightarrow> typed_items item array [])"

section \<open>Getters\<close>

definition GetValue :: "Object \<Rightarrow> string list \<Rightarrow> json_error + Value" where
  "GetValue v keys = getPath keys (o_value v)"

definition GetObject :: "Object \<Rightarrow> string list \<Rightarrow> json_error + Object" where
  "GetObject v keys = (case getPath keys (o_value v) of Inl e \<Rightarrow> Inl e | Inr child \<Rightarrow> as_Object child)"

definition GetString :: "Object \<Rightarrow> string list \<Rightarrow> string \<times> json_error option" where
  "GetString = at_path [] as_String"

definition GetNull :: "Object \<Rightarrow> string list \<Rightarrow> json_error option" where
  "GetNull v keys = snd (at_path () (\<lambda>c. ((), Null c)) v keys)"

definition GetNumber :: "Object \<Rightarrow> string list \<Rightarrow> string \<times> json_error option" where
  "GetNumber = at_path [] (strict [] Number)"

definition GetFloat64 :: "(string \<Rightarrow> 'f \<times> num_error option) \<Rightarrow> 'f \<Rightarrow> Object \<Rightarrow> string list \<Rightarrow> 'f \<times> json_error option" where
  "GetFloat64 parse_float zero = at_path zero (strict zero (Float64 parse_float zero))"

definition GetInt64 :: "Object \<Rightarrow> string list \<Rightarrow> int \<times> json_error option" where
  "GetInt64 = at_path 0 (strict 0 Int64)"

definition GetInterface :: "Object \<Rightarrow> string list \<Rightarrow> json \<times> json_error option" where
  "GetInterface = at_path JNull (\<lambda>v. (Interface v, None))"

definition GetBoolean :: "Object \<Rightarrow> string list \<Rightarrow> bool \<times> json_error option" where
  "GetBoolean = at_path False Boolean"

definition GetValueArray :: "Object \<Rightarrow> string list \<Rightarrow> Value list \<times> json_error option" where
  "GetValueArray = at_path [] Array"

definition GetObjectArray :: "Object \<Rightarrow> string list \<Rightarrow> Object list \<times> json_error option" where
  "GetObjectArray = at_path [] (typed_array as_Object)"

definition GetStringArray :: "Object \<Rightarrow> string list \<Rightarrow> string list \<times> json_error option" where
  "GetStringArray = at_path [] (typed_array (result \<circ> as_String))"

definition GetNumberArray :: "Object \<Rightarrow> string list \<Rightarrow> string list \<times> json_error option" where
  "GetNumberArray = at_path [] (typed_array (result \<circ> Number))"

definition GetFloat64Array ::
  "(string \<Rightarrow> 'f \<times> num_error option) \<Rightarrow> 'f \<Rightarrow> Object \<Rightarrow> string list \<Rightarrow> 'f list \<times> json_error option" where
  "GetFloat64Array parse_float zero = at_path [] (typed_array (result \<circ> Float64 parse_float zero))"

definition GetInt64Array :: "Object \<Rightarrow> string list \<Rightarrow> int list \<times> json_error option" where
  "GetInt64Array = at_path [] (typed_array (result \<circ> Int64))"

definition GetBooleanArray :: "Object \<Rightarrow> string list \<Rightarrow> bool list \<times> json_error option" where
  "GetBooleanArray = at_path [] (typed_array (result \<circ> Boolean))"

text \<open>The number of nulls; the elements of an array exist, so the test succeeds on them.\<close>

definition GetNullArray :: "Object \<Rightarrow> string list \<Rightarrow> int \<times> json_error option" where
  "GetNullArray v keys =
     (case at_path [] (typed_array (\<lambda>c. result ((), Null c))) v keys of
        (_, Some e) \<Rightarrow> (0, Some e)
      | (us, None) \<Rightarrow> (int (length us), None))"

section \<open>Reference: the document itself\<close>

text \<open>What a path denotes in a JSON document, without wrappers.\<close>

fun json_at :: "string list \<Rightarrow> json \<Rightarrow> json_error + json" where
  "json_at [] j = Inr j"
| "json_at (k # ks) (JObject kvs) =
     (case map_of kvs k of None \<Rightarrow> Inl (KeyNotFoundError k) | Some j \<Rightarrow> json_at ks j)"
| "json_at (k # ks) j = Inl ErrNotObject"

lemma map_of_wrapped:
  "map_of (map (\<lambda>(k, e). (k, f e)) kvs) k = map_option f (map_of kvs k)"
  by (induction kvs) auto

lemma getPath_json_at:
  "getPath keys v = (case json_at keys (data v) of
     Inl e \<Rightarrow> Inl e
   | Inr j \<Rightarrow> Inr \<lparr>data = j, exists = (keys \<noteq> [] \<or> exists v)\<rparr>)"
proof (induction keys arbitrary: v)
  case (Cons k ks)
  show ?case
  proof (cases "data v")
    case (JObject kvs)
    then show ?thesis
      using Cons by (cases "map_of kvs k") (simp_all add: v_get_def as_Object_def Map_def map_of_wrapped split: sum.splits)
  qed (simp_all add: v_get_def as_Object_def)
qed simp

text \<open>An object made from a document denotes the document.\<close>

definition denotes :: "Object \<Rightarrow> json \<Rightarrow> bool" where
  "denotes ob j \<longleftrightarrow> data (o_value ob) = j \<and> \<not> exists (o_value ob)"

lemma NewObjectFromBytes_denotes:
  "NewObjectFromBytes b = Inr ob \<Longrightarrow> \<exists>kvs. json_decode (string_of_bytes b) = Some (JObject kvs) \<and> denotes ob (JObject kvs)"
  by (auto simp: NewObjectFromBytes_def objectFromValue_def NewValueFromBytes_def NewValueFromReader_def
      as_Object_def denotes_def split: option.splits json.splits)

lemma typed_items_eq:
  "typed_items item vs acc = (ys, None) \<longleftrightarrow> (\<exists>xs. map item vs = map Inr xs \<and> ys = rev acc @ xs)"
proof (induction vs arbitrary: acc)
  case (Cons v vs)
  show ?case
  proof (cases "item v")
    case (Inr x)
    then show ?thesis
      using Cons [of "x # acc"] by (auto simp: Cons_eq_map_conv)
  qed auto
qed auto

lemma result_eq: "result r = Inr x \<longleftrightarrow> r = (x, None)"
  by (cases r) (auto simp: result_def split: option.splits)

lemma at_path_eq:
  assumes "denotes ob j"
  shows "at_path zero conv ob keys = (case json_at keys j of
     Inl e \<Rightarrow> (zero, Some e)
   | Inr d \<Rightarrow> conv \<lparr>data = d, exists = (keys \<noteq> [])\<rparr>)"
  using assms by (simp add: at_path_def getPath_json_at denotes_def split: sum.splits)

lemma typed_array_eq:
  "typed_array item v = (xs, None) \<longleftrightarrow>
     (\<exists>es. data v = JArray es \<and> map (\<lambda>e. item \<lparr>data = e, exists = True\<rparr>) es = map Inr xs)"
  by (auto simp: typed_array_def Array_def typed_items_eq comp_def split: json.splits)

lemma map_conv_iff:
  assumes "\<And>e x. f e = Inr x \<longleftrightarrow> e = g x"
  shows "map f es = map Inr xs \<longleftrightarrow> es = map g xs"
  using assms by (auto simp: list_eq_iff_nth_eq)

lemma GetString_denotes:
   "denotes ob j \<Longrightarrow> GetString ob keys = (s, None) \<longleftrightarrow> json_at keys j = Inr (JString s)"
  by (auto simp: GetString_def at_path_eq as_String_def split: sum.splits json.splits)
lemma GetBoolean_denotes:
   "denotes ob j \<Longrightarrow> GetBoolean ob keys = (v, None) \<longleftrightarrow> json_at keys j = Inr (JBool v)"
  by (auto simp: GetBoolean_def at_path_eq Boolean_def split: sum.splits json.splits)

lemma Int64_eq: "Int64 v = (i, None) \<longleftrightarrow> (\<exists>n. data v = JNumber n \<and> ParseInt n = (i, None))"
  by (auto simp: Int64_def Number_def map_prod_def split: json.splits prod.splits)

lemma strict_eq: "strict zero conv v = (x, None) \<longleftrightarrow> conv v = (x, None)"
  by (auto simp: strict_def split: prod.splits option.splits)

lemma GetInt64_denotes:
   "denotes ob j \<Longrightarrow> GetInt64 ob keys = (i, None) \<longleftrightarrow> (\<exists>n. json_at keys j = Inr (JNumber n) \<and> ParseInt n = (i, None))"
  by (auto simp: GetInt64_def at_path_eq strict_eq Int64_eq split: sum.splits)

lemma GetStringArray_denotes:
   "denotes ob j \<Longrightarrow> GetStringArray ob keys = (ss, None) \<longleftrightarrow> json_at keys j = Inr (JArray (map JString ss))"
proof -
  have "map (\<lambda>e. result (as_String \<lparr>data = e, exists = True\<rparr>)) es = map Inr ss \<longleftrightarrow> es = map JString ss" for es
    by (rule map_conv_iff) (auto simp: result_eq as_String_def split: json.splits)
  then show "denotes ob j \<Longrightarrow> ?thesis"
    by (auto simp: GetStringArray_def at_path_eq typed_array_eq split: sum.splits)
qed

lemma GetInt64Array_denotes:
   "denotes ob j \<Longrightarrow> GetInt64Array ob keys = (is, None) \<longleftrightarrow>
       (\<exists>ns. json_at keys j = Inr (JArray (map JNumber ns)) \<and> map ParseInt ns = map (\<lambda>x. (x, None)) is)"
proof -
  have "map (\<lambda>e. result (Int64 \<lparr>data = e, exists = True\<rparr>)) es = map Inr is \<longleftrightarrow>
      (\<exists>ns. es = map JNumber ns \<and> map ParseInt ns = map (\<lambda>x. (x, None)) is)" for es
  proof (induction es arbitrary: "is")
    case (Cons e es)
    show ?case
      by (cases "is") (auto simp: Cons result_eq Int64_eq Cons_eq_map_conv,
          rule exI, rule conjI, rule exI, rule conjI, rule refl, rule refl, simp)
  qed auto
  then show "denotes ob j \<Longrightarrow> ?thesis"
    by (auto simp: GetInt64Array_def at_path_eq typed_array_eq split: sum.splits)
qed

section \<open>Properties\<close>

text \<open>
  C34. The getters read the document: for an object decoded from bytes, a getter returns a value
  without an error exactly when the path leads to a document node of that type, and then it
  returns the contents of that node.  For integers that is a number literal that
  \<open>strconv.ParseInt\<close> accepts, for the array getters an array all of whose elements have the type.
\<close>

theorem getters_read_document:
  assumes "NewObjectFromBytes b = Inr ob" and "json_decode (string_of_bytes b) = Some j"
  shows "(GetString ob keys = (s, None) \<longleftrightarrow> json_at keys j = Inr (JString s)) \<and>
    (GetBoolean ob keys = (v, None) \<longleftrightarrow> json_at keys j = Inr (JBool v)) \<and>
    (GetInt64 ob keys = (i, None) \<longleftrightarrow> (\<exists>n. json_at keys j = Inr (JNumber n) \<and> ParseInt n = (i, None))) \<and>
    (GetStringArray ob keys = (ss, None) \<longleftrightarrow> json_at keys j = Inr (JArray (map JString ss))) \<and>
    (GetInt64Array ob keys = (is, None) \<longleftrightarrow>
       (\<exists>ns. json_at keys j = Inr (JArray (map JNumber ns)) \<and> map ParseInt ns = map (\<lambda>x. (x, None)) is))"
proof -
  have d: "denotes ob j" using NewObjectFromBytes_denotes [OF assms(1)] assms(2) by auto
  show ?thesis
    by (intro conjI GetString_denotes [OF d] GetBoolean_denotes [OF d] GetInt64_denotes [OF d]
        GetStringArray_denotes [OF d] GetInt64Array_denotes [OF d])
qed

text \<open>A document for examples: an object with one member, a number.\<close>

definition sample_doc :: string where
  "sample_doc = ''{'' @ [CHR 0x22] @ ''a'' @ [CHR 0x22] @ '':7}''"

lemma sample_doc_decode: "json_decode sample_doc = Some (JObject [(''a'', JNumber ''7'')])"
  by (simp add: json_decode_def sample_doc_def numeral_eq_Suc skip_ws_def is_space_def parse_key_def
      scan_string.simps utf8_len_def code_def lex_number_def lex_int_def lex_digits_def lex_frac_def
      lex_exp_def is_digit_def char_digit_def Let_def)

theorem getters_read_document_witness:
  "\<exists>ob. NewObjectFromBytes (bytes_of_string sample_doc) = Inr ob \<and> GetInt64 ob [''a''] = (7, None)"
proof -
  have dec: "json_decode (string_of_bytes (bytes_of_string sample_doc)) = Some (JObject [(''a'', JNumber ''7'')])"
    by (simp add: sample_doc_decode)
  then obtain ob where ob: "NewObjectFromBytes (bytes_of_string sample_doc) = Inr ob"
    by (simp add: NewObjectFromBytes_def objectFromValue_def NewValueFromBytes_def NewValueFromReader_def as_Object_def)
  have "ParseInt ''7'' = (7, None)"
    by (simp add: ParseInt_def ParseUint_def char_digit_def Let_def)
  then show ?thesis
    using getters_read_document [OF ob dec, of "[''a'']" _ _ 7] ob by auto
qed

end
