(* ===== verification/Config.thy ===== *)
theory Config
  imports Json_Wrapper "HOL-Library.Multiset"
begin

text \<open>
  The configuration, \<open>src/conf/config.go\<close>: defaults, command-line flags, the JSON file, and the
  getters the other packages call.  The package variables are one record.  The file system is an
  argument: what \<open>ioutil.ReadDir\<close> and \<open>ioutil.ReadFile\<close> return.  \<open>range\<close> over a Go map visits the
  keys in an arbitrary order, which is an argument too.
\<close>

section \<open>State\<close>

text \<open>Values stored in an \<open>interface{}\<close> carry their type; \<open>==\<close> on them compares it as well.\<close>

datatype dyn = D_int int | D_int64 int | D_uint uint

record conf =
  supported_messages :: "dyn list option"
  path_conf :: string
  bind_port :: string
  grandma_name :: string
  cluster_mode :: bool
  queue_length :: int
  slave_list :: "string list option"
  region_list :: "string list option"
  ws_slave_list :: "string list option"
  ttl_max :: int
  network_port :: string
  network_secret :: string
  rest_secret :: string

datatype conf_error =
    ErrorInvalidSettings
  | ErrorNotSupportMessageType
  | ErrorNoConfigFileFound
  | ErrorParsingConfigFile
  | ErrorUnknownConfigKey
  | Err_Json json_error
  | Err_IO

definition DEFAULT_CONF_NAME :: string where "DEFAULT_CONF_NAME = ''grandma.conf''"
definition DEFAULT_BIND_PORT :: string where "DEFAULT_BIND_PORT = ''443''"
definition DEFAULT_GRANDMA_NAME :: string where "DEFAULT_GRANDMA_NAME = ''Grandma-Sharon''"
definition DEFAULT_MSG_START_TYPE :: int where "DEFAULT_MSG_START_TYPE = 100"
definition DEFAULT_MSG_END_TYPE :: int where "DEFAULT_MSG_END_TYPE = 109"
definition DEFAULT_QUEUE_LENGTH :: int where "DEFAULT_QUEUE_LENGTH = 1000"
definition DEFAULT_NETWORK_SECRET :: string where "DEFAULT_NETWORK_SECRET = ''GrandmaService''"
definition DEFAULT_REST_SECRET :: string where "DEFAULT_REST_SECRET = ''GrandmaSecret''"
definition DEFAULT_NETWORK_PORT :: string where "DEFAULT_NETWORK_PORT = ''12345''"

text \<open>The variables as the package initialises them.\<close>

definition initial_conf :: conf where
  "initial_conf = \<lparr>supported_messages = None, path_conf = DEFAULT_CONF_NAME, bind_port = DEFAULT_BIND_PORT,
     grandma_name = DEFAULT_GRANDMA_NAME, cluster_mode = False, queue_length = DEFAULT_QUEUE_LENGTH,
     slave_list = None, region_list = None, ws_slave_list = None, ttl_max = 30 * 24 * 60 * 60 * 1000,
     network_port = DEFAULT_NETWORK_PORT, network_secret = DEFAULT_NETWORK_SECRET,
     rest_secret = DEFAULT_REST_SECRET\<rparr>"

section \<open>Message types\<close>

definition setDefault :: "conf \<Rightarrow> conf" where
  "setDefault c = c\<lparr>supported_messages :=
     Some (map D_int [DEFAULT_MSG_START_TYPE..DEFAULT_MSG_END_TYPE - 1])\<rparr>"

fun check_loop :: "uint \<Rightarrow> dyn list \<Rightarrow> bool \<times> conf_error option" where
  "check_loop t [] = (False, Some ErrorNotSupportMessageType)"
| "check_loop t (e # es) = (if D_uint t = e then (True, None) else check_loop t es)"

definition CheckMsgType :: "conf \<Rightarrow> uint \<Rightarrow> bool \<times> conf_error option" where
  "CheckMsgType c msg_type =
     (case supported_messages c of
        None \<Rightarrow> (False, Some ErrorInvalidSettings)
      | Some es \<Rightarrow> check_loop msg_type es)"

section \<open>Command line\<close>

text \<open>
  \<open>flag.Parse\<close>: an argument starts with one or two dashes; a string flag takes its value after
  an equals sign or from the next argument; the boolean flag \<open>v\<close> needs none; the first other
  argument, or a lone double dash, ends the flags.  \<open>None\<close> is the exit with status 2.
\<close>

record flags =
  f_c :: string
  f_p :: string
  f_np :: string
  f_n :: string
  f_v :: bool

definition ParseBool :: "string \<Rightarrow> bool option" where
  "ParseBool s =
     (if s \<in> {''1'', ''t'', ''T'', ''true'', ''TRUE'', ''True''} then Some True
      else if s \<in> {''0'', ''f'', ''F'', ''false'', ''FALSE'', ''False''} then Some False
      else None)"

definition set_flag :: "string \<Rightarrow> string \<Rightarrow> flags \<Rightarrow> flags option" where
  "set_flag name v fl =
     (if name = ''c'' then Some (fl\<lparr>f_c := v\<rparr>)
      else if name = ''p'' then Some (fl\<lparr>f_p := v\<rparr>)
      else if name = ''np'' then Some (fl\<lparr>f_np := v\<rparr>)
      else if name = ''n'' then Some (fl\<lparr>f_n := v\<rparr>)
      else if name = ''v'' then map_option (\<lambda>b. fl\<lparr>f_v := b\<rparr>) (ParseBool v)
      else None)"

definition flag_body :: "string \<Rightarrow> string option" where
  "flag_body s = (case s of
      a # b # rest \<Rightarrow>
        if a \<noteq> CHR ''-'' then None
        else if b = CHR ''-'' then (if rest = [] then None else Some rest)
        else Some (b # rest)
    | _ \<Rightarrow> None)"

definition bad_name :: "string \<Rightarrow> bool" where
  "bad_name s \<longleftrightarrow> s = [] \<or> hd s = CHR ''-'' \<or> hd s = CHR ''=''"

fun parse_flags :: "string list \<Rightarrow> flags \<Rightarrow> flags option" where
  "parse_flags [] fl = Some fl"
| "parse_flags (a # args) fl =
     (case flag_body a of
        None \<Rightarrow> Some fl
      | Some s \<Rightarrow>
          if bad_name s then None
          else let name = takeWhile (\<lambda>ch. ch \<noteq> CHR ''='') s in
            if length name < length s then
              (case set_flag name (drop (length name + 1) s) fl of None \<Rightarrow> None | Some fl' \<Rightarrow> parse_flags args fl')
            else if name = ''v'' then parse_flags args (fl\<lparr>f_v := True\<rparr>)
            else (case args of
                    [] \<Rightarrow> None
                  | v # args' \<Rightarrow>
                      (case set_flag name v fl of None \<Rightarrow> None | Some fl' \<Rightarrow> parse_flags args' fl')))"

definition ReadFlags :: "string list \<Rightarrow> conf \<Rightarrow> (bool \<times> conf) option" where
  "ReadFlags args c =
     map_option (\<lambda>fl. (\<not> f_v fl, c\<lparr>path_conf := f_c fl, bind_port := f_p fl, network_port := f_np fl, grandma_name := f_n fl\<rparr>))
       (parse_flags args \<lparr>f_c = [], f_p = DEFAULT_BIND_PORT, f_np = DEFAULT_NETWORK_PORT,
                          f_n = DEFAULT_GRANDMA_NAME, f_v = False\<rparr>)"

section \<open>Getters\<close>

definition GetPort :: "conf \<Rightarrow> string" where "GetPort c = CHR '':'' # bind_port c"
definition GetNetworkPort :: "conf \<Rightarrow> string" where "GetNetworkPort c = CHR '':'' # network_port c"
definition GetClusterMode :: "conf \<Rightarrow> bool" where "GetClusterMode c = cluster_mode c"
definition GetSlaveList :: "conf \<Rightarrow> string list option" where "GetSlaveList c = slave_list c"
definition GetRegionList :: "conf \<Rightarrow> string list option" where "GetRegionList c = region_list c"
definition GetNetworkSecret :: "conf \<Rightarrow> string" where "GetNetworkSecret c = network_secret c"
definition GetRestSecret :: "conf \<Rightarrow> string" where "GetRestSecret c = rest_secret c"
definition GetQueueLength :: "conf \<Rightarrow> int" where "GetQueueLength c = queue_length c"
definition GetGrandmaName :: "conf \<Rightarrow> string" where "GetGrandmaName c = grandma_name c"

section \<open>The configuration file\<close>

text \<open>The assignment precedes the test of the error where the source has it in that order.\<close>

fun push_types :: "int list \<Rightarrow> dyn list \<Rightarrow> conf_error option \<times> dyn list" where
  "push_types [] acc = (None, acc)"
| "push_types (e # es) acc =
     (if e > DEFAULT_MSG_END_TYPE \<or> e < DEFAULT_MSG_START_TYPE then (Some ErrorUnknownConfigKey, acc)
      else push_types es (acc @ [D_int64 e]))"

definition setKey :: "string \<Rightarrow> Object \<Rightarrow> conf \<Rightarrow> conf_error option \<times> conf" where
  "setKey key obj c =
     (if key = ''msg_type'' then
        (case GetInt64Array obj [''msg_type''] of
           (_, Some e) \<Rightarrow> (Some (Err_Json e), c)
         | (xs, None) \<Rightarrow> (case push_types xs [] of (err, l) \<Rightarrow> (err, c\<lparr>supported_messages := Some l\<rparr>)))
      else if key = ''bind_port'' then
        (if bind_port c \<noteq> DEFAULT_BIND_PORT then (None, c)
         else (case GetString obj [''bind_port''] of (d, err) \<Rightarrow> (map_option Err_Json err, c\<lparr>bind_port := d\<rparr>)))
      else if key = ''name'' then
        (if grandma_name c \<noteq> DEFAULT_GRANDMA_NAME then (None, c)
         else (case GetString obj [''name''] of (d, err) \<Rightarrow> (map_option Err_Json err, c\<lparr>grandma_name := d\<rparr>)))
      else if key = ''network_port'' then
        (if network_port c \<noteq> DEFAULT_NETWORK_PORT then (None, c)
         else (case GetString obj [''network_port''] of (d, err) \<Rightarrow> (map_option Err_Json err, c\<lparr>network_port := d\<rparr>)))
      else if key = ''secret'' then
        (case GetString obj [''secret''] of (d, err) \<Rightarrow> (map_option Err_Json err, c\<lparr>network_secret := d\<rparr>))
      else if key = ''ttl_max'' then
        (case GetInt64 obj [''ttl_max''] of (d, err) \<Rightarrow> (map_option Err_Json err, c\<lparr>ttl_max := d\<rparr>))
      else if key = ''slave_list'' then
        (case GetStringArray obj [''slave_list''] of (ds, err) \<Rightarrow> (map_option Err_Json err, c\<lparr>slave_list := Some ds\<rparr>))
      else if key = ''cluster_mode'' then
        (case GetBoolean obj [''cluster_mode''] of (d, err) \<Rightarrow> (map_option Err_Json err, c\<lparr>cluster_mode := d\<rparr>))
      else if key = ''queue_length'' then
        (case GetInt64 obj [''queue_length''] of
           (_, Some e) \<Rightarrow> (Some (Err_Json e), c)
         | (d, None) \<Rightarrow>
             if d > 1000000 \<or> d < 10 then (Some ErrorInvalidSettings, c) else (None, c\<lparr>queue_length := d\<rparr>))
      else if key = ''rest_secret'' then
        (case GetString obj [''rest_secret''] of
           (_, Some e) \<Rightarrow> (Some (Err_Json e), c)
         | (d, None) \<Rightarrow> (None, c\<lparr>rest_secret := d\<rparr>))
      else (Some ErrorUnknownConfigKey, c))"

fun setKeys :: "string list \<Rightarrow> Object \<Rightarrow> conf \<Rightarrow> conf_error option \<times> conf" where
  "setKeys [] obj c = (None, c)"
| "setKeys (key # keys) obj c =
     (case setKey key obj c of
        (Some e, c') \<Rightarrow> (Some ErrorInvalidSettings, c')
      | (None, c') \<Rightarrow> setKeys keys obj c')"

record filesys =
  ReadDir :: "string list option"
  ReadFile :: "string \<Rightarrow> byte list option"

text \<open>\<open>order\<close> arranges the keys of the map in the order in which \<open>range\<close> visits them.\<close>

definition readConfigFromFile ::
  "filesys \<Rightarrow> (string list \<Rightarrow> string list) \<Rightarrow> conf \<Rightarrow> conf_error option \<times> conf" where
  "readConfigFromFile fs order c0 =
     (let c = setDefault c0;
          load = (\<lambda>c. case ReadFile fs (path_conf c) of
             None \<Rightarrow> (Some Err_IO, c)
           | Some content \<Rightarrow>
               (case NewObjectFromBytes content of
                  Inl _ \<Rightarrow> (Some ErrorParsingConfigFile, c)
                | Inr obj \<Rightarrow> setKeys (order (map fst (Map obj))) obj c))
      in if path_conf c = [] then
           (case ReadDir fs of
              None \<Rightarrow> (Some Err_IO, c)
            | Some names \<Rightarrow>
                if DEFAULT_CONF_NAME \<in> set names then load (c\<lparr>path_conf := DEFAULT_CONF_NAME\<rparr>)
                else (None, c))
         else load c)"

fun conf_error_text :: "conf_error \<Rightarrow> string" where
  "conf_error_text ErrorInvalidSettings = ''Invalid settings read from config file''"
| "conf_error_text ErrorNotSupportMessageType = ''Message type not supported''"
| "conf_error_text ErrorNoConfigFileFound = ''Can not find config file''"
| "conf_error_text ErrorParsingConfigFile = ''Error parsing config file''"
| "conf_error_text ErrorUnknownConfigKey = ''Invalid setting key in config file''"
| "conf_error_text (Err_Json _) = ''json error''"
| "conf_error_text Err_IO = ''file error''"

definition Configure :: "filesys \<Rightarrow> (string list \<Rightarrow> string list) \<Rightarrow> conf \<Rightarrow> conf go" where
  "Configure fs order c =
     (case readConfigFromFile fs order c of
        (None, c') \<Rightarrow> Ret c'
      | (Some e, c') \<Rightarrow> Panic (Explicit_Panic (conf_error_text e)))"

section \<open>Invariant\<close>

text \<open>What every configuration that the program runs with satisfies.\<close>

fun type_entry_ok :: "dyn \<Rightarrow> bool" where
  "type_entry_ok (D_int t) = (100 \<le> t \<and> t \<le> 109)"
| "type_entry_ok (D_int64 t) = (100 \<le> t \<and> t \<le> 109)"
| "type_entry_ok (D_uint t) = False"

definition conf_inv :: "conf \<Rightarrow> bool" where
  "conf_inv c \<longleftrightarrow> 10 \<le> queue_length c \<and> queue_length c \<le> 1000000 \<and>
     (\<forall>es. supported_messages c = Some es \<longrightarrow> list_all type_entry_ok es)"

lemma push_types_ok: "list_all type_entry_ok acc \<Longrightarrow> list_all type_entry_ok (snd (push_types xs acc))"
  by (induction xs arbitrary: acc) (auto simp: DEFAULT_MSG_END_TYPE_def DEFAULT_MSG_START_TYPE_def)

lemma setKey_inv:
  assumes "conf_inv c"
  shows "conf_inv (snd (setKey key obj c))"
proof (cases "key = ''msg_type''")
  case True
  then show ?thesis
    using assms push_types_ok [of "[]"]
    by (auto simp: setKey_def conf_inv_def split: prod.splits option.splits) (metis list.pred_inject(1) snd_conv)
next
  case False
  then show ?thesis
    using assms by (auto simp: setKey_def conf_inv_def split: prod.splits option.splits)
qed

lemma setDefault_inv: "10 \<le> queue_length c \<Longrightarrow> queue_length c \<le> 1000000 \<Longrightarrow> conf_inv (setDefault c)"
  by (auto simp: conf_inv_def setDefault_def list_all_iff DEFAULT_MSG_END_TYPE_def DEFAULT_MSG_START_TYPE_def)

lemma conf_inv_path [simp]: "conf_inv (c\<lparr>path_conf := p\<rparr>) = conf_inv c"
  by (simp add: conf_inv_def)

text \<open>A rule for properties that the default, the path and every assignment of a key keep.\<close>

lemma readConfig_keeps:
  assumes r: "readConfigFromFile fs order c = (e, c')" and "P (setDefault c)"
    and "\<And>x p. P x \<Longrightarrow> P (x\<lparr>path_conf := p\<rparr>)" and key: "\<And>x k obj. P x \<Longrightarrow> P (snd (setKey k obj x))"
  shows "P c'"
proof -
  have keys: "P (snd (setKeys ks obj x))" if "P x" for ks obj x
    using that
  proof (induction ks arbitrary: x)
    case (Cons k ks)
    then show ?case
      using key [of x k obj] by (auto split: prod.splits option.splits)
  qed simp
  have "P (snd (e, c'))"
    unfolding r [symmetric] using assms(2,3) keys
    by (auto simp: readConfigFromFile_def Let_def split: option.splits sum.splits)
  then show ?thesis by simp
qed

text \<open>Command-line values survive the file.\<close>

lemma setKey_keeps_ports:
  "bind_port c \<noteq> DEFAULT_BIND_PORT \<Longrightarrow> bind_port (snd (setKey k obj c)) = bind_port c"
  "network_port c \<noteq> DEFAULT_NETWORK_PORT \<Longrightarrow> network_port (snd (setKey k obj c)) = network_port c"
  "grandma_name c \<noteq> DEFAULT_GRANDMA_NAME \<Longrightarrow> grandma_name (snd (setKey k obj c)) = grandma_name c"
  by (auto simp: setKey_def split: prod.splits option.splits)

lemma Configure_Ret: "Configure fs order c = Ret c' \<longleftrightarrow> readConfigFromFile fs order c = (None, c')"
  by (auto simp: Configure_def split: prod.splits option.splits)

lemma setDefault_keeps [simp]:
  "bind_port (setDefault c) = bind_port c" "network_port (setDefault c) = network_port c"
  "grandma_name (setDefault c) = grandma_name c" "queue_length (setDefault c) = queue_length c"
  by (simp_all add: setDefault_def)

lemma ReadFlags_queue_length: "ReadFlags args c = Some (b, c1) \<Longrightarrow> queue_length c1 = queue_length c"
  by (auto simp: ReadFlags_def)

lemma Configure_inv:
  assumes "Configure fs order c = Ret c'" and "10 \<le> queue_length c" and "queue_length c \<le> 1000000"
  shows "conf_inv c'"
proof -
  have "readConfigFromFile fs order c = (None, c')" using assms(1) by (simp add: Configure_Ret)
  then show ?thesis
    by (rule readConfig_keeps) (simp_all add: setDefault_inv assms(2,3) setKey_inv)
qed

lemma check_loop_False:
  "list_all type_entry_ok es \<Longrightarrow> check_loop t es = (False, Some ErrorNotSupportMessageType)"
  by (induction es) auto

section \<open>Properties\<close>

text \<open>
  C35. Whatever the command line and the configuration file say, a program that gets past
  \<open>Configure\<close> has a queue length between 10 and 1000000 and a list of message types all between
  100 and 109.
\<close>

theorem configured_ranges:
  assumes "ReadFlags args initial_conf = Some (True, c)" and "Configure fs order c = Ret c'"
  shows "10 \<le> GetQueueLength c' \<and> GetQueueLength c' \<le> 1000000 \<and>
    (\<forall>es. supported_messages c' = Some es \<longrightarrow> list_all type_entry_ok es)"
proof -
  have "queue_length c = 1000"
    using ReadFlags_queue_length [OF assms(1)] by (simp add: initial_conf_def DEFAULT_QUEUE_LENGTH_def)
  then show ?thesis
    using Configure_inv [OF assms(2)] by (simp add: conf_inv_def GetQueueLength_def)
qed

definition no_files :: filesys where
  "no_files = \<lparr>ReadDir = Some [], ReadFile = (\<lambda>_. None)\<rparr>"

theorem configured_ranges_witness:
  "\<exists>c c'. ReadFlags [] initial_conf = Some (True, c) \<and> Configure no_files id c = Ret c' \<and> GetQueueLength c' \<le> 1000000"
proof -
  obtain c where c: "ReadFlags [] initial_conf = Some (True, c)" "path_conf c = []"
    by (simp add: ReadFlags_def)
  then have "Configure no_files id c = Ret (setDefault c)"
    by (simp add: Configure_def readConfigFromFile_def setDefault_def no_files_def DEFAULT_CONF_NAME_def)
  then show ?thesis using configured_ranges [OF c(1)] c(1) by blast
qed

text \<open>
  The command line takes precedence over the file: a port, a network port or a name given
  as a flag and different from the default is what the program uses, whatever the file
  contains.
\<close>

lemma flags_take_precedence:
  assumes "ReadFlags args initial_conf = Some (True, c)" and "Configure fs order c = Ret c'"
  shows "(bind_port c \<noteq> DEFAULT_BIND_PORT \<longrightarrow> GetPort c' = CHR '':'' # bind_port c) \<and>
    (network_port c \<noteq> DEFAULT_NETWORK_PORT \<longrightarrow> GetNetworkPort c' = CHR '':'' # network_port c) \<and>
    (grandma_name c \<noteq> DEFAULT_GRANDMA_NAME \<longrightarrow> GetGrandmaName c' = grandma_name c)"
proof -
  have r: "readConfigFromFile fs order c = (None, c')" using assms(2) by (simp add: Configure_Ret)
  have "bind_port c' = bind_port c" if "bind_port c \<noteq> DEFAULT_BIND_PORT"
    by (rule readConfig_keeps [OF r, of "\<lambda>x. bind_port x = bind_port c"]) (simp_all add: setKey_keeps_ports that)
  moreover have "network_port c' = network_port c" if "network_port c \<noteq> DEFAULT_NETWORK_PORT"
    by (rule readConfig_keeps [OF r, of "\<lambda>x. network_port x = network_port c"]) (simp_all add: setKey_keeps_ports that)
  moreover have "grandma_name c' = grandma_name c" if "grandma_name c \<noteq> DEFAULT_GRANDMA_NAME"
    by (rule readConfig_keeps [OF r, of "\<lambda>x. grandma_name x = grandma_name c"]) (simp_all add: setKey_keeps_ports that)
  ultimately show ?thesis
    by (auto simp: GetPort_def GetNetworkPort_def GetGrandmaName_def)
qed

text \<open>
  \<open>CheckMsgType\<close> rejects every message type under every configuration: the list holds values
  of type \<open>int\<close> or \<open>int64\<close>, and Go's comparison of an interface with a \<open>uint\<close> is false when the
  dynamic type differs, whatever the number.
\<close>

lemma CheckMsgType_rejects_all:
  assumes "ReadFlags args initial_conf = Some (True, c)" and "Configure fs order c = Ret c'"
  shows "fst (CheckMsgType c' t) = False"
proof -
  have "queue_length c = 1000"
    using ReadFlags_queue_length [OF assms(1)] by (simp add: initial_conf_def DEFAULT_QUEUE_LENGTH_def)
  then have "conf_inv c'" using Configure_inv [OF assms(2)] by simp
  then show ?thesis
    by (auto simp: CheckMsgType_def conf_inv_def check_loop_False split: option.splits)
qed

end
