(* ===== verification/Messages.thy ===== *)
theory Messages
  imports Go_Crypto
begin

text \<open>
  Message objects: \<open>src/message/message.go\<close> and \<open>src/message/utils.go\<close>.  Construction with
  validation, hashing, and the text payload that the master sends to a slave and the slave
  parses back.
\<close>

section \<open>Message objects\<close>

record Obj =
  MessageType :: int
  Endpoint :: string
  MessageBody :: string
  Expiration :: int

datatype message_error =
    ErrorInvalidType
  | ErrorExpirationTooBig
  | ErrorNegativeExpiration
  | ErrorNoEndpoint
  | ErrorAlgorithmNotSupported

definition S_DELETE_MESSAGE :: int where "S_DELETE_MESSAGE = 100"
definition S_APNS_NOTIFICATION :: int where "S_APNS_NOTIFICATION = 101"
definition S_GCM_NOTIFICATION :: int where "S_GCM_NOTIFICATION = 102"
definition S_BAIDU_NOTIFICATION :: int where "S_BAIDU_NOTIFICATION = 103"
definition S_TOPIC_NOTIFICATION :: int where "S_TOPIC_NOTIFICATION = 104"
definition S_WEBSOCKET_NOTIFICATION :: int where "S_WEBSOCKET_NOTIFICATION = 105"
definition S_EMAIL_NOTIFICATION :: int where "S_EMAIL_NOTIFICATION = 106"
definition S_REST_NOTIFICATION :: int where "S_REST_NOTIFICATION = 107"
definition S_RABBITMQ_NOTIFICATION :: int where "S_RABBITMQ_NOTIFICATION = 108"
definition S_SMS_NOTIFICATION :: int where "S_SMS_NOTIFICATION = 109"

definition S_ALG_SHA1 :: int where "S_ALG_SHA1 = 201"
definition S_ALG_SHA256 :: int where "S_ALG_SHA256 = 202"
definition S_ALG_MD5 :: int where "S_ALG_MD5 = 203"

lemmas message_types = S_DELETE_MESSAGE_def S_APNS_NOTIFICATION_def S_GCM_NOTIFICATION_def
  S_BAIDU_NOTIFICATION_def S_TOPIC_NOTIFICATION_def S_WEBSOCKET_NOTIFICATION_def
  S_EMAIL_NOTIFICATION_def S_REST_NOTIFICATION_def S_RABBITMQ_NOTIFICATION_def
  S_SMS_NOTIFICATION_def

definition NewMessageObject ::
  "int \<Rightarrow> string \<Rightarrow> string \<Rightarrow> int \<Rightarrow> message_error + Obj" where
  "NewMessageObject msg_type endpoint msg_body exp_time =
     (if length endpoint < 1 then Inl ErrorNoEndpoint
      else if exp_time > 90 * 24 * 60 * 60 * 1000 then Inl ErrorExpirationTooBig
      else if exp_time < 0 then Inl ErrorNegativeExpiration
      else if msg_type > 109 \<or> msg_type < 100 then Inl ErrorInvalidType
      else Inr \<lparr>MessageType = msg_type, Endpoint = endpoint, MessageBody = msg_body,
                Expiration = exp_time\<rparr>)"

text \<open>What the validation accepts.\<close>

definition valid_obj :: "Obj \<Rightarrow> bool" where
  "valid_obj m \<longleftrightarrow> Endpoint m \<noteq> [] \<and> 0 \<le> Expiration m \<and> Expiration m \<le> 7776000000 \<and>
     100 \<le> MessageType m \<and> MessageType m \<le> 109"

section \<open>Hashing\<close>

definition getMD5Hash :: "string \<Rightarrow> string" where
  "getMD5Hash t = hex_encode (md5 (bytes_of_string t))"

definition getSHA1Hash :: "string \<Rightarrow> string" where
  "getSHA1Hash t = hex_encode (sha1 (bytes_of_string t))"

definition getSHA256Hash :: "string \<Rightarrow> string" where
  "getSHA256Hash t = hex_encode (sha256 (bytes_of_string t))"

definition GetMessageHashing :: "Obj \<Rightarrow> int \<Rightarrow> message_error + string" where
  "GetMessageHashing m algorithm =
     (if algorithm = S_ALG_MD5 then Inr (getMD5Hash (Endpoint m @ [newline] @ MessageBody m))
      else if algorithm = S_ALG_SHA1 then Inr (getSHA1Hash (Endpoint m @ [newline] @ MessageBody m))
      else if algorithm = S_ALG_SHA256 then Inr (getSHA256Hash (Endpoint m @ [newline] @ MessageBody m))
      else Inl ErrorAlgorithmNotSupported)"

section \<open>Payloads\<close>

definition GetMessagePayload :: "Obj \<Rightarrow> byte list" where
  "GetMessagePayload m = bytes_of_string
     (Itoa (MessageType m) @ [newline] @ Endpoint m @ [newline] @ MessageBody m @ [newline] @
      Itoa (Expiration m))"

text \<open>
  The four indexed reads panic on a payload with fewer than four lines; the parse errors of the
  two numbers are discarded.
\<close>

definition NewMessageFromPayload :: "byte list \<Rightarrow> (message_error + Obj) go" where
  "NewMessageFromPayload payload =
     (let message_str = go_split newline (string_of_bytes payload) in
      go_bind (slice_get message_str 0) (\<lambda>s0.
      go_bind (slice_get message_str 1) (\<lambda>s1.
      go_bind (slice_get message_str 2) (\<lambda>s2.
      go_bind (slice_get message_str 3) (\<lambda>s3.
      Ret (NewMessageObject (fst (ParseInt s0)) s1 s2 (fst (ParseInt s3))))))))"

section \<open>Lemmas\<close>

lemma NewMessageObject_Inr_iff:
  "NewMessageObject t e b x = Inr m \<longleftrightarrow>
     m = \<lparr>MessageType = t, Endpoint = e, MessageBody = b, Expiration = x\<rparr> \<and> valid_obj m"
  by (auto simp: NewMessageObject_def valid_obj_def Suc_le_eq)

lemma NewMessageObject_valid [simp]:
  "valid_obj m \<Longrightarrow> NewMessageObject (MessageType m) (Endpoint m) (MessageBody m) (Expiration m) = Inr m"
  by (simp add: NewMessageObject_Inr_iff)

lemma NewMessageObject_body: "NewMessageObject t e b x = Inr m \<Longrightarrow> MessageBody m = b"
  by (simp add: NewMessageObject_Inr_iff)

lemma valid_obj_int64: "valid_obj m \<Longrightarrow> is_int64 (MessageType m) \<and> is_int64 (Expiration m)"
  by (simp add: valid_obj_def is_int64_def)

lemma payload_split:
  assumes "newline \<notin> set (Endpoint m)"
  shows "go_split newline (string_of_bytes (GetMessagePayload m)) =
     Itoa (MessageType m) # Endpoint m # go_split newline (MessageBody m @ [newline] @ Itoa (Expiration m))"
  using assms by (simp add: GetMessagePayload_def go_split_append_sep Itoa_no_newline)

lemma payload_read:
  assumes "is_int64 (MessageType m)" and "is_int64 (Expiration m)"
    and "newline \<notin> set (Endpoint m)" and "newline \<notin> set (MessageBody m)"
  shows "NewMessageFromPayload (GetMessagePayload m) =
     Ret (NewMessageObject (MessageType m) (Endpoint m) (MessageBody m) (Expiration m))"
  using assms
  by (simp add: NewMessageFromPayload_def payload_split go_split_append_sep go_split_no_sep
      Itoa_no_newline slice_get_def Let_def)

section \<open>Properties\<close>

text \<open>
  C22. The payload is a faithful wire format for messages without line breaks: every valid
  message whose endpoint and body contain no newline is reconstructed exactly by the slave from
  the bytes the master sends.
\<close>

theorem payload_roundtrip:
  assumes "valid_obj m" and "newline \<notin> set (Endpoint m)" and "newline \<notin> set (MessageBody m)"
  shows "NewMessageFromPayload (GetMessagePayload m) = Ret (Inr m)"
  using payload_read [of m] assms valid_obj_int64 [OF assms(1)] by simp

definition sample_obj :: Obj where
  "sample_obj = \<lparr>MessageType = 107, Endpoint = ''POST http://x y'', MessageBody = ''hello'', Expiration = 60000\<rparr>"

theorem payload_roundtrip_witness:
  "NewMessageFromPayload (GetMessagePayload sample_obj) = Ret (Inr sample_obj)"
  by (rule payload_roundtrip) (simp_all add: sample_obj_def valid_obj_def)

text \<open>
  A body with a line break does not survive: the slave keeps the text up to the first
  newline as the body and parses the following line of the body as the expiration time (zero
  when it is not a number), so the message it schedules is never the one the master accepted.
\<close>

lemma payload_newline_corrupts:
  assumes "valid_obj m" and "newline \<notin> set (Endpoint m)"
    and "MessageBody m = b1 @ newline # b2" and "newline \<notin> set b1"
  shows "NewMessageFromPayload (GetMessagePayload m) =
           Ret (NewMessageObject (MessageType m) (Endpoint m) b1
                 (fst (ParseInt (hd (go_split newline (b2 @ [newline] @ Itoa (Expiration m))))))) \<and>
         NewMessageFromPayload (GetMessagePayload m) \<noteq> Ret (Inr m)"
proof -
  let ?rest = "go_split newline (b2 @ [newline] @ Itoa (Expiration m))"
  have "go_split newline (string_of_bytes (GetMessagePayload m)) =
      Itoa (MessageType m) # Endpoint m # b1 # ?rest"
    using assms by (simp add: payload_split go_split_append_sep)
  moreover have "?rest \<noteq> []" by simp
  ultimately have eq: "NewMessageFromPayload (GetMessagePayload m) =
      Ret (NewMessageObject (MessageType m) (Endpoint m) b1 (fst (ParseInt (hd ?rest))))"
    using valid_obj_int64 [OF assms(1)]
    by (cases ?rest) (simp_all add: NewMessageFromPayload_def slice_get_def Let_def)
  moreover have "MessageBody m \<noteq> b1" using assms(3) by simp
  ultimately show ?thesis by (auto dest: NewMessageObject_body)
qed

text \<open>
  Validation: \<open>NewMessageObject\<close> returns an object exactly when the endpoint is not empty,
  the expiration lies between zero and ninety days and the type is one of the ten message types;
  the object carries the arguments unchanged, and every rejection names the first failing check.
\<close>

lemma NewMessageObject_spec:
  "NewMessageObject t e b x =
     (if valid_obj \<lparr>MessageType = t, Endpoint = e, MessageBody = b, Expiration = x\<rparr>
      then Inr \<lparr>MessageType = t, Endpoint = e, MessageBody = b, Expiration = x\<rparr>
      else Inl (if e = [] then ErrorNoEndpoint
                else if 90 * 86400000 < x then ErrorExpirationTooBig
                else if x < 0 then ErrorNegativeExpiration
                else ErrorInvalidType))"
  by (auto simp: NewMessageObject_def valid_obj_def Suc_le_eq)

end
