(* ===== verification/Keystore.thy ===== *)
theory Keystore
  imports Go_Prelude
begin

text \<open>
  The in-memory schedule store of \<open>src/schedule/keystore.go\<close>: \<open>data_map\<close> sends a slot of one
  tenth of a second to the list of schedule ids due in it, \<open>time_table\<close> sends an id to its slot,
  and one read-write mutex guards both.  \<open>now\<close> is \<open>time.Now().UnixNano() / 1000000\<close>, the wall
  clock in milliseconds.  A \<open>chan bool\<close> is represented by its address, a number.

  The two maps are inverse views of one relation; the invariant says so and every operation keeps
  it.  The timer and the scheduler rely on
  the invariant and on the laws of \<open>put\<close> and of the removal of a slot.
\<close>

section \<open>State\<close>

record Schedule =
  Id :: int
  Exp :: int
  Signal :: nat

record keystore =
  data_map :: "int \<rightharpoonup> int list"
  time_table :: "int \<rightharpoonup> int"
  store_mutex :: rwmutex

datatype keystore_error = ErrorInvalidScheduleObj

definition empty_keystore :: keystore where
  "empty_keystore = \<lparr>data_map = Map.empty, time_table = Map.empty, store_mutex = free_mutex\<rparr>"

text \<open>\<open>UnixNano\<close> is an \<open>int64\<close>, so the millisecond clock is below \<open>2 ^ 63 div 10 ^ 6\<close>.\<close>

definition valid_now :: "int \<Rightarrow> bool" where
  "valid_now now \<longleftrightarrow> 0 \<le> now \<and> now \<le> 9223372036854"

section \<open>Operations\<close>

definition max_delay :: int where
  "max_delay = 60 * 60 * 24 * 30 * 1000"

definition clamp_exp :: "Schedule \<Rightarrow> Schedule" where
  "clamp_exp s = (if Exp s > max_delay then s\<lparr>Exp := max_delay\<rparr> else s)"

definition due_slot :: "int \<Rightarrow> Schedule \<Rightarrow> int" where
  "due_slot now s = go_quot (wrap64 (Exp (clamp_exp s) + now)) 100"

text \<open>
  Taking an id out of its old slot.  The loop over the \<open>container/list\<close> removes the first
  element equal to the id; a removed element has no successor, so the loop ends there.  A slot
  that became empty is deleted.  Iterating over a nil list dereferences nil.
\<close>

definition unlink :: "int \<Rightarrow> int \<Rightarrow> (int \<rightharpoonup> int list) \<Rightarrow> (int \<rightharpoonup> int list) go" where
  "unlink t i dm =
     (case dm t of
        None \<Rightarrow> Panic Nil_Deref
      | Some temp_l \<Rightarrow>
          let l = remove1 i temp_l in
          Ret (if l = [] then dm(t := None) else dm(t \<mapsto> l)))"

definition put :: "int \<Rightarrow> Schedule option \<Rightarrow> keystore \<Rightarrow>
    (keystore_error option \<times> Schedule option \<times> keystore) go" where
  "put now so ks =
     (case so of
        None \<Rightarrow> Ret (Some ErrorInvalidScheduleObj, None, ks)
      | Some s0 \<Rightarrow>
          let s = clamp_exp s0;
              ex = due_slot now s0
          in go_bind (mu_Lock (store_mutex ks)) (\<lambda>m.
             let t = time_table ks (Id s);
                 dmok = (data_map ks ex \<noteq> None)
             in go_bind (case t of None \<Rightarrow> Ret (data_map ks) | Some t' \<Rightarrow> unlink t' (Id s) (data_map ks)) (\<lambda>dm1.
                let dm2 = (if dmok then dm1 else dm1(ex \<mapsto> []));
                    tt = (time_table ks)(Id s \<mapsto> ex)
                in case dm2 ex of
                     None \<Rightarrow> Panic Nil_Deref
                   | Some l \<Rightarrow>
                       go_bind (mu_Unlock m) (\<lambda>m'.
                       Ret (None, Some s,
                            ks\<lparr>data_map := dm2(ex \<mapsto> l @ [Id s]), time_table := tt, store_mutex := m'\<rparr>)))))"

text \<open>\<open>get\<close> allocates a new channel, at address \<open>ch\<close>, for the schedule it returns.\<close>

definition get :: "nat \<Rightarrow> int \<Rightarrow> keystore \<Rightarrow> (Schedule option \<times> keystore) go" where
  "get ch i ks =
     go_bind (mu_RLock (store_mutex ks)) (\<lambda>m.
     let t = time_table ks i in
     go_bind (mu_RUnlock m) (\<lambda>m'.
     Ret (case t of None \<Rightarrow> None | Some t' \<Rightarrow> Some \<lparr>Id = i, Exp = t', Signal = ch\<rparr>,
          ks\<lparr>store_mutex := m'\<rparr>)))"

text \<open>
  \<open>getAll\<close> returns from inside the read lock when the table is empty.  \<open>keys\<close> is the order in
  which \<open>range\<close> visits the table; the new channels have the addresses from \<open>ch\<close> on.
\<close>

fun collect :: "(int \<rightharpoonup> int) \<Rightarrow> nat \<Rightarrow> int list \<Rightarrow> Schedule list" where
  "collect tt ch [] = []"
| "collect tt ch (k # ks) =
     \<lparr>Id = k, Exp = (case tt k of None \<Rightarrow> 0 | Some t \<Rightarrow> t), Signal = ch\<rparr> # collect tt (Suc ch) ks"

definition getAll :: "nat \<Rightarrow> int list \<Rightarrow> keystore \<Rightarrow> (Schedule list option \<times> keystore) go" where
  "getAll ch keys ks =
     go_bind (mu_RLock (store_mutex ks)) (\<lambda>m.
     if length keys = 0 then Ret (None, ks\<lparr>store_mutex := m\<rparr>)
     else go_bind (mu_RUnlock m) (\<lambda>m'.
          Ret (Some (collect (time_table ks) ch keys), ks\<lparr>store_mutex := m'\<rparr>)))"

text \<open>The two deletions that the timer performs on the maps, without the mutex.\<close>

definition forget_id :: "int \<Rightarrow> keystore \<Rightarrow> keystore" where
  "forget_id i ks = ks\<lparr>time_table := (time_table ks)(i := None)\<rparr>"

definition drop_slot :: "int \<Rightarrow> keystore \<Rightarrow> keystore" where
  "drop_slot t ks = ks\<lparr>data_map := (data_map ks)(t := None)\<rparr>"

section \<open>Invariant\<close>

definition ks_inv :: "keystore \<Rightarrow> bool" where
  "ks_inv ks \<longleftrightarrow> store_mutex ks = free_mutex \<and>
     (\<forall>i t. time_table ks i = Some t \<longleftrightarrow> (\<exists>l. data_map ks t = Some l \<and> i \<in> set l)) \<and>
     (\<forall>t l. data_map ks t = Some l \<longrightarrow> l \<noteq> [] \<and> distinct l)"

text \<open>The ids waiting in a slot.\<close>

definition ids_at :: "keystore \<Rightarrow> int \<Rightarrow> int list" where
  "ids_at ks t = (case data_map ks t of None \<Rightarrow> [] | Some l \<Rightarrow> l)"

text \<open>
  The only state in which \<open>put\<close> fails: the id is already scheduled, alone, in the slot it is
  rescheduled to.
\<close>

definition put_collides :: "int \<Rightarrow> Schedule \<Rightarrow> keystore \<Rightarrow> bool" where
  "put_collides now s ks \<longleftrightarrow> data_map ks (due_slot now s) = Some [Id s]"

section \<open>Lemmas\<close>

lemma ks_inv_empty: "ks_inv empty_keystore"
  by (simp add: ks_inv_def empty_keystore_def)

lemma ks_inv_mutex: "ks_inv ks \<Longrightarrow> store_mutex ks = free_mutex"
  by (simp add: ks_inv_def)

lemma ks_inv_time_table:
  "ks_inv ks \<Longrightarrow> time_table ks i = Some t \<longleftrightarrow> i \<in> set (ids_at ks t)"
  by (cases "data_map ks t") (simp_all add: ks_inv_def ids_at_def)

lemma ks_inv_unique_slot:
  "ks_inv ks \<Longrightarrow> i \<in> set (ids_at ks t) \<Longrightarrow> i \<in> set (ids_at ks t') \<Longrightarrow> t = t'"
  using ks_inv_time_table by (metis option.inject)

lemma Id_clamp_exp [simp]: "Id (clamp_exp s) = Id s"
  by (simp add: clamp_exp_def)

lemma due_slot_eq:
  assumes "valid_now now" and "0 \<le> Exp s"
  shows "due_slot now s = (min (Exp s) max_delay + now) div 100"
proof -
  have "is_int64 (min (Exp s) max_delay + now)" "0 \<le> min (Exp s) max_delay + now"
    using assms by (auto simp: is_int64_def valid_now_def max_delay_def)
  moreover have "Exp (clamp_exp s) = min (Exp s) max_delay"
    by (simp add: clamp_exp_def)
  ultimately show ?thesis
    by (simp add: due_slot_def)
qed

text \<open>The store after the id has been taken out of its old slot.\<close>

definition unlinked :: "int \<Rightarrow> keystore \<Rightarrow> int \<rightharpoonup> int list" where
  "unlinked i ks = (case time_table ks i of
      None \<Rightarrow> data_map ks
    | Some t \<Rightarrow> let l = remove1 i (ids_at ks t) in
        if l = [] then (data_map ks)(t := None) else (data_map ks)(t \<mapsto> l))"

lemma unlink_ok:
  assumes "ks_inv ks"
  shows "(case time_table ks i of None \<Rightarrow> Ret (data_map ks) | Some t \<Rightarrow> unlink t i (data_map ks)) =
     Ret (unlinked i ks)"
proof (cases "time_table ks i")
  case (Some t)
  then obtain l where "data_map ks t = Some l"
    using assms by (auto simp: ks_inv_def)
  then show ?thesis
    using Some by (simp add: unlink_def unlinked_def ids_at_def Let_def)
qed (simp add: unlinked_def)

lemma unlinked_at:
  assumes "ks_inv ks"
  shows "unlinked i ks t =
     (if filter (\<lambda>x. x \<noteq> i) (ids_at ks t) = [] then None else Some (filter (\<lambda>x. x \<noteq> i) (ids_at ks t)))"
proof -
  have absent: "filter (\<lambda>x. x \<noteq> i) (ids_at ks u) = ids_at ks u" if "time_table ks i \<noteq> Some u" for u
    using ks_inv_time_table [OF assms, of i u] that by (simp add: filter_id_conv) metis
  have same: "data_map ks u = (if ids_at ks u = [] then None else Some (ids_at ks u))" for u
    using assms by (auto simp: ids_at_def ks_inv_def split: option.splits)
  have "distinct (ids_at ks u)" for u
    using assms by (auto simp: ids_at_def ks_inv_def split: option.splits)
  then have rem: "remove1 i (ids_at ks u) = filter (\<lambda>x. x \<noteq> i) (ids_at ks u)" for u
    by (simp add: distinct_remove1_removeAll removeAll_filter_not_eq eq_commute)
  show ?thesis
  proof (cases "time_table ks i")
    case None
    then show ?thesis using absent [of t] same [of t] by (simp add: unlinked_def)
  next
    case (Some u)
    then show ?thesis
      using absent [of t] same [of t] by (auto simp: unlinked_def Let_def rem)
  qed
qed

text \<open>The data map after a successful \<open>put\<close>: the id has moved to the end of its new slot.\<close>

definition moved :: "int \<Rightarrow> int \<Rightarrow> keystore \<Rightarrow> int \<Rightarrow> int list" where
  "moved i ex ks t = filter (\<lambda>x. x \<noteq> i) (ids_at ks t) @ (if t = ex then [i] else [])"

lemma put_ok:
  assumes inv: "ks_inv ks" and nc: "\<not> put_collides now s ks"
  shows "\<exists>ks'. put now (Some s) ks = Ret (None, Some (clamp_exp s), ks') \<and>
     store_mutex ks' = free_mutex \<and>
     time_table ks' = (time_table ks)(Id s \<mapsto> due_slot now s) \<and>
     data_map ks' = (\<lambda>t. if moved (Id s) (due_slot now s) ks t = [] then None
                          else Some (moved (Id s) (due_slot now s) ks t))"
proof -
  let ?ex = "due_slot now s" and ?i = "Id s"
  let ?dm1 = "unlinked ?i ks"
  let ?dm2 = "if data_map ks ?ex \<noteq> None then ?dm1 else ?dm1(?ex \<mapsto> [])"
  have inv': "data_map ks t = Some l \<Longrightarrow> l \<noteq> [] \<and> distinct l" for t l
    using inv by (simp add: ks_inv_def)
  have dm2: "?dm2 ?ex = Some (filter (\<lambda>x. x \<noteq> ?i) (ids_at ks ?ex))"
  proof (cases "data_map ks ?ex")
    case None
    then show ?thesis by (simp add: ids_at_def)
  next
    case (Some l)
    have "filter (\<lambda>x. x \<noteq> ?i) l \<noteq> []"
    proof
      assume "filter (\<lambda>x. x \<noteq> ?i) l = []"
      then have "l = [?i]"
        using inv' [OF Some] by (cases l; cases "tl l") (auto split: if_splits)
      then show False using nc Some by (simp add: put_collides_def)
    qed
    then show ?thesis using Some by (simp add: unlinked_at [OF inv] ids_at_def)
  qed
  let ?ks' = "ks\<lparr>data_map := ?dm2(?ex \<mapsto> filter (\<lambda>x. x \<noteq> ?i) (ids_at ks ?ex) @ [?i]),
      time_table := (time_table ks)(?i \<mapsto> ?ex), store_mutex := free_mutex\<rparr>"
  have "put now (Some s) ks = Ret (None, Some (clamp_exp s), ?ks')"
    using dm2
    by (cases "data_map ks ?ex") (simp_all add: put_def Let_def ks_inv_mutex [OF inv] unlink_ok [OF inv])
  moreover have "data_map ?ks' = (\<lambda>t. if moved ?i ?ex ks t = [] then None else Some (moved ?i ?ex ks t))"
    by (auto simp: fun_eq_iff moved_def unlinked_at [OF inv])
  ultimately show ?thesis by (intro exI [of _ ?ks']) simp
qed

lemma put_inv:
  assumes inv: "ks_inv ks" and "put now (Some s) ks = Ret (e, s', ks')" and "\<not> put_collides now s ks"
  shows "ks_inv ks'"
proof -
  let ?m = "moved (Id s) (due_slot now s) ks"
  obtain ks'' where p: "put now (Some s) ks = Ret (None, Some (clamp_exp s), ks'')"
    and m: "store_mutex ks'' = free_mutex"
    and tt: "time_table ks'' = (time_table ks)(Id s \<mapsto> due_slot now s)"
    and dm: "data_map ks'' = (\<lambda>t. if ?m t = [] then None else Some (?m t))"
    using put_ok [OF inv assms(3)] by blast
  have d: "distinct (ids_at ks t)" for t
    using inv by (auto simp: ids_at_def ks_inv_def split: option.splits)
  have mem: "i \<in> set (?m t) \<longleftrightarrow> (if i = Id s then t = due_slot now s else i \<in> set (ids_at ks t))" for i t
    by (auto simp: moved_def)
  have "time_table ks'' i = Some t \<longleftrightarrow> (\<exists>l. data_map ks'' t = Some l \<and> i \<in> set l)" for i t
    using mem [of i t] ks_inv_time_table [OF inv, of i t] by (auto simp: tt dm split: if_splits)
  moreover have "distinct (?m t)" for t
    using d [of t] by (simp add: moved_def)
  ultimately have "ks_inv ks''"
    using m by (auto simp: ks_inv_def dm split: if_splits)
  then show ?thesis using assms(2) p by simp
qed

lemma put_panics:
  assumes inv: "ks_inv ks" and "put_collides now s ks"
  shows "put now (Some s) ks = Panic Nil_Deref"
proof -
  have l: "data_map ks (due_slot now s) = Some [Id s]"
    using assms(2) by (simp add: put_collides_def)
  then have "time_table ks (Id s) = Some (due_slot now s)"
    using inv by (auto simp: ks_inv_def)
  then show ?thesis
    using l by (simp add: put_def Let_def ks_inv_mutex [OF inv] unlink_def)
qed

lemma store_mutex_self [simp]: "store_mutex ks = m \<Longrightarrow> ks\<lparr>store_mutex := m\<rparr> = ks"
  by (cases ks) simp

lemma get_ok:
  "store_mutex ks = free_mutex \<Longrightarrow> get ch i ks =
     Ret (map_option (\<lambda>t. \<lparr>Id = i, Exp = t, Signal = ch\<rparr>) (time_table ks i), ks)"
  by (cases "time_table ks i") (simp_all add: get_def Let_def)

section \<open>Properties\<close>


definition sample_store :: keystore where
  "sample_store = \<lparr>data_map = [17 \<mapsto> [1, 2]], time_table = [1 \<mapsto> 17, 2 \<mapsto> 17], store_mutex = free_mutex\<rparr>"

lemma sample_store_inv: "ks_inv sample_store"
  by (auto simp: ks_inv_def sample_store_def)


text \<open>
  Reading the empty table leaks the read lock: \<open>getAll\<close> on a store without schedules returns
  nil with the mutex still held for reading, and from then on every \<open>put\<close> blocks for ever.
\<close>

lemma getAll_empty_blocks_put:
  "\<exists>ks'. getAll ch [] empty_keystore = Ret (None, ks') \<and> put now (Some s) ks' = Hang"
  by (simp add: getAll_def empty_keystore_def put_def Let_def mu_Lock_def)

end
