(* ===== verification/Timer.thy ===== *)
theory Timer
  imports Keystore "HOL-Library.Multiset"
begin

text \<open>
  The ticking loop of \<open>src/schedule/timer.go\<close>.  Every sixty milliseconds the loop advances its
  own clock by sixty-two and looks up the slot of that clock; every 501st tick it is set back to
  the wall clock minus one second.  When the slot holds schedules, a goroutine sends each of them
  to the sending queue and removes it from the store.

  \<open>tickingFunc\<close> is modelled with that goroutine running to completion before the next tick.
  \<open>ch\<close> is the address of the next unused channel.
\<close>

section \<open>The loop\<close>

record timer =
  counter :: int
  current_time :: int

definition breakpoint :: int where
  "breakpoint = 500"

text \<open>The package variables at start-up: both zero.\<close>

definition init_timer :: timer where
  "init_timer = \<lparr>counter = 0, current_time = 0\<rparr>"

definition advance :: "int \<Rightarrow> timer \<Rightarrow> timer" where
  "advance now tm =
     (if counter tm = breakpoint
      then tm\<lparr>counter := 0, current_time := wrap64 (now - 1000)\<rparr>
      else tm\<lparr>counter := wrap64 (counter tm + 1), current_time := wrap64 (current_time tm + 62)\<rparr>)"

definition tick_slot :: "timer \<Rightarrow> int" where
  "tick_slot tm = go_quot (current_time tm) 100"

fun fire_loop :: "nat \<Rightarrow> int list \<Rightarrow> keystore \<Rightarrow> (Schedule list \<times> keystore) go" where
  "fire_loop ch [] ks = Ret ([], ks)"
| "fire_loop ch (i # l) ks =
     go_bind (get ch i ks) (\<lambda>(so, ks1).
       case so of
         None \<Rightarrow> Panic Nil_Deref
       | Some s \<Rightarrow>
           go_bind (fire_loop (Suc ch) l (forget_id (Id s) ks1)) (\<lambda>(ss, ks2). Ret (s # ss, ks2)))"

definition tickingFunc :: "int \<Rightarrow> nat \<Rightarrow> timer \<times> keystore \<Rightarrow> (Schedule list \<times> timer \<times> keystore) go" where
  "tickingFunc now ch st =
     (let tm = advance now (fst st); ks = snd st in
      case data_map ks (tick_slot tm) of
        None \<Rightarrow> Ret ([], tm, ks)
      | Some l \<Rightarrow>
          go_bind (fire_loop ch l ks) (\<lambda>(ss, ks').
          Ret (ss, tm, drop_slot (tick_slot tm) ks')))"

text \<open>The clock readings of successive ticks, and the timer after each of them.\<close>

fun ticks :: "int list \<Rightarrow> timer \<Rightarrow> timer list" where
  "ticks [] tm = []"
| "ticks (now # nows) tm = advance now tm # ticks nows (advance now tm)"

text \<open>Runs of the scheduler: insertions and ticks in any order.\<close>

datatype sched_event = Put_Event int Schedule | Tick_Event int

fun sched_run :: "nat \<Rightarrow> sched_event list \<Rightarrow> timer \<times> keystore \<Rightarrow> (int list \<times> timer \<times> keystore) go" where
  "sched_run ch [] st = Ret ([], st)"
| "sched_run ch (Put_Event now s # evs) st =
     go_bind (put now (Some s) (snd st)) (\<lambda>(e, s', ks). sched_run ch evs (fst st, ks))"
| "sched_run ch (Tick_Event now # evs) st =
     go_bind (tickingFunc now ch st) (\<lambda>(ss, st').
     go_bind (sched_run (ch + length ss) evs st') (\<lambda>(ids, st''). Ret (map Id ss @ ids, st'')))"

fun put_ids :: "sched_event list \<Rightarrow> int list" where
  "put_ids [] = []"
| "put_ids (Put_Event now s # evs) = Id s # put_ids evs"
| "put_ids (Tick_Event now # evs) = put_ids evs"

section \<open>Firing a slot\<close>

lemma map_Id_collect [simp]: "map Id (collect tt ch l) = l"
  by (induction l arbitrary: ch) simp_all

lemma forget_id_simps [simp]:
  "time_table (forget_id i ks) = (time_table ks)(i := None)"
  "data_map (forget_id i ks) = data_map ks"
  "store_mutex (forget_id i ks) = store_mutex ks"
  by (simp_all add: forget_id_def)

lemma collect_cong:
  "(\<And>i. i \<in> set l \<Longrightarrow> tt i = tt' i) \<Longrightarrow> collect tt ch l = collect tt' ch l"
  by (induction l arbitrary: ch) simp_all

lemma fire_loop_ok:
  assumes "store_mutex ks = free_mutex" and "distinct l" and "\<forall>i \<in> set l. time_table ks i = Some t"
  shows "fire_loop ch l ks =
     Ret (collect (time_table ks) ch l, ks\<lparr>time_table := time_table ks |` (- set l)\<rparr>)"
  using assms
proof (induction l arbitrary: ch ks)
  case (Cons i l)
  let ?ks = "forget_id i ks"
  have IH: "fire_loop (Suc ch) l ?ks =
      Ret (collect (time_table ?ks) (Suc ch) l, ?ks\<lparr>time_table := time_table ?ks |` (- set l)\<rparr>)"
    using Cons.prems by (intro Cons.IH) auto
  have "collect (time_table ?ks) (Suc ch) l = collect (time_table ks) (Suc ch) l"
    using Cons.prems by (intro collect_cong) auto
  moreover have "?ks\<lparr>time_table := time_table ?ks |` (- set l)\<rparr> =
      ks\<lparr>time_table := time_table ks |` (- set (i # l))\<rparr>"
    by (simp add: forget_id_def restrict_map_def fun_eq_iff)
  ultimately show ?case
    using Cons.prems IH by (simp add: get_ok)
qed (simp add: restrict_map_def)

lemma tickingFunc_ok:
  assumes inv: "ks_inv ks"
  shows "\<exists>ks'. tickingFunc now ch (tm, ks) =
           Ret (collect (time_table ks) ch (ids_at ks (tick_slot (advance now tm))), advance now tm, ks') \<and>
         ks_inv ks' \<and>
         (\<forall>t. ids_at ks' t = (if t = tick_slot (advance now tm) then [] else ids_at ks t))"
proof (cases "data_map ks (tick_slot (advance now tm))")
  case None
  then show ?thesis
    using inv by (auto simp: tickingFunc_def Let_def ids_at_def)
next
  case (Some l)
  let ?sl = "tick_slot (advance now tm)"
  let ?ks' = "drop_slot ?sl (ks\<lparr>time_table := time_table ks |` (- set l)\<rparr>)"
  have l: "distinct l" "\<forall>i \<in> set l. time_table ks i = Some ?sl"
    using inv Some by (auto simp: ks_inv_def)
  have run: "tickingFunc now ch (tm, ks) = Ret (collect (time_table ks) ch l, advance now tm, ?ks')"
    using fire_loop_ok [OF ks_inv_mutex [OF inv] l, of ch] Some by (simp add: tickingFunc_def Let_def)
  have tt: "time_table ?ks' i = Some t \<longleftrightarrow> t \<noteq> ?sl \<and> time_table ks i = Some t" for i t
    using ks_inv_time_table [OF inv, of i ?sl] Some
    by (auto simp: drop_slot_def restrict_map_def ids_at_def)
  have "time_table ?ks' i = Some t \<longleftrightarrow> (\<exists>m. data_map ?ks' t = Some m \<and> i \<in> set m)" for i t
    unfolding tt using inv by (simp add: drop_slot_def ks_inv_def)
  then have "ks_inv ?ks'"
    using inv by (auto simp: ks_inv_def drop_slot_def)
  moreover have "ids_at ?ks' t = (if t = ?sl then [] else ids_at ks t)" for t
    by (simp add: ids_at_def drop_slot_def)
  ultimately show ?thesis
    using run Some by (auto simp: ids_at_def)
qed

text \<open>The ids stored anywhere.\<close>

lemma dom_time_table: "ks_inv ks \<Longrightarrow> i \<in> dom (time_table ks) \<longleftrightarrow> (\<exists>t. i \<in> set (ids_at ks t))"
  using ks_inv_time_table by fastforce

lemma tick_time_table:
  assumes "ks_inv ks" and "tickingFunc now ch (tm, ks) = Ret (ss, tm', ks')"
  shows "ks_inv ks' \<and> distinct (map Id ss) \<and> set (map Id ss) \<subseteq> dom (time_table ks) \<and>
     dom (time_table ks') = dom (time_table ks) - set (map Id ss)"
proof -
  let ?sl = "tick_slot (advance now tm)"
  have "distinct (ids_at ks ?sl)"
    using assms(1) by (auto simp: ids_at_def ks_inv_def split: option.splits)
  moreover have "set (ids_at ks ?sl) \<subseteq> dom (time_table ks)"
    using dom_time_table [OF assms(1)] by blast
  moreover obtain ks'' where "ss = collect (time_table ks) ch (ids_at ks ?sl)" "ks' = ks''" "ks_inv ks''"
      "\<forall>t. ids_at ks'' t = (if t = ?sl then [] else ids_at ks t)"
    using tickingFunc_ok [OF assms(1), of now ch tm] assms(2) by auto
  moreover from this have "i \<in> dom (time_table ks') \<longleftrightarrow> i \<in> dom (time_table ks) \<and> i \<notin> set (ids_at ks ?sl)" for i
    using ks_inv_unique_slot [OF assms(1), of i ?sl]
    unfolding dom_time_table [OF assms(1)] by (subst dom_time_table) (auto, metis)
  then have "dom (time_table ks') = dom (time_table ks) - set (ids_at ks ?sl)"
    by blast
  ultimately show ?thesis by simp
qed

lemma put_fresh:
  assumes "ks_inv ks" and "Id s \<notin> dom (time_table ks)"
  shows "\<exists>ks'. put now (Some s) ks = Ret (None, Some (clamp_exp s), ks') \<and> ks_inv ks' \<and>
     dom (time_table ks') = insert (Id s) (dom (time_table ks))"
proof -
  have nc: "\<not> put_collides now s ks"
    using ks_inv_time_table [OF assms(1), of "Id s" "due_slot now s"] assms(2)
    by (auto simp: put_collides_def ids_at_def)
  show ?thesis
    using put_ok [OF assms(1) nc] put_inv [OF assms(1) _ nc] by fastforce
qed

lemma sched_run_conserves:
  assumes "ks_inv ks" and "distinct (put_ids evs)" and "set (put_ids evs) \<inter> dom (time_table ks) = {}"
  shows "\<exists>ids tm' ks'. sched_run ch evs (tm, ks) = Ret (ids, tm', ks') \<and> ks_inv ks' \<and>
     distinct ids \<and> set ids \<inter> dom (time_table ks') = {} \<and>
     set ids \<union> dom (time_table ks') = dom (time_table ks) \<union> set (put_ids evs)"
  using assms
proof (induction evs arbitrary: ch tm ks)
  case (Cons ev evs)
  show ?case
  proof (cases ev)
    case (Put_Event now s)
    obtain ks1 where p: "put now (Some s) ks = Ret (None, Some (clamp_exp s), ks1)" "ks_inv ks1"
        "dom (time_table ks1) = insert (Id s) (dom (time_table ks))"
      using put_fresh [OF Cons.prems(1), of s now] Cons.prems(3) Put_Event by auto
    then show ?thesis
      using Cons.IH [of ks1 ch tm] Cons.prems Put_Event by auto
  next
    case (Tick_Event now)
    obtain ss tm1 ks1 where t: "tickingFunc now ch (tm, ks) = Ret (ss, tm1, ks1)"
      using tickingFunc_ok [OF Cons.prems(1)] by blast
    have k: "ks_inv ks1" "distinct (map Id ss)" "set (map Id ss) \<subseteq> dom (time_table ks)"
        "dom (time_table ks1) = dom (time_table ks) - set (map Id ss)"
      using tick_time_table [OF Cons.prems(1) t] by blast+
    obtain ids tm' ks' where r: "sched_run (ch + length ss) evs (tm1, ks1) = Ret (ids, tm', ks')"
        "ks_inv ks'" "distinct ids" "set ids \<inter> dom (time_table ks') = {}"
        "set ids \<union> dom (time_table ks') = dom (time_table ks1) \<union> set (put_ids evs)"
      using Cons.IH [of ks1 "ch + length ss" tm1] Cons.prems k Tick_Event
      by (simp add: disjoint_iff) blast
    have "sched_run ch (ev # evs) (tm, ks) = Ret (map Id ss @ ids, tm', ks')"
      using t r(1) Tick_Event by simp
    moreover have "set (put_ids evs) \<inter> dom (time_table ks) = {}"
      using Cons.prems(3) Tick_Event by simp
    then have disj: "set (map Id ss) \<inter> (set ids \<union> dom (time_table ks')) = {}"
      unfolding r(5) k(4) using k(3) by blast
    have "set (map Id ss) \<union> (set ids \<union> dom (time_table ks')) = dom (time_table ks) \<union> set (put_ids (ev # evs))"
      unfolding r(5) k(4) using k(3) Tick_Event by auto
    then have "set (map Id ss @ ids) \<union> dom (time_table ks') = dom (time_table ks) \<union> set (put_ids (ev # evs))"
      by (simp add: Un_assoc)
    moreover have "distinct (map Id ss @ ids)" "set (map Id ss @ ids) \<inter> dom (time_table ks') = {}"
      using disj k(2) r(3,4) by auto
    ultimately show ?thesis
      using r(2) by blast
  qed
qed auto

section \<open>The clock of the loop\<close>

text \<open>Clock values for which no addition of the loop can overflow.\<close>

definition sane_clock :: "int \<Rightarrow> bool" where
  "sane_clock c \<longleftrightarrow> 0 \<le> c \<and> c \<le> 2 ^ 62"

lemma length_ticks [simp]: "length (ticks nows tm) = length nows"
  by (induction nows arbitrary: tm) simp_all

lemma ticks_append: "ticks (xs @ ys) tm = ticks xs tm @ ticks ys (last (tm # ticks xs tm))"
  by (induction xs arbitrary: tm) simp_all

lemma advance_sync:
  "counter tm = 500 \<Longrightarrow> valid_now now \<Longrightarrow> advance now tm = tm\<lparr>counter := 0, current_time := now - 1000\<rparr>"
  by (simp add: advance_def breakpoint_def is_int64_def valid_now_def)

lemma advance_step:
  "0 \<le> counter tm \<Longrightarrow> counter tm < 500 \<Longrightarrow> - 1000 \<le> current_time tm \<Longrightarrow> current_time tm \<le> 2 ^ 62 \<Longrightarrow>
   advance now tm = tm\<lparr>counter := counter tm + 1, current_time := current_time tm + 62\<rparr>"
  by (simp add: advance_def breakpoint_def is_int64_def)

lemma ticks_nth:
  assumes "0 \<le> counter tm" and "counter tm + int (length nows) \<le> 500"
    and "- 1000 \<le> current_time tm" and "current_time tm + 62 * int (length nows) \<le> 2 ^ 62"
    and "k < length nows"
  shows "ticks nows tm ! k =
     tm\<lparr>counter := counter tm + int k + 1, current_time := current_time tm + 62 * (int k + 1)\<rparr>"
  using assms
proof (induction nows arbitrary: tm k)
  case (Cons now nows)
  let ?tm = "tm\<lparr>counter := counter tm + 1, current_time := current_time tm + 62\<rparr>"
  have adv: "advance now tm = ?tm"
    using Cons.prems by (intro advance_step) auto
  show ?case
  proof (cases k)
    case 0
    then show ?thesis using adv by simp
  next
    case (Suc j)
    have "ticks nows ?tm ! j =
        ?tm\<lparr>counter := counter ?tm + int j + 1, current_time := current_time ?tm + 62 * (int j + 1)\<rparr>"
      using Cons.prems Suc by (intro Cons.IH) auto
    then show ?thesis using adv Suc by (simp add: algebra_simps)
  qed
qed simp

text \<open>A period: the resynchronising tick at wall clock \<open>T\<close> and the 500 ticks that follow.\<close>

lemma period_nth:
  assumes "counter tm = 500" and "valid_now T" and "length nows \<le> 500" and "k \<le> length nows"
  shows "ticks (T # nows) tm ! k = tm\<lparr>counter := int k, current_time := T - 1000 + 62 * int k\<rparr>"
proof (cases k)
  case 0
  then show ?thesis using advance_sync [OF assms(1,2)] by simp
next
  case (Suc j)
  let ?tm = "tm\<lparr>counter := 0, current_time := T - 1000\<rparr>"
  have "ticks nows ?tm ! j =
      ?tm\<lparr>counter := counter ?tm + int j + 1, current_time := current_time ?tm + 62 * (int j + 1)\<rparr>"
    using assms Suc by (intro ticks_nth) (auto simp: valid_now_def)
  then show ?thesis using advance_sync [OF assms(1,2)] Suc by (simp add: algebra_simps)
qed

lemma period_last:
  assumes "counter tm = 500" and "valid_now T" and "length nows = 500"
  shows "last (ticks (T # nows) tm) = tm\<lparr>counter := 500, current_time := T + 30000\<rparr>"
proof -
  have "last (ticks (T # nows) tm) = ticks (T # nows) tm ! 500"
    using assms(3) by (subst last_conv_nth) simp_all
  then show ?thesis
    using period_nth [OF assms(1,2), of nows 500] assms(3) by (simp add: add.commute)
qed

text \<open>Steps of at most one hundred visit every slot in between.\<close>

lemma slot_reached:
  fixes c s :: int
  assumes "c div 100 \<le> s" and "s \<le> (c + 62 * int n) div 100"
  shows "\<exists>k \<le> n. (c + 62 * int k) div 100 = s"
  using assms
proof (induction n)
  case 0
  then show ?case by auto
next
  case (Suc n)
  show ?case
  proof (cases "s \<le> (c + 62 * int n) div 100")
    case True
    with Suc show ?thesis by (meson le_Suc_eq)
  next
    case False
    with Suc.prems have "(c + 62 * int (Suc n)) div 100 = s" by auto
    then show ?thesis by blast
  qed
qed

lemma period_covers:
  assumes "counter tm = 500" and "valid_now T" and "length nows = 500" and "1000 \<le> T"
    and "(T - 1000) div 100 \<le> s" and "s \<le> (T + 30000) div 100"
  shows "s \<in> set (map tick_slot (ticks (T # nows) tm))"
proof -
  have "s \<le> (T - 1000 + 62 * int 500) div 100" using assms(6) by simp
  then obtain k where k: "k \<le> 500" "(T - 1000 + 62 * int k) div 100 = s"
    using slot_reached [OF assms(5)] by blast
  have "tick_slot (ticks (T # nows) tm ! k) = s"
    using period_nth [OF assms(1,2), of nows k] assms(3,4) k
    by (simp add: tick_slot_def del: ticks.simps)
  then show ?thesis
    using k(1) assms(3) by (metis in_set_conv_nth length_map length_ticks length_Cons le_imp_less_Suc nth_map)
qed

text \<open>
  Consecutive periods: \<open>periods T nss\<close> lists the clock readings, each period with the wall clock
  of its resynchronisation; \<open>gapless\<close> says how late a resynchronisation may come.
\<close>

definition gapless :: "int \<Rightarrow> int \<Rightarrow> bool" where
  "gapless T T' \<longleftrightarrow> T \<le> T' \<and> T' \<le> T + 31000"

fun periods_ok :: "(int \<times> int list) list \<Rightarrow> bool" where
  "periods_ok [] = True"
| "periods_ok [p] = (valid_now (fst p) \<and> 1000 \<le> fst p \<and> length (snd p) = 500)"
| "periods_ok (p # q # ps) =
     (valid_now (fst p) \<and> 1000 \<le> fst p \<and> length (snd p) = 500 \<and> gapless (fst p) (fst q) \<and> periods_ok (q # ps))"

definition period_clocks :: "(int \<times> int list) list \<Rightarrow> int list" where
  "period_clocks ps = concat (map (\<lambda>(T, nows). T # nows) ps)"

lemma periods_cover:
  assumes "counter tm = 500" and "periods_ok ps" and "ps \<noteq> []"
    and "(fst (hd ps) - 1000) div 100 \<le> s" and "s \<le> (fst (last ps) + 30000) div 100"
  shows "s \<in> set (map tick_slot (ticks (period_clocks ps) tm))"
  using assms
proof (induction ps arbitrary: tm rule: periods_ok.induct)
  case 1
  then show ?case by simp
next
  case (2 p)
  then show ?case
    using period_covers [of tm "fst p" "snd p" s] by (cases p) (simp add: period_clocks_def)
next
  case (3 p q ps)
  obtain T nows where p: "p = (T, nows)" by (cases p)
  have pok: "valid_now T" "1000 \<le> T" "length nows = 500" "gapless T (fst q)"
    using "3.prems"(2) p by auto
  have split: "ticks (period_clocks (p # q # ps)) tm =
      ticks (T # nows) tm @ ticks (period_clocks (q # ps)) (last (ticks (T # nows) tm))"
    using ticks_append [of "T # nows" "period_clocks (q # ps)" tm] p
    by (simp add: period_clocks_def)
  show ?case
  proof (cases "s \<le> (T + 30000) div 100")
    case True
    then have "s \<in> set (map tick_slot (ticks (T # nows) tm))"
      using period_covers [of tm T nows s] "3.prems" pok p by simp
    then show ?thesis unfolding split by (simp del: ticks.simps)
  next
    case False
    have "(fst q - 1000) div 100 \<le> (T + 30000) div 100"
      using pok(4) by (intro zdiv_mono1) (auto simp: gapless_def)
    then have "(fst (hd (q # ps)) - 1000) div 100 \<le> s" using False by simp
    then have "s \<in> set (map tick_slot (ticks (period_clocks (q # ps)) (last (ticks (T # nows) tm))))"
      using "3.prems" period_last [OF "3.prems"(1) pok(1,3)] by (intro "3.IH") auto
    then show ?thesis unfolding split by (simp del: ticks.simps)
  qed
qed

lemma advance_monotone:
  assumes "0 \<le> counter tm" "counter tm \<le> 500" and "valid_now now" and "T \<le> now"
    and "T - 1000 \<le> current_time tm" "current_time tm \<le> 9300000000000 + 62 * counter tm" "0 \<le> T"
  shows "0 \<le> counter (advance now tm) \<and> counter (advance now tm) \<le> 500 \<and>
     T - 1000 \<le> current_time (advance now tm) \<and>
     current_time (advance now tm) \<le> 9300000000000 + 62 * counter (advance now tm)"
proof (cases "counter tm = 500")
  case True
  then show ?thesis
    using assms advance_sync [OF True assms(3)] by (simp add: valid_now_def)
next
  case False
  then have "advance now tm = tm\<lparr>counter := counter tm + 1, current_time := current_time tm + 62\<rparr>"
    using assms by (intro advance_step) auto
  then show ?thesis using assms False by simp
qed

lemma ticks_lower_bound:
  assumes "0 \<le> counter tm" "counter tm \<le> 500" and "\<forall>now \<in> set nows. valid_now now \<and> T \<le> now"
    and "T - 1000 \<le> current_time tm" "current_time tm \<le> 9300000000000 + 62 * counter tm" "0 \<le> T"
  shows "\<forall>t \<in> set (ticks nows tm). T - 1000 \<le> current_time t"
  using assms
proof (induction nows arbitrary: tm)
  case (Cons now nows)
  let ?tm = "advance now tm"
  have step: "0 \<le> counter ?tm \<and> counter ?tm \<le> 500 \<and> T - 1000 \<le> current_time ?tm \<and>
      current_time ?tm \<le> 9300000000000 + 62 * counter ?tm"
    using Cons.prems by (intro advance_monotone) simp_all
  then have "\<forall>t \<in> set (ticks nows ?tm). T - 1000 \<le> current_time t"
    using Cons.prems by (intro Cons.IH) simp_all
  with step show ?case by simp
qed simp

section \<open>Properties\<close>



text \<open>
  A tick fires exactly the schedules of the slot it visits, in their order of insertion,
  removes them, and leaves every other slot untouched.
\<close>

lemma tick_fires_its_slot:
  assumes "ks_inv ks"
  shows "\<exists>ss ks'. tickingFunc now ch (tm, ks) = Ret (ss, advance now tm, ks') \<and> ks_inv ks' \<and>
     map Id ss = ids_at ks (tick_slot (advance now tm)) \<and>
     (\<forall>t. ids_at ks' t = (if t = tick_slot (advance now tm) then [] else ids_at ks t))"
  using tickingFunc_ok [OF assms, of now ch tm] by force

text \<open>
  C21. Once the loop has been synchronised, no slot is ever skipped: over any number of periods
  of 501 ticks, as long as each resynchronisation comes at most 31 seconds of wall clock after the
  previous one (501 ticks of 60 ms take 30.06 s), every slot from the first to the last is visited.
\<close>

theorem ticks_visit_every_slot:
  assumes "counter tm = breakpoint" and "periods_ok ps" and "ps \<noteq> []"
    and "(fst (hd ps) - 1000) div 100 \<le> s" and "s \<le> (fst (last ps) + 30000) div 100"
  shows "s \<in> set (map tick_slot (ticks (period_clocks ps) tm))"
  using assms by (intro periods_cover) (simp_all add: breakpoint_def)

theorem ticks_visit_every_slot_witness:
  "1320 \<in> set (map tick_slot (ticks (period_clocks [(100000, replicate 500 0), (130060, replicate 500 0)])
      \<lparr>counter = 500, current_time = 0\<rparr>))"
  by (rule ticks_visit_every_slot) (simp_all add: breakpoint_def valid_now_def gapless_def)

text \<open>
  The loop's clock never runs ahead of the wall clock: if tick number \<open>k\<close> after a
  resynchronisation at \<open>T\<close> comes no earlier than \<open>T + 60 k\<close>, its clock is at most the wall clock,
  so a schedule inserted at \<open>now0\<close> with delay \<open>d\<close> that fires on this tick fires less than 100 ms
  before \<open>now0 + d\<close>.
\<close>

lemma schedules_never_fire_early:
  assumes "counter tm = breakpoint" and "valid_now T" and "1000 \<le> T" and "length nows \<le> 500"
    and "k \<le> length nows" and "(T # nows) ! k \<ge> T + 60 * int k"
    and "valid_now now0" and "0 \<le> Exp s" and "Exp s \<le> max_delay"
    and "tick_slot (ticks (T # nows) tm ! k) = due_slot now0 s"
  shows "(T # nows) ! k > now0 + Exp s - 100"
proof -
  have tk: "ticks (T # nows) tm ! k = tm\<lparr>counter := int k, current_time := T - 1000 + 62 * int k\<rparr>"
    using assms by (intro period_nth) (simp_all add: breakpoint_def)
  have "due_slot now0 s = (Exp s + now0) div 100"
    using due_slot_eq [OF assms(7,8)] assms(9) by (simp add: min_def)
  then have "(T - 1000 + 62 * int k) div 100 = (Exp s + now0) div 100"
    using assms(3,10) tk by (simp add: tick_slot_def)
  then have "Exp s + now0 - 100 < T - 1000 + 62 * int k" by linarith
  moreover have "T - 1000 + 62 * int k \<le> T + 60 * int k" using assms(4,5) by linarith
  ultimately show ?thesis using assms(6) by linarith
qed

text \<open>
  Start-up gap: the loop's clock starts at zero and is set from the wall clock only at tick
  501.  With a monotone wall clock that reads \<open>T\<close> at that tick, no tick ever visits a slot above
  310 and below \<open>(T - 1000) div 100\<close>: a schedule that falls due in the first half minute after
  the process started, more than a second before the synchronisation, never fires.
\<close>

lemma startup_slots_never_visited:
  assumes "length nows = 500" and "valid_now T" and "1000 \<le> T"
    and "\<forall>now \<in> set later. valid_now now \<and> T \<le> now"
    and "310 < s" and "s < (T - 1000) div 100"
  shows "s \<notin> set (map tick_slot (ticks (nows @ T # later) init_timer))"
proof -
  let ?a = "ticks nows init_timer"
  have early: "?a ! k = init_timer\<lparr>counter := int k + 1, current_time := 62 * (int k + 1)\<rparr>" if "k < 500" for k
    using ticks_nth [of init_timer nows k] assms(1) that by (simp add: init_timer_def)
  have l: "last (init_timer # ?a) = init_timer\<lparr>counter := 500, current_time := 31000\<rparr>"
  proof -
    have ne: "?a \<noteq> []" using assms(1) by (metis length_0_conv length_ticks zero_neq_numeral)
    then show ?thesis using early [of 499] assms(1) by (simp add: last_conv_nth)
  qed
  have sync: "advance T (last (init_timer # ?a)) = init_timer\<lparr>counter := 0, current_time := T - 1000\<rparr>"
    unfolding l using assms(2) by (simp add: advance_sync)
  have low: "tick_slot t \<le> 310" if t: "t \<in> set ?a" for t
  proof -
    obtain k where k: "k < 500" "t = ?a ! k" using t assms(1) by (auto simp: in_set_conv_nth)
    then have "current_time t = 62 * (int k + 1)" using early by simp
    then show ?thesis using k(1) by (simp add: tick_slot_def)
  qed
  let ?b = "ticks later (init_timer\<lparr>counter := 0, current_time := T - 1000\<rparr>)"
  have "\<forall>t \<in> set ?b. T - 1000 \<le> current_time t"
    using assms(2,3,4) by (intro ticks_lower_bound) (auto simp: valid_now_def init_timer_def)
  then have high: "(T - 1000) div 100 \<le> tick_slot t" if "t \<in> set ?b" for t
    using that assms(3) by (auto simp: tick_slot_def intro: zdiv_mono1)
  have all: "ticks (nows @ T # later) init_timer =
      ?a @ init_timer\<lparr>counter := 0, current_time := T - 1000\<rparr> # ?b"
    by (simp add: ticks_append sync del: last.simps)
  show ?thesis
    unfolding all using low high assms(3,5,6) by (fastforce simp: tick_slot_def)
qed

end
