(* ===== verification/Ring_Queue.thy ===== *)
theory Ring_Queue
  imports Go_Prelude
begin

text \<open>
  The bounded message queue of \<open>src/queue/queue.go\<close>: a slice used as a ring, indexed by
  \<open>front\<close> (next element to pop) and \<open>pointer\<close> (next free slot).  Every operation reads the ring
  length from the configuration (\<open>conf.GetQueueLength()\<close>, here the argument \<open>qlen\<close>), while
  the slice keeps the length it was allocated with.  The mutex and the condition variable are
  the subject of the theory \<open>Queue_Interleaving\<close>; here each operation is one atomic step, and
  waiting on an empty queue is \<open>Hang\<close>.

  The queue is specified by a locale of bounded double-ended queues with a list-valued
  abstraction; the ring implements it whenever the slice is at least as long as the configured
  length.
\<close>

section \<open>The data structure and its operations\<close>

record 'a GrandmaQueue =
  queue :: "'a option list"
  front :: nat
  pointer :: nat

definition increase :: "nat \<Rightarrow> nat \<Rightarrow> nat" where
  "increase qlen i = (if i = qlen - 1 then 0 else i + 1)"

definition decrease :: "nat \<Rightarrow> nat \<Rightarrow> nat" where
  "decrease qlen i = (if i = 0 then qlen - 1 else i - 1)"

definition NewQueue :: "nat \<Rightarrow> 'a GrandmaQueue" where
  "NewQueue qlen = \<lparr>queue = replicate qlen None, front = 0, pointer = 0\<rparr>"

definition IsEmpty :: "'a GrandmaQueue \<Rightarrow> bool" where
  "IsEmpty q \<longleftrightarrow> front q = pointer q"

definition IsFull :: "nat \<Rightarrow> 'a GrandmaQueue \<Rightarrow> bool" where
  "IsFull qlen q \<longleftrightarrow> front q = increase qlen (pointer q)"

definition queue_full_panic :: go_fault where
  "queue_full_panic = Explicit_Panic ''GrandmaQueue full exception''"

definition PushMessage :: "nat \<Rightarrow> 'a \<Rightarrow> 'a GrandmaQueue \<Rightarrow> 'a GrandmaQueue go" where
  "PushMessage qlen obj q =
     (if IsFull qlen q then Panic queue_full_panic
      else go_bind (slice_set (queue q) (int (pointer q)) (Some obj)) (\<lambda>s.
           Ret (q\<lparr>queue := s, pointer := increase qlen (pointer q)\<rparr>)))"

definition PushFront :: "nat \<Rightarrow> 'a \<Rightarrow> 'a GrandmaQueue \<Rightarrow> 'a GrandmaQueue go" where
  "PushFront qlen obj q =
     (if IsFull qlen q then Panic queue_full_panic
      else let f = decrease qlen (front q) in
           go_bind (slice_set (queue q) (int f) (Some obj)) (\<lambda>s.
           Ret (q\<lparr>front := f, queue := s\<rparr>)))"

definition PopMessage :: "nat \<Rightarrow> 'a GrandmaQueue \<Rightarrow> ('a option \<times> 'a GrandmaQueue) go" where
  "PopMessage qlen q =
     (if IsEmpty q then Hang
      else go_bind (slice_get (queue q) (int (front q))) (\<lambda>ret.
           Ret (ret, q\<lparr>front := increase qlen (front q)\<rparr>)))"

fun push_all :: "nat \<Rightarrow> 'a list \<Rightarrow> 'a GrandmaQueue \<Rightarrow> 'a GrandmaQueue go" where
  "push_all qlen [] q = Ret q"
| "push_all qlen (x # xs) q = go_bind (PushMessage qlen x q) (push_all qlen xs)"

section \<open>Invariant and abstraction\<close>

definition qsize :: "nat \<Rightarrow> 'a GrandmaQueue \<Rightarrow> nat" where
  "qsize n q = (if front q \<le> pointer q then pointer q - front q else n + pointer q - front q)"

definition slot :: "nat \<Rightarrow> 'a GrandmaQueue \<Rightarrow> nat \<Rightarrow> nat" where
  "slot n q i = (if front q + i < n then front q + i else front q + i - n)"

definition ring_inv :: "nat \<Rightarrow> 'a GrandmaQueue \<Rightarrow> bool" where
  "ring_inv n q \<longleftrightarrow> 0 < n \<and> n \<le> length (queue q) \<and> front q < n \<and> pointer q < n \<and>
     (\<forall>i < qsize n q. queue q ! slot n q i \<noteq> None)"

definition contents :: "nat \<Rightarrow> 'a GrandmaQueue \<Rightarrow> 'a list" where
  "contents n q = map (\<lambda>i. the (queue q ! slot n q i)) [0..<qsize n q]"


section \<open>Specification: a bounded double-ended queue\<close>

text \<open>
  Runs of operations, over any implementation of the four operations.  The first component of
  the result is what the pops returned, in order.
\<close>

datatype 'a queue_op = Op_Push 'a | Op_PushFront 'a | Op_Pop

fun deque_run ::
  "('a \<Rightarrow> 'q \<Rightarrow> 'q go) \<Rightarrow> ('a \<Rightarrow> 'q \<Rightarrow> 'q go) \<Rightarrow> ('q \<Rightarrow> ('a option \<times> 'q) go) \<Rightarrow>
   'a queue_op list \<Rightarrow> 'q \<Rightarrow> ('a option list \<times> 'q) go" where
  "deque_run pb pf pop [] q = Ret ([], q)"
| "deque_run pb pf pop (Op_Push x # ops) q = go_bind (pb x q) (deque_run pb pf pop ops)"
| "deque_run pb pf pop (Op_PushFront x # ops) q = go_bind (pf x q) (deque_run pb pf pop ops)"
| "deque_run pb pf pop (Op_Pop # ops) q =
     go_bind (pop q) (\<lambda>(r, q'). go_bind (deque_run pb pf pop ops q') (\<lambda>(rs, q''). Ret (r # rs, q'')))"

text \<open>The abstract queue: a list of at most \<open>cap\<close> elements.\<close>

definition spec_push :: "nat \<Rightarrow> 'a \<Rightarrow> 'a list \<Rightarrow> 'a list go" where
  "spec_push cap x xs = (if length xs < cap then Ret (xs @ [x]) else Panic queue_full_panic)"

definition spec_push_front :: "nat \<Rightarrow> 'a \<Rightarrow> 'a list \<Rightarrow> 'a list go" where
  "spec_push_front cap x xs = (if length xs < cap then Ret (x # xs) else Panic queue_full_panic)"

fun spec_pop :: "'a list \<Rightarrow> ('a option \<times> 'a list) go" where
  "spec_pop [] = Hang"
| "spec_pop (x # xs) = Ret (Some x, xs)"

abbreviation spec_run :: "nat \<Rightarrow> 'a queue_op list \<Rightarrow> 'a list \<Rightarrow> ('a option list \<times> 'a list) go" where
  "spec_run cap \<equiv> deque_run (spec_push cap) (spec_push_front cap) spec_pop"

abbreviation ring_run ::
  "nat \<Rightarrow> 'a queue_op list \<Rightarrow> 'a GrandmaQueue \<Rightarrow> ('a option list \<times> 'a GrandmaQueue) go" where
  "ring_run n \<equiv> deque_run (PushMessage n) (PushFront n) (PopMessage n)"

text \<open>
  The contract: each operation commutes with the list abstraction, on every branch (a full
  queue panics, an empty queue blocks), and keeps the invariant.
\<close>

locale bounded_deque =
  fixes invar :: "'q \<Rightarrow> bool"
    and abs_list :: "'q \<Rightarrow> 'a list"
    and cap :: nat
    and pb :: "'a \<Rightarrow> 'q \<Rightarrow> 'q go"
    and pf :: "'a \<Rightarrow> 'q \<Rightarrow> 'q go"
    and pop :: "'q \<Rightarrow> ('a option \<times> 'q) go"
  assumes length_bound: "invar q \<Longrightarrow> length (abs_list q) \<le> cap"
    and pb_abs: "invar q \<Longrightarrow> map_go abs_list (pb x q) = spec_push cap x (abs_list q)"
    and pb_inv: "invar q \<Longrightarrow> pb x q = Ret q' \<Longrightarrow> invar q'"
    and pf_abs: "invar q \<Longrightarrow> map_go abs_list (pf x q) = spec_push_front cap x (abs_list q)"
    and pf_inv: "invar q \<Longrightarrow> pf x q = Ret q' \<Longrightarrow> invar q'"
    and pop_abs: "invar q \<Longrightarrow> map_go (map_prod id abs_list) (pop q) = spec_pop (abs_list q)"
    and pop_inv: "invar q \<Longrightarrow> pop q = Ret (r, q') \<Longrightarrow> invar q'"
begin

lemma run_refines:
  "invar q \<Longrightarrow> map_go (map_prod id abs_list) (deque_run pb pf pop ops q) =
     deque_run (spec_push cap) (spec_push_front cap) spec_pop ops (abs_list q)"
proof (induction ops arbitrary: q)
  case Nil
  then show ?case by simp
next
  case (Cons op ops)
  show ?case
  proof (cases op)
    case (Op_Push x)
    with Cons show ?thesis
      using pb_abs [of q x, symmetric] pb_inv [of q x]
      by (cases "pb x q") (simp_all add: map_go_bind)
  next
    case (Op_PushFront x)
    with Cons show ?thesis
      using pf_abs [of q x, symmetric] pf_inv [of q x]
      by (cases "pf x q") (simp_all add: map_go_bind)
  next
    case Op_Pop
    show ?thesis
    proof (cases "pop q")
      case (Ret rq)
      obtain r q' where rq: "rq = (r, q')" by (cases rq)
      have step: "spec_pop (abs_list q) = Ret (r, abs_list q')"
        using pop_abs [OF Cons.prems] Ret rq by simp
      have IH: "map_go (map_prod id abs_list) (deque_run pb pf pop ops q') =
          deque_run (spec_push cap) (spec_push_front cap) spec_pop ops (abs_list q')"
        using pop_inv [OF Cons.prems, of r q'] Ret rq by (intro Cons.IH) simp
      show ?thesis
        using Op_Pop Ret rq step IH [symmetric]
        by (cases "deque_run pb pf pop ops q'") (auto simp: map_go_bind)
    qed (use Op_Pop pop_abs [OF Cons.prems, symmetric] in simp_all)
  qed
qed

lemma run_inv: "invar q \<Longrightarrow> deque_run pb pf pop ops q = Ret (rs, q') \<Longrightarrow> invar q'"
proof (induction ops arbitrary: q rs)
  case Nil
  then show ?case by simp
next
  case (Cons op ops)
  then show ?case
    by (cases op) (auto dest: pb_inv pf_inv pop_inv split: prod.splits)
qed

end

section \<open>The ring implements the specification\<close>

lemmas ring_defs = ring_inv_def contents_def qsize_def slot_def IsEmpty_def IsFull_def
  increase_def decrease_def

lemma length_contents [simp]: "length (contents n q) = qsize n q"
  by (simp add: contents_def)

lemma slot_less: "front q < n \<Longrightarrow> i < n \<Longrightarrow> slot n q i < n"
  by (auto simp: slot_def)

lemma slot_inj: "front q < n \<Longrightarrow> i < n \<Longrightarrow> j < n \<Longrightarrow> slot n q i = slot n q j \<longleftrightarrow> i = j"
  by (auto simp: slot_def)

lemma ring_inv_qsize: "ring_inv n q \<Longrightarrow> qsize n q < n"
  by (auto simp: ring_defs)

lemma slot_qsize: "ring_inv n q \<Longrightarrow> slot n q (qsize n q) = pointer q"
  by (auto simp: ring_defs)

lemma IsEmpty_iff: "ring_inv n q \<Longrightarrow> IsEmpty q \<longleftrightarrow> contents n q = []"
  by (auto simp: ring_defs)

lemma IsFull_iff: "ring_inv n q \<Longrightarrow> IsFull n q \<longleftrightarrow> qsize n q = n - 1"
  by (auto simp: ring_defs)

text \<open>What a push does to the ring: one new slot, every old slot kept.\<close>

lemma push_qsize:
  assumes "ring_inv n q" and "\<not> IsFull n q"
  shows "qsize n (q\<lparr>queue := s, pointer := increase n (pointer q)\<rparr>) = Suc (qsize n q)"
  using assms by (auto simp: ring_defs)

lemma push_keeps_slots:
  assumes "ring_inv n q" and "i < qsize n q"
  shows "(queue q)[pointer q := v] ! slot n q i = queue q ! slot n q i"
proof -
  have "slot n q i \<noteq> pointer q"
    using slot_inj [of q n i "qsize n q"] slot_qsize [OF assms(1)] ring_inv_qsize [OF assms(1)] assms
    by (simp add: ring_inv_def)
  then show ?thesis by simp
qed

lemma PushMessage_ok:
  assumes inv: "ring_inv n q" and room: "\<not> IsFull n q"
  shows "\<exists>q'. PushMessage n x q = Ret q' \<and> ring_inv n q' \<and> contents n q' = contents n q @ [x]"
proof -
  let ?s = "(queue q)[pointer q := Some x]"
  let ?q' = "q\<lparr>queue := ?s, pointer := increase n (pointer q)\<rparr>"
  have ptr: "pointer q < length (queue q)" "pointer q < n"
    using inv by (auto simp: ring_inv_def)
  have push: "PushMessage n x q = Ret ?q'"
    using room ptr by (simp add: PushMessage_def)
  have sz: "qsize n ?q' = Suc (qsize n q)"
    using push_qsize [OF inv room] .
  have sl: "slot n ?q' i = slot n q i" for i
    by (simp add: slot_def)
  have new: "?s ! slot n q (qsize n q) = Some x"
    using slot_qsize [OF inv] ptr by simp
  have old: "?s ! slot n q i = queue q ! slot n q i" if "i < qsize n q" for i
    using push_keeps_slots [OF inv that] .
  have "ring_inv n ?q'"
    unfolding ring_inv_def sz sl using inv new old
    by (auto simp: ring_inv_def increase_def less_Suc_eq)
  moreover have "contents n ?q' = contents n q @ [x]"
    unfolding contents_def sz sl using new old by simp
  ultimately show ?thesis using push by blast
qed

lemma front_qsize:
  assumes "ring_inv n q" and "\<not> IsFull n q"
  shows "qsize n (q\<lparr>front := decrease n (front q), queue := s\<rparr>) = Suc (qsize n q)"
  using assms by (auto simp: ring_defs split: if_splits)

lemma front_slot:
  assumes "ring_inv n q" and "\<not> IsFull n q" and "i \<le> qsize n q"
  shows "slot n (q\<lparr>front := decrease n (front q), queue := s\<rparr>) i =
     (case i of 0 \<Rightarrow> decrease n (front q) | Suc j \<Rightarrow> slot n q j)"
  using assms by (auto simp: ring_defs split: nat.splits)

lemma front_keeps_slots:
  assumes "ring_inv n q" and "\<not> IsFull n q" and "i < qsize n q"
  shows "(queue q)[decrease n (front q) := v] ! slot n q i = queue q ! slot n q i"
proof -
  have "slot n q i \<noteq> decrease n (front q)"
    using assms by (auto simp: ring_defs split: if_splits)
  then show ?thesis by simp
qed

lemma PushFront_ok:
  assumes inv: "ring_inv n q" and room: "\<not> IsFull n q"
  shows "\<exists>q'. PushFront n x q = Ret q' \<and> ring_inv n q' \<and> contents n q' = x # contents n q"
proof -
  let ?f = "decrease n (front q)"
  let ?s = "(queue q)[?f := Some x]"
  let ?q' = "q\<lparr>front := ?f, queue := ?s\<rparr>"
  have f: "?f < length (queue q)" "?f < n"
    using inv by (auto simp: ring_inv_def decrease_def)
  have push: "PushFront n x q = Ret ?q'"
    using room f by (simp add: PushFront_def Let_def)
  have sz: "qsize n ?q' = Suc (qsize n q)"
    using front_qsize [OF inv room] .
  have at: "queue ?q' ! slot n ?q' i = (case i of 0 \<Rightarrow> Some x | Suc j \<Rightarrow> queue q ! slot n q j)"
    if "i < Suc (qsize n q)" for i
    using front_slot [OF inv room, of i ?s] front_keeps_slots [OF inv room] that f
    by (cases i) simp_all
  have "ring_inv n ?q'"
    unfolding ring_inv_def sz using inv f at
    by (auto simp: ring_inv_def split: nat.splits)
  moreover have "contents n ?q' = x # contents n q"
    unfolding contents_def sz using at
    by (subst upt_conv_Cons) (simp_all add: map_Suc_upt [symmetric] del: upt_Suc)
  ultimately show ?thesis using push by blast
qed

lemma pop_qsize:
  assumes "ring_inv n q" and "\<not> IsEmpty q"
  shows "qsize n q = Suc (qsize n (q\<lparr>front := increase n (front q)\<rparr>))"
  using assms by (auto simp: ring_defs)

lemma pop_slot:
  assumes "ring_inv n q" and "Suc i < n"
  shows "slot n (q\<lparr>front := increase n (front q)\<rparr>) i = slot n q (Suc i)"
  using assms by (auto simp: ring_defs)

lemma PopMessage_ok:
  assumes inv: "ring_inv n q" and ne: "\<not> IsEmpty q"
  shows "\<exists>q'. PopMessage n q = Ret (Some (hd (contents n q)), q') \<and> ring_inv n q' \<and>
           contents n q' = tl (contents n q)"
proof -
  let ?q' = "q\<lparr>front := increase n (front q)\<rparr>"
  have sz: "qsize n q = Suc (qsize n ?q')"
    using pop_qsize [OF inv ne] .
  have f: "front q < length (queue q)" "front q < n" "slot n q 0 = front q"
    using inv by (auto simp: ring_inv_def slot_def)
  have some: "queue q ! slot n q i \<noteq> None" if "i < qsize n q" for i
    using inv that by (simp add: ring_inv_def)
  have sl: "slot n ?q' i = slot n q (Suc i)" if "i < qsize n ?q'" for i
    using pop_slot [OF inv] ring_inv_qsize [OF inv] sz that by simp
  have list: "contents n q = the (queue q ! front q) # contents n ?q'"
    unfolding contents_def sz using f sl
    by (subst upt_conv_Cons) (simp_all add: map_Suc_upt [symmetric] del: upt_Suc)
  have "PopMessage n q = Ret (Some (hd (contents n q)), ?q')"
    using ne f some [of 0] sz list by (auto simp: PopMessage_def)
  moreover have "ring_inv n ?q'"
    using inv some sz sl by (auto simp: ring_inv_def increase_def)
  ultimately show ?thesis using list by simp
qed

interpretation rq: bounded_deque "ring_inv n" "contents n" "n - 1" "PushMessage n" "PushFront n" "PopMessage n"
  for n
proof (unfold_locales, goal_cases)
  case (1 q)
  then show ?case using ring_inv_qsize [of n q] by simp
next
  case (2 q x)
  then show ?case
    using PushMessage_ok [of n q x] ring_inv_qsize [of n q]
    by (cases "IsFull n q") (auto simp: spec_push_def PushMessage_def IsFull_iff)
next
  case (3 q x q')
  then show ?case
    using PushMessage_ok [of n q x] by (cases "IsFull n q") (auto simp: PushMessage_def)
next
  case (4 q x)
  then show ?case
    using PushFront_ok [of n q x] ring_inv_qsize [of n q]
    by (cases "IsFull n q") (auto simp: spec_push_front_def PushFront_def IsFull_iff)
next
  case (5 q x q')
  then show ?case
    using PushFront_ok [of n q x] by (cases "IsFull n q") (auto simp: PushFront_def)
next
  case (6 q)
  then show ?case
    using PopMessage_ok [of n q]
    by (cases "contents n q") (auto simp: PopMessage_def IsEmpty_iff)
next
  case (7 q r q')
  then show ?case
    using PopMessage_ok [of n q] by (cases "IsEmpty q") (auto simp: PopMessage_def)
qed

lemma NewQueue_inv: "0 < n \<Longrightarrow> n \<le> m \<Longrightarrow> ring_inv n (NewQueue m)"
  by (simp add: ring_defs NewQueue_def)

lemma NewQueue_contents [simp]: "contents n (NewQueue m) = []"
  by (simp add: contents_def NewQueue_def qsize_def)


section \<open>Properties of the queue\<close>

text \<open>
  C1. The ring buffer refines the bounded double-ended queue: from any state that satisfies the
  invariant, every sequence of \<open>PushMessage\<close>, \<open>PushFront\<close> and \<open>PopMessage\<close> returns the same
  messages, panics at the same point with the same fault, blocks at the same point and ends with
  the same contents as the list specification of capacity \<open>n - 1\<close>.
\<close>

theorem ring_refines_bounded_deque:
  assumes "ring_inv n q"
  shows "map_go (map_prod id (contents n)) (ring_run n ops q) = spec_run (n - 1) ops (contents n q)"
  using assms by (rule rq.run_refines)

theorem ring_refines_bounded_deque_witness:
  "map_go (map_prod id (contents 3)) (ring_run 3 [Op_Push CHR ''a'', Op_PushFront CHR ''b'', Op_Pop] (NewQueue 3))
     = Ret ([Some CHR ''b''], [CHR ''a''])"
  using ring_refines_bounded_deque [OF NewQueue_inv [of 3 3], of "[Op_Push CHR ''a'', Op_PushFront CHR ''b'', Op_Pop]"]
  by (simp add: spec_push_def spec_push_front_def)

lemma push_all_conv_run: "push_all n xs q = go_bind (ring_run n (map Op_Push xs) q) (\<lambda>(rs, q'). Ret q')"
proof (induction xs arbitrary: q)
  case (Cons x xs)
  then show ?case by (cases "PushMessage n x q") simp_all
qed simp

lemma spec_run_pushes:
  "length ys + length xs \<le> cap \<Longrightarrow> spec_run cap (map Op_Push xs @ ops) ys = spec_run cap ops (ys @ xs)"
  by (induction xs arbitrary: ys) (simp_all add: spec_push_def)

lemma spec_run_pops: "spec_run cap (replicate (length xs) Op_Pop) xs = Ret (map Some xs, [])"
  by (induction xs) simp_all

text \<open>
  First in, first out, and no message lost: on a queue freshly allocated with at least the
  configured number of slots, pushing up to \<open>n - 1\<close> messages and popping as many returns exactly
  these messages in the order of the pushes and leaves the queue empty.
\<close>

lemma queue_fifo:
  assumes "0 < n" and "n \<le> m" and "length xs < n"
  shows "\<exists>q'. ring_run n (map Op_Push xs @ replicate (length xs) Op_Pop) (NewQueue m) =
           Ret (map Some xs, q') \<and> contents n q' = [] \<and> IsEmpty q'"
proof -
  let ?r = "ring_run n (map Op_Push xs @ replicate (length xs) Op_Pop) (NewQueue m)"
  have inv: "ring_inv n (NewQueue m)" using assms by (simp add: NewQueue_inv)
  have "map_go (map_prod id (contents n)) ?r = Ret (map Some xs, [])"
    unfolding rq.run_refines [OF inv] using assms by (simp add: spec_run_pushes spec_run_pops)
  then obtain q' where q': "?r = Ret (map Some xs, q')" "contents n q' = []"
    by (cases ?r) auto
  moreover have "ring_inv n q'" using rq.run_inv [OF inv q'(1)] .
  ultimately show ?thesis by (auto simp: IsEmpty_iff)
qed

lemma push_all_pointer:
  assumes "\<forall>i. front q \<noteq> Suc i" and "pointer q + length xs \<le> length (queue q)"
    and "length (queue q) < n - 1"
  shows "\<exists>q'. push_all n xs q = Ret q' \<and> pointer q' = pointer q + length xs \<and> front q' = front q \<and>
           length (queue q') = length (queue q)"
  using assms
proof (induction xs arbitrary: q)
  case (Cons x xs)
  let ?q = "q\<lparr>queue := (queue q)[pointer q := Some x], pointer := Suc (pointer q)\<rparr>"
  have "PushMessage n x q = Ret ?q"
    using Cons.prems by (auto simp: PushMessage_def IsFull_def increase_def)
  moreover have "\<exists>q'. push_all n xs ?q = Ret q' \<and> pointer q' = pointer ?q + length xs \<and>
      front q' = front ?q \<and> length (queue q') = length (queue ?q)"
    using Cons.prems by (intro Cons.IH) simp_all
  ultimately show ?case by auto
qed simp

text \<open>
  The ring length and the slice length must agree.  \<open>Main_Queue\<close> and \<open>cluster_queue\<close> are
  allocated by package initialisers, with the default length \<open>m\<close>, before the configuration file
  is read; when the file then sets \<open>queue_length\<close> to \<open>n > m + 1\<close>, the queue accepts \<open>m\<close> messages
  and the next push, far from full, panics with an index out of range.
\<close>

lemma late_configured_length_panics:
  assumes "m < n - 1" and "length xs = m"
  shows "\<exists>q. push_all n xs (NewQueue m) = Ret q \<and> \<not> IsFull n q \<and>
           PushMessage n x q = Panic Index_Out_Of_Range"
proof -
  obtain q where q: "push_all n xs (NewQueue m) = Ret q" "pointer q = m" "front q = 0"
      "length (queue q) = m"
    using push_all_pointer [of "NewQueue m" xs n] assms by (auto simp: NewQueue_def)
  moreover have "\<not> IsFull n q"
    using q assms by (simp add: IsFull_def increase_def)
  ultimately show ?thesis by (simp add: PushMessage_def)
qed

end
