(* ===== verification/Schedules.thy ===== *)
theory Schedules
  imports Config Messages Timer Ring_Queue Frames
begin

text \<open>
  Creating, recovering and firing schedules: \<open>src/schedule/schedule.go\<close> and
  \<open>src/schedule/connector.go\<close>.  A message is written to a MySQL table, kept in the in-memory store
  until it is due (theory \<open>Keystore\<close>), and then read back from the table and pushed to the sending
  queue.

  The database is not part of the program: it is the argument \<open>my\<close>, a record of what connecting,
  preparing, running and querying do to an abstract database state.  The statements are those
  that the code builds.  The locale \<open>schedule_db\<close> states what the code relies on (the documented
  behaviour of \<open>INSERT\<close>, \<open>LAST_INSERT_ID\<close>, \<open>SELECT\<close> and \<open>UPDATE\<close>); an in-memory table satisfies
  it.
\<close>

section \<open>The database interface\<close>

datatype sql =
    Create_Database
  | Show_Tables string
  | Create_Table string
  | Insert_Record string int string string int
  | Select_Last_Id
  | Select_By_Id string int
  | Select_Unsent string
  | Update_Sent string int

record sql_row =
  r_id :: int
  r_type :: int
  r_endpoint :: string
  r_body :: string
  r_ttl :: int
  r_sent :: bool

record 'd mysql =
  my_Connect :: "string \<Rightarrow> 'd \<Rightarrow> bool"
  my_Prepare :: "sql \<Rightarrow> 'd \<Rightarrow> bool"
  my_Run :: "sql \<Rightarrow> 'd \<Rightarrow> 'd"
  my_Query :: "sql \<Rightarrow> 'd \<Rightarrow> sql_row list option"

section \<open>State of the package\<close>

text \<open>
  The package variables, the database and the sending queue of package \<open>queue\<close>.  A channel
  \<open>chan bool\<close> of capacity one is an address; \<open>signalled\<close> are those that hold a value.
\<close>

record 'd world =
  sdb :: 'd
  store :: keystore
  main_queue :: "Obj GrandmaQueue"
  tcp :: "TCPConn option"
  signalled :: "nat list"
  next_chan :: nat

datatype sched_error =
    ErrorFailedRecoveringFromHistory
  | ErrorInvalidMessageContent
  | ErrorInternalDBSettings
  | ErrorDatabaseNotSet
  | Err_SQL

definition make_chan :: "'d world \<Rightarrow> nat \<times> 'd world" where
  "make_chan w = (next_chan w, w\<lparr>next_chan := Suc (next_chan w)\<rparr>)"

definition signal_chan :: "nat \<Rightarrow> 'd world \<Rightarrow> 'd world go" where
  "signal_chan ch w = (if ch \<in> set (signalled w) then Hang else Ret (w\<lparr>signalled := ch # signalled w\<rparr>))"

definition write_tcp :: "byte list \<Rightarrow> 'd world \<Rightarrow> 'd world" where
  "write_tcp bs w = (case tcp w of None \<Rightarrow> w | Some t \<Rightarrow> w\<lparr>tcp := Some (snd (tcp_Write bs t))\<rparr>)"

section \<open>Connecting\<close>

definition grandma_table :: "conf \<Rightarrow> string" where
  "grandma_table c = go_replace (CHR '' '') (CHR ''_'') (GetGrandmaName c)"

definition records_table :: "conf \<Rightarrow> string" where
  "records_table c = ''records_'' @ grandma_table c"

definition initializeMySQLDatabase :: "'d mysql \<Rightarrow> conf \<Rightarrow> 'd \<Rightarrow> sched_error option \<times> 'd" where
  "initializeMySQLDatabase my c d =
     (if \<not> my_Connect my ''test'' d then (Some ErrorDatabaseNotSet, d)
      else if \<not> my_Prepare my Create_Database d then (Some Err_SQL, d)
      else let d1 = my_Run my Create_Database d in
        if \<not> my_Connect my ''schedule'' d1 then (Some Err_SQL, d1)
        else (case my_Query my (Show_Tables (grandma_table c)) d1 of
                None \<Rightarrow> (Some Err_SQL, d1)
              | Some rows \<Rightarrow>
                  if length rows > 0 then (None, d1)
                  else if \<not> my_Prepare my (Create_Table (records_table c)) d1 then (Some Err_SQL, d1)
                  else (None, my_Run my (Create_Table (records_table c)) d1)))"

definition getMySQLConnector :: "'d mysql \<Rightarrow> conf \<Rightarrow> 'd \<Rightarrow> (bool \<times> 'd) go" where
  "getMySQLConnector my c d =
     (if my_Connect my ''schedule'' d then Ret (True, d)
      else (case initializeMySQLDatabase my c d of
              (Some e, _) \<Rightarrow> Panic (Explicit_Panic ''database'')
            | (None, d1) \<Rightarrow> Ret (my_Connect my ''schedule'' d1, d1)))"

text \<open>Every caller panics when the second attempt fails as well.\<close>

definition connect_db :: "'d mysql \<Rightarrow> conf \<Rightarrow> 'd world \<Rightarrow> 'd world go" where
  "connect_db my c w =
     go_bind (getMySQLConnector my c (sdb w)) (\<lambda>(ok, d).
       if ok then Ret (w\<lparr>sdb := d\<rparr>) else Panic (Explicit_Panic ''database''))"

section \<open>Reports to the master\<close>

definition COMM_TYPE_CONSUMED :: byte where "COMM_TYPE_CONSUMED = 150"
definition COMM_TYPE_SCHEDULE :: byte where "COMM_TYPE_SCHEDULE = 151"
definition COMM_TYPE_FINISHED :: byte where "COMM_TYPE_FINISHED = 152"

definition reportSchedule :: "'d world \<Rightarrow> 'd world" where
  "reportSchedule w = write_tcp [COMM_TYPE_FINISHED] (write_tcp (be16 1) w)"

definition consumeSchedule :: "32 word \<Rightarrow> 'd world \<Rightarrow> 'd world" where
  "consumeSchedule i w = write_tcp (COMM_TYPE_CONSUMED # le32 i) (write_tcp (be16 5) w)"

section \<open>Firing\<close>

definition pushToSendingQueue ::
  "'d mysql \<Rightarrow> conf \<Rightarrow> Schedule \<Rightarrow> 'd world \<Rightarrow> (sched_error option \<times> 'd world) go" where
  "pushToSendingQueue my c s w0 =
     go_bind (connect_db my c w0) (\<lambda>w.
       case my_Query my (Select_By_Id (records_table c) (Id s)) (sdb w) of
         None \<Rightarrow> Ret (Some ErrorInternalDBSettings, w)
       | Some rows \<Rightarrow>
           if \<not> my_Prepare my (Update_Sent (records_table c) (Id s)) (sdb w)
           then Ret (Some ErrorInternalDBSettings, w)
           else
             let w1 = w\<lparr>sdb := my_Run my (Update_Sent (records_table c) (Id s)) (sdb w)\<rparr> in
             go_bind (slice_get rows 0) (\<lambda>row.
             let msg_to_push = \<lparr>MessageType = r_type row, Endpoint = r_endpoint row, MessageBody = r_body row,
                                Expiration = 0\<rparr>
             in go_bind (PushMessage (nat (GetQueueLength c)) msg_to_push (main_queue w1)) (\<lambda>q.
                let w2 = w1\<lparr>main_queue := q\<rparr> in
                if tcp w2 = None then go_bind (signal_chan (Signal s) w2) (\<lambda>w3. Ret (None, w3))
                else Ret (None, reportSchedule w2))))"

section \<open>Creating\<close>

text \<open>The clock is read twice: \<open>now1\<close> here and \<open>now2\<close> in \<open>put\<close>.\<close>

definition NewSchedule ::
  "'d mysql \<Rightarrow> conf \<Rightarrow> int \<Rightarrow> int \<Rightarrow> Obj option \<Rightarrow> 'd world \<Rightarrow> ((sched_error + Schedule) \<times> 'd world) go" where
  "NewSchedule my c now1 now2 mo w0 =
     go_bind (connect_db my c w0) (\<lambda>w.
       if \<not> my_Prepare my (Insert_Record (records_table c) 0 [] [] 0) (sdb w)
       then Ret (Inl ErrorInvalidMessageContent, w)
       else (case mo of
               None \<Rightarrow> Panic Nil_Deref
             | Some m \<Rightarrow>
                 let ttl = wrap64 (now1 + Expiration m);
                     w1 = w\<lparr>sdb := my_Run my (Insert_Record (records_table c) (MessageType m) (Endpoint m) (MessageBody m) ttl) (sdb w)\<rparr>
                 in case my_Query my Select_Last_Id (sdb w1) of
                      None \<Rightarrow> Ret (Inl ErrorInternalDBSettings, w1)
                    | Some rows \<Rightarrow>
                        go_bind (slice_get rows 0) (\<lambda>row.
                        let (ch, w2) = make_chan w1;
                            s = \<lparr>Id = r_id row, Exp = Expiration m, Signal = ch\<rparr>;
                            report = (\<lambda>w. if tcp w \<noteq> None then consumeSchedule (word_of_int (r_id row)) w else w)
                        in if Expiration m < 1000 then
                             go_bind (pushToSendingQueue my c s w2) (\<lambda>(_, w3). Ret (Inr s, report w3))
                           else
                             go_bind (put now2 (Some s) (store w2)) (\<lambda>(err, so, ks).
                               case (err, so) of
                                 (None, Some s') \<Rightarrow> Ret (Inr s', report (w2\<lparr>store := ks\<rparr>))
                               | _ \<Rightarrow> Panic (Explicit_Panic ''Invalid schedule object'')))))"

section \<open>Recovery\<close>

text \<open>The clock is read once per row.\<close>

fun recover_rows ::
  "'d mysql \<Rightarrow> conf \<Rightarrow> (sql_row \<times> int) list \<Rightarrow> 'd world \<Rightarrow> 'd world go" where
  "recover_rows my c [] w = Ret w"
| "recover_rows my c ((row, now) # rs) w =
     (let (ch, w1) = make_chan w;
          s = \<lparr>Id = r_id row, Exp = wrap64 (r_ttl row - now), Signal = ch\<rparr>
      in if wrap64 (now + 1000) > r_ttl row then
           go_bind (pushToSendingQueue my c s w1) (\<lambda>(_, w2). recover_rows my c rs w2)
         else
           go_bind (put now (Some s) (store w1)) (\<lambda>(err, _, ks).
             if err = None then recover_rows my c rs (w1\<lparr>store := ks\<rparr>)
             else Panic (Explicit_Panic ''Invalid schedule object'')))"

definition recoverSchedule ::
  "'d mysql \<Rightarrow> conf \<Rightarrow> (nat \<Rightarrow> int) \<Rightarrow> 'd world \<Rightarrow> (sched_error option \<times> 'd world) go" where
  "recoverSchedule my c clock w0 =
     go_bind (connect_db my c w0) (\<lambda>w.
       case my_Query my (Select_Unsent (records_table c)) (sdb w) of
         None \<Rightarrow> Ret (Some Err_SQL, w)
       | Some rows \<Rightarrow>
           go_bind (recover_rows my c (zip rows (map clock [0..<length rows])) w) (\<lambda>w1. Ret (None, w1)))"

definition ChangeConnection :: "TCPConn option \<Rightarrow> 'd world \<Rightarrow> 'd world" where
  "ChangeConnection t w = w\<lparr>tcp := t\<rparr>"

definition InitScheduler :: "'d mysql \<Rightarrow> conf \<Rightarrow> (nat \<Rightarrow> int) \<Rightarrow> TCPConn option \<Rightarrow> 'd world \<Rightarrow> 'd world go" where
  "InitScheduler my c clock t w =
     (let w1 = w\<lparr>tcp := t\<rparr>;
          w2 = w1\<lparr>sdb := snd (initializeMySQLDatabase my c (sdb w1))\<rparr>
      in go_bind (recoverSchedule my c clock w2) (\<lambda>(err, w3).
           case err of None \<Rightarrow> Ret w3 | Some e \<Rightarrow> Panic (Explicit_Panic ''recover'')))"

section \<open>What the code relies on\<close>

text \<open>
  A record is accepted when it fits the columns of the table (\<open>TINYINT\<close>, two \<open>VARCHAR(512)\<close>, an
  unsigned integer).
\<close>

definition fits_record :: "int \<Rightarrow> string \<Rightarrow> string \<Rightarrow> int \<Rightarrow> bool" where
  "fits_record t e b x \<longleftrightarrow> - 128 \<le> t \<and> t \<le> 127 \<and> length e \<le> 512 \<and> length b \<le> 512 \<and> 0 \<le> x"

definition mark_sent :: "int \<Rightarrow> sql_row list \<Rightarrow> sql_row list" where
  "mark_sent i rs = map (\<lambda>r. if r_id r = i then r\<lparr>r_sent := True\<rparr> else r) rs"

definition msg_of :: "sql_row \<Rightarrow> Obj" where
  "msg_of r = \<lparr>MessageType = r_type r, Endpoint = r_endpoint r, MessageBody = r_body r, Expiration = 0\<rparr>"

text \<open>The message recorded under an id.\<close>

definition messages_in :: "sql_row list \<Rightarrow> int \<rightharpoonup> Obj" where
  "messages_in rs = map_of (map (\<lambda>r. (r_id r, msg_of r)) rs)"

locale schedule_db =
  fixes my :: "'d mysql" and tbl :: string and rows :: "'d \<Rightarrow> sql_row list"
    and last_id :: "'d \<Rightarrow> int" and ready :: "'d \<Rightarrow> bool"
  assumes db_connect: "ready d \<Longrightarrow> my_Connect my ''schedule'' d"
    and db_prepare_insert: "ready d \<Longrightarrow> my_Prepare my (Insert_Record tbl t e b x) d"
    and db_prepare_update: "ready d \<Longrightarrow> my_Prepare my (Update_Sent tbl i) d"
    and db_insert: "ready d \<Longrightarrow> fits_record t e b x \<Longrightarrow> d' = my_Run my (Insert_Record tbl t e b x) d \<Longrightarrow>
      ready d' \<and> last_id d' \<notin> r_id ` set (rows d) \<and>
      rows d' = rows d @ [\<lparr>r_id = last_id d', r_type = t, r_endpoint = e, r_body = b, r_ttl = x, r_sent = False\<rparr>]"
    and db_last_id: "ready d \<Longrightarrow> \<exists>r. my_Query my Select_Last_Id d = Some [r] \<and> r_id r = last_id d"
    and db_by_id: "ready d \<Longrightarrow> my_Query my (Select_By_Id tbl i) d = Some (filter (\<lambda>r. r_id r = i) (rows d))"
    and db_unsent: "ready d \<Longrightarrow> my_Query my (Select_Unsent tbl) d = Some (filter (\<lambda>r. \<not> r_sent r) (rows d))"
    and db_update: "ready d \<Longrightarrow> d' = my_Run my (Update_Sent tbl i) d \<Longrightarrow> ready d' \<and> rows d' = mark_sent i (rows d)"
    and db_keys: "ready d \<Longrightarrow> distinct (map r_id (rows d))"

section \<open>Lemmas\<close>

lemma write_tcp_simps [simp]:
  "sdb (write_tcp bs w) = sdb w" "store (write_tcp bs w) = store w" "main_queue (write_tcp bs w) = main_queue w"
  "signalled (write_tcp bs w) = signalled w" "next_chan (write_tcp bs w) = next_chan w"
  "tcp (write_tcp bs w) = None \<longleftrightarrow> tcp w = None"
  by (simp_all add: write_tcp_def split: option.splits)

lemma report_simps [simp]:
  "sdb (reportSchedule w) = sdb w" "store (reportSchedule w) = store w" "main_queue (reportSchedule w) = main_queue w"
  "signalled (reportSchedule w) = signalled w" "next_chan (reportSchedule w) = next_chan w"
  "tcp (reportSchedule w) = None \<longleftrightarrow> tcp w = None"
  "sdb (consumeSchedule i w) = sdb w" "store (consumeSchedule i w) = store w" "main_queue (consumeSchedule i w) = main_queue w"
  "signalled (consumeSchedule i w) = signalled w" "next_chan (consumeSchedule i w) = next_chan w"
  "tcp (consumeSchedule i w) = None \<longleftrightarrow> tcp w = None"
  by (simp_all add: reportSchedule_def consumeSchedule_def)

lemma messages_in_mark [simp]: "messages_in (mark_sent i rs) = messages_in rs"
  by (simp add: messages_in_def mark_sent_def msg_of_def comp_def) (induction rs, auto simp: fun_eq_iff)

lemma map_id_mark [simp]: "map r_id (mark_sent i rs) = map r_id rs"
  by (simp add: mark_sent_def)

lemma ids_mark [simp]: "r_id ` set (mark_sent i rs) = r_id ` set rs"
  by (metis map_id_mark set_map)

lemma messages_in_head:
  assumes "messages_in rs i = Some m"
  shows "\<exists>r. slice_get (filter (\<lambda>r. r_id r = i) rs) 0 = Ret r \<and> msg_of r = m"
  using assms by (induction rs) (auto simp: messages_in_def slice_get_def split: if_splits)

lemma PushMessage_room:
  assumes "ring_inv n q" and "length (contents n q) < n - 1"
  shows "\<exists>q'. PushMessage n x q = Ret q' \<and> ring_inv n q' \<and> contents n q' = contents n q @ [x]"
  using rq.pb_abs [OF assms(1), of x] rq.pb_inv [OF assms(1), of x] assms(2)
  by (auto simp: spec_push_def)

text \<open>The invariant of the scheduler.\<close>

definition world_inv :: "conf \<Rightarrow> ('d \<Rightarrow> sql_row list) \<Rightarrow> ('d \<Rightarrow> bool) \<Rightarrow> 'd world \<Rightarrow> bool" where
  "world_inv c rows ready w \<longleftrightarrow> ready (sdb w) \<and> ks_inv (store w) \<and> ring_inv (nat (GetQueueLength c)) (main_queue w) \<and>
     dom (time_table (store w)) \<subseteq> r_id ` set (rows (sdb w)) \<and> (\<forall>ch \<in> set (signalled w). ch < next_chan w)"

definition queued :: "conf \<Rightarrow> 'd world \<Rightarrow> Obj list" where
  "queued c w = contents (nat (GetQueueLength c)) (main_queue w)"

definition room :: "conf \<Rightarrow> 'd world \<Rightarrow> nat" where
  "room c w = nat (GetQueueLength c) - 1 - length (queued c w)"

text \<open>Recovery: a row read back with the clock reading that decides whether it is due.\<close>

definition due :: "sql_row \<times> int \<Rightarrow> bool" where
  "due rn = (snd rn + 1000 > r_ttl (fst rn))"

definition row_ok :: "sql_row \<times> int \<Rightarrow> bool" where
  "row_ok rn \<longleftrightarrow> valid_now (snd rn) \<and> 0 \<le> r_ttl (fst rn) \<and> r_ttl (fst rn) < 2 ^ 63"

definition later_slot :: "sql_row \<times> int \<Rightarrow> int" where
  "later_slot rn = (min (r_ttl (fst rn) - snd rn) max_delay + snd rn) div 100"

definition waiting :: "(sql_row \<times> int) list \<Rightarrow> int \<rightharpoonup> int" where
  "waiting rs = map_of (map (\<lambda>rn. (r_id (fst rn), later_slot rn)) (filter (\<lambda>rn. \<not> due rn) rs))"

lemma waiting_Cons:
  "waiting (rn # rs) = (if due rn then waiting rs else (waiting rs)(r_id (fst rn) \<mapsto> later_slot rn))"
  by (simp add: waiting_def)

lemma wrap_now: "valid_now now \<Longrightarrow> wrap64 (now + 1000) = now + 1000"
  by (simp add: valid_now_def is_int64_def)

context schedule_db
begin

lemma connect_ok: "ready (sdb w) \<Longrightarrow> connect_db my c w = Ret w"
  by (cases w) (simp add: connect_db_def getMySQLConnector_def db_connect)

lemma push_ok:
  assumes inv: "world_inv c rows ready w" and t: "tbl = records_table c" and m: "messages_in (rows (sdb w)) (Id s) = Some m"
    and fresh: "Signal s \<notin> set (signalled w)" "Signal s < next_chan w" and "0 < room c w"
  shows "\<exists>w'. pushToSendingQueue my c s w = Ret (None, w') \<and> world_inv c rows ready w' \<and>
     rows (sdb w') = mark_sent (Id s) (rows (sdb w)) \<and> queued c w' = queued c w @ [m] \<and>
     store w' = store w \<and> next_chan w' = next_chan w \<and> (tcp w' = None \<longleftrightarrow> tcp w = None) \<and>
     (tcp w = None \<longrightarrow> Signal s \<in> set (signalled w'))"
proof -
  let ?n = "nat (GetQueueLength c)" and ?d = "my_Run my (Update_Sent tbl (Id s)) (sdb w)"
  have rd: "ready (sdb w)" using inv by (simp add: world_inv_def)
  obtain r where r: "slice_get (filter (\<lambda>r. r_id r = Id s) (rows (sdb w))) 0 = Ret r" "msg_of r = m"
    using messages_in_head [OF m] by blast
  obtain q where q: "PushMessage ?n m (main_queue w) = Ret q" "ring_inv ?n q"
      "contents ?n q = contents ?n (main_queue w) @ [m]"
    using PushMessage_room [of ?n "main_queue w" m] inv assms(6)
    by (auto simp: world_inv_def room_def queued_def less_diff_conv)
  have d: "ready ?d" "rows ?d = mark_sent (Id s) (rows (sdb w))" using db_update [OF rd] by auto
  let ?w = "w\<lparr>sdb := ?d, main_queue := q\<rparr>"
  let ?w' = "if tcp w = None then ?w\<lparr>signalled := Signal s # signalled w\<rparr> else reportSchedule ?w"
  have "pushToSendingQueue my c s w = Ret (None, ?w')"
    using r q(1) db_by_id [OF rd, of "Id s"] db_prepare_update [OF rd, of "Id s"] fresh(1)
    by (simp add: pushToSendingQueue_def connect_ok [OF rd] t [symmetric] Let_def signal_chan_def msg_of_def)
  moreover have "world_inv c rows ready ?w'"
    using inv d q fresh(2) by (auto simp: world_inv_def)
  ultimately show ?thesis
    using d q by (intro exI [of _ ?w']) (simp add: queued_def)
qed

lemma insert_ok:
  assumes inv: "world_inv c rows ready w" and t: "tbl = records_table c"
    and fits: "fits_record (MessageType m) (Endpoint m) (MessageBody m) (wrap64 (now1 + Expiration m))"
    and w1: "w1 = w\<lparr>sdb := my_Run my (Insert_Record tbl (MessageType m) (Endpoint m) (MessageBody m) (wrap64 (now1 + Expiration m))) (sdb w),
        next_chan := Suc (next_chan w)\<rparr>"
    and i: "i = last_id (sdb w1)"
  shows "world_inv c rows ready w1 \<and> i \<notin> r_id ` set (rows (sdb w)) \<and> queued c w1 = queued c w \<and> room c w1 = room c w \<and>
    messages_in (rows (sdb w1)) i = Some (m\<lparr>Expiration := 0\<rparr>) \<and>
    rows (sdb w1) = rows (sdb w) @ [\<lparr>r_id = i, r_type = MessageType m, r_endpoint = Endpoint m, r_body = MessageBody m,
       r_ttl = wrap64 (now1 + Expiration m), r_sent = False\<rparr>] \<and>
    (\<exists>r. my_Query my Select_Last_Id (sdb w1) = Some [r] \<and> r_id r = i)"
proof -
  have rd: "ready (sdb w)" using inv by (simp add: world_inv_def)
  note ins = db_insert [OF rd fits refl]
  have "messages_in (rows (sdb w1)) i = Some (m\<lparr>Expiration := 0\<rparr>)"
    using ins by (auto simp: w1 i messages_in_def msg_of_def map_of_append map_add_def image_image split: option.splits
        dest!: map_of_SomeD)
  then show ?thesis
    using ins inv db_last_id [of "sdb w1"] by (auto simp: w1 i world_inv_def queued_def room_def less_Suc_eq)
qed

lemma new_delayed:
  assumes inv: "world_inv c rows ready w" and t: "tbl = records_table c"
    and fits: "fits_record (MessageType m) (Endpoint m) (MessageBody m) (wrap64 (now1 + Expiration m))"
    and delay: "1000 \<le> Expiration m"
  shows "\<exists>s w'. NewSchedule my c now1 now2 (Some m) w = Ret (Inr s, w') \<and> world_inv c rows ready w' \<and>
     Id s \<notin> r_id ` set (rows (sdb w)) \<and> messages_in (rows (sdb w')) (Id s) = Some (m\<lparr>Expiration := 0\<rparr>) \<and>
     queued c w' = queued c w \<and> room c w' = room c w \<and> Signal s \<notin> set (signalled w') \<and> Signal s < next_chan w' \<and>
     time_table (store w') = (time_table (store w))(Id s \<mapsto> due_slot now2 \<lparr>Id = Id s, Exp = Expiration m, Signal = Signal s\<rparr>)"
proof -
  define w1 where "w1 = w\<lparr>sdb := my_Run my (Insert_Record tbl (MessageType m) (Endpoint m) (MessageBody m) (wrap64 (now1 + Expiration m))) (sdb w),
        next_chan := Suc (next_chan w)\<rparr>"
  define i where "i = last_id (sdb w1)"
  let ?s = "\<lparr>Id = i, Exp = Expiration m, Signal = next_chan w\<rparr>"
  have rd: "ready (sdb w)" and ks: "ks_inv (store w)" using inv by (simp_all add: world_inv_def)
  note ins = insert_ok [OF inv t fits w1_def i_def]
  have fields: "store w1 = store w" "tcp w1 = tcp w" "next_chan w1 = Suc (next_chan w)" "signalled w1 = signalled w"
    by (simp_all add: w1_def)
  have no: "time_table (store w) i = None"
    using ins inv unfolding world_inv_def by blast
  then have "\<not> put_collides now2 ?s (store w)"
    using ks by (auto simp: put_collides_def ks_inv_def) (metis list.set_intros(1) option.distinct(1))
  then obtain ks' where p: "put now2 (Some ?s) (store w) = Ret (None, Some (clamp_exp ?s), ks')"
      "time_table ks' = (time_table (store w))(i \<mapsto> due_slot now2 ?s)" "ks_inv ks'"
    using put_ok [OF ks] put_inv [OF ks] by fastforce
  let ?w2 = "w1\<lparr>store := ks'\<rparr>"
  let ?w' = "if tcp w \<noteq> None then consumeSchedule (word_of_int i) ?w2 else ?w2"
  obtain r where r: "my_Query my Select_Last_Id (sdb w1) = Some [r]" "r_id r = i" using ins by blast
  have run: "NewSchedule my c now1 now2 (Some m) w = Ret (Inr (clamp_exp ?s), ?w')"
    using r p(1) delay db_prepare_insert [OF rd]
    by (simp add: NewSchedule_def connect_ok [OF rd] t [symmetric] Let_def make_chan_def slice_get_def w1_def)
  have "next_chan w \<notin> set (signalled w)" using inv by (auto simp: world_inv_def)
  moreover have "i \<in> r_id ` set (rows (sdb w1))" using ins by simp
  moreover have w1_inv: "world_inv c rows ready w1" using ins by blast
  moreover have "dom (time_table (store w)) \<subseteq> r_id ` set (rows (sdb w1))"
    using w1_inv fields(1) unfolding world_inv_def by simp
  ultimately have "world_inv c rows ready ?w'" "Signal (clamp_exp ?s) \<notin> set (signalled ?w')"
    using p(2,3) fields by (auto simp: world_inv_def clamp_exp_def)
  then show ?thesis
    using ins p(2) fields unfolding run by (intro exI [of _ "clamp_exp ?s"] exI [of _ ?w'])
      (auto simp: queued_def room_def clamp_exp_def)
qed

lemma new_immediate:
  assumes inv: "world_inv c rows ready w" and t: "tbl = records_table c"
    and fits: "fits_record (MessageType m) (Endpoint m) (MessageBody m) (wrap64 (now1 + Expiration m))"
    and now: "Expiration m < 1000" and "0 < room c w"
  shows "\<exists>s w'. NewSchedule my c now1 now2 (Some m) w = Ret (Inr s, w') \<and> world_inv c rows ready w' \<and>
     queued c w' = queued c w @ [m\<lparr>Expiration := 0\<rparr>] \<and> store w' = store w \<and>
     (\<forall>r \<in> set (rows (sdb w')). r_id r = Id s \<longrightarrow> r_sent r) \<and>
     (tcp w = None \<longrightarrow> Signal s \<in> set (signalled w'))"
proof -
  define w1 where "w1 = w\<lparr>sdb := my_Run my (Insert_Record tbl (MessageType m) (Endpoint m) (MessageBody m) (wrap64 (now1 + Expiration m))) (sdb w),
        next_chan := Suc (next_chan w)\<rparr>"
  define i where "i = last_id (sdb w1)"
  let ?s = "\<lparr>Id = i, Exp = Expiration m, Signal = next_chan w\<rparr>"
  have rd: "ready (sdb w)" using inv by (simp add: world_inv_def)
  note ins = insert_ok [OF inv t fits w1_def i_def]
  obtain r where r: "my_Query my Select_Last_Id (sdb w1) = Some [r]" "r_id r = i" using ins by blast
  have "next_chan w \<notin> set (signalled w1)" "next_chan w < next_chan w1"
    using inv by (auto simp: world_inv_def w1_def)
  then obtain w2 where p: "pushToSendingQueue my c ?s w1 = Ret (None, w2)" "world_inv c rows ready w2"
      "rows (sdb w2) = mark_sent i (rows (sdb w1))" "queued c w2 = queued c w1 @ [m\<lparr>Expiration := 0\<rparr>]" "store w2 = store w1"
      "tcp w1 = None \<longrightarrow> next_chan w \<in> set (signalled w2)"
    using push_ok [of c w1 ?s "m\<lparr>Expiration := 0\<rparr>"] ins t assms(5) by auto
  let ?w' = "if tcp w2 \<noteq> None then consumeSchedule (word_of_int i) w2 else w2"
  have run: "NewSchedule my c now1 now2 (Some m) w = Ret (Inr ?s, ?w')"
    using r p(1) now db_prepare_insert [OF rd]
    by (simp add: NewSchedule_def connect_ok [OF rd] t [symmetric] Let_def make_chan_def slice_get_def w1_def)
  have "world_inv c rows ready ?w'" using p(2) by (auto simp: world_inv_def)
  then show ?thesis
    using p ins unfolding run by (intro exI [of _ ?s] exI [of _ ?w']) (auto simp: queued_def w1_def mark_sent_def)
qed

lemma recover_due:
  assumes inv: "world_inv c rows ready w" and t: "tbl = records_table c"
    and m: "messages_in (rows (sdb w)) (r_id row) = Some (msg_of row)" and now: "valid_now now" "due (row, now)" and "0 < room c w"
  shows "\<exists>w'. recover_rows my c ((row, now) # rs) w = recover_rows my c rs w' \<and> world_inv c rows ready w' \<and>
     rows (sdb w') = mark_sent (r_id row) (rows (sdb w)) \<and> queued c w' = queued c w @ [msg_of row] \<and>
     store w' = store w"
proof -
  let ?w1 = "w\<lparr>next_chan := Suc (next_chan w)\<rparr>"
  let ?s = "\<lparr>Id = r_id row, Exp = wrap64 (r_ttl row - now), Signal = next_chan w\<rparr>"
  have "world_inv c rows ready ?w1" "next_chan w \<notin> set (signalled w)" "room c ?w1 = room c w" "queued c ?w1 = queued c w"
    using inv by (auto simp: world_inv_def less_Suc_eq room_def queued_def)
  then obtain w' where "pushToSendingQueue my c ?s ?w1 = Ret (None, w')" "world_inv c rows ready w'"
      "rows (sdb w') = mark_sent (r_id row) (rows (sdb w))" "queued c w' = queued c w @ [msg_of row]" "store w' = store w"
    using push_ok [of c ?w1 ?s "msg_of row"] t m assms(6) by auto
  moreover have "wrap64 (now + 1000) > r_ttl row"
    using now by (simp add: due_def wrap_now)
  ultimately show ?thesis by (intro exI [of _ w']) (simp add: make_chan_def Let_def)
qed

lemma recover_later:
  assumes inv: "world_inv c rows ready w" and row: "row_ok (row, now)" "r_id row \<in> r_id ` set (rows (sdb w))"
    and fresh: "time_table (store w) (r_id row) = None" and "\<not> due (row, now)"
  shows "\<exists>w'. recover_rows my c ((row, now) # rs) w = recover_rows my c rs w' \<and> world_inv c rows ready w' \<and>
     sdb w' = sdb w \<and> queued c w' = queued c w \<and>
     time_table (store w') = (time_table (store w))(r_id row \<mapsto> (min (r_ttl row - now) max_delay + now) div 100)"
proof -
  let ?s = "\<lparr>Id = r_id row, Exp = wrap64 (r_ttl row - now), Signal = next_chan w\<rparr>"
  have ks: "ks_inv (store w)" using inv by (simp add: world_inv_def)
  have b: "is_int64 (r_ttl row - now)" "1000 \<le> r_ttl row - now" "valid_now now"
    using row assms(5) by (auto simp: row_ok_def due_def valid_now_def is_int64_def)
  have slot: "due_slot now ?s = (min (r_ttl row - now) max_delay + now) div 100"
    using due_slot_eq [OF b(3), of ?s] b by simp
  have "\<not> put_collides now ?s (store w)"
    using ks fresh by (auto simp: put_collides_def ks_inv_def) (metis list.set_intros(1) option.distinct(1))
  then obtain ks' where p: "put now (Some ?s) (store w) = Ret (None, Some (clamp_exp ?s), ks')"
      "time_table ks' = (time_table (store w))(r_id row \<mapsto> due_slot now ?s)" "ks_inv ks'"
    using put_ok [OF ks] put_inv [OF ks] by fastforce
  let ?w' = "w\<lparr>next_chan := Suc (next_chan w), store := ks'\<rparr>"
  have "\<not> wrap64 (now + 1000) > r_ttl row"
    using assms(5) b(3) by (simp add: due_def wrap_now)
  then have "recover_rows my c ((row, now) # rs) w = recover_rows my c rs ?w'"
    using p(1) by (simp add: make_chan_def Let_def)
  moreover have "world_inv c rows ready ?w'"
    using inv p row(2) by (auto simp: world_inv_def less_Suc_eq)
  ultimately show ?thesis
    using p(2) by (intro exI [of _ ?w']) (simp add: queued_def slot)
qed

lemma recover_ok:
  assumes "world_inv c rows ready w" and "tbl = records_table c" and "distinct (map (r_id \<circ> fst) rs)"
    and "\<forall>rn \<in> set rs. row_ok rn \<and> messages_in (rows (sdb w)) (r_id (fst rn)) = Some (msg_of (fst rn)) \<and>
           time_table (store w) (r_id (fst rn)) = None"
    and "length (filter due rs) \<le> room c w"
  shows "\<exists>w'. recover_rows my c rs w = Ret w' \<and> world_inv c rows ready w' \<and>
     queued c w' = queued c w @ map (msg_of \<circ> fst) (filter due rs) \<and>
     rows (sdb w') = fold (\<lambda>rn. mark_sent (r_id (fst rn))) (filter due rs) (rows (sdb w)) \<and>
     time_table (store w') = time_table (store w) ++ waiting rs"
  using assms
proof (induction rs arbitrary: w)
  case (Cons rn rs)
  obtain row now where rn: "rn = (row, now)" by (cases rn)
  have head: "row_ok (row, now)" "messages_in (rows (sdb w)) (r_id row) = Some (msg_of row)" "time_table (store w) (r_id row) = None"
    using Cons.prems(4) rn by auto
  have notin: "\<forall>x \<in> set rs. r_id (fst x) \<noteq> r_id row" using Cons.prems(3) rn by force
  show ?case
  proof (cases "due (row, now)")
    case True
    then obtain w1 where w1: "recover_rows my c ((row, now) # rs) w = recover_rows my c rs w1" "world_inv c rows ready w1"
        "rows (sdb w1) = mark_sent (r_id row) (rows (sdb w))" "queued c w1 = queued c w @ [msg_of row]" "store w1 = store w"
      using recover_due [OF Cons.prems(1,2) head(2) _ True] head(1) Cons.prems(5) rn by (auto simp: row_ok_def)
    have "\<exists>w'. recover_rows my c rs w1 = Ret w' \<and> world_inv c rows ready w' \<and>
       queued c w' = queued c w1 @ map (msg_of \<circ> fst) (filter due rs) \<and>
       rows (sdb w') = fold (\<lambda>rn. mark_sent (r_id (fst rn))) (filter due rs) (rows (sdb w1)) \<and>
       time_table (store w') = time_table (store w1) ++ waiting rs"
      using Cons.prems w1(2-5) rn True by (intro Cons.IH) (auto simp: room_def)
    then show ?thesis
      unfolding rn w1(1) using w1(3-5) True by (auto simp: waiting_def)
  next
    case False
    have "r_id row \<in> r_id ` set (rows (sdb w))"
      using head(2) by (auto simp: messages_in_def dest!: map_of_SomeD)
    then obtain w1 where w1: "recover_rows my c ((row, now) # rs) w = recover_rows my c rs w1" "world_inv c rows ready w1"
        "sdb w1 = sdb w" "queued c w1 = queued c w"
        "time_table (store w1) = (time_table (store w))(r_id row \<mapsto> (min (r_ttl row - now) max_delay + now) div 100)"
      using recover_later [OF Cons.prems(1) head(1) _ head(3) False] by blast
    have "\<exists>w'. recover_rows my c rs w1 = Ret w' \<and> world_inv c rows ready w' \<and>
       queued c w' = queued c w1 @ map (msg_of \<circ> fst) (filter due rs) \<and>
       rows (sdb w') = fold (\<lambda>rn. mark_sent (r_id (fst rn))) (filter due rs) (rows (sdb w1)) \<and>
       time_table (store w') = time_table (store w1) ++ waiting rs"
      using Cons.prems w1(2-5) rn False notin by (intro Cons.IH) (auto simp: room_def)
    moreover have "r_id row \<notin> dom (waiting rs)"
      using notin by (auto simp: waiting_def dom_map_of_conv_image_fst)
    then have "time_table (store w1) ++ waiting rs = time_table (store w) ++ waiting ((row, now) # rs)"
      using False by (simp add: waiting_Cons w1(5) map_add_upd_left later_slot_def)
    ultimately show ?thesis
      unfolding rn w1(1) using w1(3,4) False by auto
  qed
qed (simp add: waiting_def)

end

section \<open>A database that satisfies the interface\<close>

record table_db =
  t_rows :: "sql_row list"
  t_last :: int

definition next_id :: "table_db \<Rightarrow> int" where
  "next_id d = fold max (map r_id (t_rows d)) 0 + 1"

definition table_run :: "string \<Rightarrow> sql \<Rightarrow> table_db \<Rightarrow> table_db" where
  "table_run tbl st d = (case st of
      Insert_Record t ty e b x \<Rightarrow>
        if t = tbl \<and> fits_record ty e b x
        then \<lparr>t_rows = t_rows d @ [\<lparr>r_id = next_id d, r_type = ty, r_endpoint = e, r_body = b, r_ttl = x, r_sent = False\<rparr>],
              t_last = next_id d\<rparr>
        else d\<lparr>t_last := 0\<rparr>
    | Update_Sent t i \<Rightarrow> if t = tbl then d\<lparr>t_rows := mark_sent i (t_rows d)\<rparr> else d
    | _ \<Rightarrow> d)"

definition table_query :: "string \<Rightarrow> sql \<Rightarrow> table_db \<Rightarrow> sql_row list option" where
  "table_query tbl st d = (case st of
      Select_Last_Id \<Rightarrow> Some [\<lparr>r_id = t_last d, r_type = 0, r_endpoint = [], r_body = [], r_ttl = 0, r_sent = False\<rparr>]
    | Select_By_Id t i \<Rightarrow> if t = tbl then Some (filter (\<lambda>r. r_id r = i) (t_rows d)) else None
    | Select_Unsent t \<Rightarrow> if t = tbl then Some (filter (\<lambda>r. \<not> r_sent r) (t_rows d)) else None
    | Show_Tables t \<Rightarrow> Some []
    | _ \<Rightarrow> None)"

definition table_mysql :: "string \<Rightarrow> table_db mysql" where
  "table_mysql tbl = \<lparr>my_Connect = (\<lambda>_ _. True), my_Prepare = (\<lambda>_ _. True), my_Run = table_run tbl, my_Query = table_query tbl\<rparr>"

definition table_ready :: "table_db \<Rightarrow> bool" where
  "table_ready d \<longleftrightarrow> distinct (map r_id (t_rows d))"

lemma le_fold_max: "(a :: int) \<le> fold max xs a \<and> (\<forall>x \<in> set xs. x \<le> fold max xs a)"
proof (induction xs arbitrary: a)
  case (Cons x xs)
  have "max x a \<le> fold max xs (max x a)" using Cons [of "max x a"] by blast
  then show ?case using Cons [of "max x a"] by simp
qed simp

lemma next_id_fresh: "next_id d \<notin> r_id ` set (t_rows d)"
  using le_fold_max [of 0 "map r_id (t_rows d)"] by (force simp: next_id_def)

interpretation tdb: schedule_db "table_mysql tbl" tbl t_rows t_last table_ready for tbl
  by unfold_locales
    (simp_all add: table_mysql_def table_ready_def table_run_def table_query_def next_id_fresh)

lemma recovery_spec:
  assumes "schedule_db my (records_table c) rows last_id ready" and "world_inv c rows ready w"
    and "time_table (store w) = Map.empty"
    and "rs = zip (filter (\<lambda>r. \<not> r_sent r) (rows (sdb w))) (map clock [0..<length (filter (\<lambda>r. \<not> r_sent r) (rows (sdb w)))])"
    and "\<forall>rn \<in> set rs. row_ok rn" and "length (filter due rs) \<le> room c w"
  shows "\<exists>w'. recoverSchedule my c clock w = Ret (None, w') \<and> world_inv c rows ready w' \<and>
     queued c w' = queued c w @ map (msg_of \<circ> fst) (filter due rs) \<and>
     rows (sdb w') = fold (\<lambda>rn. mark_sent (r_id (fst rn))) (filter due rs) (rows (sdb w)) \<and>
     time_table (store w') = map_of (map (\<lambda>rn. (r_id (fst rn), later_slot rn)) (filter (\<lambda>rn. \<not> due rn) rs))"
proof -
  let ?u = "filter (\<lambda>r. \<not> r_sent r) (rows (sdb w))"
  have rd: "ready (sdb w)" using assms(2) by (simp add: world_inv_def)
  have fsts: "map fst rs = ?u" using assms(4) by simp
  have keys: "distinct (map r_id (rows (sdb w)))" using schedule_db.db_keys [OF assms(1) rd] .
  have "map (r_id \<circ> fst) rs = map r_id ?u" using fsts by (metis map_map)
  then have "distinct (map (r_id \<circ> fst) rs)" using keys by (simp add: distinct_map_filter)
  moreover have "messages_in (rows (sdb w)) (r_id (fst rn)) = Some (msg_of (fst rn))" if "rn \<in> set rs" for rn
  proof -
    have "fst rn \<in> set (rows (sdb w))" using that fsts by (metis filter_is_subset image_eqI list.set_map subsetD)
    then show ?thesis using keys by (auto simp: messages_in_def comp_def intro!: map_of_is_SomeI)
  qed
  ultimately obtain w' where "recover_rows my c rs w = Ret w'" "world_inv c rows ready w'"
      "queued c w' = queued c w @ map (msg_of \<circ> fst) (filter due rs)"
      "rows (sdb w') = fold (\<lambda>rn. mark_sent (r_id (fst rn))) (filter due rs) (rows (sdb w))"
      "time_table (store w') = time_table (store w) ++ waiting rs"
    using schedule_db.recover_ok [OF assms(1,2) refl, of rs] assms(3,5,6) by auto
  then show ?thesis
    using assms(3,4) schedule_db.db_unsent [OF assms(1) rd]
    by (auto simp: recoverSchedule_def schedule_db.connect_ok [OF assms(1) rd] waiting_def)
qed

section \<open>Properties\<close>


text \<open>A program state with an empty table.\<close>

definition sample_world :: "table_db world" where
  "sample_world = \<lparr>sdb = \<lparr>t_rows = [], t_last = 0\<rparr>, store = empty_keystore, main_queue = NewQueue 1000,
     tcp = None, signalled = [], next_chan = 0\<rparr>"

lemma sample_world_inv: "world_inv initial_conf t_rows table_ready sample_world"
  using ks_inv_empty NewQueue_inv [of 1000 1000]
  by (simp add: world_inv_def sample_world_def table_ready_def GetQueueLength_def initial_conf_def DEFAULT_QUEUE_LENGTH_def
      empty_keystore_def)

lemma sample_world_room: "0 < room initial_conf sample_world" "queued initial_conf sample_world = []"
  by (simp_all add: room_def queued_def sample_world_def GetQueueLength_def initial_conf_def DEFAULT_QUEUE_LENGTH_def)

lemma sample_obj_fits:
  "fits_record (MessageType sample_obj) (Endpoint sample_obj) (MessageBody sample_obj) (wrap64 (1500 + Expiration sample_obj))"
  by (simp add: fits_record_def sample_obj_def is_int64_def)


text \<open>
  A message due within the next second is not stored but goes to the sending queue at once,
  unchanged but for its expiration, and its row is marked as sent.
\<close>

lemma immediate_message_queued:
  assumes "schedule_db my (records_table c) rows last_id ready" and "world_inv c rows ready w"
    and "fits_record (MessageType m) (Endpoint m) (MessageBody m) (wrap64 (now1 + Expiration m))"
    and "Expiration m < 1000" and "0 < room c w"
  shows "\<exists>s w'. NewSchedule my c now1 now2 (Some m) w = Ret (Inr s, w') \<and> world_inv c rows ready w' \<and>
     queued c w' = queued c w @ [m\<lparr>Expiration := 0\<rparr>] \<and> store w' = store w \<and>
     (\<forall>r \<in> set (rows (sdb w')). r_id r = Id s \<longrightarrow> r_sent r)"
  using schedule_db.new_immediate [OF assms(1,2) refl assms(3-5)] by blast

text \<open>
  Crash recovery: started with an empty store, \<open>recoverSchedule\<close> takes up every row that was
  not sent.  The rows due within a second go to the sending queue in table order and are marked as
  sent; each of the others is put into the slot of its due time (at most thirty days ahead); no
  other id is in the store afterwards.
\<close>

lemma recovery_complete:
  assumes "schedule_db my (records_table c) rows last_id ready" and "world_inv c rows ready w"
    and "time_table (store w) = Map.empty"
    and "rs = zip (filter (\<lambda>r. \<not> r_sent r) (rows (sdb w))) (map clock [0..<length (filter (\<lambda>r. \<not> r_sent r) (rows (sdb w)))])"
    and "\<forall>rn \<in> set rs. row_ok rn" and "length (filter due rs) \<le> room c w"
  shows "\<exists>w'. recoverSchedule my c clock w = Ret (None, w') \<and> world_inv c rows ready w' \<and>
     queued c w' = queued c w @ map (msg_of \<circ> fst) (filter due rs) \<and>
     rows (sdb w') = fold (\<lambda>rn. mark_sent (r_id (fst rn))) (filter due rs) (rows (sdb w)) \<and>
     time_table (store w') = map_of (map (\<lambda>rn. (r_id (fst rn), later_slot rn)) (filter (\<lambda>rn. \<not> due rn) rs))"
  by (rule recovery_spec [OF assms])

definition crashed_world :: "table_db world" where
  "crashed_world = sample_world\<lparr>sdb := \<lparr>t_rows =
     [\<lparr>r_id = 1, r_type = 107, r_endpoint = ''e'', r_body = ''a'', r_ttl = 4000, r_sent = False\<rparr>,
      \<lparr>r_id = 2, r_type = 107, r_endpoint = ''e'', r_body = ''b'', r_ttl = 90000, r_sent = False\<rparr>,
      \<lparr>r_id = 3, r_type = 107, r_endpoint = ''e'', r_body = ''c'', r_ttl = 10, r_sent = True\<rparr>], t_last = 0\<rparr>\<rparr>"

lemma crashed_world_facts:
  assumes "GetQueueLength c = 1000"
  shows "world_inv c t_rows table_ready crashed_world" "queued c crashed_world = []" "room c crashed_world = 999"
    "time_table (store crashed_world) = Map.empty" "tcp crashed_world = None"
  using assms ks_inv_empty NewQueue_inv [of 1000 1000]
  by (simp_all add: world_inv_def queued_def room_def crashed_world_def sample_world_def table_ready_def empty_keystore_def)

lemma crashed_rows:
  "zip (filter (\<lambda>r. \<not> r_sent r) (t_rows (sdb crashed_world))) (map (\<lambda>_. 5000) [0..<length (filter (\<lambda>r. \<not> r_sent r) (t_rows (sdb crashed_world)))]) =
     [(\<lparr>r_id = 1, r_type = 107, r_endpoint = ''e'', r_body = ''a'', r_ttl = 4000, r_sent = False\<rparr>, 5000),
      (\<lparr>r_id = 2, r_type = 107, r_endpoint = ''e'', r_body = ''b'', r_ttl = 90000, r_sent = False\<rparr>, 5000)]"
  by (simp add: crashed_world_def)

text \<open>
  A record that the database refuses makes the call panic: the result of the \<open>INSERT\<close> is not
  looked at, \<open>LAST_INSERT_ID()\<close> of the fresh connection is then 0, no row has that id, and firing
  the message indexes an empty result.  (For a message due within a second; a later one is stored
  under id 0 and panics when it fires, in the goroutine of the timer.)
\<close>

lemma refused_insert_panics:
  assumes "schedule_db my (records_table c) rows last_id ready" and "ready (sdb w)"
    and "d' = my_Run my (Insert_Record (records_table c) (MessageType m) (Endpoint m) (MessageBody m) (wrap64 (now1 + Expiration m))) (sdb w)"
    and "ready d'" and "rows d' = rows (sdb w)" and "last_id d' = 0" and "0 \<notin> r_id ` set (rows (sdb w))"
    and "Expiration m < 1000"
  shows "NewSchedule my c now1 now2 (Some m) w = Panic Index_Out_Of_Range"
proof -
  obtain r where r: "my_Query my Select_Last_Id d' = Some [r]" "r_id r = 0"
    using schedule_db.db_last_id [OF assms(1,4)] assms(6) by auto
  have none: "filter (\<lambda>r. r_id r = 0) (rows d') = []"
    using assms(5,7) by (auto simp: filter_empty_conv image_iff)
  let ?w1 = "w\<lparr>sdb := d', next_chan := Suc (next_chan w)\<rparr>"
  have push: "pushToSendingQueue my c \<lparr>Id = 0, Exp = Expiration m, Signal = next_chan w\<rparr> ?w1 = Panic Index_Out_Of_Range"
    using none schedule_db.db_by_id [OF assms(1,4), of 0] schedule_db.db_prepare_update [OF assms(1,4), of 0]
      schedule_db.connect_ok [OF assms(1), of ?w1 c] assms(4)
    by (simp add: pushToSendingQueue_def slice_get_def Let_def)
  show ?thesis
    using r push assms(8) schedule_db.db_prepare_insert [OF assms(1,2)]
    by (simp add: NewSchedule_def schedule_db.connect_ok [OF assms(1,2)] Let_def make_chan_def slice_get_def flip: assms(3))
qed

end
