(* ===== verification/Cluster.thy ===== *)
theory Cluster
  imports Node_Heap Handshake Schedules
begin

text \<open>
  Master and slaves, \<open>src/clustering\<close>: discovering the peers at start-up, sending to them, the
  handlers for what they send, losing and regaining them, and the distribution of submitted
  messages (\<open>network.go\<close>, \<open>clustering.go\<close>, \<open>clusterqueue.go\<close>, \<open>manage.go\<close>).

  The state is the package state of \<open>Node_Heap\<close>, the scheduler's world, the queue of messages for
  the slaves, and the goroutines that wait for a schedule to be signalled.  The network
  is an argument where it decides something: the outcome of resolving, dialling and accepting,
  with the script of answers that the handshake will see.  The socket of a slave process is
  known to both packages; each of them logs here what it wrote itself.
\<close>

section \<open>State\<close>

record 'd app =
  cl :: cluster
  wd :: "'d world"
  cluster_queue :: "Obj GrandmaQueue"
  waiters :: "(nat \<times> uint) list"

datatype cluster_error =
    Err_No_Available_Slave
  | Err_Slave_Disconnected
  | Err_Distribute_Timeout
  | Err_Distribute_Internal
  | Err_Net
  | Err_Schedule sched_error

definition COMM_TYPE_HEARTBEAT :: byte where "COMM_TYPE_HEARTBEAT = 153"
definition ERR_CONSUME_MESSAGE :: "byte list" where "ERR_CONSUME_MESSAGE = [140]"

text \<open>A closed connection yields nothing and accepts nothing.\<close>

definition tcp_Close :: "TCPConn \<Rightarrow> TCPConn" where
  "tcp_Close t = t\<lparr>rx := [], tx_fails := True\<rparr>"

section \<open>Discovering slaves\<close>

datatype dial_outcome =
    Resolve_Error
  | Dial_Error
  | Dialed TCPConn "rd_event list" "bool list" bool

text \<open>The status of a handshake on a new connection whose network answers are scripted.\<close>

definition handshake_status :: "proc \<Rightarrow> rd_event list \<Rightarrow> bool list \<Rightarrow> int go" where
  "handshake_status p es ws =
     (case run_proc p es ws of None \<Rightarrow> Hang | Some r \<Rightarrow> map_go fst r)"

definition skipped_status :: "int \<Rightarrow> bool" where
  "skipped_status st \<longleftrightarrow> st = HANDSHAKE_STATUS_BADCONN \<or> st = HANDSHAKE_STATUS_REFUSED \<or>
     st = HANDSHAKE_STATUS_TIMEOUT \<or> st = HANDSHAKE_STATUS_UNKNOWN"

definition new_slave :: "int \<Rightarrow> string \<Rightarrow> TCPConn \<Rightarrow> Node" where
  "new_slave i addr t = \<lparr>complexity = 100, saved = 100, index = i, closed = False, address = addr, conn = Some t,
     read_buffer = replicate 4096 0, level_2_buffer = replicate 4096 0, level_2_buffer_size = 0,
     bufferLock = Some free_mutex, channel = Some []\<rparr>"

fun discover_loop :: "conf \<Rightarrow> (string \<Rightarrow> dial_outcome) \<Rightarrow> string list \<Rightarrow> int \<Rightarrow> Node list \<Rightarrow> (cluster_error + Node list) go" where
  "discover_loop c dial [] cnt pool = Ret (Inr pool)"
| "discover_loop c dial (addr # addrs) cnt pool =
     (case dial addr of
        Resolve_Error \<Rightarrow> Ret (Inl Err_Net)
      | Dial_Error \<Rightarrow> Ret (Inl Err_Net)
      | Dialed t es ws keepalive \<Rightarrow>
          go_bind (handshake_status (handshakeMaster (GetNetworkSecret c) (GetGrandmaName c)) es ws) (\<lambda>st.
            if skipped_status st then discover_loop c dial addrs cnt pool
            else if st = HANDSHAKE_STATUS_SUCCESS then
              (if \<not> keepalive then Ret (Inl Err_Net)
               else discover_loop c dial addrs (cnt + 1) (pool @ [new_slave (cnt - 1) addr t]))
            else discover_loop c dial addrs (cnt + 1) pool))"

definition discoverSlaves :: "conf \<Rightarrow> (string \<Rightarrow> dial_outcome) \<Rightarrow> (cluster_error + Node list) go" where
  "discoverSlaves c dial =
     (case GetSlaveList c of
        None \<Rightarrow> Panic Nil_Deref
      | Some addrs \<Rightarrow>
          go_bind (discover_loop c dial addrs 1 []) (\<lambda>r. Ret (case r of
            Inl e \<Rightarrow> Inl e
          | Inr pool \<Rightarrow> if length pool < 1 then Inl Err_No_Available_Slave else Inr pool)))"

section \<open>Sending\<close>

text \<open>The two writes of a message; only the error of the second one is kept.\<close>

definition write_frame :: "byte list \<Rightarrow> TCPConn \<Rightarrow> bool \<times> TCPConn" where
  "write_frame bs t =
     (let (_, t1) = tcp_Write (be16 (word_of_nat (length bs))) t in tcp_Write bs t1)"

definition disconnectSlave :: "int \<Rightarrow> cluster \<Rightarrow> cluster go" where
  "disconnectSlave slave_num g0 =
     go_bind (with_Lock (\<lambda>g.
       go_bind (slice_get (slave_connections g) slave_num) (\<lambda>p.
       go_bind (deref g p) (\<lambda>node.
       case conn node of
         None \<Rightarrow> Panic Nil_Deref
       | Some t \<Rightarrow>
           go_bind (upd_node p (\<lambda>n. n\<lparr>conn := Some (tcp_Close t), closed := True, saved := complexity n\<rparr>) g) (\<lambda>g'.
           Ret (p, g'))))) g0) (\<lambda>(p, g1).
     go_bind (update p 999999 slave_num g1) (\<lambda>g2.
     case dropped_connections g2 of
       None \<Rightarrow> Panic Nil_Deref
     | Some l \<Rightarrow> Ret (g2\<lparr>dropped_connections := Some (l @ [p])\<rparr>)))"

definition sendSlave :: "byte list \<Rightarrow> int \<Rightarrow> cluster \<Rightarrow> (nat \<times> cluster_error option \<times> cluster) go" where
  "sendSlave bs slave_num g0 =
     go_bind (with_RLock (\<lambda>g. go_bind (slice_get (slave_connections g) slave_num) (\<lambda>p. Ret (p, g))) g0) (\<lambda>(p, g).
     go_bind (deref g p) (\<lambda>slave.
       if closed slave then Ret (p, None, g)
       else (case conn slave of
               None \<Rightarrow> Panic Nil_Deref
             | Some t \<Rightarrow>
                 let (ok, t') = write_frame bs t in
                 go_bind (upd_node p (\<lambda>n. n\<lparr>conn := Some t'\<rparr>) g) (\<lambda>g1.
                   if \<not> ok then go_bind (disconnectSlave slave_num g1) (\<lambda>g2. Ret (p, Some Err_Slave_Disconnected, g2))
                   else Ret (p, None, g1)))))"

definition disconnectMaster :: "cluster \<Rightarrow> cluster go" where
  "disconnectMaster g0 = map_go snd (with_Lock (\<lambda>g.
     case master_connection g of
       None \<Rightarrow> Panic Nil_Deref
     | Some n \<Rightarrow>
         (case conn n of
            None \<Rightarrow> Panic Nil_Deref
          | Some t \<Rightarrow> Ret ((), g\<lparr>master_connection := Some (n\<lparr>closed := True, conn := Some (tcp_Close t)\<rparr>)\<rparr>))) g0)"

definition sendMaster :: "byte list \<Rightarrow> cluster \<Rightarrow> cluster go" where
  "sendMaster bs g0 =
     (case master_connection g0 of
        None \<Rightarrow> Panic Nil_Deref
      | Some n0 \<Rightarrow>
          if closed n0 then Ret g0
          else go_bind (with_RLock (\<lambda>g.
                 case master_connection g of
                   None \<Rightarrow> Panic Nil_Deref
                 | Some n \<Rightarrow>
                     (case conn n of
                        None \<Rightarrow> Panic Nil_Deref
                      | Some t \<Rightarrow>
                          let (ok, t') = write_frame bs t in
                          Ret (ok, g\<lparr>master_connection := Some (n\<lparr>conn := Some t'\<rparr>)\<rparr>))) g0) (\<lambda>(ok, g1).
               if ok then Ret g1 else disconnectMaster g1))"

fun heartbeat_loop :: "nat \<Rightarrow> int \<Rightarrow> cluster \<Rightarrow> cluster go" where
  "heartbeat_loop 0 i g = Ret g"
| "heartbeat_loop (Suc k) i g = go_bind (sendSlave [COMM_TYPE_HEARTBEAT] i g) (\<lambda>(_, _, g'). heartbeat_loop k (i + 1) g')"

definition heartbeatSlave :: "cluster \<Rightarrow> cluster go" where
  "heartbeatSlave g = heartbeat_loop (length (slave_connections g)) 0 g"

definition heartbeatMaster :: "cluster \<Rightarrow> cluster go" where
  "heartbeatMaster g = sendMaster [COMM_TYPE_HEARTBEAT] g"

section \<open>Losing and regaining slaves\<close>

text \<open>
  One pass over the dropped nodes.  An element that has been removed from a \<open>container/list\<close> has no
  successor, so the pass ends at the first removal.
\<close>

definition drop_pointer :: "nat \<Rightarrow> cluster \<Rightarrow> cluster" where
  "drop_pointer p g = g\<lparr>dropped_connections := map_option (remove1 p) (dropped_connections g)\<rparr>"

fun rediscover_loop :: "conf \<Rightarrow> (string \<Rightarrow> dial_outcome) \<Rightarrow> nat list \<Rightarrow> cluster \<Rightarrow> cluster go" where
  "rediscover_loop c dial [] g = Ret g"
| "rediscover_loop c dial (p # ps) g =
     go_bind (deref g p) (\<lambda>node.
       if \<not> closed node then map_go snd (with_Lock (\<lambda>g. Ret ((), drop_pointer p g)) g)
       else (case dial (address node) of
               Resolve_Error \<Rightarrow> rediscover_loop c dial ps g
             | Dial_Error \<Rightarrow> rediscover_loop c dial ps g
             | Dialed t es ws keepalive \<Rightarrow>
                 go_bind (handshake_status (handshakeMaster (GetNetworkSecret c) (GetGrandmaName c)) es ws) (\<lambda>st.
                   if skipped_status st then rediscover_loop c dial ps g
                   else if st = HANDSHAKE_STATUS_SUCCESS then
                     (if \<not> keepalive then rediscover_loop c dial ps g
                      else go_bind (with_Lock (\<lambda>g.
                             go_bind (upd_node p (\<lambda>n. n\<lparr>conn := Some t, closed := False\<rparr>) g) (\<lambda>g'.
                             Ret ((), drop_pointer p g'))) g) (\<lambda>(_, g1).
                           go_bind (deref g1 p) (\<lambda>n. update p (saved n) (index n) g1)))
                   else rediscover_loop c dial ps g)))"

definition rediscover_pass :: "conf \<Rightarrow> (string \<Rightarrow> dial_outcome) \<Rightarrow> cluster \<Rightarrow> cluster go" where
  "rediscover_pass c dial g0 =
     go_bind (heartbeatSlave g0) (\<lambda>g.
       case dropped_connections g of
         None \<Rightarrow> Panic Nil_Deref
       | Some l \<Rightarrow> if length l > 0 then rediscover_loop c dial l g else Ret g)"

definition rediscoverSlaves :: "cluster \<Rightarrow> cluster" where
  "rediscoverSlaves g = g\<lparr>dropped_connections := Some []\<rparr>"

section \<open>Waiting for the master\<close>

datatype accept_outcome = Accept_Error | Session TCPConn "rd_event list" "bool list" bool

definition master_node :: "TCPConn option \<Rightarrow> byte list \<Rightarrow> rwmutex option \<Rightarrow> Node" where
  "master_node t buf lock = \<lparr>complexity = 320, saved = 320, index = 0, closed = False, address = [], conn = t,
     read_buffer = buf, level_2_buffer = buf, level_2_buffer_size = 0, bufferLock = lock, channel = None\<rparr>"

fun accept_loop :: "conf \<Rightarrow> accept_outcome list \<Rightarrow> cluster \<Rightarrow> (cluster_error option \<times> cluster) go" where
  "accept_loop c [] g = Hang"
| "accept_loop c (Accept_Error # as) g = Ret (Some Err_Net, g)"
| "accept_loop c (Session t es ws keepalive # as) g =
     go_bind (handshake_status (handshakeSlave (GetNetworkSecret c) (GetGrandmaName c)) es ws) (\<lambda>st.
       if skipped_status st then accept_loop c as g
       else if st = HANDSHAKE_STATUS_SUCCESS then
         (if \<not> keepalive then Ret (Some Err_Net, g)
          else Ret (None, g\<lparr>master_connection := Some (master_node (Some t) (replicate 4096 0) (Some free_mutex))\<rparr>))
       else accept_loop c as g)"

definition waitMasterConnection ::
  "conf \<Rightarrow> bool \<Rightarrow> bool \<Rightarrow> accept_outcome list \<Rightarrow> cluster \<Rightarrow> (cluster_error option \<times> cluster) go" where
  "waitMasterConnection c resolves listens as g =
     (if \<not> resolves then Ret (Some Err_Net, g)
      else if \<not> listens then Ret (Some Err_Net, g)
      else accept_loop c as g)"

text \<open>The loop of a slave that has lost its master; a failed accept or handshake is ignored.\<close>

fun reaccept_loop :: "conf \<Rightarrow> accept_outcome list \<Rightarrow> 'd app \<Rightarrow> 'd app go" where
  "reaccept_loop c [] a = Hang"
| "reaccept_loop c (Accept_Error # as) a = reaccept_loop c as a"
| "reaccept_loop c (Session t es ws keepalive # as) a =
     go_bind (handshake_status (handshakeSlave (GetNetworkSecret c) (GetGrandmaName c)) es ws) (\<lambda>st.
       if skipped_status st then reaccept_loop c as a
       else if st = HANDSHAKE_STATUS_SUCCESS then
         (if \<not> keepalive then reaccept_loop c as a
          else go_bind (with_Lock (\<lambda>g. case master_connection g of
                   None \<Rightarrow> Panic Nil_Deref
                 | Some n \<Rightarrow> Ret ((), g\<lparr>master_connection := Some (n\<lparr>conn := Some t, closed := False\<rparr>)\<rparr>)) (cl a)) (\<lambda>(_, g).
               Ret (a\<lparr>cl := g, wd := ChangeConnection (Some t) (wd a)\<rparr>)))
       else reaccept_loop c as a)"

definition rediscover_master_pass :: "conf \<Rightarrow> bool \<Rightarrow> bool \<Rightarrow> accept_outcome list \<Rightarrow> 'd app \<Rightarrow> 'd app go" where
  "rediscover_master_pass c resolves listens as a0 =
     go_bind (heartbeatMaster (cl a0)) (\<lambda>g.
       let a = a0\<lparr>cl := g\<rparr> in
       case master_connection g of
         None \<Rightarrow> Panic Nil_Deref
       | Some n \<Rightarrow> if closed n \<and> resolves \<and> listens then reaccept_loop c as a else Ret a)"

section \<open>Distribution\<close>

text \<open>
  \<open>node\<close> stays nil in \<open>distLevel1Calls\<close>, so the test that follows it always chooses the master.  The
  goroutine that waits for the signal of the schedule is recorded with the value it will store.
\<close>

definition set_complexity :: "uint \<Rightarrow> 'd app \<Rightarrow> 'd app" where
  "set_complexity x a = a\<lparr>cl := (cl a)\<lparr>master_connection := map_option (\<lambda>n. n\<lparr>complexity := x\<rparr>) (master_connection (cl a))\<rparr>\<rparr>"

definition distLevel1Calls ::
  "'d mysql \<Rightarrow> conf \<Rightarrow> int \<Rightarrow> int \<Rightarrow> Obj \<Rightarrow> 'd app \<Rightarrow> (int \<times> 'd app) go" where
  "distLevel1Calls my c now1 now2 msg a =
     (case master_connection (cl a) of
        None \<Rightarrow> Panic Nil_Deref
      | Some n \<Rightarrow>
          let master_complexity = complexity n in
          go_bind (NewSchedule my c now1 now2 (Some msg) (wd a)) (\<lambda>(r, w).
          let a1 = set_complexity (master_complexity + 3) (a\<lparr>wd := w\<rparr>) in
          case r of
            Inl e \<Rightarrow> Panic Nil_Deref
          | Inr s \<Rightarrow> Ret (Id s, a1\<lparr>waiters := (Signal s, master_complexity - 3) # waiters a1\<rparr>)))"

definition distLevel2Calls ::
  "'d mysql \<Rightarrow> conf \<Rightarrow> int \<Rightarrow> int \<Rightarrow> Obj \<Rightarrow> 'd app \<Rightarrow> (int \<times> 'd app) go" where
  "distLevel2Calls my c now1 now2 msg a =
     go_bind (NewSchedule my c now1 now2 (Some msg) (wd a)) (\<lambda>(r, w).
       case master_connection (cl a) of
         None \<Rightarrow> Panic Nil_Deref
       | Some n \<Rightarrow>
           let master_complexity = complexity n;
               a1 = set_complexity (master_complexity + 3) (a\<lparr>wd := w\<rparr>)
           in case r of
                Inl e \<Rightarrow> Panic Nil_Deref
              | Inr s \<Rightarrow> Ret (Id s, a1\<lparr>waiters := (Signal s, master_complexity + 3) # waiters a1\<rparr>))"

definition DistCalls ::
  "'d mysql \<Rightarrow> conf \<Rightarrow> int \<Rightarrow> int \<Rightarrow> Obj \<Rightarrow> 'd app \<Rightarrow> (int \<times> 'd app) go" where
  "DistCalls my c now1 now2 msg a =
     (if MessageType msg \<noteq> 105 then distLevel1Calls my c now1 now2 msg a
      else distLevel2Calls my c now1 now2 msg a)"

text \<open>A waiting goroutine runs once its channel holds a value.\<close>

definition run_waiter :: "nat \<Rightarrow> 'd app \<Rightarrow> 'd app" where
  "run_waiter ch a =
     (case map_of (waiters a) ch of
        None \<Rightarrow> a
      | Some x \<Rightarrow>
          if ch \<in> set (signalled (wd a))
          then (set_complexity x a)\<lparr>waiters := filter (\<lambda>wt. fst wt \<noteq> ch) (waiters a),
                 wd := (wd a)\<lparr>signalled := removeAll ch (signalled (wd a))\<rparr>\<rparr>
          else a)"

definition distBigDataCalls :: "byte list \<Rightarrow> int" where
  "distBigDataCalls content = - 1"

definition DistBigDataCalls :: "byte list \<Rightarrow> int" where
  "DistBigDataCalls content = distBigDataCalls content"

section \<open>Handlers\<close>

definition consumeLevel1Calls ::
  "'d mysql \<Rightarrow> conf \<Rightarrow> int \<Rightarrow> int \<Rightarrow> byte list \<Rightarrow> 'd app \<Rightarrow> 'd app go" where
  "consumeLevel1Calls my c now1 now2 payload a0 =
     go_bind (NewMessageFromPayload payload) (\<lambda>r.
     go_bind (case r of Inl _ \<Rightarrow> map_go (\<lambda>g. a0\<lparr>cl := g\<rparr>) (sendMaster ERR_CONSUME_MESSAGE (cl a0)) | Inr _ \<Rightarrow> Ret a0) (\<lambda>a.
     go_bind (NewSchedule my c now1 now2 (case r of Inl _ \<Rightarrow> None | Inr m \<Rightarrow> Some m) (wd a)) (\<lambda>(sr, w).
     case sr of
       Inl _ \<Rightarrow> map_go (\<lambda>g. a\<lparr>cl := g, wd := w\<rparr>) (sendMaster ERR_CONSUME_MESSAGE (cl a))
     | Inr _ \<Rightarrow> Ret (a\<lparr>wd := w\<rparr>))))"

definition slaveHandler :: "'d mysql \<Rightarrow> conf \<Rightarrow> int \<Rightarrow> int \<Rightarrow> byte list \<Rightarrow> 'd app \<Rightarrow> 'd app go" where
  "slaveHandler my c now1 now2 bs a =
     (case bs of
        [] \<Rightarrow> Ret a
      | data_type # rest \<Rightarrow>
          if data_type = COMM_TYPE_SCHEDULE then consumeLevel1Calls my c now1 now2 rest a
          else Ret a)"

text \<open>Sending on the node's channel blocks while its one place is taken, and for ever on nil.\<close>

definition masterHandler :: "byte list \<Rightarrow> nat \<Rightarrow> cluster \<Rightarrow> cluster go" where
  "masterHandler bs p g =
     (case bs of
        [] \<Rightarrow> Ret g
      | data_type # rest \<Rightarrow>
          if data_type = COMM_TYPE_CONSUMED then
            (case le32_read rest of
               None \<Rightarrow> Ret g
             | Some i \<Rightarrow>
                 go_bind (deref g p) (\<lambda>n.
                 case channel n of
                   Some [] \<Rightarrow> upd_node p (\<lambda>n. n\<lparr>channel := Some [sint i]\<rparr>) g
                 | _ \<Rightarrow> Hang))
          else if data_type = COMM_TYPE_FINISHED then
            go_bind (deref g p) (\<lambda>n. update p (complexity n - 3) (index n) g)
          else Ret g)"

section \<open>The queue of messages for slaves\<close>

definition pushToSend :: "conf \<Rightarrow> Obj \<Rightarrow> 'd app \<Rightarrow> 'd app go" where
  "pushToSend c msg a =
     map_go (\<lambda>q. a\<lparr>cluster_queue := q\<rparr>) (PushMessage (nat (GetQueueLength c)) msg (cluster_queue a))"

text \<open>\<open>replied\<close>: the slave's channel yields a value within three seconds.\<close>

definition executeSlaveQueue :: "conf \<Rightarrow> bool \<Rightarrow> 'd app \<Rightarrow> 'd app go" where
  "executeSlaveQueue c replied a0 =
     (let n = nat (GetQueueLength c) in
      go_bind (PopMessage n (cluster_queue a0)) (\<lambda>(r, q).
      case r of
        None \<Rightarrow> Panic Nil_Deref
      | Some msg \<Rightarrow>
          go_bind (sendSlave (COMM_TYPE_SCHEDULE # GetMessagePayload msg) 0 (cl a0)) (\<lambda>(p, err, g).
          let a = a0\<lparr>cl := g, cluster_queue := q\<rparr>;
              requeue = map_go (\<lambda>q'. a\<lparr>cluster_queue := q'\<rparr>) (PushFront n msg q)
          in if err \<noteq> None then requeue
             else if replied then
               go_bind (upd_node p (\<lambda>nd. nd\<lparr>channel := Some []\<rparr>) g) (\<lambda>g1.
               go_bind (deref g1 p) (\<lambda>nd.
               go_bind (update p (complexity nd + 3) (index nd) g1) (\<lambda>g2. Ret (a\<lparr>cl := g2\<rparr>))))
             else requeue)))"

section \<open>Start-up\<close>

definition allocate :: "Node list \<Rightarrow> cluster \<Rightarrow> cluster" where
  "allocate pool g = g\<lparr>nodes := nodes g @ pool, slave_connections := [length (nodes g)..<length (nodes g) + length pool]\<rparr>"

definition Network ::
  "conf \<Rightarrow> (string \<Rightarrow> dial_outcome) \<Rightarrow> bool \<Rightarrow> bool \<Rightarrow> accept_outcome list \<Rightarrow> cluster \<Rightarrow> (bool \<times> TCPConn option \<times> cluster) go" where
  "Network c dial resolves listens as g =
     (if GetClusterMode c then
        (if GetSlaveList c \<noteq> None then
           go_bind (discoverSlaves c dial) (\<lambda>r. case r of
             Inl _ \<Rightarrow> Ret (False, None, g)
           | Inr pool \<Rightarrow>
               go_bind (with_Lock (\<lambda>g. Ret ((), (allocate pool g)\<lparr>master_connection :=
                   Some (master_node None (replicate 4096 0) (Some free_mutex))\<rparr>)) g) (\<lambda>(_, g1).
               go_bind (createComplexityRanking g1) (\<lambda>g2. Ret (True, None, rediscoverSlaves g2))))
         else
           go_bind (waitMasterConnection c resolves listens as g) (\<lambda>(err, g1).
             if err \<noteq> None then Ret (False, None, g1)
             else (case master_connection g1 of
                     None \<Rightarrow> Panic Nil_Deref
                   | Some n \<Rightarrow> Ret (True, conn n, g1))))
      else Ret (True, None, g\<lparr>master_connection := Some (master_node None [] None)\<rparr>))"

section \<open>Lemmas\<close>

lemma write_frame_eq:
  "write_frame bs t = (if tx_fails t then (False, t) else (True, t\<lparr>tx := tx t @ frame bs\<rparr>))"
  by (simp add: write_frame_def tcp_Write_def frame_def)

lemma with_RLock_free:
  assumes "RWLock g = free_mutex" and "body (g\<lparr>RWLock := \<lparr>readers = Suc 0, writer = False\<rparr>\<rparr>) = Ret (r, g'\<lparr>RWLock := \<lparr>readers = Suc 0, writer = False\<rparr>\<rparr>)"
    and "RWLock g' = free_mutex"
  shows "with_RLock body g = Ret (r, g')"
  using assms by (simp add: with_RLock_def)

lemma slave_lookup:
  assumes "nodes_inv g" and "i < length (slave_connections g)"
  shows "with_RLock (\<lambda>g. go_bind (slice_get (slave_connections g) (int i)) (\<lambda>p. Ret (p, g))) g = Ret (slave_connections g ! i, g)"
    and "deref g (slave_connections g ! i) = Ret (nodes g ! (slave_connections g ! i))"
  using assms by (simp_all add: with_RLock_def nodes_inv_def deref_def)

definition set_conn :: "nat \<Rightarrow> TCPConn \<Rightarrow> cluster \<Rightarrow> cluster" where
  "set_conn p t g = g\<lparr>nodes := (nodes g)[p := (nodes g ! p)\<lparr>conn := Some t\<rparr>]\<rparr>"

lemma set_conn_simps [simp]:
  "RWLock (set_conn p t g) = RWLock g" "slave_connections (set_conn p t g) = slave_connections g"
  "length (nodes (set_conn p t g)) = length (nodes g)"
  by (simp_all add: set_conn_def)

lemma nodes_set_conn: "p < length (nodes g) \<Longrightarrow> nodes (set_conn p t g) ! p = (nodes g ! p)\<lparr>conn := Some t\<rparr>"
  by (simp add: set_conn_def)

lemma nodes_inv_set_conn [simp]: "nodes_inv (set_conn p t g) = nodes_inv g"
  by (simp add: nodes_inv_def)

text \<open>A send to a live slave appends one frame to what the slave will read.\<close>

lemma sendSlave_ok:
  assumes inv: "nodes_inv g" and i: "i < length (slave_connections g)" and p: "p = slave_connections g ! i"
    and live: "\<not> closed (nodes g ! p)" "conn (nodes g ! p) = Some t" "\<not> tx_fails t"
  shows "sendSlave bs (int i) g = Ret (p, None, set_conn p (t\<lparr>tx := tx t @ frame bs\<rparr>) g)"
proof -
  have "p < length (nodes g)" using inv i p by (simp add: nodes_inv_def)
  then show ?thesis
    using slave_lookup [OF inv i] live p
    by (simp add: sendSlave_def write_frame_eq upd_node_def deref_def set_conn_def)
qed

lemma disconnectSlave_hangs:
  assumes inv: "nodes_inv g" and i: "i < length (slave_connections g)" and c: "conn (nodes g ! (slave_connections g ! i)) = Some t"
  shows "disconnectSlave (int i) g = Hang"
proof -
  let ?p = "slave_connections g ! i"
  have p: "?p < length (nodes g)" using inv i by (simp add: nodes_inv_def)
  let ?g = "g\<lparr>nodes := (nodes g)[?p := (nodes g ! ?p)\<lparr>conn := Some (tcp_Close t), closed := True, saved := complexity (nodes g ! ?p)\<rparr>]\<rparr>"
  have "with_Lock (\<lambda>g.
       go_bind (slice_get (slave_connections g) (int i)) (\<lambda>p.
       go_bind (deref g p) (\<lambda>node.
       case conn node of
         None \<Rightarrow> Panic Nil_Deref
       | Some t \<Rightarrow>
           go_bind (upd_node p (\<lambda>n. n\<lparr>conn := Some (tcp_Close t), closed := True, saved := complexity n\<rparr>) g) (\<lambda>g'.
           Ret (p, g'))))) g = Ret (?p, ?g)"
    using inv i p c by (simp add: with_Lock_def nodes_inv_def deref_def upd_node_def)
  moreover have "update ?p 999999 (int i) ?g = Hang"
    using p by (intro update_hangs) simp
  ultimately show ?thesis by (simp add: disconnectSlave_def)
qed

lemma sendSlave_broken:
  assumes inv: "nodes_inv g" and i: "i < length (slave_connections g)" and p: "p = slave_connections g ! i"
    and broken: "\<not> closed (nodes g ! p)" "conn (nodes g ! p) = Some t" "tx_fails t"
  shows "sendSlave bs (int i) g = Hang"
proof -
  have lt: "p < length (nodes g)" using inv i p by (simp add: nodes_inv_def)
  have "disconnectSlave (int i) (set_conn p t g) = Hang"
    using disconnectSlave_hangs [of "set_conn p t g" i t] inv i p lt by (simp add: nodes_set_conn)
  then show ?thesis
    using slave_lookup [OF inv i] broken p lt
    by (simp add: sendSlave_def write_frame_eq upd_node_def deref_def set_conn_def)
qed

text \<open>A report to the master always returns while the mutex is free.\<close>

lemma sendMaster_returns:
  assumes "RWLock g = free_mutex" and "master_connection g = Some n" and "conn n = Some t"
  shows "\<exists>g'. sendMaster bs g = Ret g' \<and> RWLock g' = free_mutex"
  using assms by (cases "closed n"; cases "tx_fails t")
    (auto simp: sendMaster_def with_RLock_def write_frame_eq disconnectMaster_def with_Lock_def)

text \<open>
  What start-up makes of an address: it fails when the name does not resolve, nobody answers or
  keep-alive cannot be set; otherwise the outcome of the handshake decides.
\<close>

definition master_status :: "conf \<Rightarrow> rd_event list \<Rightarrow> bool list \<Rightarrow> int go" where
  "master_status c es ws = handshake_status (handshakeMaster (GetNetworkSecret c) (GetGrandmaName c)) es ws"

definition dial_fails :: "conf \<Rightarrow> dial_outcome \<Rightarrow> bool" where
  "dial_fails c d = (case d of Dialed t es ws keepalive \<Rightarrow> \<not> keepalive \<and> master_status c es ws = Ret HANDSHAKE_STATUS_SUCCESS | _ \<Rightarrow> True)"

definition slave_joins :: "conf \<Rightarrow> dial_outcome \<Rightarrow> bool" where
  "slave_joins c d = (case d of Dialed t es ws keepalive \<Rightarrow> keepalive \<and> master_status c es ws = Ret HANDSHAKE_STATUS_SUCCESS | _ \<Rightarrow> False)"

definition handshake_ends :: "conf \<Rightarrow> dial_outcome \<Rightarrow> bool" where
  "handshake_ends c d = (case d of Dialed t es ws keepalive \<Rightarrow> \<exists>st. master_status c es ws = Ret st | _ \<Rightarrow> True)"

lemma success_not_skipped [simp]: "\<not> skipped_status HANDSHAKE_STATUS_SUCCESS"
  by (simp add: skipped_status_def handshake_codes)

lemma discover_step:
  assumes "dial addr = Dialed t es ws k" and "master_status c es ws = Ret st"
  shows "discover_loop c dial (addr # addrs) cnt pool =
     (if st = HANDSHAKE_STATUS_SUCCESS then
        (if \<not> k then Ret (Inl Err_Net) else discover_loop c dial addrs (cnt + 1) (pool @ [new_slave (cnt - 1) addr t]))
      else discover_loop c dial addrs (if skipped_status st then cnt else cnt + 1) pool)"
  using assms unfolding master_status_def by simp

lemma discover_loop_fails:
  assumes "\<forall>a \<in> set addrs. handshake_ends c (dial a)" and "\<exists>a \<in> set addrs. dial_fails c (dial a)"
  shows "discover_loop c dial addrs cnt pool = Ret (Inl Err_Net)"
  using assms
proof (induction addrs arbitrary: cnt pool)
  case (Cons addr addrs)
  show ?case
  proof (cases "dial addr")
    case (Dialed t es ws k)
    then obtain st where st: "master_status c es ws = Ret st"
      using Cons.prems by (auto simp: handshake_ends_def)
    have "dial_fails c (dial addr) \<longleftrightarrow> \<not> k \<and> st = HANDSHAKE_STATUS_SUCCESS"
      using Dialed st by (simp add: dial_fails_def)
    then show ?thesis
      using Cons discover_step [of dial addr, OF Dialed st] by auto
  qed simp_all
qed simp

lemma discover_loop_joins:
  assumes "\<forall>a \<in> set addrs. handshake_ends c (dial a) \<and> \<not> dial_fails c (dial a)"
  shows "\<exists>new. discover_loop c dial addrs cnt pool = Ret (Inr (pool @ new)) \<and>
     map address new = filter (\<lambda>a. slave_joins c (dial a)) addrs \<and>
     (\<forall>n \<in> set new. complexity n = 100 \<and> \<not> closed n \<and> conn n \<noteq> None)"
  using assms
proof (induction addrs arbitrary: cnt pool)
  case (Cons addr addrs)
  obtain t es ws k where d: "dial addr = Dialed t es ws k"
    using Cons.prems by (cases "dial addr") (auto simp: dial_fails_def)
  obtain st where st: "master_status c es ws = Ret st"
    using Cons.prems d by (auto simp: handshake_ends_def)
  have rest: "\<forall>a \<in> set addrs. handshake_ends c (dial a) \<and> \<not> dial_fails c (dial a)" using Cons.prems by simp
  show ?case
  proof (cases "st = HANDSHAKE_STATUS_SUCCESS")
    case True
    then have "k" using Cons.prems d st by (simp add: dial_fails_def)
    moreover obtain new where "discover_loop c dial addrs (cnt + 1) (pool @ [new_slave (cnt - 1) addr t]) = Ret (Inr ((pool @ [new_slave (cnt - 1) addr t]) @ new))"
        "map address new = filter (\<lambda>a. slave_joins c (dial a)) addrs" "\<forall>n \<in> set new. complexity n = 100 \<and> \<not> closed n \<and> conn n \<noteq> None"
      using Cons.IH [OF rest] by blast
    ultimately show ?thesis
      using True d st
      by (intro exI [of _ "new_slave (cnt - 1) addr t # new"]) (simp add: slave_joins_def new_slave_def discover_step [of dial addr, OF d st] del: discover_loop.simps)
  next
    case False
    then have "\<not> slave_joins c (dial addr)"
      "\<exists>cnt'. discover_loop c dial (addr # addrs) cnt pool = discover_loop c dial addrs cnt' pool"
      using d st discover_step [of dial addr, OF d st] by (auto simp: slave_joins_def)
    then show ?thesis using Cons.IH [OF rest] by auto
  qed
qed simp

lemma discoverSlaves_eq:
  assumes "GetSlaveList c = Some addrs" and "\<forall>a \<in> set addrs. handshake_ends c (dial a)"
  shows "(\<exists>a \<in> set addrs. dial_fails c (dial a)) \<Longrightarrow> discoverSlaves c dial = Ret (Inl Err_Net)"
    and "\<forall>a \<in> set addrs. \<not> dial_fails c (dial a) \<and> \<not> slave_joins c (dial a) \<Longrightarrow> discoverSlaves c dial = Ret (Inl Err_No_Available_Slave)"
    and "\<forall>a \<in> set addrs. \<not> dial_fails c (dial a) \<Longrightarrow> \<exists>a \<in> set addrs. slave_joins c (dial a) \<Longrightarrow>
      \<exists>pool. discoverSlaves c dial = Ret (Inr pool) \<and> map address pool = filter (\<lambda>a. slave_joins c (dial a)) addrs \<and>
        (\<forall>n \<in> set pool. complexity n = 100 \<and> \<not> closed n \<and> conn n \<noteq> None)"
proof -
  assume "\<exists>a \<in> set addrs. dial_fails c (dial a)"
  then show "discoverSlaves c dial = Ret (Inl Err_Net)"
    using discover_loop_fails [OF assms(2)] assms(1) by (simp add: discoverSlaves_def)
next
  assume "\<forall>a \<in> set addrs. \<not> dial_fails c (dial a) \<and> \<not> slave_joins c (dial a)"
  then show "discoverSlaves c dial = Ret (Inl Err_No_Available_Slave)"
    using discover_loop_joins [of addrs c dial 1 "[]"] assms by (auto simp: discoverSlaves_def filter_empty_conv)
next
  assume "\<forall>a \<in> set addrs. \<not> dial_fails c (dial a)" and ex: "\<exists>a \<in> set addrs. slave_joins c (dial a)"
  then obtain pool where p: "discover_loop c dial addrs 1 [] = Ret (Inr pool)"
      "map address pool = filter (\<lambda>a. slave_joins c (dial a)) addrs"
      "\<forall>n \<in> set pool. complexity n = 100 \<and> \<not> closed n \<and> conn n \<noteq> None"
    using discover_loop_joins [of addrs c dial 1 "[]"] assms(2) by auto
  moreover have "pool \<noteq> []" using p(2) ex by (auto simp: filter_empty_conv dest: sym)
  ultimately show "\<exists>pool. discoverSlaves c dial = Ret (Inr pool) \<and> map address pool = filter (\<lambda>a. slave_joins c (dial a)) addrs \<and>
        (\<forall>n \<in> set pool. complexity n = 100 \<and> \<not> closed n \<and> conn n \<noteq> None)"
    using assms(1) by (auto simp: discoverSlaves_def)
qed

lemma slaves_allocate: "slaves (allocate pool g) = map (\<lambda>i. (length (nodes g) + i, (pool ! i)\<lparr>index := 0\<rparr>)) [0..<length pool]"
proof -
  have "[length (nodes g)..<length (nodes g) + length pool] = map (\<lambda>i. length (nodes g) + i) [0..<length pool]"
    by (rule nth_equalityI) simp_all
  then show ?thesis by (simp add: slaves_def allocate_def)
qed

lemma map_index: "map (\<lambda>i. f (xs ! i)) [0..<length xs] = map f xs"
  by (rule nth_equalityI) simp_all

lemma allocated_addresses: "map (address \<circ> snd) (slaves (allocate pool g)) = map address pool"
  using map_index [of address pool] by (simp add: slaves_allocate comp_def)

lemma allocated_nodes: "snd ` set (slaves (allocate pool g)) = (\<lambda>n. n\<lparr>index := 0\<rparr>) ` set pool"
  by (force simp: slaves_allocate in_set_conv_nth)

lemma allocate_inv: "RWLock g = free_mutex \<Longrightarrow> nodes_inv (allocate pool g)"
  by (simp add: nodes_inv_def allocate_def)

text \<open>The slave at a position: connected and writable, or connected with a dead peer.\<close>

definition served :: "cluster \<Rightarrow> nat \<Rightarrow> bool" where
  "served g i \<longleftrightarrow> (let n = nodes g ! (slave_connections g ! i) in \<not> closed n \<and> (case conn n of None \<Rightarrow> False | Some t \<Rightarrow> \<not> tx_fails t))"

definition broken :: "cluster \<Rightarrow> nat \<Rightarrow> bool" where
  "broken g i \<longleftrightarrow> (let n = nodes g ! (slave_connections g ! i) in \<not> closed n \<and> (case conn n of None \<Rightarrow> False | Some t \<Rightarrow> tx_fails t))"

text \<open>A heartbeat pass stops at the first slave whose connection is broken.\<close>

lemma broken_hangs:
  assumes "nodes_inv g" and "i < length (slave_connections g)" and "broken g i"
  shows "sendSlave bs (int i) g = Hang"
  using sendSlave_broken [OF assms(1,2) refl] assms(3) by (auto simp: broken_def Let_def split: option.splits)

lemma served_send:
  assumes "nodes_inv g" and "i < length (slave_connections g)" and "served g i"
  shows "\<exists>p g'. sendSlave bs (int i) g = Ret (p, None, g') \<and> nodes_inv g' \<and> slave_connections g' = slave_connections g \<and>
     (\<forall>j < length (slave_connections g). served g' j = served g j \<and> broken g' j = broken g j)"
proof -
  let ?p = "slave_connections g ! i"
  obtain t where t: "\<not> closed (nodes g ! ?p)" "conn (nodes g ! ?p) = Some t" "\<not> tx_fails t"
    using assms(3) by (auto simp: served_def Let_def split: option.splits)
  have lt: "?p < length (nodes g)" using assms(1,2) by (simp add: nodes_inv_def)
  let ?g = "set_conn ?p (t\<lparr>tx := tx t @ frame bs\<rparr>) g"
  have "served ?g j = served g j" "broken ?g j = broken g j" if "j < length (slave_connections g)" for j
    using t lt by (cases "slave_connections g ! j = ?p"; simp add: served_def broken_def set_conn_def)+
  then show ?thesis
    using sendSlave_ok [OF assms(1,2) refl t] assms(1) by auto
qed

lemma heartbeat_hangs:
  assumes "nodes_inv g" and "i + k = length (slave_connections g)" and "i \<le> j" and "j < length (slave_connections g)"
    and "broken g j" and "\<forall>m. i \<le> m \<and> m < j \<longrightarrow> served g m"
  shows "heartbeat_loop k (int i) g = Hang"
  using assms
proof (induction k arbitrary: i g)
  case (Suc k)
  show ?case
  proof (cases "i = j")
    case True
    then show ?thesis using Suc.prems broken_hangs by simp
  next
    case False
    then have i: "i < length (slave_connections g)" "served g i" using Suc.prems by auto
    obtain p g' where g': "sendSlave [COMM_TYPE_HEARTBEAT] (int i) g = Ret (p, None, g')" "nodes_inv g'"
        "slave_connections g' = slave_connections g"
        "\<forall>j < length (slave_connections g). served g' j = served g j \<and> broken g' j = broken g j"
      using served_send [OF Suc.prems(1) i] by blast
    have "heartbeat_loop k (int (Suc i)) g' = Hang"
      using Suc.prems False g' by (intro Suc.IH) auto
    then show ?thesis using g'(1) by (simp add: add.commute)
  qed
qed simp

section \<open>Properties\<close>

text \<open>
  Start-up of a master.  If one of the configured slaves cannot be reached, or none of them
  completes the handshake, start-up reports failure and changes nothing.  Otherwise the slaves
  that the master serves are exactly the configured ones whose handshake succeeded, all of them
  connected and with the initial load, in heap order, and the master has a node of its own.
\<close>

lemma master_start_up:
  assumes "GetClusterMode c" and "GetSlaveList c = Some addrs" and "RWLock g = free_mutex"
    and "\<forall>a \<in> set addrs. handshake_ends c (dial a)"
  shows "if (\<exists>a \<in> set addrs. dial_fails c (dial a)) \<or> (\<forall>a \<in> set addrs. \<not> slave_joins c (dial a))
    then Network c dial rs ls as g = Ret (False, None, g)
    else \<exists>g'. Network c dial rs ls as g = Ret (True, None, g') \<and> nodes_inv g' \<and> heap_above 0 (complexities g') \<and>
        mset (map (address \<circ> snd) (slaves g')) = mset (filter (\<lambda>a. slave_joins c (dial a)) addrs) \<and>
        (\<forall>n \<in> snd ` set (slaves g'). complexity n = 100 \<and> \<not> closed n \<and> conn n \<noteq> None)"
proof (cases "(\<exists>a \<in> set addrs. dial_fails c (dial a)) \<or> (\<forall>a \<in> set addrs. \<not> slave_joins c (dial a))")
  case True
  then obtain e where "discoverSlaves c dial = Ret (Inl e)"
    using discoverSlaves_eq(1,2) [OF assms(2,4)] by blast
  then show ?thesis
    using True assms(1,2) by (simp add: Network_def)
next
  case False
  then obtain pool where p: "discoverSlaves c dial = Ret (Inr pool)"
      "map address pool = filter (\<lambda>a. slave_joins c (dial a)) addrs"
      "\<forall>n \<in> set pool. complexity n = 100 \<and> \<not> closed n \<and> conn n \<noteq> None"
    using discoverSlaves_eq(3) [OF assms(2,4)] by blast
  let ?g = "(allocate pool g)\<lparr>master_connection := Some (master_node None (replicate 4096 0) (Some free_mutex))\<rparr>"
  have inv: "nodes_inv ?g" using allocate_inv [OF assms(3)] by (simp add: nodes_inv_def)
  obtain g' where g': "createComplexityRanking ?g = Ret g'" "nodes_inv g'" "mset (slaves g') = mset (slaves ?g)"
      "heap_above 0 (complexities g')"
    using nq.Init_ok [OF inv] by (auto simp: createComplexityRanking_def)
  let ?h = "rediscoverSlaves g'"
  have h: "nodes_inv ?h" "complexities ?h = complexities g'" "slaves ?h = slaves g'"
    using g'(2) by (simp_all add: rediscoverSlaves_def nodes_inv_def complexities_def slaves_def)
  have sl: "slaves ?g = slaves (allocate pool g)" by (simp add: slaves_def)
  have "mset (map (address \<circ> snd) (slaves ?h)) = mset (filter (\<lambda>a. slave_joins c (dial a)) addrs)"
    using g'(3) p(2) allocated_addresses [of pool g] unfolding h sl by (metis mset_map)
  moreover have "\<forall>n \<in> snd ` set (slaves ?h). complexity n = 100 \<and> \<not> closed n \<and> conn n \<noteq> None"
    using p(3) allocated_nodes [of pool g] mset_eq_setD [OF g'(3)] unfolding h sl by auto
  moreover have "Network c dial rs ls as g = Ret (True, None, ?h)"
    using assms p(1) g'(1) by (simp add: Network_def with_Lock_def allocate_def)
  ultimately show ?thesis using False h g'(4) by simp
qed

text \<open>A master with two slaves, the second of which refuses the secret.\<close>

definition two_slaves :: conf where
  "two_slaves = initial_conf\<lparr>cluster_mode := True, slave_list := Some [''a'', ''b''], network_secret := ''s'', grandma_name := ''m''\<rparr>"

definition idle_conn :: TCPConn where
  "idle_conn = \<lparr>rx = [], tx = [], tx_fails = False\<rparr>"

definition sample_dial :: "string \<Rightarrow> dial_outcome" where
  "sample_dial a = Dialed idle_conn
     (if a = ''a'' then [Got [201], Got [210], Got [77]] else [Got [201], Got [212]]) (replicate 4 True) True"

lemma sample_status:
  "master_status two_slaves [Got [201], Got [210], Got [77]] (replicate 4 True) = Ret HANDSHAKE_STATUS_SUCCESS"
  "master_status two_slaves [Got [201], Got [212]] (replicate 4 True) = Ret HANDSHAKE_STATUS_REFUSED"
  by (simp_all add: master_status_def handshake_status_def handshakeMaster_def two_slaves_def GetNetworkSecret_def
      GetGrandmaName_def p_read_PRead Let_def handshake_codes eval_nat_numeral)

text \<open>
  C38. Losing a slave stops the master.  When the slave at some position reports a finished message,
  the goroutine that handles the report never returns; and when a write to a live slave fails, the
  call that sent to it never returns, nor does the heartbeat pass that finds it, provided the
  slaves before it are served.
\<close>

theorem lost_slave_deadlocks:
  assumes "nodes_inv g" and "i < length (slave_connections g)"
  shows "masterHandler (COMM_TYPE_FINISHED # rest) (slave_connections g ! i) g = Hang \<and>
    (broken g i \<longrightarrow> sendSlave bs (int i) g = Hang \<and> ((\<forall>j < i. served g j) \<longrightarrow> heartbeatSlave g = Hang))"
proof -
  have p: "slave_connections g ! i < length (nodes g)" using assms by (simp add: nodes_inv_def)
  then have "masterHandler (COMM_TYPE_FINISHED # rest) (slave_connections g ! i) g = Hang"
    by (simp add: masterHandler_def COMM_TYPE_FINISHED_def COMM_TYPE_CONSUMED_def deref_def update_hangs)
  moreover have "heartbeatSlave g = Hang" if "broken g i" "\<forall>j < i. served g j"
    using heartbeat_hangs [OF assms(1), of 0 _ i] that assms(2) by (simp add: heartbeatSlave_def)
  ultimately show ?thesis using broken_hangs [OF assms] by blast
qed

theorem lost_slave_deadlocks_witness:
  "heartbeatSlave ((sample_cluster [100, 100])\<lparr>nodes := [new_slave 0 ''a'' idle_conn, new_slave 1 ''b'' (idle_conn\<lparr>tx_fails := True\<rparr>)]\<rparr>) = Hang"
  by (rule conjunct2 [OF mp [OF conjunct2 [OF lost_slave_deadlocks [of _ 1]]], THEN mp])
    (simp_all add: sample_cluster_def nodes_inv_def broken_def served_def new_slave_def idle_conn_def)

text \<open>
  The load of the master drifts.  It should count the messages in hand; it starts at 320.  A
  message that is sent at once adds 3 while it is in hand, but when its goroutine is woken the load
  becomes 3 less than before the message was submitted, and for a websocket message 3 more.
\<close>

lemma master_load_drifts:
  assumes "schedule_db my (records_table c) rows last_id ready" and "world_inv c rows ready (wd a)"
    and "fits_record (MessageType m) (Endpoint m) (MessageBody m) (wrap64 (now1 + Expiration m))"
    and "Expiration m < 1000" and "0 < room c (wd a)" and "tcp (wd a) = None"
    and "map_option complexity (master_connection (cl a)) = Some k"
  shows "\<exists>i a' ch. DistCalls my c now1 now2 m a = Ret (i, a') \<and>
     queued c (wd a') = queued c (wd a) @ [m\<lparr>Expiration := 0\<rparr>] \<and>
     map_option complexity (master_connection (cl a')) = Some (k + 3) \<and> fst (hd (waiters a')) = ch \<and>
     map_option complexity (master_connection (cl (run_waiter ch a'))) = Some (if MessageType m = 105 then k + 3 else k - 3)"
proof -
  obtain n where n: "master_connection (cl a) = Some n" "complexity n = k" using assms(7) by auto
  obtain s w' where s: "NewSchedule my c now1 now2 (Some m) (wd a) = Ret (Inr s, w')"
      "queued c w' = queued c (wd a) @ [m\<lparr>Expiration := 0\<rparr>]" "Signal s \<in> set (signalled w')"
    using schedule_db.new_immediate [OF assms(1,2) refl assms(3-5)] assms(6) by blast
  show ?thesis
  proof (cases "MessageType m = 105")
    case True
    then show ?thesis
      using n s by (simp add: DistCalls_def distLevel2Calls_def Let_def set_complexity_def run_waiter_def)
  next
    case False
    then show ?thesis
      using n s by (simp add: DistCalls_def distLevel1Calls_def Let_def set_complexity_def run_waiter_def)
  qed
qed

definition sample_app :: "table_db app" where
  "sample_app = \<lparr>cl = (sample_cluster [])\<lparr>master_connection := Some (master_node (Some idle_conn) [] None)\<rparr>,
     wd = sample_world, cluster_queue = NewQueue 1000, waiters = []\<rparr>"

text \<open>
  A schedule frame that a slave cannot decode takes the slave down: the handler reports the
  error to the master but then goes on to schedule the missing message.
\<close>

lemma undecodable_frame_kills_slave:
  assumes "schedule_db my (records_table c) rows last_id ready" and "ready (sdb (wd a))"
    and "RWLock (cl a) = free_mutex" and "master_connection (cl a) = Some n" and "conn n = Some t"
    and "NewMessageFromPayload payload = Ret (Inl e)"
  shows "slaveHandler my c now1 now2 (COMM_TYPE_SCHEDULE # payload) a = Panic Nil_Deref"
proof -
  obtain g' where "sendMaster ERR_CONSUME_MESSAGE (cl a) = Ret g'"
    using sendMaster_returns [OF assms(3-5)] by blast
  then show ?thesis
    using assms(2,6) schedule_db.connect_ok [OF assms(1,2)] schedule_db.db_prepare_insert [OF assms(1,2)]
    by (simp add: slaveHandler_def consumeLevel1Calls_def NewSchedule_def)
qed

end
