(* ===== verification/Signature.thy ===== *)
theory Signature
  imports Config Go_Crypto
begin

text \<open>
  Request signatures, \<open>src/signature/signature.go\<close>: the token of a request is the padded base64
  of the lower-case hexadecimal HMAC-SHA256 of method, time stamp and body under the configured
  secret.
\<close>

definition VToken :: "conf \<Rightarrow> string \<Rightarrow> string \<Rightarrow> string \<Rightarrow> string" where
  "VToken c method time path =
     (let str_to_sign = method @ [newline] @ time @ [newline] @ path;
          key = bytes_of_string (GetRestSecret c);
          hash = hex_encode (hmac_sha256 key (bytes_of_string str_to_sign))
      in b64_encode (bytes_of_string hash))"

text \<open>\<open>nanos\<close> is \<open>time.Now().UnixNano()\<close>.\<close>

definition TimeStamp :: "int \<Rightarrow> string" where
  "TimeStamp nanos = Itoa (go_quot nanos 1000000)"

lemma b64_encode_pad2:
  "length bs mod 3 = 1 \<Longrightarrow> \<exists>s. b64_encode bs = s @ ''==''"
proof (induction bs rule: b64_encode.induct)
  case (4 a b c bs)
  then have "length bs mod 3 = 1" by (simp add: mod_Suc split: if_splits)
  then show ?case using 4 by auto
qed auto

lemma VToken_length: "length (VToken c meth time path) = 88"
proof -
  let ?h = "hex_encode (hmac_sha256 (bytes_of_string (GetRestSecret c))
      (bytes_of_string (meth @ [newline] @ time @ [newline] @ path)))"
  have l: "length (bytes_of_string ?h) = 64" by simp
  show ?thesis unfolding VToken_def Let_def length_b64_encode l by simp
qed

text \<open>
  Every token is 88 characters long and ends in two equal signs, because the hexadecimal
  digest has 64 characters.  A token with the equal signs removed, as the documentation tells
  clients to send it, is therefore never the token of any request.
\<close>

lemma VToken_padded:
  "length (VToken c meth time path) = 88 \<and> (\<exists>s. VToken c meth time path = s @ ''=='') \<and>
   (CHR ''='' \<notin> set t \<longrightarrow> t \<noteq> VToken c meth time path)"
proof -
  let ?h = "hex_encode (hmac_sha256 (bytes_of_string (GetRestSecret c))
      (bytes_of_string (meth @ [newline] @ time @ [newline] @ path)))"
  have l: "length (bytes_of_string ?h) = 64" by simp
  obtain s where "VToken c meth time path = s @ ''==''"
    using b64_encode_pad2 [of "bytes_of_string ?h"] l by (auto simp: VToken_def Let_def)
  then show ?thesis using VToken_length [of c meth time path] by auto
qed

end
