(* ===== verification/Routes.thy ===== *)
theory Routes
  imports Cluster Json_Wrapper Signature
begin

text \<open>
  The HTTP endpoint, \<open>routes.go\<close>: \<open>handler\<close> takes a message as a JSON document, validates it and
  distributes it.

  A request is its method, the query parameters \<open>time\<close> and \<open>token\<close> and the outcome of reading its
  body; a response is the status and the text that \<open>fmt.Fprintf\<close> makes of the format string.  The
  server calls it without operands and, for an accepted message, with the endpoint inside the format
  string, so what Go prints for a verb without an operand is modelled as well.
\<close>

section \<open>Formatting without operands\<close>

definition is_flag :: "char \<Rightarrow> bool" where
  "is_flag c \<longleftrightarrow> c \<in> set ''#0+- ''"

text \<open>\<open>parsenum\<close>: whether a number is present, and the rest; a number that grows too large swallows the whole rest.\<close>

fun parsenum :: "nat \<Rightarrow> bool \<Rightarrow> string \<Rightarrow> bool \<times> string" where
  "parsenum n present [] = (present, [])"
| "parsenum n present (c # cs) =
     (case char_digit c of
        None \<Rightarrow> (present, c # cs)
      | Some d \<Rightarrow> if n > 1000000 then (False, []) else parsenum (n * 10 + d) True cs)"

text \<open>
  \<open>argNumber\<close>: an explicit operand index in brackets.  There is no operand, so every index is a bad
  one; the results are the rest, whether an index was there, and whether it was a number.
\<close>

definition argNumber :: "string \<Rightarrow> string \<times> bool \<times> bool" where
  "argNumber s =
     (case s of
        c # cs \<Rightarrow>
          if c \<noteq> CHR ''['' then (s, False, False)
          else if CHR '']'' \<notin> set cs then (cs, True, False)
          else let inner = takeWhile (\<lambda>d. d \<noteq> CHR '']'') cs in
            (drop (Suc (length inner)) cs, True, parsenum 0 False inner = (True, []))
      | [] \<Rightarrow> (s, False, False))"

text \<open>One directive after its percent sign: what is printed, and the rest of the format.\<close>

definition starts :: "char \<Rightarrow> string \<Rightarrow> bool" where
  "starts c s \<longleftrightarrow> s \<noteq> [] \<and> hd s = c"

definition verb_width :: "string \<Rightarrow> bool \<Rightarrow> bool \<Rightarrow> string \<times> string \<times> bool \<times> bool" where
  "verb_width s bad after =
     (if starts (CHR ''*'') s then (''%!(BADWIDTH)'', tl s, bad, False)
      else ([], snd (parsenum 0 False s), bad \<or> (after \<and> fst (parsenum 0 False s)), after))"

definition verb_prec :: "string \<Rightarrow> bool \<Rightarrow> bool \<Rightarrow> string \<times> string \<times> bool \<times> bool" where
  "verb_prec s bad after =
     (if starts (CHR ''.'') s then
        let (r, b, a) = argNumber (tl s); bad' = bad \<or> after \<or> b in
        if starts (CHR ''*'') r then (''%!(BADPREC)'', tl r, bad', False)
        else ([], snd (parsenum 0 False r), bad', a)
      else ([], s, bad, after))"

definition verb_rune :: "string \<Rightarrow> string \<times> string" where
  "verb_rune s = (if utf8_len s = 0 then (replacement, tl s) else (take (utf8_len s) s, drop (utf8_len s) s))"

definition directive :: "string \<Rightarrow> string \<times> string" where
  "directive s0 =
     (let (s1, bad1, after1) = argNumber (dropWhile is_flag s0);
          (o1, s2, bad2, after2) = verb_width s1 bad1 after1;
          (o2, s3, bad3, after3) = verb_prec s2 bad2 after2;
          (s4, bad4) = (if after3 then (s3, bad3) else let (r, b, _) = argNumber s3 in (r, bad3 \<or> b))
      in case s4 of
           [] \<Rightarrow> (o1 @ o2 @ ''%!(NOVERB)'', [])
         | v # rest \<Rightarrow>
             if v = CHR ''%'' then (o1 @ o2 @ ''%'', rest)
             else let (verb, rest') = verb_rune s4 in
               (o1 @ o2 @ ''%!'' @ verb @ (if bad4 then ''(BADINDEX)'' else ''(MISSING)''), rest'))"

lemma parsenum_shorter: "length (snd (parsenum n p s)) \<le> length s"
  by (induction n p s rule: parsenum.induct) (auto split: option.splits)

lemma argNumber_shorter: "length (fst (argNumber s)) \<le> length s"
  by (auto simp: argNumber_def Let_def split: list.splits)

lemma verb_width_shorter: "length (fst (snd (verb_width s b a))) \<le> length s"
  using parsenum_shorter [of 0 False s] by (simp add: verb_width_def)

lemma verb_prec_shorter: "length (fst (snd (verb_prec s b a))) \<le> length s"
proof -
  obtain r b' a' where r: "argNumber (tl s) = (r, b', a')" by (cases "argNumber (tl s)")
  then have "length r \<le> length s" using argNumber_shorter [of "tl s"] by simp
  then show ?thesis
    using r parsenum_shorter [of 0 False r] by (auto simp: verb_prec_def Let_def)
qed

lemma verb_rune_shorter: "length (snd (verb_rune s)) \<le> length s"
  by (simp add: verb_rune_def)

lemma directive_shorter: "length (snd (directive s)) \<le> length s"
proof -
  obtain s1 b1 a1 where 1: "argNumber (dropWhile is_flag s) = (s1, b1, a1)" by (cases "argNumber (dropWhile is_flag s)")
  obtain o1 s2 b2 a2 where 2: "verb_width s1 b1 a1 = (o1, s2, b2, a2)" by (cases "verb_width s1 b1 a1")
  obtain o2 s3 b3 a3 where 3: "verb_prec s2 b2 a2 = (o2, s3, b3, a3)" by (cases "verb_prec s2 b2 a2")
  obtain s4 b4 a4 where 4: "argNumber s3 = (s4, b4, a4)" by (cases "argNumber s3")
  have "length s3 \<le> length s"
    using 1 2 3 argNumber_shorter [of "dropWhile is_flag s"] verb_width_shorter [of s1 b1 a1] verb_prec_shorter [of s2 b2 a2]
      length_dropWhile_le [of is_flag s] by simp
  moreover have "length s4 \<le> length s3" using 4 argNumber_shorter [of s3] by simp
  ultimately show ?thesis
    using verb_rune_shorter [of s3] verb_rune_shorter [of s4]
    by (auto simp: directive_def 1 2 3 4 split: list.splits prod.splits)
qed

function Fprintf :: "string \<Rightarrow> string" where
  "Fprintf s =
     (case s of
        [] \<Rightarrow> []
      | c # cs \<Rightarrow>
          if c \<noteq> CHR ''%'' then c # Fprintf cs
          else fst (directive cs) @ Fprintf (snd (directive cs)))"
  by pat_completeness auto
termination
  using directive_shorter by (relation "measure length") (auto simp: less_Suc_eq_le)

section \<open>The handler\<close>

record response =
  Powered_By :: string
  status :: int
  body_text :: string

definition respond :: "int \<Rightarrow> string \<Rightarrow> response" where
  "respond st format = \<lparr>Powered_By = ''GrandmaSchedulerServices'', status = st, body_text = Fprintf format\<rparr>"

definition failure :: "string \<Rightarrow> string" where
  "failure msg = ''{\"failure\":{\"msg\":\"'' @ msg @ ''\"}}''"

definition bad_request :: response where
  "bad_request = respond 400 (failure ''Bad request'')"

definition accepted :: "string \<Rightarrow> string" where
  "accepted endpoint = ''{\"success\":{\"msg\": \"Message to '' @ endpoint @ '' scheduled successfully\"}}''"

definition message_error_text :: "message_error \<Rightarrow> string" where
  "message_error_text e = (case e of
      ErrorInvalidType \<Rightarrow> ''Type not exists''
    | ErrorExpirationTooBig \<Rightarrow> ''Expiration time too big''
    | ErrorNegativeExpiration \<Rightarrow> ''Negative expiration time''
    | ErrorNoEndpoint \<Rightarrow> ''No endpoint provided''
    | ErrorAlgorithmNotSupported \<Rightarrow> ''Algorithm not supported'')"

text \<open>
  \<open>to_compare\<close> is computed and then overwritten.  \<open>DistCalls\<close> reads the id of its schedule before it
  returns an error, so a failed schedule is a panic there and the branch for its error is not
  reached; \<open>net/http\<close> ends the request then.
\<close>

definition handler ::
  "'d mysql \<Rightarrow> conf \<Rightarrow> int \<Rightarrow> int \<Rightarrow> string \<Rightarrow> string \<Rightarrow> string \<Rightarrow> byte list option \<Rightarrow> 'd app \<Rightarrow> (response \<times> 'd app) go" where
  "handler my c now1 now2 meth time token body_read a =
     (if meth \<noteq> ''POST'' then Ret (bad_request, a)
      else (case body_read of
        None \<Rightarrow> Ret (bad_request, a)
      | Some body \<Rightarrow>
          let to_compare = VToken c ''POST'' time (string_of_bytes body);
              to_compare = ''test''
          in if token \<noteq> to_compare then Ret (respond 403 (failure ''Not authorized''), a)
             else (case NewObjectFromBytes body of
               Inl _ \<Rightarrow> Ret (bad_request, a)
             | Inr json \<Rightarrow>
                 (case GetInt64 json [''type''] of (_, Some _) \<Rightarrow> Ret (bad_request, a) | (m_type, None) \<Rightarrow>
                 (case GetString json [''endpoint''] of (_, Some _) \<Rightarrow> Ret (bad_request, a) | (endpoint, None) \<Rightarrow>
                 (case GetString json [''message''] of (_, Some _) \<Rightarrow> Ret (bad_request, a) | (msg, None) \<Rightarrow>
                 (case GetInt64 json [''expiration''] of (_, Some _) \<Rightarrow> Ret (bad_request, a) | (exp, None) \<Rightarrow>
                 (case NewMessageObject m_type endpoint msg exp of
                    Inl e \<Rightarrow> Ret (respond 400 (failure (message_error_text e)), a)
                  | Inr obj \<Rightarrow>
                      go_bind (DistCalls my c now1 now2 obj a) (\<lambda>(_, a').
                      Ret (respond 200 (accepted (Endpoint obj)), a'))))))))))"

section \<open>Lemmas\<close>

lemma Fprintf_Nil [simp]: "Fprintf [] = []" by simp
lemma Fprintf_Cons: "Fprintf (c # cs) = (if c \<noteq> CHR ''%'' then c # Fprintf cs else fst (directive cs) @ Fprintf (snd (directive cs)))"
  by simp

declare Fprintf.simps [simp del]

lemma Fprintf_plain: "CHR ''%'' \<notin> set s \<Longrightarrow> Fprintf (s @ t) = s @ Fprintf t"
  by (induction s) (auto simp: Fprintf_Cons)

text \<open>The message that a request document describes.\<close>

definition requests :: "byte list \<Rightarrow> Obj \<Rightarrow> bool" where
  "requests body m \<longleftrightarrow> (\<exists>kvs tn xn. json_decode (string_of_bytes body) = Some (JObject kvs) \<and>
     map_of kvs ''type'' = Some (JNumber tn) \<and> ParseInt tn = (MessageType m, None) \<and>
     map_of kvs ''endpoint'' = Some (JString (Endpoint m)) \<and> map_of kvs ''message'' = Some (JString (MessageBody m)) \<and>
     map_of kvs ''expiration'' = Some (JNumber xn) \<and> ParseInt xn = (Expiration m, None))"

lemma json_at_field: "json_at [k] (JObject kvs) = Inr j \<longleftrightarrow> map_of kvs k = Some j"
  by (auto split: option.splits)

lemma requests_iff:
  "requests body m \<longleftrightarrow> (\<exists>ob. NewObjectFromBytes body = Inr ob \<and> GetInt64 ob [''type''] = (MessageType m, None) \<and>
     GetString ob [''endpoint''] = (Endpoint m, None) \<and> GetString ob [''message''] = (MessageBody m, None) \<and>
     GetInt64 ob [''expiration''] = (Expiration m, None))"
proof (cases "NewObjectFromBytes body")
  case (Inl e)
  then have "json_decode (string_of_bytes body) \<noteq> Some (JObject kvs)" for kvs
    by (auto simp: NewObjectFromBytes_def objectFromValue_def NewValueFromBytes_def NewValueFromReader_def as_Object_def)
  then show ?thesis using Inl by (simp add: requests_def)
next
  case (Inr ob)
  then obtain kvs where k: "json_decode (string_of_bytes body) = Some (JObject kvs)" and d: "denotes ob (JObject kvs)"
    using NewObjectFromBytes_denotes by blast
  show ?thesis
    using k unfolding Inr requests_def GetInt64_denotes [OF d] GetString_denotes [OF d]
    by (simp add: GetInt64_denotes [OF d] GetString_denotes [OF d] json_at_field del: json_at.simps) blast
qed

lemma handler_valid:
  assumes "requests body m" and "valid_obj m"
  shows "handler my c now1 now2 ''POST'' time ''test'' (Some body) a =
     go_bind (DistCalls my c now1 now2 m a) (\<lambda>(_, a'). Ret (respond 200 (accepted (Endpoint m)), a'))"
  using assms by (auto simp: requests_iff handler_def)

lemma handler_invalid:
  assumes "\<nexists>m. requests body m \<and> valid_obj m"
  shows "\<exists>r. handler my c now1 now2 ''POST'' time ''test'' (Some body) a = Ret (r, a) \<and> status r = 400"
proof (cases "\<exists>m. requests body m")
  case True
  then obtain m where m: "requests body m" "\<not> valid_obj m" using assms by blast
  then obtain e where "NewMessageObject (MessageType m) (Endpoint m) (MessageBody m) (Expiration m) = Inl e"
    by (cases "NewMessageObject (MessageType m) (Endpoint m) (MessageBody m) (Expiration m)") (auto simp: NewMessageObject_Inr_iff valid_obj_def)
  then show ?thesis
    using m(1) by (auto simp: requests_iff handler_def respond_def)
next
  case False
  have "\<not> (\<exists>ob t e b x. NewObjectFromBytes body = Inr ob \<and> GetInt64 ob [''type''] = (t, None) \<and>
     GetString ob [''endpoint''] = (e, None) \<and> GetString ob [''message''] = (b, None) \<and> GetInt64 ob [''expiration''] = (x, None))"
  proof
    assume "\<exists>ob t e b x. NewObjectFromBytes body = Inr ob \<and> GetInt64 ob [''type''] = (t, None) \<and>
     GetString ob [''endpoint''] = (e, None) \<and> GetString ob [''message''] = (b, None) \<and> GetInt64 ob [''expiration''] = (x, None)"
    then obtain ob t e b x where "NewObjectFromBytes body = Inr ob" "GetInt64 ob [''type''] = (t, None)"
     "GetString ob [''endpoint''] = (e, None)" "GetString ob [''message''] = (b, None)" "GetInt64 ob [''expiration''] = (x, None)" by blast
    then have "requests body \<lparr>MessageType = t, Endpoint = e, MessageBody = b, Expiration = x\<rparr>" by (simp add: requests_iff)
    with False show False by blast
  qed
  then show ?thesis
    by (auto simp: handler_def bad_request_def respond_def split: sum.split prod.split option.split)
qed

lemma accepted_text: "CHR ''%'' \<notin> set e \<Longrightarrow> body_text (respond st (accepted e)) = accepted e"
  using Fprintf_plain [of "accepted e" "[]"] by (simp add: respond_def accepted_def)

section \<open>Properties\<close>


text \<open>
  C40. What an authorised request does.  If its body is a JSON object with the four fields and
  they form a valid message, the message is distributed and the answer is 200, naming the
  endpoint as it is unless it contains a percent sign; in every other case the answer is 400 and
  nothing changes.
\<close>

theorem request_decided:
  "(requests body m \<and> valid_obj m \<longrightarrow>
     handler my c now1 now2 ''POST'' time ''test'' (Some body) a =
       go_bind (DistCalls my c now1 now2 m a) (\<lambda>(_, a'). Ret (respond 200 (accepted (Endpoint m)), a')) \<and>
     (CHR ''%'' \<notin> set (Endpoint m) \<longrightarrow> body_text (respond 200 (accepted (Endpoint m))) = accepted (Endpoint m))) \<and>
   ((\<nexists>m. requests body m \<and> valid_obj m) \<longrightarrow>
     (\<exists>r. handler my c now1 now2 ''POST'' time ''test'' (Some body) a = Ret (r, a) \<and> status r = 400))"
proof (intro conjI impI)
  assume m: "requests body m \<and> valid_obj m"
  then show "handler my c now1 now2 ''POST'' time ''test'' (Some body) a =
       go_bind (DistCalls my c now1 now2 m a) (\<lambda>(_, a'). Ret (respond 200 (accepted (Endpoint m)), a'))"
    using handler_valid by blast
  show "body_text (respond 200 (accepted (Endpoint m))) = accepted (Endpoint m)" if "CHR ''%'' \<notin> set (Endpoint m)"
    using that by (rule accepted_text)
next
  assume "\<nexists>m. requests body m \<and> valid_obj m"
  then show "\<exists>r. handler my c now1 now2 ''POST'' time ''test'' (Some body) a = Ret (r, a) \<and> status r = 400"
    by (rule handler_invalid)
qed

definition sample_request :: "byte list" where
  "sample_request = bytes_of_string
     ''{\"type\":107,\"endpoint\":\"GET x\",\"message\":\"\",\"expiration\":0}''"

lemma sample_request_decode:
  "json_decode (string_of_bytes sample_request) = Some (JObject [(''type'', JNumber ''107''),
     (''endpoint'', JString ''GET x''), (''message'', JString []), (''expiration'', JNumber ''0'')])"
  by code_simp

definition sample_message :: Obj where
  "sample_message = \<lparr>MessageType = 107, Endpoint = ''GET x'', MessageBody = [], Expiration = 0\<rparr>"

lemma sample_request_ok: "requests sample_request sample_message" "valid_obj sample_message"
  by (simp_all add: requests_def sample_request_decode sample_message_def valid_obj_def ParseInt_def ParseUint_def
      char_digit_def Let_def)


theorem request_decided_witness:
  "(\<exists>r. handler (table_mysql (records_table initial_conf)) initial_conf 1500 1500 ''POST'' ''0'' ''test'' (Some (bytes_of_string ''[]'')) sample_app =
     Ret (r, sample_app) \<and> status r = 400) \<and>
   handler (table_mysql (records_table initial_conf)) initial_conf 1500 1500 ''POST'' ''0'' ''test'' (Some sample_request) sample_app =
     go_bind (DistCalls (table_mysql (records_table initial_conf)) initial_conf 1500 1500 sample_message sample_app)
       (\<lambda>(_, a'). Ret (respond 200 (accepted ''GET x''), a'))"
proof -
  have "json_decode ''[]'' = Some (JArray [])" by code_simp
  then have "\<nexists>m. requests (bytes_of_string ''[]'') m" by (simp add: requests_def)
  moreover have "Endpoint sample_message = ''GET x''" by (simp add: sample_message_def)
  ultimately show ?thesis
    using request_decided [of "bytes_of_string ''[]''" sample_message] request_decided [of sample_request sample_message] sample_request_ok
    by metis
qed

end
