(* ===== verification/Websocket_Hub.thy ===== *)
theory Websocket_Hub
  imports Go_Strings
begin

text \<open>
  The registry of live websocket connections, \<open>src/ws/ws.go\<close>.  \<open>conn_map\<close> sends a user id to the
  list of its connections.  Connections are pointers: \<open>objs\<close> holds the objects and an address
  is a position in it.  A connection's channel \<open>msg\<close> is unbuffered: a send succeeds when the
  goroutine \<open>Heartbeat\<close> of that connection is there to receive it, and blocks for ever when that
  goroutine has ended.  What the receiver has taken is \<open>delivered\<close>.
\<close>

section \<open>State\<close>

record connection =
  cid :: string
  ckey :: string
  pump :: bool
  delivered :: "byte list list"

record hub =
  objs :: "connection list"
  conn_map :: "string \<rightharpoonup> nat list"

datatype ws_error = ErrorExceedsMaxConn | ErrorNoLiveConnection

definition maxConn :: nat where
  "maxConn = 20"

definition empty_hub :: hub where
  "empty_hub = \<lparr>objs = [], conn_map = Map.empty\<rparr>"

section \<open>Operations\<close>

text \<open>\<open>NewWs\<close> allocates the object; its two goroutines are started right after \<open>Join\<close>.\<close>

definition NewWs :: "string \<Rightarrow> string \<Rightarrow> hub \<Rightarrow> nat \<times> hub" where
  "NewWs i k h = (length (objs h), h\<lparr>objs := objs h @ [\<lparr>cid = i, ckey = k, pump = True, delivered = []\<rparr>]\<rparr>)"

definition Join :: "nat \<Rightarrow> hub \<Rightarrow> ws_error option \<times> hub" where
  "Join c h =
     (let i = cid (objs h ! c);
          h1 = (case conn_map h i of None \<Rightarrow> h\<lparr>conn_map := (conn_map h)(i \<mapsto> [])\<rparr> | Some _ \<Rightarrow> h);
          l = the (conn_map h1 i)
      in if length l > maxConn then (Some ErrorExceedsMaxConn, h1)
         else (None, h1\<lparr>conn_map := (conn_map h1)(i \<mapsto> l @ [c])\<rparr>))"

definition Leave :: "nat \<Rightarrow> hub \<Rightarrow> ws_error option \<times> hub" where
  "Leave c h =
     (let i = cid (objs h ! c) in
      case conn_map h i of
        None \<Rightarrow> (Some ErrorNoLiveConnection, h)
      | Some p \<Rightarrow>
          if c \<in> set p then
            let p' = remove1 c p in
            (None, h\<lparr>conn_map := (if p' = [] then (conn_map h)(i := None) else (conn_map h)(i \<mapsto> p'))\<rparr>)
          else (Some ErrorNoLiveConnection, h))"

definition deliver :: "nat \<Rightarrow> byte list \<Rightarrow> hub \<Rightarrow> hub go" where
  "deliver c m h =
     (if pump (objs h ! c) then Ret (h\<lparr>objs := (objs h)[c := (objs h ! c)\<lparr>delivered := delivered (objs h ! c) @ [m]\<rparr>]\<rparr>)
      else Hang)"

fun send_loop :: "string \<Rightarrow> byte list \<Rightarrow> nat list \<Rightarrow> hub \<Rightarrow> hub go" where
  "send_loop k m [] h = Ret h"
| "send_loop k m (c # cs) h =
     go_bind (if k \<noteq> [] then (if ckey (objs h ! c) = k then deliver c m h else Ret h) else deliver c m h)
       (send_loop k m cs)"

definition Send :: "string \<Rightarrow> string \<Rightarrow> string \<Rightarrow> hub \<Rightarrow> (ws_error option \<times> hub) go" where
  "Send i k m h =
     (case conn_map h i of
        None \<Rightarrow> Ret (Some ErrorNoLiveConnection, h)
      | Some cs \<Rightarrow> go_bind (send_loop k (bytes_of_string m) cs h) (\<lambda>h'. Ret (None, h')))"

text \<open>
  The write pump: it waits for a message, a closed channel or a tick, writes a frame, and ends
  at the first failed write or when the channel is closed, closing the connection.  The input
  pairs an event with the outcome of the write it causes; the result is the frames written and
  whether the connection has been closed.
\<close>

datatype frame_type = CloseMessage | TextMessage | PingMessage
datatype hb_event = Hb_Message "byte list" | Hb_Closed | Hb_Tick

fun Heartbeat :: "(hb_event \<times> bool) list \<Rightarrow> (frame_type \<times> byte list) list \<times> bool" where
  "Heartbeat [] = ([], False)"
| "Heartbeat ((Hb_Message m, ok) # es) =
     (if \<not> ok then ([(TextMessage, m)], True) else map_prod (Cons (TextMessage, m)) id (Heartbeat es))"
| "Heartbeat ((Hb_Closed, ok) # es) = ([(CloseMessage, [])], True)"
| "Heartbeat ((Hb_Tick, ok) # es) =
     (if \<not> ok then ([(PingMessage, [])], True) else map_prod (Cons (PingMessage, [])) id (Heartbeat es))"

text \<open>The read pump: it reads until an error and then leaves the registry.\<close>

fun GetHeartbeat :: "bool list \<Rightarrow> nat \<Rightarrow> hub \<Rightarrow> ws_error option \<times> hub" where
  "GetHeartbeat [] c h = (None, h)"
| "GetHeartbeat (ok # oks) c h = (if ok then GetHeartbeat oks c h else Leave c h)"

section \<open>Invariant\<close>

definition hub_inv :: "hub \<Rightarrow> bool" where
  "hub_inv h \<longleftrightarrow> (\<forall>i l. conn_map h i = Some l \<longrightarrow>
     l \<noteq> [] \<and> distinct l \<and> length l \<le> maxConn + 1 \<and> (\<forall>c \<in> set l. c < length (objs h) \<and> cid (objs h ! c) = i))"

definition members :: "hub \<Rightarrow> string \<Rightarrow> nat list" where
  "members h i = (case conn_map h i of None \<Rightarrow> [] | Some l \<Rightarrow> l)"

lemma hub_inv_empty: "hub_inv empty_hub"
  by (simp add: hub_inv_def empty_hub_def)

lemma Join_full: "length (members h (cid (objs h ! c))) > maxConn \<Longrightarrow> Join c h = (Some ErrorExceedsMaxConn, h)"
  by (auto simp: Join_def members_def Let_def split: option.splits)

lemma Join_ok:
  "length (members h (cid (objs h ! c))) \<le> maxConn \<Longrightarrow>
   Join c h = (None, h\<lparr>conn_map := (conn_map h)(cid (objs h ! c) \<mapsto> members h (cid (objs h ! c)) @ [c])\<rparr>)"
  by (auto simp: Join_def members_def Let_def split: option.splits)

lemma Join_inv:
  assumes inv: "hub_inv h" and c: "c < length (objs h)" "c \<notin> set (members h (cid (objs h ! c)))"
  shows "hub_inv (snd (Join c h))"
proof (cases "length (members h (cid (objs h ! c))) \<le> maxConn")
  case True
  then show ?thesis
    using inv c by (auto simp: Join_ok hub_inv_def members_def split: option.splits if_splits)
next
  case False
  then show ?thesis using inv by (simp add: Join_full)
qed

lemma hub_invD:
  assumes "hub_inv h"
  shows "distinct (members h i)" and "length (members h i) \<le> maxConn + 1"
    and "c \<in> set (members h i) \<Longrightarrow> c < length (objs h) \<and> cid (objs h ! c) = i"
    and "conn_map h i = (if members h i = [] then None else Some (members h i))"
  using assms unfolding hub_inv_def members_def by (cases "conn_map h i"; simp)+

lemma hub_invI:
  assumes "\<And>i. distinct (members h i)" and "\<And>i. length (members h i) \<le> maxConn + 1"
    and "\<And>i c. c \<in> set (members h i) \<Longrightarrow> c < length (objs h) \<and> cid (objs h ! c) = i"
    and "\<And>i. conn_map h i \<noteq> Some []"
  shows "hub_inv h"
  using assms unfolding hub_inv_def members_def by (metis option.simps(5))

lemma remove_member:
  "hub_inv h \<Longrightarrow> remove1 c (members h i) = filter (\<lambda>x. x \<noteq> c) (members h i)"
  using hub_invD(1) [of h i] by (simp add: distinct_remove1_removeAll removeAll_filter_not_eq eq_commute)

lemma Leave_eq:
  assumes "hub_inv h" and i: "i = cid (objs h ! c)"
  shows "Leave c h =
     (if c \<in> set (members h i)
      then (None, h\<lparr>conn_map := (conn_map h)(i := if filter (\<lambda>x. x \<noteq> c) (members h i) = [] then None
                                               else Some (filter (\<lambda>x. x \<noteq> c) (members h i)))\<rparr>)
      else (Some ErrorNoLiveConnection, h))"
  using remove_member [OF assms(1), of c i]
  by (cases "conn_map h i") (simp_all add: Leave_def members_def Let_def flip: i)

lemma Leave_members:
  assumes "hub_inv h"
  shows "fst (Leave c h) = (if c \<in> set (members h (cid (objs h ! c))) then None else Some ErrorNoLiveConnection)"
    and "members (snd (Leave c h)) i = filter (\<lambda>x. x \<noteq> c) (members h i)"
    and "objs (snd (Leave c h)) = objs h" and "conn_map (snd (Leave c h)) i \<noteq> Some []"
proof -
  let ?i = "cid (objs h ! c)"
  note eq = Leave_eq [OF assms refl, of c]
  have "filter (\<lambda>x. x \<noteq> c) (members h j) = members h j" if "j \<noteq> ?i \<or> c \<notin> set (members h j)" for j
    using hub_invD(3) [OF assms, of c j] that by (auto simp: filter_id_conv)
  then show "members (snd (Leave c h)) i = filter (\<lambda>x. x \<noteq> c) (members h i)"
    unfolding eq by (cases "i = ?i") (simp_all add: members_def)
  show "fst (Leave c h) = (if c \<in> set (members h ?i) then None else Some ErrorNoLiveConnection)"
    "objs (snd (Leave c h)) = objs h"
    unfolding eq by simp_all
  show "conn_map (snd (Leave c h)) i \<noteq> Some []"
    unfolding eq using hub_invD(4) [OF assms, of i] by auto
qed

lemma Leave_inv:
  assumes "hub_inv h"
  shows "hub_inv (snd (Leave c h))"
proof (rule hub_invI)
  fix i d
  show "distinct (members (snd (Leave c h)) i)"
    using hub_invD(1) [OF assms, of i] by (simp add: Leave_members [OF assms])
  have "length (filter (\<lambda>x. x \<noteq> c) (members h i)) \<le> length (members h i)" by (rule length_filter_le)
  then show "length (members (snd (Leave c h)) i) \<le> maxConn + 1"
    using hub_invD(2) [OF assms, of i] unfolding Leave_members(2) [OF assms] by (rule le_trans)
  show "conn_map (snd (Leave c h)) i \<noteq> Some []" by (rule Leave_members(4) [OF assms])
  assume "d \<in> set (members (snd (Leave c h)) i)"
  then show "d < length (objs (snd (Leave c h))) \<and> cid (objs (snd (Leave c h)) ! d) = i"
    using hub_invD(3) [OF assms, of d i] by (simp add: Leave_members [OF assms])
qed

section \<open>Delivery\<close>

definition addressed :: "string \<Rightarrow> connection \<Rightarrow> bool" where
  "addressed k c \<longleftrightarrow> k = [] \<or> ckey c = k"

definition receive :: "byte list \<Rightarrow> connection \<Rightarrow> connection" where
  "receive m c = c\<lparr>delivered := delivered c @ [m]\<rparr>"

text \<open>The objects after the message has gone to the addressed connections among \<open>cs\<close>.\<close>

definition received :: "string \<Rightarrow> byte list \<Rightarrow> nat list \<Rightarrow> connection list \<Rightarrow> connection list" where
  "received k m cs os = map (\<lambda>(c, x). if c \<in> set cs \<and> addressed k x then receive m x else x) (enumerate 0 os)"

lemma length_received [simp]: "length (received k m cs os) = length os"
  by (simp add: received_def)

lemma received_nth:
  "c < length os \<Longrightarrow> received k m cs os ! c = (if c \<in> set cs \<and> addressed k (os ! c) then receive m (os ! c) else os ! c)"
  by (simp add: received_def nth_enumerate_eq)

lemma receive_simps [simp]: "ckey (receive m c) = ckey c" "cid (receive m c) = cid c" "pump (receive m c) = pump c"
  by (simp_all add: receive_def)

lemma addressed_receive [simp]: "addressed k (receive m c) = addressed k c"
  by (simp add: addressed_def)

lemma objs_self [simp]: "h\<lparr>objs := objs h\<rparr> = h"
  by (cases h) simp

lemma send_loop_step:
  "send_loop k m (c # cs) h =
     (if addressed k (objs h ! c) then (if pump (objs h ! c) then send_loop k m cs (h\<lparr>objs := (objs h)[c := receive m (objs h ! c)]\<rparr>) else Hang)
      else send_loop k m cs h)"
  by (auto simp: addressed_def deliver_def receive_def)

lemma send_loop_eq:
  assumes "distinct cs" and "\<forall>c \<in> set cs. c < length (objs h)"
  shows "send_loop k m cs h =
     (if \<forall>c \<in> set cs. addressed k (objs h ! c) \<longrightarrow> pump (objs h ! c)
      then Ret (h\<lparr>objs := received k m cs (objs h)\<rparr>) else Hang)"
  using assms
proof (induction cs arbitrary: h)
  case Nil
  have "received k m [] (objs h) = objs h"
    by (simp add: received_def case_prod_unfold)
  then show ?case by simp
next
  case (Cons c cs)
  show ?case
  proof (cases "addressed k (objs h ! c)")
    case True
    let ?h = "h\<lparr>objs := (objs h)[c := receive m (objs h ! c)]\<rparr>"
    have eq: "received k m cs (objs ?h) = received k m (c # cs) (objs h)"
      using Cons.prems True by (intro nth_equalityI) (auto simp: received_nth nth_list_update)
    have same: "(\<forall>d \<in> set cs. addressed k (objs ?h ! d) \<longrightarrow> pump (objs ?h ! d)) \<longleftrightarrow>
        (\<forall>d \<in> set cs. addressed k (objs h ! d) \<longrightarrow> pump (objs h ! d))"
      using Cons.prems by (auto simp: nth_list_update)
    have "send_loop k m cs ?h =
        (if \<forall>d \<in> set cs. addressed k (objs h ! d) \<longrightarrow> pump (objs h ! d)
         then Ret (?h\<lparr>objs := received k m (c # cs) (objs h)\<rparr>) else Hang)"
      using Cons.IH [of ?h] Cons.prems unfolding same eq by simp
    then show ?thesis
      using True unfolding send_loop_step by simp
  next
    case False
    then have "received k m cs (objs h) = received k m (c # cs) (objs h)"
      using Cons.prems by (intro nth_equalityI) (auto simp: received_nth)
    then show ?thesis
      using Cons.IH [of h] Cons.prems False unfolding send_loop_step by simp
  qed
qed

section \<open>Properties\<close>

text \<open>A history of the registry: new connections that join, and connections that leave.\<close>

datatype ws_op = WJoin string string | WLeave nat

fun hub_run :: "ws_op list \<Rightarrow> hub \<Rightarrow> hub" where
  "hub_run [] h = h"
| "hub_run (WJoin i k # ops) h = (case NewWs i k h of (c, h1) \<Rightarrow> hub_run ops (snd (Join c h1)))"
| "hub_run (WLeave c # ops) h = hub_run ops (snd (Leave c h))"

lemma NewWs_inv:
  assumes inv: "hub_inv h" and "NewWs i k h = (c, h1)"
  shows "hub_inv h1 \<and> c < length (objs h1) \<and> cid (objs h1 ! c) = i \<and>
    (\<forall>j. members h1 j = members h j \<and> c \<notin> set (members h j))"
proof -
  have h1: "c = length (objs h)" "h1 = h\<lparr>objs := objs h @ [\<lparr>cid = i, ckey = k, pump = True, delivered = []\<rparr>]\<rparr>"
    using assms(2) by (simp_all add: NewWs_def)
  have "hub_inv h1"
    using inv unfolding hub_inv_def h1 by (auto simp: nth_append less_Suc_eq)
  moreover have "c \<notin> set (members h j)" for j
    using hub_invD(3) [OF inv, of c j] h1(1) by auto
  ultimately show ?thesis
    by (simp add: h1 members_def)
qed

lemma hub_run_inv: "hub_inv h \<Longrightarrow> hub_inv (hub_run ops h)"
proof (induction ops arbitrary: h)
  case (Cons op ops)
  show ?case
  proof (cases op)
    case (WJoin i k)
    obtain c h1 where n: "NewWs i k h = (c, h1)" by fastforce
    then have "hub_inv (snd (Join c h1))"
      using NewWs_inv [OF Cons.prems n] by (intro Join_inv) simp_all
    then show ?thesis using Cons.IH WJoin n by simp
  next
    case (WLeave c)
    then show ?thesis using Cons.IH Leave_inv [OF Cons.prems] by simp
  qed
qed simp

lemma joins_count:
  assumes "hub_inv h"
  shows "length (members (hub_run (replicate n (WJoin i k)) h) i) =
    max (length (members h i)) (min (length (members h i) + n) (maxConn + 1))"
  using assms
proof (induction n arbitrary: h)
  case 0
  then show ?case by simp
next
  case (Suc n)
  obtain c h1 where n: "NewWs i k h = (c, h1)" by fastforce
  note N = NewWs_inv [OF Suc.prems n]
  have inv: "hub_inv (snd (Join c h1))" using N by (intro Join_inv) simp_all
  have "length (members (snd (Join c h1)) i) =
      (if length (members h i) \<le> maxConn then Suc (length (members h i)) else length (members h i))"
    using N Join_ok [of h1 c] Join_full [of h1 c] by (auto simp: members_def)
  then show ?case
    using Suc.IH [OF inv] hub_invD(2) [OF Suc.prems, of i] n by auto
qed


text \<open>
  Sending: a message for a registered id goes, in full and exactly once, to the connections of
  that id that carry the given key (all of them when the key is empty) and to no others, provided
  the write pump of each of them is running; if one of them has ended, the sender blocks for ever.
  An id without connections is reported as such.
\<close>

lemma Send_spec:
  assumes "hub_inv h"
  shows "Send i k m h =
    (if members h i = [] then Ret (Some ErrorNoLiveConnection, h)
     else if \<forall>c \<in> set (members h i). (k = [] \<or> ckey (objs h ! c) = k) \<longrightarrow> pump (objs h ! c)
     then Ret (None, h\<lparr>objs := map (\<lambda>(c, x). if c \<in> set (members h i) \<and> (k = [] \<or> ckey x = k)
            then x\<lparr>delivered := delivered x @ [bytes_of_string m]\<rparr> else x) (enumerate 0 (objs h))\<rparr>)
     else Hang)"
proof (cases "members h i = []")
  case True
  then show ?thesis using hub_invD(4) [OF assms, of i] by (simp add: Send_def)
next
  case False
  then have "conn_map h i = Some (members h i)" using hub_invD(4) [OF assms, of i] by simp
  moreover have "\<forall>c \<in> set (members h i). c < length (objs h)" using hub_invD(3) [OF assms] by blast
  ultimately show ?thesis
    using False
      send_loop_eq [OF hub_invD(1) [OF assms, of i], of h k "bytes_of_string m", unfolded addressed_def received_def receive_def]
    unfolding Send_def by simp
qed

end
