(* ===== verification/Distributor.thy ===== *)
theory Distributor
  imports Websocket_Hub Json_Wrapper Ring_Queue Messages
begin

text \<open>
  Delivery of due messages, \<open>src/distributor\<close>: \<open>ProcessMessageQueue\<close> takes the next message from the
  sending queue and starts the sender of its type; the senders turn endpoint and body into a
  request.  The network is an argument: whether \<open>http.NewRequest\<close> accepts a method and a URL, what
  status a request yields (none on a network error), and whether \<open>smtp.SendMail\<close> succeeds.
\<close>

section \<open>Requests\<close>

record http_request =
  rq_method :: string
  rq_url :: string
  rq_body :: string
  rq_headers :: "(string \<times> string) list"

record network =
  request_ok :: "string \<Rightarrow> string \<Rightarrow> bool"
  do_request :: "http_request \<Rightarrow> int option"
  send_mail :: "string \<Rightarrow> string list \<Rightarrow> byte list \<Rightarrow> bool"

datatype dist_error =
    ErrorInvalidEndpointOrBody
  | ErrorNetworkDisconnect
  | ErrorInproperResponse
  | Dist_Json json_error
  | Dist_Ws ws_error
  | Dist_Mail

section \<open>REST calls\<close>

definition sendRESTCall :: "network \<Rightarrow> string \<Rightarrow> string \<Rightarrow> dist_error option" where
  "sendRESTCall net endpoint msg =
     (case go_split (CHR '' '') endpoint of
        [method, u, content_type] \<Rightarrow>
          if \<not> request_ok net method u then Some ErrorInvalidEndpointOrBody
          else (case do_request net \<lparr>rq_method = method, rq_url = u, rq_body = msg,
                        rq_headers = [(''Content-Type'', content_type), (''Powered-By'', ''GrandmaSchedulerServices'')]\<rparr> of
                  None \<Rightarrow> Some ErrorNetworkDisconnect
                | Some status \<Rightarrow> if status \<noteq> 200 then Some ErrorInproperResponse else None)
      | _ \<Rightarrow> Some ErrorInvalidEndpointOrBody)"

section \<open>Push notifications\<close>

abbreviation dquote :: char where "dquote \<equiv> CHR 0x22"
abbreviation tab :: char where "tab \<equiv> CHR 0x09"

definition sendGCMCall :: "network \<Rightarrow> string \<Rightarrow> dist_error option" where
  "sendGCMCall net msg =
     (let u = ''https://gcm-http.googleapis.com/gcm/send'' in
      if \<not> request_ok net ''POST'' u then Some ErrorInvalidEndpointOrBody
      else (case do_request net \<lparr>rq_method = ''POST'', rq_url = u, rq_body = msg,
                    rq_headers = [(''Content-Type'', ''application/json''), (''Authorization'', ''key''),
                                  (''Powered-By'', ''GrandmaSchedulerServices'')]\<rparr> of
              None \<Rightarrow> Some ErrorNetworkDisconnect
            | Some status \<Rightarrow> if status \<noteq> 200 then Some ErrorInproperResponse else None))"

definition gcm_body :: "string \<Rightarrow> string \<Rightarrow> string \<Rightarrow> string \<Rightarrow> Object \<Rightarrow> string" where
  "gcm_body endpoint msg_type msg_title msg_body msg_data =
     ''{'' @ [newline] @ ''  '' @ [tab, tab, dquote] @ ''to'' @ [dquote] @ '' : '' @ [dquote] @
     ''/topics/'' @ endpoint @ [dquote] @ '','' @ [newline] @ ''  '' @ [tab, tab, dquote] @
     ''priority'' @ [dquote] @ '': '' @ [dquote] @ ''high'' @ [dquote] @ '','' @ [newline] @ ''  '' @
     [tab, tab, dquote] @ ''data'' @ [dquote] @ '' : {'' @ [newline] @ ''  '' @ [tab, tab, dquote] @
     ''title'' @ [dquote] @ '': '' @ [dquote] @ msg_title @ [dquote] @ '','' @ [newline] @ ''    '' @
     [tab, dquote] @ ''message'' @ [dquote] @ '' : '' @ [dquote] @ msg_body @ [dquote] @ '','' @
     [newline] @ ''    '' @ [tab, dquote] @ ''payload'' @ [dquote] @ '': {'' @ [dquote] @ ''type'' @
     [dquote] @ '': '' @ [dquote] @ msg_type @ [dquote] @ '', '' @ [dquote] @ ''data'' @ [dquote] @
     '': '' @ Object_String msg_data @ ''}'' @ [newline] @ ''  '' @ [tab, tab] @ ''},'' @ [newline] @
     ''  '' @ [tab, tab, dquote] @ ''notification'' @ [dquote] @ '' : {'' @ [newline] @ ''    '' @
     [tab, dquote] @ ''title'' @ [dquote] @ '': '' @ [dquote] @ msg_title @ [dquote] @ '','' @
     [newline] @ ''    '' @ [tab, dquote] @ ''body'' @ [dquote] @ '' : '' @ [dquote] @ msg_body @
     [dquote] @ '','' @ [newline] @ ''    '' @ [tab, dquote] @ ''badge'' @ [dquote] @ '': '' @
     [dquote] @ ''1'' @ [dquote] @ '','' @ [newline] @ ''    '' @ [tab, dquote] @ ''sound'' @
     [dquote] @ '': '' @ [dquote] @ ''default'' @ [dquote] @ '','' @ [newline] @ ''    '' @
     [tab, dquote] @ ''payload'' @ [dquote] @ '': {'' @ [dquote] @ ''type'' @ [dquote] @ '': '' @
     [dquote] @ msg_type @ [dquote] @ '', '' @ [dquote] @ ''data'' @ [dquote] @ '': '' @
     Object_String msg_data @ ''}'' @ [newline] @ ''  '' @ [tab, tab] @ ''}'' @ [newline, tab] @ ''}''"

definition sendGCMPushNotification :: "network \<Rightarrow> string \<Rightarrow> string \<Rightarrow> dist_error option" where
  "sendGCMPushNotification net endpoint m =
     (case NewObjectFromBytes (bytes_of_string m) of
        Inl e \<Rightarrow> Some (Dist_Json e)
      | Inr msg \<Rightarrow>
          (case GetString msg [''type''] of
             (_, Some e) \<Rightarrow> Some (Dist_Json e)
           | (msg_type, None) \<Rightarrow>
               (case GetString msg [''title''] of
                  (_, Some e) \<Rightarrow> Some (Dist_Json e)
                | (msg_title, None) \<Rightarrow>
                    (case GetString msg [''body''] of
                       (_, Some e) \<Rightarrow> Some (Dist_Json e)
                     | (msg_body, None) \<Rightarrow>
                         (case GetObject msg [''payload''] of
                            Inl e \<Rightarrow> Some (Dist_Json e)
                          | Inr msg_data \<Rightarrow>
                              sendGCMCall net (gcm_body endpoint msg_type msg_title msg_body msg_data))))))"

section \<open>Text messages\<close>

text \<open>\<open>url.QueryEscape\<close>, and \<open>url.Values.Encode\<close> with its keys in order.\<close>

definition unreserved :: "char \<Rightarrow> bool" where
  "unreserved ch \<longleftrightarrow> (let k = code ch in
     48 \<le> k \<and> k \<le> 57 \<or> 65 \<le> k \<and> k \<le> 90 \<or> 97 \<le> k \<and> k \<le> 122 \<or> ch \<in> {CHR ''-'', CHR ''_'', CHR ''.'', CHR ''~''})"

definition hex_upper :: "nat \<Rightarrow> char" where
  "hex_upper d = (if d < 10 then char_of (48 + d) else char_of (55 + d))"

definition QueryEscape :: "string \<Rightarrow> string" where
  "QueryEscape s = concat (map (\<lambda>ch. if unreserved ch then [ch] else if ch = CHR '' '' then ''+''
     else [CHR ''%'', hex_upper (code ch div 16), hex_upper (code ch mod 16)]) s)"

definition sms_form :: "string \<Rightarrow> string \<Rightarrow> string" where
  "sms_form endpoint msg = ''Body='' @ QueryEscape msg @ ''&From='' @ QueryEscape ''+14152149780'' @ ''&To='' @ QueryEscape endpoint"

text \<open>
  The account and its token, literals in the code, are arguments.  The error of \<open>client.Do\<close> is
  dropped; the response is nil then.
\<close>

definition sendSMSMessage :: "network \<Rightarrow> string \<Rightarrow> string \<Rightarrow> string \<Rightarrow> string \<Rightarrow> dist_error option go" where
  "sendSMSMessage net account_sid auth_token endpoint msg =
     (let url_str = ''https://api.twilio.com/2010-04-01/Accounts/'' @ account_sid @ ''/Messages.json'' in
      if \<not> request_ok net ''POST'' url_str then Ret (Some ErrorNetworkDisconnect)
      else (case do_request net \<lparr>rq_method = ''POST'', rq_url = url_str, rq_body = sms_form endpoint msg,
                    rq_headers = [(''Authorization'', ''Basic '' @ b64_encode (bytes_of_string (account_sid @ '':'' @ auth_token))), (''Accept'', ''application/json''),
                                  (''Content-Type'', ''application/x-www-form-urlencoded'')]\<rparr> of
              None \<Rightarrow> Panic Nil_Deref
            | Some status \<Rightarrow> Ret (if status \<noteq> 200 then Some ErrorInproperResponse else None)))"

section \<open>Mail and websockets\<close>

definition sendEmailMsg :: "network \<Rightarrow> string \<Rightarrow> string \<Rightarrow> dist_error option" where
  "sendEmailMsg net endpoint m =
     (let msg = bytes_of_string (''To: '' @ endpoint @ [CHR 0x0D, CHR 0x0A] @ m) in
      if send_mail net ''toemail'' [endpoint] msg then None else Some Dist_Mail)"

definition sendWebSocketMsg :: "string \<Rightarrow> string \<Rightarrow> hub \<Rightarrow> (dist_error option \<times> hub) go" where
  "sendWebSocketMsg endpoint m h =
     (case go_split (CHR ''.'') endpoint of
        i # k # _ \<Rightarrow> go_bind (Send i k m h) (\<lambda>(err, h'). Ret (map_option Dist_Ws err, h'))
      | _ \<Rightarrow> Ret (Some ErrorInvalidEndpointOrBody, h))"

section \<open>The queue loop\<close>

text \<open>
  One activation takes one message (or waits for one), starts at most one sender, and starts
  the next activation.  The started sender is the result.
\<close>

datatype action =
    Send_REST string string
  | Send_WebSocket string string
  | Send_SMS string string
  | Send_GCM string string
  | Send_Email string string

definition ProcessMessageQueue :: "nat \<Rightarrow> Obj GrandmaQueue \<Rightarrow> (action option \<times> Obj GrandmaQueue) go" where
  "ProcessMessageQueue qlen q =
     go_bind (PopMessage qlen q) (\<lambda>(r, q').
       case r of
         None \<Rightarrow> Panic Nil_Deref
       | Some msg \<Rightarrow>
           let dist_type = MessageType msg; endpoint = Endpoint msg; msg_body = MessageBody msg in
           Ret (if dist_type = S_DELETE_MESSAGE then None
                else if dist_type = S_REST_NOTIFICATION then Some (Send_REST endpoint msg_body)
                else if dist_type = S_WEBSOCKET_NOTIFICATION then Some (Send_WebSocket endpoint msg_body)
                else if dist_type = S_SMS_NOTIFICATION then Some (Send_SMS endpoint msg_body)
                else if dist_type = S_GCM_NOTIFICATION then Some (Send_GCM endpoint msg_body)
                else if dist_type = S_EMAIL_NOTIFICATION then Some (Send_Email endpoint msg_body)
                else None, q'))"

fun process_n :: "nat \<Rightarrow> nat \<Rightarrow> Obj GrandmaQueue \<Rightarrow> (action list \<times> Obj GrandmaQueue) go" where
  "process_n 0 qlen q = Ret ([], q)"
| "process_n (Suc n) qlen q =
     go_bind (ProcessMessageQueue qlen q) (\<lambda>(a, q1).
     go_bind (process_n n qlen q1) (\<lambda>(as, q2). Ret (case a of None \<Rightarrow> as | Some x \<Rightarrow> x # as, q2)))"

section \<open>Lemmas\<close>

text \<open>The sender a message is meant for.\<close>

definition sender_of :: "Obj \<Rightarrow> action option" where
  "sender_of m =
     map_option (\<lambda>f. f (Endpoint m) (MessageBody m))
       (map_of [(102, Send_GCM), (105, Send_WebSocket), (106, Send_Email), (107, Send_REST), (109, Send_SMS)] (MessageType m))"

lemma PopMessage_contents:
  assumes "ring_inv n q" and "contents n q = m # ms"
  shows "\<exists>q'. PopMessage n q = Ret (Some m, q') \<and> ring_inv n q' \<and> contents n q' = ms"
  using rq.pop_abs [OF assms(1)] rq.pop_inv [OF assms(1)] assms(2) by auto

lemma ProcessMessageQueue_step:
  assumes "ring_inv n q" and "contents n q = m # ms"
  shows "\<exists>q'. ProcessMessageQueue n q = Ret (sender_of m, q') \<and> ring_inv n q' \<and> contents n q' = ms"
  using PopMessage_contents [OF assms]
  by (auto simp: ProcessMessageQueue_def sender_of_def Let_def message_types)

lemma process_n_all:
  assumes "ring_inv n q"
  shows "\<exists>q'. process_n (length (contents n q)) n q = Ret (List.map_filter sender_of (contents n q), q') \<and>
     ring_inv n q' \<and> contents n q' = []"
proof -
  have "\<exists>q'. process_n (length ms) n q = Ret (List.map_filter sender_of ms, q') \<and> ring_inv n q' \<and> contents n q' = []"
    if "contents n q = ms" for ms
    using that assms
  proof (induction ms arbitrary: q)
    case (Cons m ms)
    obtain q1 where "ProcessMessageQueue n q = Ret (sender_of m, q1)" "ring_inv n q1" "contents n q1 = ms"
      using ProcessMessageQueue_step [OF Cons.prems(2,1)] by blast
    then show ?case
      using Cons.IH [of q1] by (auto simp: map_filter_simps split: option.splits)
  qed (simp add: map_filter_simps)
  then show ?thesis by simp
qed

lemma map_of_types_None:
  "map_of [(102, Send_GCM), (105, Send_WebSocket), (106, Send_Email), (107, Send_REST), (109, Send_SMS)] t = None \<longleftrightarrow>
     t \<notin> {102, 105, 106, 107, (109 :: int)}"
  by auto

section \<open>Properties\<close>

text \<open>
  The distributor serves the whole queue in order: as many activations as there are messages
  start exactly the senders of those messages, in queue order, each with the message's endpoint and
  body, and leave the queue empty, where the next activation waits.  Messages of the types 100
  (deletion), 101, 103, 104 and 108 (accepted when they are submitted) start no sender.
\<close>

lemma queue_served_in_order:
  assumes "ring_inv n q"
  shows "(\<exists>q'. process_n (length (contents n q)) n q = Ret (List.map_filter sender_of (contents n q), q') \<and>
      contents n q' = [] \<and> ProcessMessageQueue n q' = Hang) \<and>
    (sender_of m = None \<longleftrightarrow> MessageType m \<notin> {102, 105, 106, 107, 109})"
proof -
  obtain q' where q': "process_n (length (contents n q)) n q = Ret (List.map_filter sender_of (contents n q), q')"
      "ring_inv n q'" "contents n q' = []"
    using process_n_all [OF assms] by blast
  have "PopMessage n q' = Hang" using q'(2,3) by (simp add: PopMessage_def IsEmpty_iff)
  then have "ProcessMessageQueue n q' = Hang" by (simp add: ProcessMessageQueue_def)
  then show ?thesis using q' map_of_types_None by (auto simp: sender_of_def)
qed

end
