(* ===== verification/Mapping_Call.thy ===== *)
theory Mapping_Call
  imports Json_Wrapper
begin

text \<open>
  Mapping requests, \<open>src/mapping/mapping.go\<close> and \<open>src/mapping/payload.go\<close>: a JSON document with a
  number of petitions, a payload, a way to organise the result and a trigger is turned into a
  \<open>MappingCall\<close>.  \<open>url.Parse\<close> enters only through success or failure and is an argument.
\<close>

record Payload =
  urldata :: bool
  url :: string
  pdata :: string

record MappingCall =
  Payloads :: "Payload list"
  Resorg :: int
  Trigger_Mtd :: int

datatype mapping_error =
    ErrInvalidPayload
  | ErrWrongPayloadSize
  | Map_Json json_error

section \<open>Payloads\<close>

text \<open>\<open>make([]T, n)\<close> panics for a negative length.\<close>

definition make_slice_panic :: go_fault where
  "make_slice_panic = Explicit_Panic ''runtime error: makeslice: len out of range''"

definition processSinglePayload :: "Payload option \<Rightarrow> int \<Rightarrow> (mapping_error + Payload list) go" where
  "processSinglePayload p sz =
     (case p of
        None \<Rightarrow> Ret (Inl ErrInvalidPayload)
      | Some x \<Rightarrow> if sz < 0 then Panic make_slice_panic else Ret (Inr (replicate (nat sz) x)))"

fun separate_items :: "(string \<Rightarrow> bool) \<Rightarrow> bool \<Rightarrow> string list \<Rightarrow> mapping_error + Payload list" where
  "separate_items url_ok isurl [] = Inr []"
| "separate_items url_ok isurl (s # ss) =
     (if isurl then
        (if \<not> url_ok s then Inl ErrInvalidPayload
         else map_sum id (\<lambda>ps. \<lparr>urldata = isurl, url = s, pdata = []\<rparr> # ps) (separate_items url_ok isurl ss))
      else map_sum id (\<lambda>ps. \<lparr>urldata = isurl, url = [], pdata = s\<rparr> # ps) (separate_items url_ok isurl ss))"

definition processSeparatePayload ::
  "(string \<Rightarrow> bool) \<Rightarrow> Object option \<Rightarrow> int \<Rightarrow> bool \<Rightarrow> (mapping_error + Payload list) go" where
  "processSeparatePayload url_ok p sz isurl =
     (case p of
        None \<Rightarrow> Ret (Inl ErrInvalidPayload)
      | Some ob \<Rightarrow>
          if sz < 0 then Panic make_slice_panic
          else (case GetStringArray ob [''payloads''] of
                  (_, Some e) \<Rightarrow> Ret (Inl (Map_Json e))
                | (ss, None) \<Rightarrow>
                    if int (length ss) \<noteq> sz then Ret (Inl ErrWrongPayloadSize)
                    else Ret (separate_items url_ok isurl ss)))"

text \<open>
  In the two single cases the variable \<open>p\<close> is a nil pointer whose fields are assigned.
\<close>

definition getPayload :: "(string \<Rightarrow> bool) \<Rightarrow> Object \<Rightarrow> int \<Rightarrow> (mapping_error + Payload list) go" where
  "getPayload url_ok payload sz =
     (case GetString payload [''type''] of
        (_, Some e) \<Rightarrow> Ret (Inl (Map_Json e))
      | (t, None) \<Rightarrow>
          if t = ''single_file'' then
            (case GetString payload [''url''] of
               (_, Some e) \<Rightarrow> Ret (Inl (Map_Json e))
             | (urlpath, None) \<Rightarrow>
                 if \<not> url_ok urlpath then Ret (Inl ErrInvalidPayload)
                 else let p = (None :: Payload option) in
                   case p of
                     None \<Rightarrow> Panic Nil_Deref
                   | Some x \<Rightarrow> processSinglePayload (Some (x\<lparr>url := urlpath, urldata := True\<rparr>)) sz)
          else if t = ''separate_file'' then processSeparatePayload url_ok (Some payload) sz True
          else if t = ''single_data'' then
            (case GetString payload [''data''] of
               (_, Some e) \<Rightarrow> Ret (Inl (Map_Json e))
             | (d, None) \<Rightarrow>
                 if d = [] then Ret (Inl ErrInvalidPayload)
                 else let p = (None :: Payload option) in
                   case p of
                     None \<Rightarrow> Panic Nil_Deref
                   | Some x \<Rightarrow> processSinglePayload (Some (x\<lparr>pdata := d, urldata := False\<rparr>)) sz)
          else if t = ''separate_data'' then processSeparatePayload url_ok (Some payload) sz False
          else Ret (Inl ErrInvalidPayload))"

section \<open>Methods\<close>

definition getResultOrgMethod :: "Object \<Rightarrow> mapping_error + int" where
  "getResultOrgMethod json =
     (case GetString json [''result''] of
        (_, Some e) \<Rightarrow> Inl (Map_Json e)
      | (r, None) \<Rightarrow>
          Inr (if r = ''none'' then 0 else if r = ''combined'' then 1 else if r = ''separated'' then 2 else 0))"

definition getTriggerMethod :: "Object \<Rightarrow> mapping_error + int" where
  "getTriggerMethod json =
     (case GetString json [''trigger''] of
        (_, Some e) \<Rightarrow> Inl (Map_Json e)
      | (t, None) \<Rightarrow>
          Inr (if t = ''none'' then 100 else if t = ''email'' then 106 else if t = ''sms'' then 109
               else if t = ''rest'' then 107 else if t = ''push'' then 102 else 100))"

definition getOnErrorMethod :: "Object \<Rightarrow> mapping_error + int" where
  "getOnErrorMethod json =
     (case GetString json [''on_error''] of
        (_, Some e) \<Rightarrow> Inl (Map_Json e)
      | (t, None) \<Rightarrow> Inr (if t = ''terminate'' then 0 else if t = ''continue'' then 1 else 0))"

definition createMappingCall :: "Payload list \<Rightarrow> int \<Rightarrow> int \<Rightarrow> MappingCall" where
  "createMappingCall payloads res trigger = \<lparr>Payloads = payloads, Resorg = res, Trigger_Mtd = trigger\<rparr>"

definition ParseMapping :: "(string \<Rightarrow> bool) \<Rightarrow> string \<Rightarrow> (mapping_error + MappingCall) go" where
  "ParseMapping url_ok content =
     (case NewObjectFromReader content of
        Inl e \<Rightarrow> Ret (Inl (Map_Json e))
      | Inr json \<Rightarrow>
          (case GetInt64 json [''num_petition''] of
             (_, Some e) \<Rightarrow> Ret (Inl (Map_Json e))
           | (num_petition, None) \<Rightarrow>
               (case GetObject json [''payload''] of
                  Inl e \<Rightarrow> Ret (Inl (Map_Json e))
                | Inr payload_obj \<Rightarrow>
                    go_bind (getPayload url_ok payload_obj num_petition) (\<lambda>r.
                      case r of
                        Inl e \<Rightarrow> Ret (Inl e)
                      | Inr payloads \<Rightarrow>
                          Ret (case getResultOrgMethod json of
                                 Inl e \<Rightarrow> Inl e
                               | Inr result_method \<Rightarrow>
                                   (case getTriggerMethod json of
                                      Inl e \<Rightarrow> Inl e
                                    | Inr trigger_method \<Rightarrow>
                                        Inr (createMappingCall payloads result_method trigger_method)))))))"

section \<open>Lemmas\<close>

text \<open>The payload a string of the array stands for.\<close>

definition payload_of :: "bool \<Rightarrow> string \<Rightarrow> Payload" where
  "payload_of isurl s = (if isurl then \<lparr>urldata = True, url = s, pdata = []\<rparr> else \<lparr>urldata = False, url = [], pdata = s\<rparr>)"

lemma separate_items_eq:
  "separate_items url_ok isurl ss =
     (if isurl \<and> \<not> list_all url_ok ss then Inl ErrInvalidPayload else Inr (map (payload_of isurl) ss))"
  by (cases isurl; induction ss) (simp_all add: payload_of_def)

lemma go_bind_sum_Ret:
  "go_bind m (\<lambda>x. case x of Inl e \<Rightarrow> f e | Inr y \<Rightarrow> g y) = Ret r \<longleftrightarrow>
     (\<exists>e. m = Ret (Inl e) \<and> f e = Ret r) \<or> (\<exists>y. m = Ret (Inr y) \<and> g y = Ret r)"
proof (cases m)
  case (Ret x)
  then show ?thesis by (cases x) simp_all
qed simp_all

lemma case_sum_Inr:
  "(case m of Inl e \<Rightarrow> Inl e | Inr y \<Rightarrow> g y) = Inr r \<longleftrightarrow> (\<exists>y. m = Inr y \<and> g y = Inr r)"
  by (cases m) simp_all

lemma getPayload_Inr:
  assumes "getPayload url_ok ob sz = Ret (Inr ps)"
  shows "\<exists>isurl ss. GetString ob [''type''] = (if isurl then ''separate_file'' else ''separate_data'', None) \<and>
     GetStringArray ob [''payloads''] = (ss, None) \<and> sz = int (length ss) \<and> ps = map (payload_of isurl) ss \<and>
     (isurl \<longrightarrow> list_all url_ok ss)"
proof -
  obtain t where t: "GetString ob [''type''] = (t, None)"
    using assms by (auto simp: getPayload_def split: prod.splits option.splits)
  consider (separate_file) "t = ''separate_file'' \<and> processSeparatePayload url_ok (Some ob) sz True = Ret (Inr ps)"
  | (separate_data) "t = ''separate_data'' \<and> processSeparatePayload url_ok (Some ob) sz False = Ret (Inr ps)"
    using assms t by (auto simp: getPayload_def split: prod.splits option.splits if_splits)
  then show ?thesis
  proof cases
    case separate_file
    then show ?thesis
      using t by (intro exI [of _ True])
        (auto simp: processSeparatePayload_def separate_items_eq split: prod.splits option.splits if_splits)
  next
    case separate_data
    then show ?thesis
      using t by (intro exI [of _ False])
        (auto simp: processSeparatePayload_def separate_items_eq split: prod.splits option.splits if_splits)
  qed
qed

section \<open>Properties\<close>

text \<open>
  What a successful parse guarantees: the document names the number of petitions, its payload
  is of one of the two \<open>separate\<close> kinds with exactly that many strings, the call carries one
  payload per string in the same order (a parsable URL each, for files), and the result and
  trigger codes are among those that the program knows.
\<close>

lemma ParseMapping_sound:
  assumes "ParseMapping url_ok content = Ret (Inr call)"
  shows "\<exists>json ob isurl ss. NewObjectFromReader content = Inr json \<and>
     GetInt64 json [''num_petition''] = (int (length ss), None) \<and> GetObject json [''payload''] = Inr ob \<and>
     GetString ob [''type''] = (if isurl then ''separate_file'' else ''separate_data'', None) \<and>
     GetStringArray ob [''payloads''] = (ss, None) \<and> (isurl \<longrightarrow> list_all url_ok ss) \<and>
     Payloads call = map (payload_of isurl) ss \<and> Resorg call \<in> {0, 1, 2} \<and>
     Trigger_Mtd call \<in> {100, 102, 106, 107, 109}"
proof -
  obtain json n ob ps r t where p: "NewObjectFromReader content = Inr json"
      "GetInt64 json [''num_petition''] = (n, None)" "GetObject json [''payload''] = Inr ob"
      "getPayload url_ok ob n = Ret (Inr ps)" "getResultOrgMethod json = Inr r" "getTriggerMethod json = Inr t"
      "call = createMappingCall ps r t"
    using assms by (auto simp: ParseMapping_def go_bind_sum_Ret case_sum_Inr simp del: go_bind_eq_Ret
        split: sum.splits(2) prod.splits option.splits)
  have "r \<in> {0, 1, 2}"
    using p(5) by (auto simp: getResultOrgMethod_def split: prod.splits option.splits if_splits)
  moreover have "t \<in> {100, 102, 106, 107, 109}"
    using p(6) by (auto simp: getTriggerMethod_def split: prod.splits option.splits if_splits)
  moreover obtain isurl ss where "GetString ob [''type''] = (if isurl then ''separate_file'' else ''separate_data'', None)"
      "GetStringArray ob [''payloads''] = (ss, None)" "n = int (length ss)" "ps = map (payload_of isurl) ss"
      "isurl \<longrightarrow> list_all url_ok ss"
    using getPayload_Inr [OF p(4)] by blast
  ultimately show ?thesis
    unfolding p(7) createMappingCall_def using p(1-3)
    by (intro exI [of _ json] exI [of _ ob] exI [of _ isurl] exI [of _ ss]) simp
qed

text \<open>Documents for the examples.\<close>

definition quoted :: "string \<Rightarrow> string" where
  "quoted s = [CHR 0x22] @ s @ [CHR 0x22]"

definition sample_mapping :: string where
  "sample_mapping = ''{'' @ quoted ''num_petition'' @ '':1,'' @ quoted ''result'' @ '':'' @ quoted ''combined'' @
     '','' @ quoted ''trigger'' @ '':'' @ quoted ''sms'' @ '','' @ quoted ''payload'' @ '':{'' @ quoted ''type'' @ '':'' @
     quoted ''separate_data'' @ '','' @ quoted ''payloads'' @ '':['' @ quoted ''x'' @ '']}}''"

definition sample_single :: string where
  "sample_single = ''{'' @ quoted ''num_petition'' @ '':1,'' @ quoted ''payload'' @ '':{'' @ quoted ''type'' @ '':'' @
     quoted ''single_data'' @ '','' @ quoted ''data'' @ '':'' @ quoted ''x'' @ ''}}''"

lemmas wrapper_eval = NewObjectFromReader_def NewValueFromReader_def objectFromValue_def as_Object_def
  GetInt64_def GetObject_def GetString_def GetStringArray_def at_path_def getPath_json_at strict_def Int64_def
  Number_def as_String_def typed_array_def Array_def result_def ParseInt_def ParseUint_def char_digit_def Let_def

lemma sample_mapping_decode:
  "json_decode sample_mapping = Some (JObject [(''num_petition'', JNumber ''1''), (''result'', JString ''combined''),
     (''trigger'', JString ''sms''), (''payload'', JObject [(''type'', JString ''separate_data''),
        (''payloads'', JArray [JString ''x''])])])"
  by code_simp

lemma sample_single_decode:
  "json_decode sample_single = Some (JObject [(''num_petition'', JNumber ''1''),
     (''payload'', JObject [(''type'', JString ''single_data''), (''data'', JString ''x'')])])"
  by code_simp

text \<open>
  A document that asks for one shared payload, with a valid URL or with non-empty data, never
  produces a call: \<open>getPayload\<close> assigns to the fields of a nil pointer and panics.
\<close>

lemma single_payload_panics:
  assumes "NewObjectFromReader content = Inr json" and "GetInt64 json [''num_petition''] = (n, None)"
    and "GetObject json [''payload''] = Inr ob"
    and "GetString ob [''type''] = (''single_file'', None) \<and> GetString ob [''url''] = (u, None) \<and> url_ok u \<or>
         GetString ob [''type''] = (''single_data'', None) \<and> GetString ob [''data''] = (u, None) \<and> u \<noteq> []"
  shows "ParseMapping url_ok content = Panic Nil_Deref"
  using assms by (auto simp: ParseMapping_def getPayload_def)

end
