(* ===== verification/Ws_Conn.thy ===== *)
theory Ws_Conn
  imports Frames
begin

text \<open>
  The websocket connection that package \<open>ws\<close> writes to and reads from,
  \<open>github.com/gorilla/websocket/conn.go\<close> as it is kept in the repository: this theory holds the
  connection and its writing half, \<open>Ws_Read\<close> the reading half.

  A \<open>Conn\<close> is the record of its fields and of what surrounds it: the bytes the peer has been
  sent, scripts of what the next writes to the socket do, of the numbers that \<open>rand.Uint32\<close>
  yields and of whether a control message obtains the write mutex before its deadline (an empty
  script means that all goes well), and the pieces in which the buffered reader delivers input.
\<close>

unbundle bit_operations_syntax

section \<open>Constants and errors\<close>

definition maxFrameHeaderSize :: nat where "maxFrameHeaderSize = 14"
definition maxControlFramePayloadSize :: nat where "maxControlFramePayloadSize = 125"
definition finalBit :: byte where "finalBit = 128"
definition maskBit :: byte where "maskBit = 128"
definition defaultWriteBufferSize :: nat where "defaultWriteBufferSize = 4096"
definition continuationFrame :: int where "continuationFrame = 0"
definition noFrame :: int where "noFrame = - 1"

definition CloseProtocolError :: int where "CloseProtocolError = 1002"
definition CloseNoStatusReceived :: int where "CloseNoStatusReceived = 1005"
definition CloseAbnormalClosure :: int where "CloseAbnormalClosure = 1006"
definition CloseMessageTooBig :: int where "CloseMessageTooBig = 1009"

definition TextMessage :: int where "TextMessage = 1"
definition BinaryMessage :: int where "BinaryMessage = 2"
definition CloseMessage :: int where "CloseMessage = 8"
definition PingMessage :: int where "PingMessage = 9"
definition PongMessage :: int where "PongMessage = 10"

lemmas ws_consts = maxFrameHeaderSize_def maxControlFramePayloadSize_def finalBit_def maskBit_def
  continuationFrame_def noFrame_def TextMessage_def BinaryMessage_def CloseMessage_def PingMessage_def PongMessage_def

datatype ws_err =
    EOF
  | netError string bool bool
  | CloseError int string
  | ErrCloseSent
  | ErrReadLimit
  | errBadWriteOpCode
  | errWriteClosed
  | errInvalidControlFrame
  | Err_Text string

definition errWriteTimeout :: ws_err where
  "errWriteTimeout = netError ''websocket: write timeout'' True True"

definition errUnexpectedEOF :: ws_err where
  "errUnexpectedEOF = CloseError CloseAbnormalClosure ''unexpected EOF''"

definition CloseError_Error :: "int \<Rightarrow> string \<Rightarrow> string" where
  "CloseError_Error code text = ''websocket: close '' @ Itoa code @ '' '' @ text"

definition hideTempErr :: "ws_err \<Rightarrow> ws_err" where
  "hideTempErr err = (case err of
      netError msg temporary timeout \<Rightarrow> if temporary then netError msg False timeout else err
    | _ \<Rightarrow> err)"

definition isControl :: "int \<Rightarrow> bool" where
  "isControl frameType \<longleftrightarrow> frameType = CloseMessage \<or> frameType = PingMessage \<or> frameType = PongMessage"

definition isData :: "int \<Rightarrow> bool" where
  "isData frameType \<longleftrightarrow> frameType = TextMessage \<or> frameType = BinaryMessage"

section \<open>The connection\<close>

record Conn =
  isServer :: bool
  closeSent :: bool
  writeErr :: "ws_err option"
  writeBuf :: "byte list"
  writePos :: nat
  writeFrameType :: int
  writeSeq :: nat
  readErr :: "ws_err option"
  br :: "byte list list"
  readRemaining :: int
  readFinal :: bool
  readSeq :: nat
  readLength :: int
  readLimit :: int
  readMaskPos :: nat
  readMaskKey :: "byte list"
  handlePong :: "string \<Rightarrow> ws_err option"
  handlePing :: "(string \<Rightarrow> ws_err option) option"
  sent :: "byte list"
  net_closed :: bool
  write_script :: "(nat \<times> ws_err) option list"
  mu_granted :: "bool list"
  rand_Uint32 :: "32 word list"
  read_end :: ws_err

text \<open>
  \<open>newConn\<close>; the reader's buffer size only limits the length of the pieces, and the default ping
  handler, which answers with a pong, is \<open>None\<close>.
\<close>

definition newConn :: "bool \<Rightarrow> nat \<Rightarrow> byte list list \<Rightarrow> ws_err \<Rightarrow> 32 word list \<Rightarrow> Conn" where
  "newConn server writeBufferSize input input_end rands =
     \<lparr>isServer = server, closeSent = False, writeErr = None,
      writeBuf = replicate ((if writeBufferSize = 0 then defaultWriteBufferSize else writeBufferSize) + maxFrameHeaderSize) 0,
      writePos = maxFrameHeaderSize, writeFrameType = noFrame, writeSeq = 0,
      readErr = None, br = input, readRemaining = 0, readFinal = True, readSeq = 0, readLength = 0, readLimit = 0,
      readMaskPos = 0, readMaskKey = [0, 0, 0, 0], handlePong = (\<lambda>_. None), handlePing = None,
      sent = [], net_closed = False, write_script = [], mu_granted = [], rand_Uint32 = rands, read_end = input_end\<rparr>"

definition ws_Close :: "Conn \<Rightarrow> Conn" where
  "ws_Close c = c\<lparr>net_closed := True\<rparr>"

definition SetReadLimit :: "int \<Rightarrow> Conn \<Rightarrow> Conn" where
  "SetReadLimit limit c = c\<lparr>readLimit := limit\<rparr>"

definition SetPongHandler :: "(string \<Rightarrow> ws_err option) option \<Rightarrow> Conn \<Rightarrow> Conn" where
  "SetPongHandler h c = c\<lparr>handlePong := (case h of None \<Rightarrow> \<lambda>_. None | Some f \<Rightarrow> f)\<rparr>"

definition SetPingHandler :: "(string \<Rightarrow> ws_err option) option \<Rightarrow> Conn \<Rightarrow> Conn" where
  "SetPingHandler h c = c\<lparr>handlePing := h\<rparr>"

section \<open>Writing to the socket\<close>

text \<open>A write that fails has sent a prefix; a closed socket takes nothing.\<close>

definition net_Write :: "byte list \<Rightarrow> Conn \<Rightarrow> nat \<times> ws_err option \<times> Conn" where
  "net_Write buf c =
     (if net_closed c then (0, Some (netError ''use of closed network connection'' False False), c)
      else (case write_script c of
        Some (n, e) # ws \<Rightarrow>
          let k = min n (length buf) in (k, Some e, c\<lparr>sent := sent c @ take k buf, write_script := ws\<rparr>)
      | ws \<Rightarrow> (length buf, None, c\<lparr>sent := sent c @ buf, write_script := tl ws\<rparr>)))"

definition newMaskKey :: "Conn \<Rightarrow> byte list \<times> Conn" where
  "newMaskKey c =
     (let n = (case rand_Uint32 c of [] \<Rightarrow> 0 | r # _ \<Rightarrow> r) in
      (le32 n, c\<lparr>rand_Uint32 := tl (rand_Uint32 c)\<rparr>))"

fun maskBytes :: "byte list \<Rightarrow> nat \<Rightarrow> byte list \<Rightarrow> byte list \<times> nat" where
  "maskBytes key pos [] = ([], pos mod 4)"
| "maskBytes key pos (b # bs) =
     (let (bs', pos') = maskBytes key (Suc pos) bs in ((b XOR key ! (pos mod 4)) # bs', pos'))"

fun write_bufs :: "byte list list \<Rightarrow> Conn \<Rightarrow> ws_err option \<times> Conn" where
  "write_bufs [] c = (None, c)"
| "write_bufs (buf # bufs) c =
     (if length buf > 0 then
        let (n, err, c1) = net_Write buf c;
            c2 = (if n \<noteq> length buf then ws_Close c1 else c1)
        in if err \<noteq> None then (err, c2) else write_bufs bufs c2
      else write_bufs bufs c)"

definition conn_write :: "int \<Rightarrow> byte list list \<Rightarrow> Conn \<Rightarrow> ws_err option \<times> Conn" where
  "conn_write frameType bufs c =
     (if closeSent c then (Some ErrCloseSent, c)
      else write_bufs bufs (if frameType = CloseMessage then c\<lparr>closeSent := True\<rparr> else c))"

section \<open>Control messages\<close>

definition control_frame :: "int \<Rightarrow> byte list \<Rightarrow> Conn \<Rightarrow> byte list \<times> Conn" where
  "control_frame messageType dat c =
     (let b0 = word_of_int messageType OR finalBit;
          b1 = word_of_nat (length dat) OR (if isServer c then 0 else maskBit)
      in if isServer c then ([b0, b1] @ dat, c)
         else let (key, c') = newMaskKey c in ([b0, b1] @ key @ fst (maskBytes key 0 dat), c'))"

definition send_control :: "int \<Rightarrow> byte list \<Rightarrow> Conn \<Rightarrow> ws_err option \<times> Conn" where
  "send_control messageType buf c1 =
     (let granted = (case mu_granted c1 of [] \<Rightarrow> True | g # _ \<Rightarrow> g);
          c = c1\<lparr>mu_granted := tl (mu_granted c1)\<rparr>
      in if \<not> granted then (Some errWriteTimeout, c)
         else if closeSent c then (Some ErrCloseSent, c)
         else
           let (n, err, c2) = net_Write buf (c\<lparr>closeSent := (messageType = CloseMessage)\<rparr>)
           in (map_option hideTempErr err, if n \<noteq> 0 \<and> n \<noteq> length buf then ws_Close c2 else c2))"

definition WriteControl :: "int \<Rightarrow> byte list \<Rightarrow> Conn \<Rightarrow> ws_err option \<times> Conn" where
  "WriteControl messageType dat c =
     (if \<not> isControl messageType then (Some errBadWriteOpCode, c)
      else if length dat > maxControlFramePayloadSize then (Some errInvalidControlFrame, c)
      else let (buf, c1) = control_frame messageType dat c in send_control messageType buf c1)"

definition FormatCloseMessage :: "int \<Rightarrow> string \<Rightarrow> byte list" where
  "FormatCloseMessage closeCode text = be16 (word_of_int closeCode) @ bytes_of_string text"

section \<open>Frames\<close>

definition be64 :: "64 word \<Rightarrow> byte list" where
  "be64 w = [ucast (drop_bit 56 w), ucast (drop_bit 48 w), ucast (drop_bit 40 w), ucast (drop_bit 32 w),
     ucast (drop_bit 24 w), ucast (drop_bit 16 w), ucast (drop_bit 8 w), ucast w]"

definition frame_layout :: "bool \<Rightarrow> byte \<Rightarrow> byte \<Rightarrow> nat \<Rightarrow> nat \<times> byte list" where
  "frame_layout server b0 b1 len =
     (let framePos = (if server then 4 else 0) in
      if len \<ge> 65536 then (framePos, [b0, b1 OR 127] @ be64 (word_of_nat len))
      else if len > 125 then (framePos + 6, [b0, b1 OR 126] @ be16 (word_of_nat len))
      else (framePos + 8, [b0, b1 OR word_of_nat len]))"

definition flushFrame :: "bool \<Rightarrow> byte list \<Rightarrow> Conn \<Rightarrow> ws_err option \<times> Conn" where
  "flushFrame final extra c =
     (let len = writePos c - maxFrameHeaderSize + length extra in
      if isControl (writeFrameType c) \<and> (\<not> final \<or> len > maxControlFramePayloadSize) then
        (Some errInvalidControlFrame,
         c\<lparr>writeSeq := Suc (writeSeq c), writeFrameType := noFrame, writePos := maxFrameHeaderSize\<rparr>)
      else
        let b0 = word_of_int (writeFrameType c) OR (if final then finalBit else 0);
            b1 = (if isServer c then 0 else maskBit);
            (framePos, header) = frame_layout (isServer c) b0 b1 len;
            buf = overlay (writeBuf c) framePos header;
            (buf', c1) =
              (if isServer c then (buf, c)
               else let (key, c') = newMaskKey c;
                        buf' = overlay buf (maxFrameHeaderSize - 4) key
                    in (overlay buf' maxFrameHeaderSize (fst (maskBytes key 0 (drop maxFrameHeaderSize (take (writePos c) buf')))), c'))
        in if \<not> isServer c \<and> length extra > 0 then
             let e = Some (Err_Text ''websocket: internal error, extra used in client mode'')
             in (e, c1\<lparr>writeBuf := buf', writeErr := e\<rparr>)
           else
             let (err, c2) = conn_write (writeFrameType c) [drop framePos (take (writePos c) buf'), extra] (c1\<lparr>writeBuf := buf'\<rparr>)
             in (err, c2\<lparr>writeErr := err, writePos := maxFrameHeaderSize,
                     writeSeq := (if final then Suc (writeSeq c2) else writeSeq c2),
                     writeFrameType := (if final then noFrame else continuationFrame)\<rparr>))"

section \<open>Message writers\<close>

text \<open>A \<open>messageWriter\<close> is the sequence number at which it was made.\<close>

definition NextWriter :: "int \<Rightarrow> Conn \<Rightarrow> (ws_err + nat) \<times> Conn" where
  "NextWriter messageType c =
     (case writeErr c of
        Some e \<Rightarrow> (Inl e, c)
      | None \<Rightarrow>
          let (err, c1) = (if writeFrameType c \<noteq> noFrame then flushFrame True [] c else (None, c))
          in case err of
               Some e \<Rightarrow> (Inl e, c1)
             | None \<Rightarrow>
                 if \<not> isControl messageType \<and> \<not> isData messageType then (Inl errBadWriteOpCode, c1)
                 else (Inr (writeSeq c1), c1\<lparr>writeFrameType := messageType\<rparr>))"

definition mw_err :: "nat \<Rightarrow> Conn \<Rightarrow> ws_err option" where
  "mw_err sq c = (if writeSeq c \<noteq> sq then Some errWriteClosed else writeErr c)"

definition ncopy :: "nat \<Rightarrow> Conn \<Rightarrow> (ws_err + nat) \<times> Conn" where
  "ncopy max_n c =
     (if length (writeBuf c) \<le> writePos c then
        (case flushFrame False [] c of
           (Some e, c1) \<Rightarrow> (Inl e, c1)
         | (None, c1) \<Rightarrow> (Inr (min (length (writeBuf c1) - writePos c1) max_n), c1))
      else (Inr (min (length (writeBuf c) - writePos c) max_n), c))"

text \<open>The copying loop; without room in the buffer it would turn for ever.\<close>

function copy_loop :: "byte list \<Rightarrow> Conn \<Rightarrow> (ws_err option \<times> Conn) go" where
  "copy_loop p c =
     (if p = [] then Ret (None, c)
      else (case ncopy (length p) c of
        (Inl e, c1) \<Rightarrow> Ret (Some e, c1)
      | (Inr n, c1) \<Rightarrow>
          if n = 0 then Hang
          else copy_loop (drop n p) (c1\<lparr>writeBuf := overlay (writeBuf c1) (writePos c1) (take n p), writePos := writePos c1 + n\<rparr>)))"
  by pat_completeness auto
termination
  by (relation "measure (length \<circ> fst)") auto

declare copy_loop.simps [simp del]

definition mw_write :: "nat \<Rightarrow> bool \<Rightarrow> byte list \<Rightarrow> Conn \<Rightarrow> (nat \<times> ws_err option \<times> Conn) go" where
  "mw_write sq final p c =
     (case mw_err sq c of
        Some e \<Rightarrow> Ret (0, Some e, c)
      | None \<Rightarrow>
          if length p > 2 * length (writeBuf c) \<and> isServer c then
            (case flushFrame final p c of
               (Some e, c1) \<Rightarrow> Ret (0, Some e, c1)
             | (None, c1) \<Rightarrow> Ret (length p, None, c1))
          else go_bind (copy_loop p c) (\<lambda>(err, c1). Ret (if err \<noteq> None then 0 else length p, err, c1)))"

definition mw_Write :: "nat \<Rightarrow> byte list \<Rightarrow> Conn \<Rightarrow> (nat \<times> ws_err option \<times> Conn) go" where
  "mw_Write sq p c = mw_write sq False p c"

definition mw_WriteString :: "nat \<Rightarrow> string \<Rightarrow> Conn \<Rightarrow> (nat \<times> ws_err option \<times> Conn) go" where
  "mw_WriteString sq p c =
     (case mw_err sq c of
        Some e \<Rightarrow> Ret (0, Some e, c)
      | None \<Rightarrow> go_bind (copy_loop (bytes_of_string p) c) (\<lambda>(err, c1). Ret (if err \<noteq> None then 0 else length p, err, c1)))"

definition mw_Close :: "nat \<Rightarrow> Conn \<Rightarrow> ws_err option \<times> Conn" where
  "mw_Close sq c = (case mw_err sq c of Some e \<Rightarrow> (Some e, c) | None \<Rightarrow> flushFrame True [] c)"

definition WriteMessage :: "int \<Rightarrow> byte list \<Rightarrow> Conn \<Rightarrow> (ws_err option \<times> Conn) go" where
  "WriteMessage messageType dat c =
     (case NextWriter messageType c of
        (Inl e, c1) \<Rightarrow> Ret (Some e, c1)
      | (Inr sq, c1) \<Rightarrow>
          go_bind (mw_write sq True dat c1) (\<lambda>(_, err, c2).
            if err \<noteq> None then Ret (err, c2)
            else if writeSeq c2 = sq then Ret (flushFrame True [] c2)
            else Ret (None, c2)))"

section \<open>The wire format\<close>

text \<open>
  A frame as RFC 6455 lays it out: the first byte with the final bit and the type, the length in one,
  three or nine bytes with the mask bit, the key, and the payload under the key.
\<close>

definition ws_mask :: "byte list \<Rightarrow> nat \<Rightarrow> byte list \<Rightarrow> byte list" where
  "ws_mask key pos bs = map2 (\<lambda>i b. b XOR key ! (i mod 4)) [pos..<pos + length bs] bs"

definition ws_frame :: "bool \<Rightarrow> int \<Rightarrow> byte list option \<Rightarrow> byte list \<Rightarrow> byte list" where
  "ws_frame fin ty key payload =
     (let n = length payload; m = (if key = None then 0 else 128) in
      [word_of_int ty OR (if fin then 128 else 0)] @
      (if n \<le> 125 then [m OR word_of_nat n]
       else if n < 65536 then (m OR 126) # be16 (word_of_nat n)
       else (m OR 127) # be64 (word_of_nat n)) @
      (case key of None \<Rightarrow> payload | Some k \<Rightarrow> k @ ws_mask k 0 payload))"

lemma length_mask [simp]: "length (ws_mask key pos bs) = length bs"
  by (simp add: ws_mask_def)

lemma mask_simps [simp]: "ws_mask key pos [] = []"
  "ws_mask key pos (b # bs) = (b XOR key ! (pos mod 4)) # ws_mask key (Suc pos) bs"
  by (simp_all add: ws_mask_def upt_conv_Cons del: upt_Suc)

lemma maskBytes_eq: "maskBytes key pos bs = (ws_mask key pos bs, (pos + length bs) mod 4)"
  by (induction bs arbitrary: pos) (simp_all add: Let_def)

lemma mask_mod: "ws_mask key (pos mod 4) bs = ws_mask key pos bs"
proof (induction bs arbitrary: pos)
  case (Cons b bs)
  have "ws_mask key (Suc (pos mod 4)) bs = ws_mask key (Suc pos) bs"
    using Cons [of "Suc pos"] Cons [of "Suc (pos mod 4)"] by (metis mod_Suc_eq)
  then show ?case by simp
qed simp

lemma mask_append: "ws_mask key pos (xs @ ys) = ws_mask key pos xs @ ws_mask key (pos + length xs) ys"
  by (induction xs arbitrary: pos) simp_all

lemma mask_mask [simp]: "ws_mask key pos (ws_mask key pos bs) = bs"
  by (induction bs arbitrary: pos) (simp_all add: xor.assoc)

lemma take_mask: "take n (ws_mask key pos bs) = ws_mask key pos (take n bs)"
  by (induction bs arbitrary: n pos) (simp_all add: take_Cons split: nat.splits)

lemma length_be64 [simp]: "length (be64 w) = 8"
  by (simp add: be64_def)

section \<open>What a flush sends\<close>

text \<open>The payload collected in the buffer, and a writer in working order.\<close>

definition buffered :: "Conn \<Rightarrow> byte list" where
  "buffered c = drop 14 (take (writePos c) (writeBuf c))"

definition writer_ok :: "Conn \<Rightarrow> bool" where
  "writer_ok c \<longleftrightarrow> 14 < length (writeBuf c) \<and> 14 \<le> writePos c \<and> writePos c \<le> length (writeBuf c) \<and>
     writeErr c = None \<and> \<not> closeSent c \<and> \<not> net_closed c \<and> write_script c = []"

text \<open>The key that the next frame uses: none on the server side.\<close>

definition next_key :: "Conn \<Rightarrow> byte list option" where
  "next_key c = (if isServer c then None else Some (le32 (case rand_Uint32 c of [] \<Rightarrow> 0 | r # _ \<Rightarrow> r)))"

lemma overlay_window:
  assumes "i + length h = j" and "j \<le> p" and "p \<le> length buf"
  shows "drop i (take p (overlay buf i h)) = h @ drop j (take p buf)" and "length (overlay buf i h) = length buf"
    and "drop j (take p (overlay buf i h)) = drop j (take p buf)"
  using assms by (auto simp: overlay_def drop_take take_append)

lemma conn_write_ok:
  assumes "\<not> closeSent c" and "\<not> net_closed c" and "write_script c = []"
  shows "conn_write ty bufs c = (None, c\<lparr>sent := sent c @ concat bufs, closeSent := (ty = CloseMessage)\<rparr>)"
proof -
  have "write_bufs bufs d = (None, d\<lparr>sent := sent d @ concat bufs\<rparr>)" if "\<not> net_closed d" "write_script d = []" for d
    using that by (induction bufs arbitrary: d) (auto simp: net_Write_def Let_def)
  then show ?thesis using assms by (auto simp: conn_write_def)
qed

lemma overlay_three:
  assumes "i + length h = 10" and "length key = 4" and "14 + length pl = p" and "p \<le> length buf"
  shows "drop i (take p (overlay (overlay (overlay buf i h) 10 key) 14 pl)) = h @ key @ pl"
    and "length (overlay (overlay (overlay buf i h) 10 key) 14 pl) = length buf"
  using assms by (auto simp: overlay_def take_append drop_append)

lemma overlay_before:
  assumes "i + length h \<le> j" and "j \<le> p" and "p \<le> length buf"
  shows "drop j (take p (overlay buf i h)) = drop j (take p buf)"
  using assms by (auto simp: overlay_def take_append drop_append drop_take)

lemma writer_okD: "writer_ok c \<Longrightarrow> length (buffered c) = writePos c - 14"
  by (simp add: writer_ok_def buffered_def)

lemma frame_layout_header:
  assumes "frame_layout server b0 b1 n = (i, h)"
  shows "i + length h = (if server then 14 else 10)"
  using assms by (auto simp: frame_layout_def Let_def split: if_splits)

lemma frame_layout_ws_frame:
  assumes "frame_layout server (word_of_int ty OR (if fin then 128 else 0)) (if server then 0 else 128) (length pl) = (i, h)"
    and "server \<longleftrightarrow> key = None"
  shows "ws_frame fin ty key pl = h @ (case key of None \<Rightarrow> pl | Some k \<Rightarrow> k @ ws_mask k 0 pl)"
  using assms by (auto simp: frame_layout_def ws_frame_def Let_def split: if_splits)

definition flushed :: "bool \<Rightarrow> byte list \<Rightarrow> byte list \<Rightarrow> Conn \<Rightarrow> Conn" where
  "flushed final out buf c = c\<lparr>sent := sent c @ out, closeSent := (writeFrameType c = CloseMessage),
     rand_Uint32 := (if isServer c then rand_Uint32 c else tl (rand_Uint32 c)), writeBuf := buf, writePos := 14,
     writeErr := None, writeSeq := (if final then Suc (writeSeq c) else writeSeq c),
     writeFrameType := (if final then noFrame else continuationFrame)\<rparr>"

lemma flushFrame_ok:
  assumes ok: "writer_ok c" and ctl: "isControl (writeFrameType c) \<Longrightarrow> final \<and> length (buffered c @ extra) \<le> 125"
    and extra: "isServer c \<or> extra = []"
  shows "\<exists>buf. length buf = length (writeBuf c) \<and> flushFrame final extra c =
    (None, flushed final (ws_frame final (writeFrameType c) (next_key c) (buffered c @ extra)) buf c)"
proof -
  let ?n = "length (buffered c @ extra)" and ?ty = "writeFrameType c"
  obtain i h where lay: "frame_layout (isServer c) (word_of_int ?ty OR (if final then 128 else 0)) (if isServer c then 0 else 128) ?n = (i, h)"
    by (cases "frame_layout (isServer c) (word_of_int ?ty OR (if final then 128 else 0)) (if isServer c then 0 else 128) ?n")
  have wp: "writePos c - 14 + length extra = ?n" "14 \<le> writePos c" "writePos c \<le> length (writeBuf c)"
    using ok writer_okD [OF ok] by (simp_all add: writer_ok_def)
  have nc: "\<not> (isControl ?ty \<and> (\<not> final \<or> 125 < ?n))" using ctl by auto
  have st: "\<not> closeSent c" "\<not> net_closed c" "write_script c = []" using ok by (simp_all add: writer_ok_def)
  note i = frame_layout_header [OF lay]
  show ?thesis
  proof (cases "isServer c")
    case True
    let ?buf = "overlay (writeBuf c) i h"
    have out: "drop i (take (writePos c) ?buf) = h @ buffered c" "length ?buf = length (writeBuf c)"
      using overlay_window [of i h 14 "writePos c" "writeBuf c"] wp i True by (simp_all add: buffered_def)
    have "ws_frame final ?ty (next_key c) (buffered c @ extra) = h @ buffered c @ extra"
      using frame_layout_ws_frame [OF lay] True by (simp add: next_key_def)
    moreover have "flushFrame final extra c = (None, flushed final (h @ buffered c @ extra) ?buf c)"
      using lay nc st True out(1) unfolding flushFrame_def Let_def ws_consts(1-4) wp(1)
      by (simp add: conn_write_ok flushed_def)
    ultimately show ?thesis using out(2) by auto
  next
    case False
    let ?key = "le32 (case rand_Uint32 c of [] \<Rightarrow> 0 | r # _ \<Rightarrow> r)"
    let ?buf = "overlay (overlay (writeBuf c) i h) 10 ?key" and ?pl = "ws_mask ?key 0 (buffered c)"
    have inner: "drop 14 (take (writePos c) ?buf) = buffered c"
      using overlay_before [of 10 ?key 14 "writePos c" "overlay (writeBuf c) i h"] overlay_before [of i h 14 "writePos c" "writeBuf c"]
        overlay_window(2) [of i h 10 10 "writeBuf c"] wp i False by (simp add: buffered_def)
    have out: "drop i (take (writePos c) (overlay ?buf 14 ?pl)) = h @ ?key @ ?pl" "length (overlay ?buf 14 ?pl) = length (writeBuf c)"
      using overlay_three [of i h ?key ?pl "writePos c" "writeBuf c"] wp i False writer_okD [OF ok] by simp_all
    have "ws_frame final ?ty (next_key c) (buffered c @ extra) = h @ ?key @ ?pl"
      using frame_layout_ws_frame [OF lay] False extra by (simp add: next_key_def)
    moreover have "flushFrame final extra c = (None, flushed final (h @ ?key @ ?pl) (overlay ?buf 14 ?pl) c)"
      using lay nc st False extra out(1) inner unfolding flushFrame_def Let_def ws_consts(1-4) wp(1)
      by (simp add: conn_write_ok flushed_def newMaskKey_def Let_def maskBytes_eq)
    ultimately show ?thesis using out(2) by auto
  qed
qed

section \<open>Messages on the wire\<close>

text \<open>A message as a sequence of fragments, each with its key: the first carries the type, the last the final bit.\<close>

fun message_frames :: "int \<Rightarrow> (byte list option \<times> byte list) list \<Rightarrow> byte list" where
  "message_frames ty [] = []"
| "message_frames ty ((key, pl) # rest) = ws_frame (rest = []) ty key pl @ message_frames continuationFrame rest"

fun open_frames :: "int \<Rightarrow> (byte list option \<times> byte list) list \<Rightarrow> byte list" where
  "open_frames ty [] = []"
| "open_frames ty ((key, pl) # rest) = ws_frame False ty key pl @ open_frames continuationFrame rest"

definition key_ok :: "bool \<Rightarrow> byte list option \<Rightarrow> bool" where
  "key_ok server key = (case key of None \<Rightarrow> server | Some k \<Rightarrow> \<not> server \<and> length k = 4)"

definition keys_ok :: "bool \<Rightarrow> (byte list option \<times> byte list) list \<Rightarrow> bool" where
  "keys_ok server kps \<longleftrightarrow> (\<forall>kp \<in> set kps. key_ok server (fst kp))"

definition frag_type :: "int \<Rightarrow> (byte list option \<times> byte list) list \<Rightarrow> int" where
  "frag_type ty kps = (if kps = [] then ty else continuationFrame)"

lemma open_frames_close:
  "open_frames ty kps @ ws_frame True (frag_type ty kps) key pl = message_frames ty (kps @ [(key, pl)])"
  by (induction ty kps rule: open_frames.induct) (auto simp: frag_type_def split: if_splits)

lemma keys_ok_simps [simp]: "keys_ok server []" "keys_ok server ((key, pl) # kps) \<longleftrightarrow> key_ok server key \<and> keys_ok server kps"
  "keys_ok server (xs @ ys) \<longleftrightarrow> keys_ok server xs \<and> keys_ok server ys"
  by (auto simp: keys_ok_def)

lemma next_key_ok [simp]: "key_ok (isServer c) (next_key c)"
  by (simp add: key_ok_def next_key_def)

text \<open>A writer in the middle of a data message.\<close>

definition in_message :: "Conn \<Rightarrow> bool" where
  "in_message c \<longleftrightarrow> writer_ok c \<and> \<not> isControl (writeFrameType c)"

definition put_bytes :: "byte list \<Rightarrow> Conn \<Rightarrow> Conn" where
  "put_bytes q c = c\<lparr>writeBuf := overlay (writeBuf c) (writePos c) q, writePos := writePos c + length q\<rparr>"

lemma buffered_put:
  assumes "writer_ok c" and "writePos c + length q \<le> length (writeBuf c)"
  shows "buffered (put_bytes q c) = buffered c @ q" and "writer_ok (put_bytes q c)"
  using assms by (auto simp: buffered_def writer_ok_def put_bytes_def overlay_def take_append drop_append)

lemma put_bytes_simps [simp]:
  "isServer (put_bytes q c) = isServer c" "sent (put_bytes q c) = sent c" "writeSeq (put_bytes q c) = writeSeq c"
  "writeFrameType (put_bytes q c) = writeFrameType c" "length (writeBuf (put_bytes q c)) = max (length (writeBuf c)) (min (length (writeBuf c)) (writePos c) + length q)"
  by (auto simp: put_bytes_def overlay_def)

lemma flushed_simps [simp]:
  "isServer (flushed fin out buf c) = isServer c" "sent (flushed fin out buf c) = sent c @ out"
  "writeSeq (flushed fin out buf c) = (if fin then Suc (writeSeq c) else writeSeq c)"
  "writeFrameType (flushed fin out buf c) = (if fin then noFrame else continuationFrame)"
  "writeBuf (flushed fin out buf c) = buf" "writePos (flushed fin out buf c) = 14" "buffered (flushed fin out buf c) = []"
  by (simp_all add: flushed_def buffered_def)

lemma flushed_ok: "writer_ok c \<Longrightarrow> writeFrameType c \<noteq> CloseMessage \<Longrightarrow> length buf = length (writeBuf c) \<Longrightarrow> writer_ok (flushed fin out buf c)"
  by (simp add: writer_ok_def flushed_def)

lemma flush_open:
  assumes "in_message c"
  shows "\<exists>buf. length buf = length (writeBuf c) \<and> in_message (flushed False (ws_frame False (writeFrameType c) (next_key c) (buffered c)) buf c) \<and>
     flushFrame False [] c = (None, flushed False (ws_frame False (writeFrameType c) (next_key c) (buffered c)) buf c)"
proof -
  have c: "writer_ok c" "\<not> isControl (writeFrameType c)" using assms by (simp_all add: in_message_def)
  then obtain buf where "length buf = length (writeBuf c)"
      "flushFrame False [] c = (None, flushed False (ws_frame False (writeFrameType c) (next_key c) (buffered c)) buf c)"
    using flushFrame_ok [of c False "[]"] by auto
  moreover have "writeFrameType c \<noteq> CloseMessage" "\<not> isControl continuationFrame" using c(2) by (auto simp: isControl_def ws_consts)
  ultimately show ?thesis using flushed_ok [OF c(1)] by (auto simp: in_message_def)
qed

lemma ncopy_ok:
  assumes "in_message c" and "0 < m"
  shows "\<exists>n c1 kps. ncopy m c = (Inr n, c1) \<and> 0 < n \<and> n \<le> m \<and> writePos c1 + n \<le> length (writeBuf c1) \<and> in_message c1 \<and>
     sent c1 = sent c @ open_frames (writeFrameType c) kps \<and> concat (map snd kps) @ buffered c1 = buffered c \<and>
     keys_ok (isServer c) kps \<and> writeFrameType c1 = frag_type (writeFrameType c) kps \<and> isServer c1 = isServer c \<and>
     writeSeq c1 = writeSeq c \<and> length (writeBuf c1) = length (writeBuf c)"
proof (cases "length (writeBuf c) \<le> writePos c")
  case True
  let ?out = "ws_frame False (writeFrameType c) (next_key c) (buffered c)"
  obtain buf where buf: "length buf = length (writeBuf c)" "in_message (flushed False ?out buf c)"
      "flushFrame False [] c = (None, flushed False ?out buf c)"
    using flush_open [OF assms(1)] by blast
  have "14 < length (writeBuf c)" using assms(1) by (simp add: in_message_def writer_ok_def)
  then show ?thesis
    using True buf assms(2)
    by (intro exI [of _ "min (length buf - 14) m"] exI [of _ "flushed False ?out buf c"] exI [of _ "[(next_key c, buffered c)]"])
      (simp add: ncopy_def frag_type_def)
next
  case False
  then show ?thesis
    using assms by (intro exI [of _ "min (length (writeBuf c) - writePos c) m"] exI [of _ c] exI [of _ "[]"])
      (simp add: ncopy_def frag_type_def)
qed

lemma open_frames_append: "open_frames ty (xs @ ys) = open_frames ty xs @ open_frames (frag_type ty xs) ys"
  by (induction ty xs rule: open_frames.induct) (auto simp: frag_type_def)

lemma copy_loop_ok:
  assumes "in_message c"
  shows "\<exists>c' kps. copy_loop p c = Ret (None, c') \<and> in_message c' \<and>
     sent c' = sent c @ open_frames (writeFrameType c) kps \<and> concat (map snd kps) @ buffered c' = buffered c @ p \<and>
     keys_ok (isServer c) kps \<and> writeFrameType c' = frag_type (writeFrameType c) kps \<and> isServer c' = isServer c \<and>
     writeSeq c' = writeSeq c \<and> length (writeBuf c') = length (writeBuf c)"
  using assms
proof (induction "length p" arbitrary: p c rule: less_induct)
  case less
  show ?case
  proof (cases "p = []")
    case True
    then show ?thesis
      using less.prems by (intro exI [of _ c] exI [of _ "[]"]) (simp add: copy_loop.simps frag_type_def)
  next
    case False
    then obtain n c1 ks where n: "ncopy (length p) c = (Inr n, c1)" "0 < n" "n \<le> length p" "writePos c1 + n \<le> length (writeBuf c1)"
        "in_message c1" "sent c1 = sent c @ open_frames (writeFrameType c) ks" "concat (map snd ks) @ buffered c1 = buffered c"
        "keys_ok (isServer c) ks" "writeFrameType c1 = frag_type (writeFrameType c) ks" "isServer c1 = isServer c"
        "writeSeq c1 = writeSeq c" "length (writeBuf c1) = length (writeBuf c)"
      using ncopy_ok [OF less.prems, of "length p"] by (metis length_greater_0_conv)
    let ?c = "put_bytes (take n p) c1"
    have step: "copy_loop p c = copy_loop (drop n p) ?c"
      using n(1-3) False by (subst copy_loop.simps) (simp add: put_bytes_def)
    have c: "in_message ?c" "buffered ?c = buffered c1 @ take n p"
      using buffered_put [of c1 "take n p"] n(3-5) by (simp_all add: in_message_def)
    obtain c' kps where c': "copy_loop (drop n p) ?c = Ret (None, c')" "in_message c'"
        "sent c' = sent ?c @ open_frames (writeFrameType ?c) kps" "concat (map snd kps) @ buffered c' = buffered ?c @ drop n p"
        "keys_ok (isServer ?c) kps" "writeFrameType c' = frag_type (writeFrameType ?c) kps" "isServer c' = isServer ?c"
        "writeSeq c' = writeSeq ?c" "length (writeBuf c') = length (writeBuf ?c)"
      using less.hyps [of "drop n p" ?c] c(1) n(2) False by auto
    then show ?thesis
      using n c(2) unfolding step
      by (intro exI [of _ c'] exI [of _ "ks @ kps"]) (auto simp: open_frames_append frag_type_def min_def)
  qed
qed

text \<open>A writer between two messages.\<close>

definition idle :: "Conn \<Rightarrow> bool" where
  "idle c \<longleftrightarrow> writer_ok c \<and> writeFrameType c = noFrame \<and> writePos c = 14"

lemma flush_final:
  assumes "in_message c" and "isServer c \<or> extra = []"
  shows "\<exists>c'. flushFrame True extra c = (None, c') \<and> idle c' \<and> isServer c' = isServer c \<and> writeSeq c' = Suc (writeSeq c) \<and>
     sent c' = sent c @ ws_frame True (writeFrameType c) (next_key c) (buffered c @ extra)"
proof -
  have c: "writer_ok c" "\<not> isControl (writeFrameType c)" using assms(1) by (simp_all add: in_message_def)
  then obtain buf where buf: "length buf = length (writeBuf c)"
      "flushFrame True extra c = (None, flushed True (ws_frame True (writeFrameType c) (next_key c) (buffered c @ extra)) buf c)"
    using flushFrame_ok [of c True extra] assms(2) by auto
  have "writeFrameType c \<noteq> CloseMessage" using c(2) by (auto simp: isControl_def)
  then show ?thesis using buf flushed_ok [OF c(1)] by (simp add: idle_def)
qed

lemma WriteMessage_ok:
  assumes "idle c" and "isData ty"
  shows "\<exists>c' kps. WriteMessage ty dat c = Ret (None, c') \<and> idle c' \<and> isServer c' = isServer c \<and>
     sent c' = sent c @ message_frames ty kps \<and> kps \<noteq> [] \<and> concat (map snd kps) = dat \<and> keys_ok (isServer c) kps"
proof -
  let ?c = "c\<lparr>writeFrameType := ty\<rparr>"
  have c: "writer_ok ?c" "buffered ?c = []" "mw_err (writeSeq c) ?c = None" "\<not> isControl ty"
    using assms by (auto simp: idle_def writer_ok_def buffered_def mw_err_def isControl_def isData_def ws_consts)
  then have im: "in_message ?c" by (simp add: in_message_def)
  have next_w: "NextWriter ty c = (Inr (writeSeq c), ?c)"
    using assms by (simp add: NextWriter_def idle_def writer_ok_def)
  show ?thesis
  proof (cases "length dat > 2 * length (writeBuf c) \<and> isServer c")
    case True
    obtain c' where "flushFrame True dat ?c = (None, c')" "idle c'" "isServer c' = isServer c" "writeSeq c' = Suc (writeSeq c)"
        "sent c' = sent c @ ws_frame True ty (next_key ?c) dat"
      using flush_final [OF im, of dat] True c(2) by auto
    then show ?thesis
      using True c(3) next_w next_key_ok [of ?c]
      by (intro exI [of _ c'] exI [of _ "[(next_key ?c, dat)]"]) (simp add: WriteMessage_def mw_write_def)
  next
    case False
    obtain c1 kps where c1: "copy_loop dat ?c = Ret (None, c1)" "in_message c1" "sent c1 = sent c @ open_frames ty kps"
        "concat (map snd kps) @ buffered c1 = dat" "keys_ok (isServer c) kps" "writeFrameType c1 = frag_type ty kps"
        "isServer c1 = isServer c" "writeSeq c1 = writeSeq c"
      using copy_loop_ok [OF im, of dat] c(2) by auto
    obtain c' where c': "flushFrame True [] c1 = (None, c')" "idle c'" "isServer c' = isServer c1"
        "sent c' = sent c1 @ ws_frame True (frag_type ty kps) (next_key c1) (buffered c1)"
      using flush_final [OF c1(2), of "[]"] c1(6) by auto
    have "mw_write (writeSeq c) True dat ?c = Ret (length dat, None, c1)"
      using c(3) c1(1) False by (auto simp: mw_write_def)
    then have "WriteMessage ty dat c = Ret (None, c')"
      using next_w c1(8) c'(1) by (simp add: WriteMessage_def)
    then show ?thesis
      using c' c1 open_frames_close [of ty kps "next_key c1" "buffered c1"] next_key_ok [of c1]
      by (intro exI [of _ c'] exI [of _ "kps @ [(next_key c1, buffered c1)]"]) auto
  qed
qed

lemma newConn_idle: "idle (newConn server n input e rands)"
  by (simp add: idle_def newConn_def writer_ok_def ws_consts defaultWriteBufferSize_def)

end
