(* ===== verification/Ws_Read.thy ===== *)
theory Ws_Read
  imports Ws_Conn Framed_Stream
begin

text \<open>
  The reading half of the websocket connection (\<open>github.com/gorilla/websocket/conn.go\<close>): frames are
  parsed by \<open>advanceFrame\<close>, which answers pings and protocol errors itself, and reassembled by the
  message reader.  \<open>ioutil.ReadAll\<close> asks for a positive number of bytes that depends on how many
  it has; the number is an argument.
\<close>

unbundle bit_operations_syntax

section \<open>Reading bytes\<close>

definition br_Read :: "nat \<Rightarrow> Conn \<Rightarrow> byte list \<times> ws_err option \<times> Conn" where
  "br_Read k c =
     (case dropWhile (\<lambda>p. p = []) (br c) of
        [] \<Rightarrow> ([], Some (read_end c), c\<lparr>br := []\<rparr>)
      | p # ps \<Rightarrow> (take k p, None, c\<lparr>br := drop k p # ps\<rparr>))"

text \<open>The number of bytes still to be read, which bounds every loop below.\<close>

definition input_size :: "Conn \<Rightarrow> nat" where
  "input_size c = length (concat (br c))"

lemma concat_dropWhile_empty: "concat (dropWhile (\<lambda>p. p = []) ps) = concat ps"
  by (induction ps) auto

lemma dropWhile_empty_Cons: "dropWhile (\<lambda>p. p = []) ps = q # qs \<Longrightarrow> q \<noteq> [] \<and> concat ps = q @ concat qs"
  by (induction ps) (auto split: if_splits)

lemma br_Read_cases:
  obtains (got) q qs where "br_Read k c = (take k q, None, c\<lparr>br := drop k q # qs\<rparr>)" "q \<noteq> []" "concat (br c) = q @ concat qs"
  | (ended) "br_Read k c = ([], Some (read_end c), c\<lparr>br := []\<rparr>)" "concat (br c) = []"
proof (cases "dropWhile (\<lambda>p. p = []) (br c)")
  case Nil
  then show thesis using ended concat_dropWhile_empty [of "br c"] unfolding br_Read_def Nil by simp
next
  case (Cons q qs)
  then show thesis using got dropWhile_empty_Cons [OF Cons] unfolding br_Read_def Cons by simp
qed

lemma br_Read_progress:
  assumes "br_Read (Suc k) c = (got, None, c')"
  shows "got \<noteq> []" and "input_size c' + length got = input_size c"
  using assms by (cases rule: br_Read_cases [of "Suc k" c]; auto simp: input_size_def)+

lemma br_Read_got: "(got, None, c') = br_Read n c \<Longrightarrow> 0 < n \<Longrightarrow> got \<noteq> []"
  using br_Read_progress(1) [of "n - 1" c got c'] by simp

text \<open>\<open>readFull\<close>, which turns the end of the input into \<open>errUnexpectedEOF\<close>, and \<open>io.CopyN\<close> to nowhere.\<close>

function read_n :: "nat \<Rightarrow> Conn \<Rightarrow> ws_err option \<times> byte list \<times> Conn" where
  "read_n n c =
     (if n = 0 then (None, [], c)
      else (case br_Read n c of
        (_, Some e, c') \<Rightarrow> (Some e, [], c')
      | (got, None, c') \<Rightarrow> (case read_n (n - length got) c' of (err, rest, c'') \<Rightarrow> (err, got @ rest, c''))))"
  by pat_completeness auto
termination
  by (relation "measure fst") (auto dest: br_Read_got)

declare read_n.simps [simp del]

text \<open>A reading step fails with an error or yields a value, and moves the connection on in either case.\<close>

definition rd_bind :: "(Conn \<Rightarrow> (ws_err + 'a) \<times> Conn) \<Rightarrow> ('a \<Rightarrow> Conn \<Rightarrow> (ws_err + 'b) \<times> Conn) \<Rightarrow> Conn \<Rightarrow> (ws_err + 'b) \<times> Conn" where
  "rd_bind m f c = (case m c of (Inl e, c') \<Rightarrow> (Inl e, c') | (Inr x, c') \<Rightarrow> f x c')"

definition readFull :: "nat \<Rightarrow> Conn \<Rightarrow> (ws_err + byte list) \<times> Conn" where
  "readFull n c =
     (case read_n n c of
        (Some e, got, c') \<Rightarrow> (Inl (if e = EOF then errUnexpectedEOF else e), c')
      | (None, got, c') \<Rightarrow> (Inr got, c'))"

definition skip_rest :: "Conn \<Rightarrow> (ws_err + unit) \<times> Conn" where
  "skip_rest c =
     (if readRemaining c > 0 then
        (case read_n (nat (readRemaining c)) c of
           (Some e, _, c') \<Rightarrow> (Inl e, c')
         | (None, _, c') \<Rightarrow> (Inr (), c'))
      else (Inr (), c))"

section \<open>Parsing a frame\<close>

definition handleProtocolError :: "string \<Rightarrow> Conn \<Rightarrow> (ws_err + 'a) \<times> Conn" where
  "handleProtocolError msg c =
     (Inl (Err_Text (''websocket: '' @ msg)), snd (WriteControl CloseMessage (FormatCloseMessage CloseProtocolError msg) c))"

definition check_header :: "bool \<Rightarrow> int \<Rightarrow> int \<Rightarrow> Conn \<Rightarrow> (ws_err + unit) \<times> Conn" where
  "check_header final frameType reserved c =
     (if reserved \<noteq> 0 then handleProtocolError (''unexpected reserved bits '' @ Itoa reserved) c
      else if isControl frameType then
        (if readRemaining c > int maxControlFramePayloadSize then handleProtocolError ''control frame length > 125'' c
         else if \<not> final then handleProtocolError ''control frame not final'' c
         else (Inr (), c))
      else if isData frameType then
        (if \<not> readFinal c then handleProtocolError ''message start before final message frame'' c
         else (Inr (), c\<lparr>readFinal := final\<rparr>))
      else if frameType = continuationFrame then
        (if readFinal c then handleProtocolError ''continuation after final message frame'' c
         else (Inr (), c\<lparr>readFinal := final\<rparr>))
      else handleProtocolError (''unknown opcode '' @ Itoa frameType) c)"

definition be_read :: "byte list \<Rightarrow> 'a::len word" where
  "be_read bs = foldl (\<lambda>w b. push_bit 8 w OR ucast b) 0 bs"

definition read_length :: "Conn \<Rightarrow> (ws_err + unit) \<times> Conn" where
  "read_length c =
     (if readRemaining c = 126 then
        rd_bind (readFull 2) (\<lambda>b c. (Inr (), c\<lparr>readRemaining := uint (be_read b :: 16 word)\<rparr>)) c
      else if readRemaining c = 127 then
        rd_bind (readFull 8) (\<lambda>b c. (Inr (), c\<lparr>readRemaining := sint (be_read b :: 64 word)\<rparr>)) c
      else (Inr (), c))"

definition read_mask :: "bool \<Rightarrow> Conn \<Rightarrow> (ws_err + unit) \<times> Conn" where
  "read_mask masked c =
     (if masked \<noteq> isServer c then handleProtocolError ''incorrect mask flag'' c
      else if masked then rd_bind (readFull 4) (\<lambda>key c. (Inr (), c\<lparr>readMaskKey := key\<rparr>)) (c\<lparr>readMaskPos := 0\<rparr>)
      else (Inr (), c))"

definition data_frame :: "int \<Rightarrow> Conn \<Rightarrow> (ws_err + int) \<times> Conn" where
  "data_frame frameType c0 =
     (let c = c0\<lparr>readLength := wrap64 (readLength c0 + readRemaining c0)\<rparr> in
      if readLimit c > 0 \<and> readLength c > readLimit c
      then (Inl ErrReadLimit, snd (WriteControl CloseMessage (FormatCloseMessage CloseMessageTooBig []) c))
      else (Inr frameType, c))"

definition default_ping :: "string \<Rightarrow> Conn \<Rightarrow> ws_err option \<times> Conn" where
  "default_ping msg c =
     (let (err, c') = WriteControl PongMessage (bytes_of_string msg) c in
      (case err of
         Some ErrCloseSent \<Rightarrow> None
       | Some (netError _ temporary _) \<Rightarrow> if temporary then None else err
       | _ \<Rightarrow> err, c'))"

definition control_payload :: "Conn \<Rightarrow> (ws_err + byte list) \<times> Conn" where
  "control_payload c =
     (if readRemaining c > 0 then
        rd_bind (readFull (nat (readRemaining c)))
          (\<lambda>payload c. (Inr (if isServer c then fst (maskBytes (readMaskKey c) 0 payload) else payload), c)) (c\<lparr>readRemaining := 0\<rparr>)
      else (Inr [], c))"

definition process_control :: "int \<Rightarrow> byte list \<Rightarrow> Conn \<Rightarrow> (ws_err + int) \<times> Conn" where
  "process_control frameType payload c =
     (if frameType = PongMessage then
        (case handlePong c (string_of_bytes payload) of Some e \<Rightarrow> (Inl e, c) | None \<Rightarrow> (Inr frameType, c))
      else if frameType = PingMessage then
        (case (case handlePing c of None \<Rightarrow> default_ping (string_of_bytes payload) c | Some h \<Rightarrow> (h (string_of_bytes payload), c)) of
           (Some e, c') \<Rightarrow> (Inl e, c')
         | (None, c') \<Rightarrow> (Inr frameType, c'))
      else if frameType = CloseMessage then
        (Inl (if length payload \<ge> 2
              then CloseError (uint (be_read (take 2 payload) :: 16 word)) (string_of_bytes (drop 2 payload))
              else CloseError CloseNoStatusReceived []),
         snd (WriteControl CloseMessage [] c))
      else (Inr frameType, c))"

definition advanceFrame :: "Conn \<Rightarrow> (ws_err + int) \<times> Conn" where
  "advanceFrame =
     rd_bind skip_rest (\<lambda>_.
     rd_bind (readFull 2) (\<lambda>b.
       let final = (b ! 0 AND finalBit \<noteq> 0);
           frameType = uint (b ! 0 AND 15);
           reserved = uint (drop_bit 4 (b ! 0) AND 7);
           masked = (b ! 1 AND maskBit \<noteq> 0)
       in rd_bind (\<lambda>c. check_header final frameType reserved (c\<lparr>readRemaining := uint (b ! 1 AND 127)\<rparr>)) (\<lambda>_.
          rd_bind read_length (\<lambda>_.
          rd_bind (read_mask masked) (\<lambda>_.
          if frameType = continuationFrame \<or> isData frameType then data_frame frameType
          else rd_bind control_payload (process_control frameType))))))"

section \<open>Every step uses up input\<close>

definition keeps :: "(Conn \<Rightarrow> 'a \<times> Conn) \<Rightarrow> bool" where
  "keeps m \<longleftrightarrow> (\<forall>c. input_size (snd (m c)) \<le> input_size c)"

lemma read_n_size: "case read_n n c of (err, got, c') \<Rightarrow> input_size c' + (if err = None then n else 0) \<le> input_size c \<and> (err = None \<longrightarrow> length got = n)"
proof (induction n c rule: read_n.induct)
  case (1 n c)
  show ?case
  proof (cases "n = 0")
    case False
    show ?thesis
    proof (cases rule: br_Read_cases [of n c])
      case (got q qs)
      have "length (take n q) \<le> n" by simp
      then show ?thesis
        using "1" [OF False got(1) [symmetric] refl refl] got False
        by (subst read_n.simps) (auto simp: input_size_def split: prod.splits if_splits)
    next
      case ended
      then show ?thesis by (subst read_n.simps) (simp add: input_size_def)
    qed
  qed (simp add: read_n.simps)
qed

lemma keepsD: "keeps m \<Longrightarrow> input_size (snd (m c)) \<le> input_size c"
  by (simp add: keeps_def)

lemma net_Write_br: "net_Write buf c = (n, err, c') \<Longrightarrow> br c' = br c"
  by (auto simp: net_Write_def Let_def split: list.splits option.splits if_splits)

lemma br_WriteControl [simp]: "br (snd (WriteControl ty d c)) = br c"
proof -
  have "br (snd (send_control ty buf c')) = br c'" for buf c'
    by (auto simp: send_control_def ws_Close_def Let_def dest: net_Write_br split: prod.splits)
  then show ?thesis
    by (auto simp: WriteControl_def control_frame_def newMaskKey_def Let_def split: prod.splits)
qed

lemma size_WriteControl [simp]: "input_size (snd (WriteControl ty d c)) = input_size c"
  by (simp add: input_size_def)

lemma read_n_keeps: "read_n n c = (err, got, c') \<Longrightarrow> input_size c' \<le> input_size c"
  using read_n_size [of n c] by simp

lemma read_n_took: "read_n n c = (None, got, c') \<Longrightarrow> input_size c' + n \<le> input_size c \<and> length got = n"
  using read_n_size [of n c] by simp

lemma keepsI: "(\<And>c. input_size (snd (m c)) \<le> input_size c) \<Longrightarrow> keeps m"
  by (simp add: keeps_def)

lemma keeps_readFull [simp]: "keeps (readFull n)"
proof (rule keepsI)
  fix c
  obtain err got c' where "read_n n c = (err, got, c')" by (metis prod_cases3)
  then show "input_size (snd (readFull n c)) \<le> input_size c"
    using read_n_keeps by (cases err) (simp_all add: readFull_def)
qed

lemma keeps_skip_rest [simp]: "keeps skip_rest"
proof (rule keepsI)
  fix c
  obtain err got c' where "read_n (nat (readRemaining c)) c = (err, got, c')" by (metis prod_cases3)
  then show "input_size (snd (skip_rest c)) \<le> input_size c"
    using read_n_keeps by (cases err) (simp_all add: skip_rest_def)
qed

lemma keeps_bind: 
  assumes "input_size (snd (m c)) \<le> k" and "\<And>x c. input_size (snd (f x c)) \<le> input_size c"
  shows "input_size (snd (rd_bind m f c)) \<le> k"
proof (cases "m c")
  case (Pair r c')
  then show ?thesis
    using assms(1) assms(2) [of "projr r" c'] by (cases r) (auto simp: rd_bind_def)
qed

lemma keeps_perr: "input_size (snd (handleProtocolError msg c)) = input_size c"
  by (simp add: handleProtocolError_def)

lemma input_size_upd [simp]:
  "input_size (c\<lparr>readRemaining := r\<rparr>) = input_size c" "input_size (c\<lparr>readFinal := f\<rparr>) = input_size c"
  "input_size (c\<lparr>readMaskKey := k\<rparr>) = input_size c" "input_size (c\<lparr>readMaskPos := p\<rparr>) = input_size c"
  "input_size (c\<lparr>readLength := l\<rparr>) = input_size c" "input_size (c\<lparr>readErr := e\<rparr>) = input_size c"
  "input_size (c\<lparr>readSeq := q\<rparr>) = input_size c"
  by (simp_all add: input_size_def)

lemma keeps_header: "input_size (snd (check_header fin ft res c)) = input_size c"
  by (simp add: check_header_def keeps_perr)

lemma keeps_length: "input_size (snd (read_length c)) \<le> input_size c"
  using keepsD [of "readFull 2" c] keepsD [of "readFull 8" c] by (auto simp: read_length_def intro!: keeps_bind)

lemma keeps_mask: "input_size (snd (read_mask m c)) \<le> input_size c"
  using keepsD [of "readFull 4" "c\<lparr>readMaskPos := 0\<rparr>"] by (auto simp: read_mask_def keeps_perr intro!: keeps_bind)

lemma keeps_data: "input_size (snd (data_frame ft c)) = input_size c"
  by (simp add: data_frame_def Let_def)

lemma keeps_payload: "input_size (snd (control_payload c)) \<le> input_size c"
  using keepsD [of "readFull (nat (readRemaining c))" "c\<lparr>readRemaining := 0\<rparr>"] by (auto simp: control_payload_def intro!: keeps_bind)

lemma keeps_ping: "default_ping msg c = (e, c') \<Longrightarrow> input_size c' = input_size c"
  using size_WriteControl [of PongMessage "bytes_of_string msg" c]
  by (cases "WriteControl PongMessage (bytes_of_string msg) c") (simp add: default_ping_def)

lemma keeps_control: "input_size (snd (process_control ft pl c)) \<le> input_size c"
  by (auto simp: process_control_def dest: keeps_ping split: option.splits prod.splits)

lemma advanceFrame_shrinks:
  assumes "advanceFrame c = (Inr ft, c')"
  shows "input_size c' < input_size c"
proof -
  obtain c1 where c1: "skip_rest c = (Inr (), c1)"
    using assms by (auto simp: advanceFrame_def rd_bind_def split: prod.splits sum.splits)
  then have s1: "input_size c1 \<le> input_size c" using keepsD [OF keeps_skip_rest, of c] by simp
  obtain b c2 where c2: "readFull 2 c1 = (Inr b, c2)"
    using assms c1 by (auto simp: advanceFrame_def rd_bind_def split: prod.splits sum.splits)
  then have s2: "input_size c2 + 2 \<le> input_size c1"
    using read_n_took [of 2 c1] by (auto simp: readFull_def split: prod.splits option.splits)
  let ?f = "\<lambda>b. let final = (b ! 0 AND finalBit \<noteq> 0); frameType = uint (b ! 0 AND 15); reserved = uint (drop_bit 4 (b ! 0) AND 7);
           masked = (b ! 1 AND maskBit \<noteq> 0)
       in rd_bind (\<lambda>c. check_header final frameType reserved (c\<lparr>readRemaining := uint (b ! 1 AND 127)\<rparr>)) (\<lambda>_.
          rd_bind read_length (\<lambda>_.
          rd_bind (read_mask masked) (\<lambda>_.
          if frameType = continuationFrame \<or> isData frameType then data_frame frameType
          else rd_bind control_payload (process_control frameType))))"
  have "input_size (snd (?f b c2)) \<le> input_size c2"
    unfolding Let_def by (intro keeps_bind) (auto simp: keeps_header keeps_length keeps_mask keeps_data keeps_payload keeps_control intro!: keeps_bind)
  moreover have "?f b c2 = (Inr ft, c')"
    using assms c1 c2 by (simp add: advanceFrame_def rd_bind_def)
  ultimately show ?thesis using s1 s2 by simp
qed

section \<open>Messages\<close>

function next_loop :: "Conn \<Rightarrow> (ws_err + int) \<times> Conn" where
  "next_loop c =
     (case readErr c of
        Some e \<Rightarrow> (Inl e, c)
      | None \<Rightarrow>
          (case advanceFrame c of
             (Inl e, c1) \<Rightarrow> (Inl (hideTempErr e), c1\<lparr>readErr := Some (hideTempErr e)\<rparr>)
           | (Inr frameType, c1) \<Rightarrow> if isData frameType then (Inr frameType, c1) else next_loop c1))"
  by pat_completeness auto
termination
  by (relation "measure input_size") (auto dest: advanceFrame_shrinks [OF sym])

declare next_loop.simps [simp del]

definition NextReader :: "Conn \<Rightarrow> (ws_err + int \<times> nat) \<times> Conn" where
  "NextReader c =
     (case next_loop (c\<lparr>readSeq := Suc (readSeq c), readLength := 0\<rparr>) of
        (Inl e, c1) \<Rightarrow> (Inl e, c1)
      | (Inr frameType, c1) \<Rightarrow> (Inr (frameType, readSeq c1), c1))"

text \<open>The loop of \<open>messageReader.Read\<close> for a buffer of \<open>k\<close> bytes.\<close>

function mr_loop :: "nat \<Rightarrow> nat \<Rightarrow> Conn \<Rightarrow> byte list \<times> ws_err option \<times> Conn" where
  "mr_loop k sq c =
     (case readErr c of
        Some e \<Rightarrow> ([], Some (if e = EOF \<and> sq = readSeq c then errUnexpectedEOF else e), c)
      | None \<Rightarrow>
          if readRemaining c > 0 then
            let (got, err, c1) = br_Read (min k (nat (readRemaining c))) c;
                (p, pos) = (if isServer c then maskBytes (readMaskKey c) (readMaskPos c) got else (got, readMaskPos c))
            in (p, map_option hideTempErr err, c1\<lparr>readErr := map_option hideTempErr err, readMaskPos := pos,
                 readRemaining := readRemaining c - int (length got)\<rparr>)
          else if readFinal c then ([], Some EOF, c\<lparr>readSeq := Suc (readSeq c)\<rparr>)
          else (case advanceFrame c of
                  (Inl e, c1) \<Rightarrow> mr_loop k sq (c1\<lparr>readErr := Some (hideTempErr e)\<rparr>)
                | (Inr frameType, c1) \<Rightarrow>
                    if isData frameType
                    then mr_loop k sq (c1\<lparr>readErr := Some (Err_Text ''websocket: internal error, unexpected text or binary in Reader'')\<rparr>)
                    else mr_loop k sq c1))"
  by pat_completeness auto
termination
  by (relation "measure (\<lambda>(k, sq, c). if readErr c = None then Suc (input_size c) else 0)")
    (auto dest: advanceFrame_shrinks [OF sym])

declare mr_loop.simps [simp del]

definition mr_Read :: "nat \<Rightarrow> nat \<Rightarrow> Conn \<Rightarrow> byte list \<times> ws_err option \<times> Conn" where
  "mr_Read k sq c = (if sq \<noteq> readSeq c then ([], Some EOF, c) else mr_loop k sq c)"

lemma mr_loop_failed [simp]:
  "mr_loop k sq (c\<lparr>readErr := Some e\<rparr>) = ([], Some (if e = EOF \<and> sq = readSeq c then errUnexpectedEOF else e), c\<lparr>readErr := Some e\<rparr>)"
  by (simp add: mr_loop.simps)

lemma mr_loop_progress:
  assumes "mr_loop (Suc k) sq c = (got, None, c')"
  shows "input_size c' < input_size c"
  using assms
proof (induction "input_size c" arbitrary: c rule: less_induct)
  case less
  have None: "readErr c = None" using less.prems by (cases "readErr c") (simp_all add: mr_loop.simps)
  show ?case
  proof (cases "readRemaining c > 0")
    case True
    then obtain j where j: "min (Suc k) (nat (readRemaining c)) = Suc j" by (cases "nat (readRemaining c)") auto
    obtain g err c1 where g: "br_Read (Suc j) c = (g, err, c1)" by (metis prod_cases3)
    have "err = None" "input_size c' = input_size c1"
      using less.prems None True g unfolding mr_loop.simps [of "Suc k" sq c] j
      by (auto simp: Let_def split: prod.splits if_splits)
    then show ?thesis using br_Read_progress [of j c g c1] g by (cases g) auto
  next
    case False
    then have nf: "\<not> readFinal c" using less.prems None by (auto simp: mr_loop.simps)
    obtain r c1 where adv: "advanceFrame c = (r, c1)" by fastforce
    show ?thesis
    proof (cases r)
      case (Inl e)
      then show ?thesis
        using less.prems None False nf adv by (simp add: mr_loop.simps [of "Suc k" sq c])
    next
      case (Inr ft)
      then have lt: "input_size c1 < input_size c" using advanceFrame_shrinks adv by blast
      have "mr_loop (Suc k) sq c1 = (got, None, c')"
        using less.prems None False nf adv Inr by (simp add: mr_loop.simps [of "Suc k" sq c] split: if_splits)
      then show ?thesis using less.hyps [OF lt] lt by simp
    qed
  qed
qed

lemma mr_Read_progress: "mr_Read (Suc k) sq c = (got, None, c') \<Longrightarrow> input_size c' < input_size c"
  by (auto simp: mr_Read_def dest: mr_loop_progress split: if_splits)

text \<open>\<open>ioutil.ReadAll\<close>: \<open>room\<close> tells the free space of the buffer (less one) after so many bytes.\<close>

function ReadAll :: "(nat \<Rightarrow> nat) \<Rightarrow> nat \<Rightarrow> byte list \<Rightarrow> Conn \<Rightarrow> byte list \<times> ws_err option \<times> Conn" where
  "ReadAll room sq acc c =
     (case mr_Read (Suc (room (length acc))) sq c of
        (got, Some e, c') \<Rightarrow> (acc @ got, if e = EOF then None else Some e, c')
      | (got, None, c') \<Rightarrow> ReadAll room sq (acc @ got) c')"
  by pat_completeness auto
termination
  by (relation "measure (\<lambda>(room, sq, acc, c). input_size c)") (auto dest: mr_Read_progress [OF sym])

declare ReadAll.simps [simp del]

definition ReadMessage :: "(nat \<Rightarrow> nat) \<Rightarrow> Conn \<Rightarrow> int \<times> byte list \<times> ws_err option \<times> Conn" where
  "ReadMessage room c =
     (case NextReader c of
        (Inl e, c1) \<Rightarrow> (noFrame, [], Some e, c1)
      | (Inr (messageType, sq), c1) \<Rightarrow>
          (case ReadAll room sq [] c1 of (p, err, c2) \<Rightarrow> (messageType, p, err, c2)))"

section \<open>What a well-formed frame is read as\<close>

lemma read_n_ok:
  assumes "concat (br c) = xs @ ys" and "length xs = n"
  shows "\<exists>bs. read_n n c = (None, xs, c\<lparr>br := bs\<rparr>) \<and> concat bs = ys"
  using assms
proof (induction n arbitrary: xs c rule: less_induct)
  case (less n)
  show ?case
  proof (cases "n = 0")
    case True
    then show ?thesis using less.prems by (intro exI [of _ "br c"]) (simp add: read_n.simps)
  next
    case False
    show ?thesis
    proof (cases rule: br_Read_cases [of n c])
      case (got q qs)
      let ?k = "length (take n q)"
      have k: "0 < ?k" "?k \<le> n" using got(2) False by auto
      have all: "take n q @ (drop n q @ concat qs) = xs @ ys" using got(3) less.prems(1) by simp
      have xs: "xs = take n q @ drop ?k xs" "drop n q @ concat qs = drop ?k xs @ ys"
        using all less.prems(2) k(2) by (metis append_eq_append_conv_if append_take_drop_id)+
      obtain bs where "read_n (n - ?k) (c\<lparr>br := drop n q # qs\<rparr>) = (None, drop ?k xs, c\<lparr>br := bs\<rparr>)" "concat bs = ys"
        using less.IH [of "n - ?k" "c\<lparr>br := drop n q # qs\<rparr>" "drop ?k xs"] k xs(2) less.prems(2) by auto
      then show ?thesis
        using got(1) False xs(1) by (intro exI [of _ bs]) (simp add: read_n.simps [of n c])
    next
      case ended
      then show ?thesis using less.prems False by simp
    qed
  qed
qed

lemma readFull_ok:
  assumes "concat (br c) = xs @ ys" and "length xs = n"
  shows "\<exists>bs. readFull n c = (Inr xs, c\<lparr>br := bs\<rparr>) \<and> concat bs = ys"
  using read_n_ok [OF assms] by (auto simp: readFull_def)

lemma be_read_be16 [simp]: "be_read (be16 w) = w"
  by (rule bit_word_eqI) (auto simp: be_read_def be16_def bit_simps)

lemma be_step:
  "push_bit 8 (drop_bit (k + 8) w) OR ucast (ucast (drop_bit k w) :: byte) = drop_bit k w" for w :: "64 word"
proof (rule bit_word_eqI)
  fix n assume n: "n < LENGTH(64)"
  show "bit (push_bit 8 (drop_bit (k + 8) w) OR ucast (ucast (drop_bit k w) :: byte)) n = bit (drop_bit k w) n"
    using n by (cases "n < 8") (auto simp: bit_simps)
qed

lemma be_top: "ucast (ucast (drop_bit 56 w) :: byte) = drop_bit 56 w" for w :: "64 word"
  by (rule bit_word_eqI) (auto simp: bit_simps dest: bit_imp_le_length)

lemma be_read_be64 [simp]: "be_read (be64 w) = w"
  using be_step [of 48 w] be_step [of 40 w] be_step [of 32 w] be_step [of 24 w] be_step [of 16 w] be_step [of 8 w] be_step [of 0 w]
  by (simp add: be_read_def be64_def be_top)

lemma type_byte:
  assumes "ty = continuationFrame \<or> isData ty \<or> isControl ty"
  shows "uint ((word_of_int ty OR (if fin then 128 else 0) :: byte) AND 15) = ty"
    "((word_of_int ty OR (if fin then 128 else 0) :: byte) AND finalBit \<noteq> 0) = fin"
    "uint (drop_bit 4 (word_of_int ty OR (if fin then 128 else 0) :: byte) AND 7) = 0"
  using assms by (auto simp: isData_def isControl_def ws_consts)

lemma length_byte:
  assumes "n < 128"
  shows "uint (((if m then 128 else 0) OR word_of_nat n :: byte) AND 127) = int n"
    and "(((if m then 128 else 0) OR word_of_nat n :: byte) AND maskBit \<noteq> 0) = m"
proof -
  have "\<forall>n \<in> set [0..<128]. uint ((128 OR word_of_nat n :: byte) AND 127) = int n \<and> uint ((word_of_nat n :: byte) AND 127) = int n \<and>
      (128 OR word_of_nat n :: byte) AND 128 \<noteq> 0 \<and> (word_of_nat n :: byte) AND 128 = 0"
    by code_simp
  then show "uint (((if m then 128 else 0) OR word_of_nat n :: byte) AND 127) = int n"
      "(((if m then 128 else 0) OR word_of_nat n :: byte) AND maskBit \<noteq> 0) = m"
    using assms by (auto simp: maskBit_def)
qed

text \<open>The parts of a frame in the order in which they are read.\<close>

definition len7 :: "nat \<Rightarrow> nat" where
  "len7 n = (if n \<le> 125 then n else if n < 65536 then 126 else 127)"

definition len_ext :: "nat \<Rightarrow> byte list" where
  "len_ext n = (if n \<le> 125 then [] else if n < 65536 then be16 (word_of_nat n) else be64 (word_of_nat n))"

definition key_bytes :: "byte list option \<Rightarrow> byte list" where
  "key_bytes key = (case key of None \<Rightarrow> [] | Some k \<Rightarrow> k)"

definition wire_payload :: "byte list option \<Rightarrow> byte list \<Rightarrow> byte list" where
  "wire_payload key pl = (case key of None \<Rightarrow> pl | Some k \<Rightarrow> ws_mask k 0 pl)"

lemma ws_frame_parts:
  "ws_frame fin ty key pl = [word_of_int ty OR (if fin then 128 else 0), (if key \<noteq> None then 128 else 0) OR word_of_nat (len7 (length pl))] @
     len_ext (length pl) @ key_bytes key @ wire_payload key pl"
  by (auto simp: ws_frame_def len7_def len_ext_def key_bytes_def wire_payload_def Let_def split: option.splits)

lemma sint_small64: "n < 2 ^ 63 \<Longrightarrow> sint (word_of_nat n :: 64 word) = int n"
  by (simp add: signed_of_nat signed_take_bit_int_eq_self)

text \<open>What the seven bits and the bytes that follow them announce; eight bytes are read as a signed number.\<close>

definition length_field :: "nat \<Rightarrow> byte list \<Rightarrow> int \<Rightarrow> bool" where
  "length_field l7 ext n \<longleftrightarrow> (l7 \<le> 125 \<and> ext = [] \<and> n = int l7) \<or> (l7 = 126 \<and> (\<exists>w :: 16 word. ext = be16 w \<and> n = uint w)) \<or>
     (l7 = 127 \<and> (\<exists>w :: 64 word. ext = be64 w \<and> n = sint w))"

lemma length_field_len: "n < 2 ^ 63 \<Longrightarrow> length_field (len7 n) (len_ext n) (int n)"
proof -
  assume n: "n < 2 ^ 63"
  have "uint (word_of_nat n :: 16 word) = int n" if "n < 65536" using that by (simp add: uint_nat unat_of_nat)
  then show ?thesis
    using sint_small64 [OF n] by (auto simp: length_field_def len7_def len_ext_def intro: exI [of _ "word_of_nat n"])
qed

lemma length_field_7: "length_field l7 ext n \<Longrightarrow> l7 < 128"
  by (auto simp: length_field_def)

lemma read_length_ok:
  assumes field: "length_field l7 ext n" and c: "readRemaining c = int l7" "concat (br c) = ext @ ys"
  shows "\<exists>bs. read_length c = (Inr (), c\<lparr>br := bs, readRemaining := n\<rparr>) \<and> concat bs = ys"
  using field unfolding length_field_def
proof (elim disjE exE conjE)
  assume "l7 \<le> 125" "ext = []" "n = int l7"
  then show ?thesis using c by (intro exI [of _ "br c"]) (simp add: read_length_def)
next
  fix w :: "16 word"
  assume "l7 = 126" "ext = be16 w" "n = uint w"
  then show ?thesis using c readFull_ok [of c "be16 w" ys 2] by (auto simp: read_length_def rd_bind_def)
next
  fix w :: "64 word"
  assume "l7 = 127" "ext = be64 w" "n = sint w"
  then show ?thesis using c readFull_ok [of c "be64 w" ys 8] by (auto simp: read_length_def rd_bind_def)
qed

lemma read_mask_ok:
  assumes "key_ok (\<not> isServer c) key" and "concat (br c) = key_bytes key @ ys"
  shows "\<exists>bs. read_mask (key \<noteq> None) c = (Inr (), c\<lparr>br := bs, readMaskPos := (if key = None then readMaskPos c else 0),
       readMaskKey := (case key of None \<Rightarrow> readMaskKey c | Some k \<Rightarrow> k)\<rparr>) \<and> concat bs = ys"
proof (cases key)
  case None
  then show ?thesis using assms by (intro exI [of _ "br c"]) (simp add: read_mask_def key_ok_def key_bytes_def)
next
  case (Some k)
  then obtain bs where "readFull 4 (c\<lparr>readMaskPos := 0\<rparr>) = (Inr k, c\<lparr>readMaskPos := 0, br := bs\<rparr>)" "concat bs = ys"
    using assms readFull_ok [of "c\<lparr>readMaskPos := 0\<rparr>" k ys 4] by (auto simp: key_ok_def key_bytes_def)
  then show ?thesis
    using assms(1) Some by (intro exI [of _ bs]) (cases c, simp add: read_mask_def key_ok_def rd_bind_def)
qed

lemma skip_rest_none: "readRemaining c \<le> 0 \<Longrightarrow> skip_rest c = (Inr (), c)"
  by (simp add: skip_rest_def)

definition raw_frame :: "bool \<Rightarrow> int \<Rightarrow> byte list option \<Rightarrow> nat \<Rightarrow> byte list \<Rightarrow> byte list \<Rightarrow> byte list" where
  "raw_frame fin ty key l7 ext ys =
     [word_of_int ty OR (if fin then 128 else 0), (if key \<noteq> None then 128 else 0) OR word_of_nat l7] @ ext @ key_bytes key @ ys"

lemma advanceFrame_parsed:
  assumes frame: "concat (br c) = raw_frame fin ty key l7 ext ys" and none: "readRemaining c \<le> 0" and l7: "l7 < 128"
    and ty: "ty = continuationFrame \<or> isData ty \<or> isControl ty"
  shows "\<exists>bs. advanceFrame c = rd_bind (\<lambda>c. check_header fin ty 0 (c\<lparr>readRemaining := int l7\<rparr>)) (\<lambda>_.
      rd_bind read_length (\<lambda>_. rd_bind (read_mask (key \<noteq> None)) (\<lambda>_.
        if ty = continuationFrame \<or> isData ty then data_frame ty else rd_bind control_payload (process_control ty)))) (c\<lparr>br := bs\<rparr>) \<and>
    concat bs = ext @ key_bytes key @ ys"
proof -
  let ?b0 = "word_of_int ty OR (if fin then 128 else 0) :: byte" and ?b1 = "(if key \<noteq> None then 128 else 0) OR word_of_nat l7 :: byte"
  note b1 = length_byte [OF l7, of "key \<noteq> None"]
  obtain bs where bs: "readFull 2 c = (Inr [?b0, ?b1], c\<lparr>br := bs\<rparr>)" "concat bs = ext @ key_bytes key @ ys"
    using readFull_ok [of c "[?b0, ?b1]" "ext @ key_bytes key @ ys" 2] frame
    unfolding raw_frame_def by auto
  have two: "[?b0, ?b1] ! 0 = ?b0" "[?b0, ?b1] ! 1 = ?b1" by simp_all
  show ?thesis
    using bs unfolding advanceFrame_def rd_bind_def [of skip_rest] skip_rest_none [OF none] rd_bind_def [of "readFull 2"]
    by (intro exI [of _ bs]) (simp only: bs(1) prod.case sum.case two b1 type_byte [OF ty] Let_def simp_thms)
qed

text \<open>The connection once the header of a data frame that announces \<open>n\<close> bytes has been read.\<close>

definition after_header :: "byte list list \<Rightarrow> int \<Rightarrow> bool \<Rightarrow> byte list option \<Rightarrow> Conn \<Rightarrow> Conn" where
  "after_header bs n fin key c = c\<lparr>br := bs, readRemaining := n, readFinal := fin,
     readMaskPos := (if key = None then readMaskPos c else 0), readMaskKey := (case key of None \<Rightarrow> readMaskKey c | Some k \<Rightarrow> k)\<rparr>"

lemma after_header_simps [simp]:
  "br (after_header bs n fin key c) = bs" "readRemaining (after_header bs n fin key c) = n" "readFinal (after_header bs n fin key c) = fin"
  "readLength (after_header bs n fin key c) = readLength c" "readLimit (after_header bs n fin key c) = readLimit c"
  "isServer (after_header bs n fin key c) = isServer c" "readErr (after_header bs n fin key c) = readErr c"
  "readSeq (after_header bs n fin key c) = readSeq c" "read_end (after_header bs n fin key c) = read_end c"
  by (simp_all add: after_header_def)

lemma advanceFrame_body:
  assumes frame: "concat (br c) = raw_frame fin ty key l7 ext ys" and none: "readRemaining c \<le> 0" and field: "length_field l7 ext n"
    and ty: "if readFinal c then isData ty else ty = continuationFrame" and key: "key_ok (\<not> isServer c) key"
  shows "\<exists>bs. advanceFrame c = data_frame ty (after_header bs n fin key c) \<and> concat bs = ys"
proof -
  have ty': "ty = continuationFrame \<or> isData ty" "\<not> isControl ty" "isData ty \<longleftrightarrow> readFinal c" "ty = continuationFrame \<or> readFinal c"
    using ty by (auto simp: isData_def isControl_def ws_consts split: if_splits)
  obtain bs where bs: "advanceFrame c = rd_bind (\<lambda>c. check_header fin ty 0 (c\<lparr>readRemaining := int l7\<rparr>)) (\<lambda>_.
      rd_bind read_length (\<lambda>_. rd_bind (read_mask (key \<noteq> None)) (\<lambda>_. data_frame ty))) (c\<lparr>br := bs\<rparr>)"
      "concat bs = ext @ key_bytes key @ ys"
    using advanceFrame_parsed [OF frame none length_field_7 [OF field]] ty' by auto
  define c1 where "c1 = c\<lparr>br := bs, readRemaining := int l7, readFinal := fin\<rparr>"
  have 1: "check_header fin ty 0 (c\<lparr>br := bs, readRemaining := int l7\<rparr>) = (Inr (), c1)"
    using ty' by (auto simp: check_header_def c1_def)
  have c1: "readRemaining c1 = int l7" "concat (br c1) = ext @ key_bytes key @ ys"
    using bs(2) by (simp_all add: c1_def)
  obtain bs2 where 2: "read_length c1 = (Inr (), c1\<lparr>br := bs2, readRemaining := n\<rparr>)" "concat bs2 = key_bytes key @ ys"
    using read_length_ok [OF field c1] by blast
  define c2 where "c2 = c1\<lparr>br := bs2, readRemaining := n\<rparr>"
  have c2: "key_ok (\<not> isServer c2) key" "concat (br c2) = key_bytes key @ ys" "readMaskPos c2 = readMaskPos c" "readMaskKey c2 = readMaskKey c"
    using key 2(2) by (simp_all add: c2_def c1_def)
  obtain bs3 where 3: "read_mask (key \<noteq> None) c2 = (Inr (), c2\<lparr>br := bs3, readMaskPos := (if key = None then readMaskPos c else 0),
       readMaskKey := (case key of None \<Rightarrow> readMaskKey c | Some k \<Rightarrow> k)\<rparr>)" "concat bs3 = ys"
    using read_mask_ok [OF c2(1,2)] unfolding c2(3,4) by blast
  have "c2\<lparr>br := bs3, readMaskPos := (if key = None then readMaskPos c else 0),
       readMaskKey := (case key of None \<Rightarrow> readMaskKey c | Some k \<Rightarrow> k)\<rparr> = after_header bs3 n fin key c"
    unfolding c2_def c1_def after_header_def by (rule Conn.equality) simp_all
  then have "advanceFrame c = data_frame ty (after_header bs3 n fin key c)"
    unfolding bs(1) by (simp add: rd_bind_def 1 2(1) 3(1) c2_def [symmetric] del: not_None_eq)
  then show ?thesis using 3(2) by auto
qed

lemma ws_frame_raw:
  "ws_frame fin ty key pl @ rest = raw_frame fin ty key (len7 (length pl)) (len_ext (length pl)) (wire_payload key pl @ rest)"
  by (simp add: ws_frame_parts raw_frame_def)

lemma data_frame_ok:
  assumes "readLimit c \<le> 0 \<or> wrap64 (readLength c + readRemaining c) \<le> readLimit c"
  shows "data_frame ty c = (Inr ty, c\<lparr>readLength := wrap64 (readLength c + readRemaining c)\<rparr>)"
  using assms by (auto simp: data_frame_def Let_def)

lemma data_frame_limit:
  assumes "0 < readLimit c" and "readLimit c < wrap64 (readLength c + readRemaining c)"
  shows "fst (data_frame ty c) = Inl ErrReadLimit"
  using assms by (simp add: data_frame_def Let_def)

section \<open>Control frames\<close>

definition can_write :: "Conn \<Rightarrow> bool" where
  "can_write c \<longleftrightarrow> \<not> closeSent c \<and> \<not> net_closed c \<and> write_script c = [] \<and> mu_granted c = []"

lemma WriteControl_ok:
  assumes "can_write c" and "isControl ty" and "length dat \<le> 125"
  shows "WriteControl ty dat c = (None, c\<lparr>sent := sent c @ ws_frame True ty (next_key c) dat, closeSent := (ty = CloseMessage),
     rand_Uint32 := (if isServer c then rand_Uint32 c else tl (rand_Uint32 c))\<rparr>)"
proof -
  have st: "\<not> closeSent c" "\<not> net_closed c" "write_script c = []" "mu_granted c = []" using assms(1) by (simp_all add: can_write_def)
  have send: "send_control ty buf d = (None, d\<lparr>sent := sent d @ buf, closeSent := (ty = CloseMessage)\<rparr>)"
    if "\<not> closeSent d" "\<not> net_closed d" "write_script d = []" "mu_granted d = []" for d buf
    using that by (simp add: send_control_def net_Write_def Let_def)
  show ?thesis
    using assms(2,3) st
    by (auto simp: WriteControl_def control_frame_def newMaskKey_def Let_def send ws_consts(1-4) ws_frame_def next_key_def maskBytes_eq or.commute)
qed

lemma control_payload_ok:
  assumes "readRemaining c = int (length pl)" and "concat (br c) = (if isServer c then ws_mask (readMaskKey c) 0 pl else pl) @ rest"
  shows "\<exists>bs. control_payload c = (Inr pl, c\<lparr>br := bs, readRemaining := 0\<rparr>) \<and> concat bs = rest"
proof (cases "pl = []")
  case True
  then show ?thesis using assms by (intro exI [of _ "br c"]) (auto simp: control_payload_def)
next
  case False
  let ?w = "if isServer c then ws_mask (readMaskKey c) 0 pl else pl" and ?c = "c\<lparr>readRemaining := 0\<rparr>"
  obtain bs where bs: "readFull (length pl) ?c = (Inr ?w, ?c\<lparr>br := bs\<rparr>)" "concat bs = rest"
    using readFull_ok [of ?c ?w rest "length pl"] assms(2) by (auto split: if_splits)
  then have "control_payload c = (Inr pl, c\<lparr>br := bs, readRemaining := 0\<rparr>)"
    using assms(1) False by (cases c) (simp add: control_payload_def rd_bind_def maskBytes_eq)
  then show ?thesis using bs(2) by blast
qed

lemma advanceFrame_control:
  assumes frame: "concat (br c) = ws_frame True ty key pl @ rest" and none: "readRemaining c \<le> 0"
    and ty: "isControl ty" and len: "length pl \<le> 125" and key: "key_ok (\<not> isServer c) key"
  shows "\<exists>bs. advanceFrame c = process_control ty pl (after_header bs 0 (readFinal c) key c) \<and> concat bs = rest"
proof -
  have ty': "ty \<noteq> continuationFrame" "\<not> isData ty" using ty by (auto simp: isData_def isControl_def ws_consts)
  have l7: "len7 (length pl) = length pl" "len_ext (length pl) = []" using len by (simp_all add: len7_def len_ext_def)
  have raw: "concat (br c) = raw_frame True ty key (length pl) [] (wire_payload key pl @ rest)" using frame ws_frame_raw [of True ty key pl rest] l7 by simp
  obtain bs where bs: "advanceFrame c = rd_bind (\<lambda>c. check_header True ty 0 (c\<lparr>readRemaining := int (length pl)\<rparr>)) (\<lambda>_.
      rd_bind read_length (\<lambda>_. rd_bind (read_mask (key \<noteq> None)) (\<lambda>_. rd_bind control_payload (process_control ty)))) (c\<lparr>br := bs\<rparr>)"
      "concat bs = key_bytes key @ wire_payload key pl @ rest"
    using advanceFrame_parsed [OF raw none] len ty ty' by (auto simp del: not_None_eq)
  define c1 where "c1 = c\<lparr>br := bs, readRemaining := int (length pl)\<rparr>"
  have 1: "check_header True ty 0 (c\<lparr>br := bs, readRemaining := int (length pl)\<rparr>) = (Inr (), c1)" "read_length c1 = (Inr (), c1)"
    using ty len by (simp_all add: check_header_def c1_def read_length_def ws_consts(1-4))
  obtain bs2 where 2: "read_mask (key \<noteq> None) c1 = (Inr (), c1\<lparr>br := bs2, readMaskPos := (if key = None then readMaskPos c1 else 0),
       readMaskKey := (case key of None \<Rightarrow> readMaskKey c1 | Some k \<Rightarrow> k)\<rparr>)" "concat bs2 = wire_payload key pl @ rest"
    using read_mask_ok [of c1 key "wire_payload key pl @ rest"] key bs(2) by (auto simp: c1_def simp del: not_None_eq)
  define c2 where "c2 = c1\<lparr>br := bs2, readMaskPos := (if key = None then readMaskPos c1 else 0), readMaskKey := (case key of None \<Rightarrow> readMaskKey c1 | Some k \<Rightarrow> k)\<rparr>"
  have "readRemaining c2 = int (length pl)" "concat (br c2) = (if isServer c2 then ws_mask (readMaskKey c2) 0 pl else pl) @ rest"
    using 2(2) key by (cases key; simp add: c2_def c1_def wire_payload_def key_ok_def)+
  then obtain bs3 where 3: "control_payload c2 = (Inr pl, c2\<lparr>br := bs3, readRemaining := 0\<rparr>)" "concat bs3 = rest"
    using control_payload_ok by blast
  have "c2\<lparr>br := bs3, readRemaining := 0\<rparr> = after_header bs3 0 (readFinal c) key c"
    unfolding c2_def c1_def after_header_def by (rule Conn.equality) (simp_all split: option.split)
  then have "advanceFrame c = process_control ty pl (after_header bs3 0 (readFinal c) key c)"
    unfolding bs(1) by (simp add: rd_bind_def 1 2(1) 3(1) c2_def [symmetric] del: not_None_eq)
  then show ?thesis using 3(2) by auto
qed

lemma can_write_upd [simp]:
  "can_write (c\<lparr>br := bs\<rparr>) = can_write c" "can_write (c\<lparr>readRemaining := n\<rparr>) = can_write c" "can_write (c\<lparr>readFinal := f\<rparr>) = can_write c"
  "can_write (c\<lparr>readMaskPos := i\<rparr>) = can_write c" "can_write (c\<lparr>readMaskKey := k\<rparr>) = can_write c" "can_write (c\<lparr>readErr := e\<rparr>) = can_write c"
  "can_write (c\<lparr>readSeq := q\<rparr>) = can_write c" "can_write (c\<lparr>readLength := l\<rparr>) = can_write c"
  "can_write (after_header bs n fin key c) = can_write c" "handlePing (after_header bs n fin key c) = handlePing c"
  by (simp_all add: can_write_def after_header_def)

text \<open>What a reader keeps, and what it keeps while it is inside one message.\<close>

definition same_peer :: "Conn \<Rightarrow> Conn \<Rightarrow> bool" where
  "same_peer c c' \<longleftrightarrow> isServer c' = isServer c \<and> readLimit c' = readLimit c \<and> read_end c' = read_end c \<and>
     handlePing c' = handlePing c \<and> can_write c' = can_write c"

definition same_reader :: "Conn \<Rightarrow> Conn \<Rightarrow> bool" where
  "same_reader c c' \<longleftrightarrow> readSeq c' = readSeq c \<and> same_peer c c'"

text \<open>
  A ping is answered: between or inside messages, the default handler sends one pong frame with the
  payload of the ping, and the reader stands behind the ping with its message state unchanged.
\<close>

lemma advanceFrame_ping:
  assumes "concat (br c) = ws_frame True PingMessage key pl @ rest" and "readRemaining c \<le> 0" and "length pl \<le> 125"
    and "key_ok (\<not> isServer c) key" and "can_write c" and "handlePing c = None"
  obtains c' where "advanceFrame c = (Inr PingMessage, c')" "sent c' = sent c @ ws_frame True PongMessage (next_key c) pl"
     "concat (br c') = rest" "readRemaining c' = 0" "readFinal c' = readFinal c" "readLength c' = readLength c" "readErr c' = readErr c" "same_reader c c'"
proof -
  have ctl: "isControl PingMessage" "isControl PongMessage" "PingMessage \<noteq> PongMessage" "PongMessage \<noteq> CloseMessage" by (simp_all add: isControl_def ws_consts)
  obtain bs where bs: "advanceFrame c = process_control PingMessage pl (after_header bs 0 (readFinal c) key c)" "concat bs = rest"
    using advanceFrame_control [OF assms(1,2) ctl(1) assms(3,4)] by blast
  define d where "d = after_header bs 0 (readFinal c) key c"
  have c: "can_write d" "handlePing d = None" "next_key d = next_key c" "sent d = sent c"
    using assms(5,6) by (simp_all add: d_def next_key_def after_header_def)
  let ?c = "d\<lparr>sent := sent d @ ws_frame True PongMessage (next_key d) pl, closeSent := (PongMessage = CloseMessage),
     rand_Uint32 := (if isServer d then rand_Uint32 d else tl (rand_Uint32 d))\<rparr>"
  have "advanceFrame c = (Inr PingMessage, ?c)"
    using bs(1) c WriteControl_ok [OF c(1) ctl(2) assms(3)] ctl(3) unfolding d_def [symmetric]
    by (simp add: process_control_def default_ping_def)
  moreover have "same_reader c ?c"
    using c(1) assms(5) ctl(4) by (simp add: same_reader_def same_peer_def d_def) (simp add: can_write_def after_header_def)
  ultimately show thesis using that [of ?c] bs(2) c by (simp add: d_def)
qed

section \<open>Reassembling a message\<close>

text \<open>
  A reader in a frame of which \<open>pl\<close> is still to come, followed by \<open>rest\<close>; or, when \<open>m\<close> bytes of the
  frame are missing, by nothing.  \<open>behind\<close> tells that the fragments \<open>kps\<close> can follow.
\<close>

definition part_frame :: "Conn \<Rightarrow> nat \<Rightarrow> byte list \<Rightarrow> byte list \<Rightarrow> bool" where
  "part_frame c m pl rest \<longleftrightarrow> readErr c = None \<and> readRemaining c = int (length pl + m) \<and> (m = 0 \<or> rest = []) \<and>
     concat (br c) = (if isServer c then ws_mask (readMaskKey c) (readMaskPos c) pl else pl) @ rest"

abbreviation in_frame :: "Conn \<Rightarrow> byte list \<Rightarrow> byte list \<Rightarrow> bool" where
  "in_frame c \<equiv> part_frame c 0"

definition payload_len :: "(byte list option \<times> byte list) list \<Rightarrow> int" where
  "payload_len kps = int (length (concat (map snd kps)))"

definition within_limit :: "Conn \<Rightarrow> (byte list option \<times> byte list) list \<Rightarrow> bool" where
  "within_limit c kps \<longleftrightarrow> 0 \<le> readLength c \<and> readLength c + payload_len kps < 2 ^ 63 \<and>
     (readLimit c \<le> 0 \<or> readLength c + payload_len kps \<le> readLimit c)"

definition behind :: "Conn \<Rightarrow> (byte list option \<times> byte list) list \<Rightarrow> bool" where
  "behind c kps \<longleftrightarrow> readFinal c = (kps = []) \<and> keys_ok (\<not> isServer c) kps \<and> within_limit c kps"

definition same_message :: "Conn \<Rightarrow> Conn \<Rightarrow> bool" where
  "same_message c c' \<longleftrightarrow> same_reader c c' \<and> readFinal c' = readFinal c \<and> readLength c' = readLength c"

lemma behind_same: "same_message c c' \<Longrightarrow> behind c' kps = behind c kps"
  by (simp add: same_message_def same_reader_def same_peer_def behind_def within_limit_def)

lemma mr_loop_part:
  assumes "part_frame c m pl rest" and "pl \<noteq> []"
  shows "\<exists>n c'. mr_loop (Suc k) sq c = (take n pl, None, c') \<and> 0 < n \<and> n \<le> length pl \<and> part_frame c' m (drop n pl) rest \<and>
     same_message c c'"
proof -
  let ?w = "if isServer c then ws_mask (readMaskKey c) (readMaskPos c) pl else pl"
  have c: "readErr c = None" "readRemaining c = int (length pl + m)" "concat (br c) = ?w @ rest" "m = 0 \<or> rest = []" using assms(1) by (simp_all add: part_frame_def)
  let ?j = "min (Suc k) (length pl + m)"
  have w: "length ?w = length pl" by simp
  show ?thesis
  proof (cases rule: br_Read_cases [of ?j c])
    case (got q qs)
    define g where "g = take ?j q"
    define n where "n = length g"
    have all: "g @ drop ?j q @ concat qs = ?w @ rest" using got(3) c(3) by (simp add: g_def)
    have "length g \<le> length pl" if "m \<noteq> 0" using arg_cong [OF all, of length] c(4) that w by simp
    then have n: "0 < n" "n \<le> length pl" using got(2) assms(2) by (cases "m = 0"; auto simp: n_def g_def)+
    have "g = take n (?w @ rest)" "drop ?j q @ concat qs = drop n (?w @ rest)"
      unfolding n_def all [symmetric] by simp_all
    then have q: "g = take n ?w" "drop ?j q @ concat qs = drop n ?w @ rest" using n(2) w by simp_all
    define p where "p = (if isServer c then maskBytes (readMaskKey c) (readMaskPos c) g else (g, readMaskPos c))"
    let ?c = "c\<lparr>br := drop ?j q # qs, readErr := None, readMaskPos := snd p, readRemaining := int (length pl + m) - int n\<rparr>"
    have "fst p = (if isServer c then ws_mask (readMaskKey c) (readMaskPos c) g else g)"
      by (simp add: p_def maskBytes_eq)
    also have "\<dots> = take n pl" unfolding q(1) by (simp add: take_mask)
    finally have p: "fst p = take n pl" .
    have p2: "snd p = (if isServer c then (readMaskPos c + n) mod 4 else readMaskPos c)"
      by (simp add: p_def n_def maskBytes_eq)
    have br: "br_Read (min (Suc k) (nat (readRemaining c))) c = (g, None, c\<lparr>br := drop ?j q # qs\<rparr>)"
      unfolding c(2) nat_int g_def by (rule got(1))
    have "readRemaining c > 0" unfolding c(2) using assms(2) by (cases pl) simp_all
    then have run: "mr_loop (Suc k) sq c = (take n pl, None, ?c)"
      using c(1,2) br p by (cases "isServer c"; simp add: mr_loop.simps [of "Suc k" sq c] Let_def p_def n_def split_beta; intro Conn.equality; simp)
    have "part_frame ?c m (drop n pl) rest"
    proof (cases "isServer c")
      case True
      have "drop n (ws_mask (readMaskKey c) (readMaskPos c) pl) = ws_mask (readMaskKey c) (readMaskPos c + n) (drop n pl)"
        using mask_append [of "readMaskKey c" "readMaskPos c" "take n pl" "drop n pl"] n(2) by simp
      then show ?thesis
        using True q(2) n(2) p2 c(4) by (simp add: part_frame_def mask_mod of_nat_diff)
    next
      case False
      then show ?thesis using q(2) n(2) p2 c(4) by (simp add: part_frame_def of_nat_diff)
    qed
    then show ?thesis
      using run n by (intro exI [of _ n] exI [of _ ?c]) (simp add: same_message_def same_reader_def same_peer_def)
  next
    case ended
    then show ?thesis using c(3) assms(2) w by auto
  qed
qed

lemma advanceFrame_enters:
  assumes frame: "concat (br c) = ws_frame fin ty key pl @ rest" and none: "readRemaining c \<le> 0" "readErr c = None"
    and ty: "if readFinal c then isData ty else ty = continuationFrame" and key: "key_ok (\<not> isServer c) key"
    and len: "length pl < 2 ^ 63" "is_int64 (readLength c + int (length pl))" "readLimit c \<le> 0 \<or> readLength c + int (length pl) \<le> readLimit c"
  obtains c' where "advanceFrame c = (Inr ty, c')" "in_frame c' pl rest" "readFinal c' = fin"
    "readLength c' = readLength c + int (length pl)" "same_reader c c'"
proof -
  have w: "wrap64 (readLength c + int (length pl)) = readLength c + int (length pl)" using len(2) by simp
  obtain bs where bs: "advanceFrame c = data_frame ty (after_header bs (int (length pl)) fin key c)" "concat bs = wire_payload key pl @ rest"
    using advanceFrame_body [OF frame [unfolded ws_frame_raw] none(1) length_field_len [OF len(1)] ty key] by blast
  let ?c = "(after_header bs (int (length pl)) fin key c)\<lparr>readLength := readLength c + int (length pl)\<rparr>"
  have "advanceFrame c = (Inr ty, ?c)"
    unfolding bs(1) using len(3) data_frame_ok [of "after_header bs (int (length pl)) fin key c" ty] w by simp
  moreover have "in_frame ?c pl rest"
    using none key bs(2) by (cases key) (simp_all add: part_frame_def wire_payload_def key_ok_def after_header_def)
  ultimately show thesis using that by (simp add: same_reader_def same_peer_def)
qed

lemma advanceFrame_into:
  assumes frame: "concat (br c) = ws_frame fin ty key pl @ rest" and none: "readRemaining c = 0" "readErr c = None"
    and ty: "if readFinal c then isData ty else ty = continuationFrame" and key: "key_ok (\<not> isServer c) key"
    and len: "0 \<le> readLength c" "readLength c + int (length pl) < 2 ^ 63" "readLimit c \<le> 0 \<or> readLength c + int (length pl) \<le> readLimit c"
  obtains c' where "advanceFrame c = (Inr ty, c')" "in_frame c' pl rest" "readFinal c' = fin"
    "readLength c' = readLength c + int (length pl)" "same_reader c c'"
proof -
  have r: "readRemaining c \<le> 0" "length pl < 2 ^ 63" "is_int64 (readLength c + int (length pl))" using none(1) len(1,2) by (simp_all add: is_int64_def)
  show thesis using advanceFrame_enters [OF frame r(1) none(2) ty key r(2,3) len(3)] that by blast
qed

lemma payload_len_simps [simp]: "payload_len [] = 0" "payload_len ((key, pl) # kps) = int (length pl) + payload_len kps" "0 \<le> payload_len kps"
  by (simp_all add: payload_len_def)

lemma mr_loop_next_fragment:
  assumes "in_frame c [] (message_frames continuationFrame ((key, pl) # kps) @ rest)" and "behind c ((key, pl) # kps)"
  obtains c' where "\<And>k sq. mr_loop k sq c = mr_loop k sq c'" "in_frame c' pl (message_frames continuationFrame kps @ rest)"
     "behind c' kps" "same_reader c c'"
proof -
  have c: "concat (br c) = ws_frame (kps = []) continuationFrame key pl @ message_frames continuationFrame kps @ rest" "readRemaining c = 0" "readErr c = None"
      "\<not> readFinal c" "key_ok (\<not> isServer c) key" "keys_ok (\<not> isServer c) kps"
    using assms by (simp_all add: part_frame_def behind_def)
  have l: "0 \<le> readLength c" "readLength c + int (length pl) + payload_len kps < 2 ^ 63" "readLimit c \<le> 0 \<or> readLength c + int (length pl) + payload_len kps \<le> readLimit c"
    using assms(2) by (simp_all add: behind_def within_limit_def algebra_simps)
  have l': "readLength c + int (length pl) < 2 ^ 63" "readLimit c \<le> 0 \<or> readLength c + int (length pl) \<le> readLimit c"
    using l(2,3) payload_len_simps(3) [of kps] by linarith+
  obtain c' where c': "advanceFrame c = (Inr continuationFrame, c')" "in_frame c' pl (message_frames continuationFrame kps @ rest)"
      "readFinal c' = (kps = [])" "readLength c' = readLength c + int (length pl)" "same_reader c c'"
    using advanceFrame_into [OF c(1-3) _ c(5) l(1) l'] c(4) by auto
  have "mr_loop k sq c = mr_loop k sq c'" for k sq
    using c c'(1) by (subst mr_loop.simps) (simp add: isData_def ws_consts)
  moreover have "behind c' kps" using c'(3-5) c(6) l by (simp add: behind_def within_limit_def same_reader_def same_peer_def)
  ultimately show thesis using that c'(2,5) by blast
qed

text \<open>A reader between two messages.\<close>

definition between :: "Conn \<Rightarrow> bool" where
  "between c \<longleftrightarrow> readErr c = None \<and> readRemaining c = 0 \<and> readFinal c"

lemma ReadAll_frame:
  assumes "part_frame c m pl rest" and "readSeq c = sq"
  shows "\<exists>c'. ReadAll room sq acc c = ReadAll room sq (acc @ pl) c' \<and> part_frame c' m [] rest \<and> same_message c c'"
  using assms
proof (induction "length pl" arbitrary: pl c acc rule: less_induct)
  case less
  show ?case
  proof (cases "pl = []")
    case True
    then show ?thesis using less.prems by (intro exI [of _ c]) (simp add: same_message_def same_reader_def same_peer_def)
  next
    case False
    then obtain n c1 where n: "mr_loop (Suc (room (length acc))) sq c = (take n pl, None, c1)" "0 < n" "n \<le> length pl"
        "part_frame c1 m (drop n pl) rest" "same_message c c1"
      using mr_loop_part [OF less.prems(1) False] by blast
    have step: "ReadAll room sq acc c = ReadAll room sq (acc @ take n pl) c1"
      using n(1) less.prems(2) by (subst ReadAll.simps) (simp add: mr_Read_def)
    have "readSeq c1 = sq" "length (drop n pl) < length pl"
      using n(2,5) False less.prems(2) by (simp_all add: same_message_def same_reader_def same_peer_def)
    then obtain c' where "ReadAll room sq (acc @ take n pl) c1 = ReadAll room sq ((acc @ take n pl) @ drop n pl) c'" "part_frame c' m [] rest" "same_message c1 c'"
      using less.hyps n(4) by blast
    then show ?thesis
      using n(5) step by (intro exI [of _ c']) (simp add: same_message_def same_reader_def same_peer_def)
  qed
qed

lemma ReadAll_last:
  assumes "in_frame c pl rest" and "readFinal c" and "readSeq c = sq"
  shows "\<exists>c'. ReadAll room sq acc c = (acc @ pl, None, c') \<and> between c' \<and> concat (br c') = rest \<and>
     same_peer c c'"
proof -
  obtain c1 where "ReadAll room sq acc c = ReadAll room sq (acc @ pl) c1" "in_frame c1 [] rest" "same_message c c1"
    using ReadAll_frame [OF assms(1,3)] by blast
  then show ?thesis
    using assms(2,3) ReadAll.simps [of room sq "acc @ pl" c1]
    by (simp add: mr_Read_def mr_loop.simps part_frame_def between_def same_reader_def same_peer_def same_message_def)
qed

lemma ReadAll_fragments:
  assumes "in_frame c pl (message_frames continuationFrame kps @ rest)" and "behind c kps" and "readSeq c = sq"
  shows "\<exists>c'. ReadAll room sq acc c = (acc @ pl @ concat (map snd kps), None, c') \<and> between c' \<and> concat (br c') = rest \<and>
     same_peer c c'"
  using assms
proof (induction kps arbitrary: pl c acc)
  case Nil
  then show ?case using ReadAll_last [of c pl rest sq room acc] by (simp add: behind_def)
next
  case (Cons kp kps)
  obtain key p where kp: "kp = (key, p)" by fastforce
  obtain c1 where c1: "ReadAll room sq acc c = ReadAll room sq (acc @ pl) c1" "in_frame c1 [] (message_frames continuationFrame (kp # kps) @ rest)"
      "same_message c c1"
    using ReadAll_frame [OF Cons.prems(1,3)] by blast
  have behind1: "behind c1 (kp # kps)" using behind_same [OF c1(3)] Cons.prems(2) by simp
  obtain c2 where c2: "\<And>k sq. mr_loop k sq c1 = mr_loop k sq c2" "in_frame c2 p (message_frames continuationFrame kps @ rest)" "behind c2 kps" "same_reader c1 c2"
    using mr_loop_next_fragment [OF c1(2) [unfolded kp] behind1 [unfolded kp]] by blast
  have sq: "readSeq c1 = sq" "readSeq c2 = sq" using c1(3) c2(4) Cons.prems(3) by (simp_all add: same_message_def same_reader_def same_peer_def)
  have "ReadAll room sq (acc @ pl) c1 = ReadAll room sq (acc @ pl) c2"
    using c2(1) sq unfolding ReadAll.simps [of room sq "acc @ pl" c1] ReadAll.simps [of room sq "acc @ pl" c2] by (simp add: mr_Read_def)
  then show ?case
    using Cons.IH [OF c2(2,3) sq(2), of "acc @ pl"] c1(1,3) c2(4) kp by (auto simp: same_message_def same_reader_def same_peer_def)
qed

text \<open>Pings in front of a message.\<close>

definition pings_wire :: "(byte list option \<times> byte list) list \<Rightarrow> byte list" where
  "pings_wire ps = concat (map (\<lambda>(key, pl). ws_frame True PingMessage key pl) ps)"

definition pings_ok :: "Conn \<Rightarrow> (byte list option \<times> byte list) list \<Rightarrow> bool" where
  "pings_ok c ps \<longleftrightarrow> (ps \<noteq> [] \<longrightarrow> can_write c \<and> handlePing c = None) \<and> (\<forall>(key, pl) \<in> set ps. key_ok (\<not> isServer c) key \<and> length pl \<le> 125)"

lemma pings_same: "same_peer c c' \<Longrightarrow> pings_ok c ps \<Longrightarrow> pings_ok c' ps"
  by (auto simp: pings_ok_def same_peer_def)

lemma skip_pings:
  assumes "between c" and "concat (br c) = pings_wire ps @ rest" and "pings_ok c ps"
  shows "\<exists>c'. next_loop c = next_loop c' \<and> between c' \<and> concat (br c') = rest \<and> same_reader c c' \<and> readLength c' = readLength c"
  using assms
proof (induction ps arbitrary: c)
  case Nil
  then show ?case by (intro exI [of _ c]) (simp add: pings_wire_def same_reader_def same_peer_def)
next
  case (Cons kp ps)
  obtain key pl where kp: "kp = (key, pl)" by fastforce
  have c: "concat (br c) = ws_frame True PingMessage key pl @ pings_wire ps @ rest" "readRemaining c \<le> 0" "length pl \<le> 125" "key_ok (\<not> isServer c) key"
      "can_write c" "handlePing c = None" "readErr c = None"
    using Cons.prems by (auto simp: pings_wire_def pings_ok_def between_def kp)
  obtain c1 where c1: "advanceFrame c = (Inr PingMessage, c1)" "concat (br c1) = pings_wire ps @ rest" "readRemaining c1 = 0" "readFinal c1 = readFinal c"
      "readLength c1 = readLength c" "readErr c1 = readErr c" "same_reader c c1"
    using advanceFrame_ping [OF c(1-6)] by blast
  have step: "next_loop c = next_loop c1" using c(7) c1(1) by (simp add: next_loop.simps [of c] isData_def ws_consts)
  have "between c1" "pings_ok c1 ps"
    using Cons.prems(1,3) c1(3,4,6,7) by (auto simp: between_def pings_ok_def same_reader_def same_peer_def)
  then obtain c' where "next_loop c1 = next_loop c'" "between c'" "concat (br c') = rest" "same_reader c1 c'" "readLength c' = readLength c1"
    using Cons.IH [OF _ c1(2)] by blast
  then show ?case using step c1(5,7) by (auto simp: same_reader_def same_peer_def)
qed

lemma ReadMessage_ok:
  assumes "between c" and "concat (br c) = pings_wire ps @ message_frames ty kps @ rest" and "pings_ok c ps" and "kps \<noteq> []" and "isData ty"
    and "keys_ok (\<not> isServer c) kps" and "payload_len kps < 2 ^ 63" and "readLimit c \<le> 0 \<or> payload_len kps \<le> readLimit c"
  shows "\<exists>c'. ReadMessage room c = (ty, concat (map snd kps), None, c') \<and> between c' \<and> concat (br c') = rest \<and> same_peer c c'"
proof -
  obtain key pl ks where kps: "kps = (key, pl) # ks" using assms(4) by (cases kps) auto
  define c0 where "c0 = c\<lparr>readSeq := Suc (readSeq c), readLength := 0\<rparr>"
  have c0: "between c0" "concat (br c0) = pings_wire ps @ message_frames ty kps @ rest" "pings_ok c0 ps"
    using assms(1-3) by (simp_all add: c0_def between_def pings_ok_def)
  obtain d where d: "next_loop c0 = next_loop d" "between d" "concat (br d) = message_frames ty kps @ rest" "same_reader c0 d" "readLength d = readLength c0"
    using skip_pings [OF c0] by blast
  have c: "concat (br d) = ws_frame (ks = []) ty key pl @ message_frames continuationFrame ks @ rest" "readRemaining d = 0" "readErr d = None"
      "readFinal d" "key_ok (\<not> isServer d) key" "keys_ok (\<not> isServer d) ks"
    using d(2-4) assms(6) kps by (simp_all add: between_def same_reader_def same_peer_def c0_def)
  have l: "0 \<le> readLength d" "readLength d + int (length pl) + payload_len ks < 2 ^ 63" "readLimit d \<le> 0 \<or> readLength d + int (length pl) + payload_len ks \<le> readLimit d"
    using assms(7,8) kps d(4,5) by (simp_all add: c0_def same_reader_def same_peer_def)
  have l': "readLength d + int (length pl) < 2 ^ 63" "readLimit d \<le> 0 \<or> readLength d + int (length pl) \<le> readLimit d"
    using l(2,3) payload_len_simps(3) [of ks] by linarith+
  obtain c1 where c1: "advanceFrame d = (Inr ty, c1)" "in_frame c1 pl (message_frames continuationFrame ks @ rest)" "readFinal c1 = (ks = [])"
      "readLength c1 = readLength d + int (length pl)" "same_reader d c1"
    using advanceFrame_into [OF c(1-3) _ c(5) l(1) l'] c(4) assms(5) by auto
  have "NextReader c = (Inr (ty, readSeq c1), c1)"
    using c1(1) c(3) assms(5) d(1) by (simp add: NextReader_def next_loop.simps [of d] c0_def [symmetric])
  moreover have "behind c1 ks" using c1(3-5) c(6) l by (simp add: behind_def within_limit_def same_reader_def same_peer_def)
  moreover obtain c2 where "ReadAll room (readSeq c1) [] c1 = ([] @ pl @ concat (map snd ks), None, c2)" "between c2" "concat (br c2) = rest"
      "same_peer c1 c2"
    using ReadAll_fragments [OF c1(2) \<open>behind c1 ks\<close> refl] by blast
  moreover have "same_peer c c0" by (simp add: c0_def same_peer_def)
  ultimately show ?thesis
    using kps c1(5) d(4) by (simp add: ReadMessage_def same_reader_def same_peer_def)
qed

section \<open>Conversations\<close>

text \<open>A peer that writes one message after the other and one that reads as many.\<close>

fun write_messages :: "(int \<times> byte list) list \<Rightarrow> Conn \<Rightarrow> (ws_err option \<times> Conn) go" where
  "write_messages [] c = Ret (None, c)"
| "write_messages ((ty, dat) # ms) c =
     go_bind (WriteMessage ty dat c) (\<lambda>(err, c'). if err \<noteq> None then Ret (err, c') else write_messages ms c')"

fun read_messages :: "(nat \<Rightarrow> nat) \<Rightarrow> nat \<Rightarrow> Conn \<Rightarrow> (int \<times> byte list \<times> ws_err option) list \<times> Conn" where
  "read_messages room 0 c = ([], c)"
| "read_messages room (Suc n) c =
     (let (ty, dat, err, c1) = ReadMessage room c; (ms, c2) = read_messages room n c1 in ((ty, dat, err) # ms, c2))"

definition message_ok :: "Conn \<Rightarrow> int \<times> byte list \<Rightarrow> bool" where
  "message_ok r m \<longleftrightarrow> isData (fst m) \<and> length (snd m) < 2 ^ 63 \<and> (readLimit r \<le> 0 \<or> int (length (snd m)) \<le> readLimit r)"

definition frames_ok :: "Conn \<Rightarrow> int \<times> byte list \<Rightarrow> (byte list option \<times> byte list) list \<Rightarrow> bool" where
  "frames_ok r m kps \<longleftrightarrow> kps \<noteq> [] \<and> keys_ok (\<not> isServer r) kps \<and> concat (map snd kps) = snd m \<and> message_ok r m"

text \<open>The reader of one role and limit takes messages off the stream, whatever fragments they come in.\<close>

definition ws_round :: "(nat \<Rightarrow> nat) \<Rightarrow> Conn \<Rightarrow> ((int \<times> byte list \<times> ws_err option) list \<times> Conn) go" where
  "ws_round room r = (case ReadMessage room r of (ty, dat, err, r') \<Rightarrow> Ret ([(ty, dat, err)], r'))"

lemma read_messages_rounds: "recv_n (ws_round room) n r = Ret (read_messages room n r)"
proof (induction n arbitrary: r)
  case (Suc n)
  obtain ty dat err r' where "ReadMessage room r = (ty, dat, err, r')" by (metis prod_cases4)
  then show ?case using Suc [of r'] by (auto simp: ws_round_def split: prod.splits)
qed simp

definition ws_encodes :: "Conn \<Rightarrow> int \<times> byte list \<times> ws_err option \<Rightarrow> byte list \<Rightarrow> bool" where
  "ws_encodes r m bs = (case m of (ty, dat, err) \<Rightarrow> err = None \<and>
     (\<exists>ps kps. bs = pings_wire ps @ message_frames ty kps \<and> pings_ok r ps \<and> frames_ok r (ty, dat) kps))"

interpretation wr: framed_reader "\<lambda>r. between r \<and> same_peer r0 r" "\<lambda>r. concat (br r)" "ws_round room" "ws_encodes r0" for r0 room
proof
  fix r m bs rest
  assume r: "between r \<and> same_peer r0 r" and "ws_encodes r0 m bs" and inp: "concat (br r) = bs @ rest"
  then obtain ty dat ps kps where m: "m = (ty, dat, None)" "bs = pings_wire ps @ message_frames ty kps" "pings_ok r0 ps" "frames_ok r0 (ty, dat) kps"
    by (auto simp: ws_encodes_def)
  have f: "kps \<noteq> []" "isData ty" "keys_ok (\<not> isServer r) kps" "payload_len kps < 2 ^ 63" "readLimit r \<le> 0 \<or> payload_len kps \<le> readLimit r" "concat (map snd kps) = dat"
    using m(4) r by (auto simp: frames_ok_def message_ok_def payload_len_def same_peer_def)
  have "concat (br r) = pings_wire ps @ message_frames ty kps @ rest" "pings_ok r ps" using inp m(2,3) r pings_same by auto
  then obtain r' where "ReadMessage room r = (ty, dat, None, r')" "between r'" "concat (br r') = rest" "same_peer r r'"
    using ReadMessage_ok [of r ps ty kps rest room] r f by blast
  then show "\<exists>r'. ws_round room r = Ret ([m], r') \<and> (between r' \<and> same_peer r0 r') \<and> concat (br r') = rest"
    using r m(1) by (simp add: ws_round_def same_peer_def)
qed

lemma ws_encodesI: "pings_ok r ps \<Longrightarrow> frames_ok r m kps \<Longrightarrow> ws_encodes r (fst m, snd m, None) (pings_wire ps @ message_frames (fst m) kps)"
  by (auto simp: ws_encodes_def)

lemma read_encoded:
  assumes "between r" and "list_all2 (ws_encodes r) ms bss" and "concat (br r) = concat bss @ rest"
  shows "fst (read_messages room (length ms) r) = ms"
  using wr.recv_n_delivers [of r r ms bss rest room] assms by (auto simp: read_messages_rounds same_peer_def)

lemma read_messages_ok:
  assumes "between r" and "concat (br r) = concat (map (\<lambda>(m, kps). message_frames (fst m) kps) mks) @ rest" and "\<forall>mk \<in> set mks. frames_ok r (fst mk) (snd mk)"
  shows "fst (read_messages room (length mks) r) = map (\<lambda>(m, _). (fst m, snd m, None)) mks"
proof -
  have "ws_encodes r (fst m, snd m, None) (message_frames (fst m) kps)" if "(m, kps) \<in> set mks" for m kps
    using assms(3) that ws_encodesI [of r "[]" m kps] by (force simp: pings_wire_def pings_ok_def)
  then have "list_all2 (ws_encodes r) (map (\<lambda>(m, _). (fst m, snd m, None)) mks) (map (\<lambda>(m, kps). message_frames (fst m) kps) mks)"
    by (auto simp: list_all2_map1 list_all2_map2 intro!: list.rel_refl_strong)
  then show ?thesis using read_encoded [OF assms(1)] assms(2) by fastforce
qed

lemma write_messages_ok:
  assumes "idle w" and "\<forall>m \<in> set ms. isData (fst m)"
  shows "\<exists>w' mks. write_messages ms w = Ret (None, w') \<and> idle w' \<and> map fst mks = ms \<and>
     sent w' = sent w @ concat (map (\<lambda>(m, kps). message_frames (fst m) kps) mks) \<and>
     (\<forall>mk \<in> set mks. snd mk \<noteq> [] \<and> keys_ok (isServer w) (snd mk) \<and> concat (map snd (snd mk)) = snd (fst mk))"
  using assms
proof (induction ms arbitrary: w)
  case (Cons m ms)
  obtain ty dat where m: "m = (ty, dat)" by fastforce
  then obtain w1 kps where w1: "WriteMessage ty dat w = Ret (None, w1)" "idle w1" "isServer w1 = isServer w" "sent w1 = sent w @ message_frames ty kps"
      "kps \<noteq> []" "concat (map snd kps) = dat" "keys_ok (isServer w) kps"
    using WriteMessage_ok [of w ty dat] Cons.prems by auto
  then obtain w' mks where "write_messages ms w1 = Ret (None, w')" "idle w'" "map fst mks = ms"
      "sent w' = sent w1 @ concat (map (\<lambda>(m, kps). message_frames (fst m) kps) mks)"
      "\<forall>mk \<in> set mks. snd mk \<noteq> [] \<and> keys_ok (isServer w1) (snd mk) \<and> concat (map snd (snd mk)) = snd (fst mk)"
    using Cons.IH [of w1] Cons.prems by auto
  then show ?case
    using w1 m by (intro exI [of _ w'] exI [of _ "(m, kps) # mks"]) simp
qed (auto intro: exI [of _ "[]"])

text \<open>
  C5. What one side of a websocket writes the other side reads: after any sequence of text and
  binary messages, however the writer's buffer fragments them and the keys mask them and in
  whatever pieces the bytes arrive, \<open>ReadMessage\<close> yields the same messages in the same order.
\<close>

theorem websocket_roundtrip:
  assumes "idle w" and "between r" and "isServer r \<noteq> isServer w" and "\<forall>m \<in> set ms. message_ok r m"
  shows "\<exists>w' wire. write_messages ms w = Ret (None, w') \<and> idle w' \<and> sent w' = sent w @ wire \<and>
     (\<forall>pieces. concat pieces = wire \<longrightarrow>
        fst (read_messages room (length ms) (r\<lparr>br := pieces\<rparr>)) = map (\<lambda>(ty, dat). (ty, dat, None)) ms)"
proof -
  obtain w' mks where w: "write_messages ms w = Ret (None, w')" "idle w'" "map fst mks = ms"
      "sent w' = sent w @ concat (map (\<lambda>(m, kps). message_frames (fst m) kps) mks)"
      "\<forall>mk \<in> set mks. snd mk \<noteq> [] \<and> keys_ok (isServer w) (snd mk) \<and> concat (map snd (snd mk)) = snd (fst mk)"
    using write_messages_ok [OF assms(1), of ms] assms(4) by (auto simp: message_ok_def)
  have "fst (read_messages room (length ms) (r\<lparr>br := pieces\<rparr>)) = map (\<lambda>(ty, dat). (ty, dat, None)) ms"
    if "concat pieces = concat (map (\<lambda>(m, kps). message_frames (fst m) kps) mks)" for pieces
  proof -
    have "between (r\<lparr>br := pieces\<rparr>)" using assms(2) by (simp add: between_def)
    moreover have "\<forall>mk \<in> set mks. frames_ok (r\<lparr>br := pieces\<rparr>) (fst mk) (snd mk)"
    proof
      fix mk assume mk: "mk \<in> set mks"
      then have "message_ok r (fst mk)" using assms(4) w(3) by auto
      moreover have "isServer w \<longleftrightarrow> \<not> isServer r" using assms(3) by auto
      ultimately show "frames_ok (r\<lparr>br := pieces\<rparr>) (fst mk) (snd mk)"
        using w(5) mk by (simp add: frames_ok_def message_ok_def)
    qed
    ultimately show ?thesis
      using read_messages_ok [of "r\<lparr>br := pieces\<rparr>" mks "[]" room] that w(3) [symmetric] by (simp add: split_beta comp_def)
  qed
  then show ?thesis using w by blast
qed

theorem websocket_roundtrip_witness:
  "\<exists>w' wire. write_messages [(TextMessage, [104, 105]), (BinaryMessage, [])] (newConn False 1 [] EOF [7]) = Ret (None, w') \<and> idle w' \<and> sent w' = wire \<and>
     (\<forall>pieces. concat pieces = wire \<longrightarrow>
        fst (read_messages (\<lambda>_. 0) 2 (newConn True 0 pieces EOF [])) = [(TextMessage, [104, 105], None), (BinaryMessage, [], None)])"
proof -
  have "between (newConn True 0 [] EOF [])" "\<forall>m \<in> set [(TextMessage, [104, 105]), (BinaryMessage, [])]. message_ok (newConn True 0 [] EOF []) m"
      "isServer (newConn True 0 [] EOF []) \<noteq> isServer (newConn False 1 [] EOF [7])" "sent (newConn False 1 [] EOF [7]) = []"
      "\<And>pieces. (newConn True 0 [] EOF [])\<lparr>br := pieces\<rparr> = newConn True 0 pieces EOF []"
    by (simp_all add: between_def newConn_def message_ok_def isData_def)
  then show ?thesis
    using websocket_roundtrip [of "newConn False 1 [] EOF [7]" "newConn True 0 [] EOF []" "[(TextMessage, [104, 105]), (BinaryMessage, [])]" "\<lambda>_. 0"] newConn_idle
    by (simp add: numeral_2_eq_2 del: write_messages.simps read_messages.simps)
qed

section \<open>The read limit\<close>

lemma advanceFrame_limit:
  assumes frame: "concat (br c) = ws_frame fin ty key pl @ rest" and none: "readRemaining c = 0"
    and ty: "if readFinal c then isData ty else ty = continuationFrame" and key: "key_ok (\<not> isServer c) key"
    and len: "0 \<le> readLength c" "readLength c + int (length pl) < 2 ^ 63" "0 < readLimit c" "readLimit c < readLength c + int (length pl)"
  shows "fst (advanceFrame c) = Inl ErrReadLimit"
proof -
  have w: "wrap64 (readLength c + int (length pl)) = readLength c + int (length pl)" "length pl < 2 ^ 63" using len(1,2) by (simp_all add: is_int64_def)
  have r: "readRemaining c \<le> 0" using none by simp
  obtain bs where "advanceFrame c = data_frame ty (after_header bs (int (length pl)) fin key c)"
    using advanceFrame_body [OF frame [unfolded ws_frame_raw] r length_field_len [OF w(2)] ty key] by blast
  then show ?thesis
    using data_frame_limit [of "after_header bs (int (length pl)) fin key c"] len(3,4) w(1) by simp
qed

lemma mr_loop_limit:
  assumes "readErr c = None" and "readRemaining c \<le> 0" and "\<not> readFinal c" and "fst (advanceFrame c) = Inl ErrReadLimit"
  shows "\<exists>c'. mr_loop k sq c = ([], Some ErrReadLimit, c')"
proof -
  obtain c1 where "advanceFrame c = (Inl ErrReadLimit, c1)" using assms(4) by (cases "advanceFrame c") auto
  then show ?thesis
    using assms(1-3) by (subst mr_loop.simps) (simp add: hideTempErr_def)
qed

lemma ReadAll_limit:
  assumes "in_frame c pl (message_frames continuationFrame kps @ rest)" and "readFinal c = (kps = [])" and "keys_ok (\<not> isServer c) kps"
    and "readSeq c = sq" and "int (length (acc @ pl)) = readLength c" and "0 < readLimit c" "readLength c \<le> readLimit c"
    and "readLength c + payload_len kps < 2 ^ 63" and "readLimit c < readLength c + payload_len kps"
  shows "\<exists>p c'. ReadAll room sq acc c = (p, Some ErrReadLimit, c') \<and> int (length p) \<le> readLimit c"
  using assms
proof (induction kps arbitrary: pl c acc)
  case (Cons kp kps)
  obtain key p where kp: "kp = (key, p)" by fastforce
  obtain c1 where c1: "ReadAll room sq acc c = ReadAll room sq (acc @ pl) c1" "in_frame c1 [] (message_frames continuationFrame (kp # kps) @ rest)"
      "same_message c c1"
    using ReadAll_frame [OF Cons.prems(1,4)] by blast
  have eq: "readLength c1 = readLength c" "readLimit c1 = readLimit c" "readSeq c1 = sq" "isServer c1 = isServer c" "\<not> readFinal c1"
    using c1(3) Cons.prems(2,4) by (simp_all add: same_message_def same_reader_def same_peer_def)
  have at: "concat (br c1) = ws_frame (kps = []) continuationFrame key p @ message_frames continuationFrame kps @ rest" "readRemaining c1 = 0" "readErr c1 = None"
    using c1(2) kp by (simp_all add: part_frame_def)
  show ?case
  proof (cases "readLimit c < readLength c + int (length p)")
    case True
    have "readLength c + int (length p) < 2 ^ 63" using Cons.prems(8) payload_len_simps(3) [of kps] unfolding kp payload_len_simps by linarith
    then have "fst (advanceFrame c1) = Inl ErrReadLimit"
      using advanceFrame_limit [OF at(1,2)] eq Cons.prems(2-7) True kp by simp
    then obtain c2 where "mr_loop (Suc (room (length (acc @ pl)))) sq c1 = ([], Some ErrReadLimit, c2)"
      using mr_loop_limit [of c1] at eq by fastforce
    then show ?thesis
      using c1(1) eq(3) Cons.prems(5,7) by (simp add: ReadAll.simps [of room sq "acc @ pl" c1] mr_Read_def)
  next
    case False
    obtain c2 where c2: "advanceFrame c1 = (Inr continuationFrame, c2)" "in_frame c2 p (message_frames continuationFrame kps @ rest)"
        "readFinal c2 = (kps = [])" "readLength c2 = readLength c1 + int (length p)" "same_reader c1 c2"
      using advanceFrame_into [OF at, where thesis = thesis] eq Cons.prems False kp payload_len_simps(3) [of kps] by simp
    have "mr_loop k sq c1 = mr_loop k sq c2" for k sq
      using at(2,3) eq(5) c2(1) by (subst mr_loop.simps) (simp add: isData_def ws_consts)
    then have step: "ReadAll room sq (acc @ pl) c1 = ReadAll room sq (acc @ pl) c2"
      using eq(3) c2(5) unfolding ReadAll.simps [of room sq "acc @ pl" c1] ReadAll.simps [of room sq "acc @ pl" c2]
      by (simp add: mr_Read_def same_reader_def same_peer_def)
    show ?thesis
      using Cons.IH [OF c2(2,3), of "acc @ pl"] step c1(1) c2(4,5) eq Cons.prems False kp by (simp add: same_reader_def same_peer_def)
  qed
qed simp

text \<open>
  C29. The read limit on honest frames: a text or binary message of more bytes than the limit is
  never delivered, however it is fragmented and in whatever pieces it arrives. \<open>ReadMessage\<close> fails
  with \<open>ErrReadLimit\<close>, and no more than the limit has been buffered by then.
\<close>

theorem read_limit_enforced:
  assumes "between c" and "concat (br c) = message_frames ty kps @ rest" and "isData ty" and "keys_ok (\<not> isServer c) kps"
    and "0 < readLimit c" and "readLimit c < payload_len kps" and "payload_len kps < 2 ^ 63"
  shows "\<exists>ty' p c'. ReadMessage room c = (ty', p, Some ErrReadLimit, c') \<and> int (length p) \<le> readLimit c"
proof -
  obtain key pl ks where kps: "kps = (key, pl) # ks" using assms(5,6) by (cases kps) auto
  define c0 where "c0 = c\<lparr>readSeq := Suc (readSeq c), readLength := 0\<rparr>"
  have c: "concat (br c0) = ws_frame (ks = []) ty key pl @ message_frames continuationFrame ks @ rest" "readRemaining c0 = 0" "readErr c0 = None"
      "readFinal c0" "key_ok (\<not> isServer c0) key" "keys_ok (\<not> isServer c0) ks" "readLength c0 = 0" "readLimit c0 = readLimit c"
    using assms(1,2,4) kps by (simp_all add: between_def c0_def)
  have small: "int (length pl) < 2 ^ 63" using assms(7) payload_len_simps(3) [of ks] unfolding kps payload_len_simps by linarith
  show ?thesis
  proof (cases "readLimit c < int (length pl)")
    case True
    have "fst (advanceFrame c0) = Inl ErrReadLimit"
      using advanceFrame_limit [OF c(1,2) _ c(5)] c(4,7,8) assms(3,5) True small by simp
    then obtain c1 where "advanceFrame c0 = (Inl ErrReadLimit, c1)" by (cases "advanceFrame c0") auto
    then show ?thesis
      using c(3) assms(5) by (simp add: ReadMessage_def NextReader_def c0_def [symmetric] next_loop.simps [of c0] hideTempErr_def)
  next
    case False
    obtain c1 where c1: "advanceFrame c0 = (Inr ty, c1)" "in_frame c1 pl (message_frames continuationFrame ks @ rest)" "readFinal c1 = (ks = [])"
        "readLength c1 = readLength c0 + int (length pl)" "same_reader c0 c1"
      using advanceFrame_into [OF c(1-3) _ c(5), where thesis = thesis] c(4,7,8) assms(3) False small by simp
    have "NextReader c = (Inr (ty, readSeq c1), c1)"
      using c1(1) c(3) assms(3) by (simp add: NextReader_def next_loop.simps c0_def [symmetric])
    moreover have "\<exists>p c'. ReadAll room (readSeq c1) [] c1 = (p, Some ErrReadLimit, c') \<and> int (length p) \<le> readLimit c1"
      using ReadAll_limit [OF c1(2,3) _ refl, of "[]"] c1(4,5) c(6-8) assms(5-7) False kps by (simp add: same_reader_def same_peer_def)
    ultimately show ?thesis
      using c1(5) c(8) by (auto simp: ReadMessage_def same_reader_def same_peer_def)
  qed
qed

theorem read_limit_enforced_witness:
  "\<exists>ty' p c'. ReadMessage (\<lambda>_. 2) (SetReadLimit 3 (newConn False 0 [message_frames TextMessage [(None, [1, 2]), (None, [3, 4])]] EOF [])) =
     (ty', p, Some ErrReadLimit, c') \<and> int (length p) \<le> 3"
  using read_limit_enforced [of "SetReadLimit 3 (newConn False 0 [message_frames TextMessage [(None, [1, 2]), (None, [3, 4])]] EOF [])"
      TextMessage "[(None, [1, 2]), (None, [3, 4])]" "[]" "\<lambda>_. 2"]
  by (simp add: between_def newConn_def SetReadLimit_def isData_def keys_ok_def key_ok_def)

text \<open>
  C30. The read limit can be bypassed: a first fragment whose 64-bit length has the top bit set makes
  the counter of the message negative, and the fragment that follows is delivered whole, however far
  its length lies above the limit.
\<close>

theorem read_limit_bypass:
  assumes "between c" and "concat (br c) = raw_frame False TextMessage key 127 (be64 (2 ^ 63)) (ws_frame True continuationFrame key' dat) @ rest"
    and "key_ok (\<not> isServer c) key" and "key_ok (\<not> isServer c) key'" and "0 < readLimit c" and "readLimit c < int (length dat)" and "length dat < 2 ^ 63"
  shows "\<exists>c'. ReadMessage room c = (TextMessage, dat, None, c')"
proof -
  define c0 where "c0 = c\<lparr>readSeq := Suc (readSeq c), readLength := 0\<rparr>"
  let ?frame = "ws_frame True continuationFrame key' dat @ rest"
  have c: "concat (br c0) = raw_frame False TextMessage key 127 (be64 (2 ^ 63)) ?frame" "readRemaining c0 \<le> 0" "readErr c0 = None"
      "if readFinal c0 then isData TextMessage else TextMessage = continuationFrame" "key_ok (\<not> isServer c0) key"
    using assms(1-3) by (simp_all add: between_def c0_def raw_frame_def isData_def)
  have field: "length_field 127 (be64 (2 ^ 63)) (- (2 ^ 63))" by (auto simp: length_field_def intro!: exI [of _ "2 ^ 63 :: 64 word"])
  obtain bs where bs: "advanceFrame c0 = data_frame TextMessage (after_header bs (- (2 ^ 63)) False key c0)" "concat bs = ?frame"
    using advanceFrame_body [OF c(1,2) field c(4,5)] by blast
  define c1 where "c1 = (after_header bs (- (2 ^ 63)) False key c0)\<lparr>readLength := - (2 ^ 63)\<rparr>"
  have c1: "concat (br c1) = ?frame" "readRemaining c1 \<le> 0" "readErr c1 = None" "\<not> readFinal c1" "readLength c1 = - (2 ^ 63)"
      "isServer c1 = isServer c" "readLimit c1 = readLimit c"
    using bs(2) c(3) by (simp_all add: c1_def c0_def)
  have "advanceFrame c0 = (Inr TextMessage, c1)"
    unfolding bs(1) c1_def using assms(5) by (subst data_frame_ok) (simp_all add: c0_def is_int64_def)
  then have reader: "NextReader c = (Inr (TextMessage, readSeq c1), c1)"
    using c(3) by (simp add: NextReader_def next_loop.simps c0_def [symmetric] isData_def)
  have r: "if readFinal c1 then isData continuationFrame else continuationFrame = continuationFrame" "key_ok (\<not> isServer c1) key'"
      "is_int64 (readLength c1 + int (length dat))" "readLimit c1 \<le> 0 \<or> readLength c1 + int (length dat) \<le> readLimit c1"
    using c1(4-7) assms(4-7) by (simp_all add: is_int64_def)
  obtain c2 where c2: "advanceFrame c1 = (Inr continuationFrame, c2)" "in_frame c2 dat rest" "readFinal c2" "same_reader c1 c2"
    using advanceFrame_enters [OF c1(1-3) r(1,2) assms(7) r(3,4)] by metis
  have "mr_loop k sq c1 = mr_loop k sq c2" for k sq
    using c1(2-4) c2(1) by (subst mr_loop.simps) (simp add: isData_def ws_consts)
  then have "ReadAll room (readSeq c1) [] c1 = ReadAll room (readSeq c1) [] c2"
    using c2(4) unfolding ReadAll.simps [of room "readSeq c1" "[]" c1] ReadAll.simps [of room "readSeq c1" "[]" c2]
    by (simp add: mr_Read_def same_reader_def same_peer_def)
  then show ?thesis
    using reader ReadAll_last [OF c2(2,3), of "readSeq c1" room "[]"] c2(4) by (auto simp: ReadMessage_def same_reader_def same_peer_def)
qed

theorem read_limit_bypass_witness:
  "\<exists>c'. ReadMessage (\<lambda>_. 511) (SetReadLimit 1 (newConn False 0 [raw_frame False TextMessage None 127 (be64 (2 ^ 63))
     (ws_frame True continuationFrame None [1, 2, 3])] EOF [])) = (TextMessage, [1, 2, 3], None, c')"
  using read_limit_bypass [of "SetReadLimit 1 (newConn False 0 [raw_frame False TextMessage None 127 (be64 (2 ^ 63))
     (ws_frame True continuationFrame None [1, 2, 3])] EOF [])" None None "[1, 2, 3]" "[]" "\<lambda>_. 511"]
  by (simp add: between_def newConn_def SetReadLimit_def key_ok_def)

section \<open>A connection that ends inside a frame\<close>

text \<open>
  A message cut short is taken for a complete one: when the peer's stream ends inside the
  payload of the last frame, \<open>ReadMessage\<close> returns the bytes that came and no error, although a
  stream that ends inside a header is reported as \<open>errUnexpectedEOF\<close>.
\<close>

lemma truncated_message_accepted:
  assumes "between c" and "concat (br c) @ missing = ws_frame True ty key pl" and "isData ty" and "key_ok (\<not> isServer c) key"
    and "0 < length missing" and "length missing \<le> length pl" and "length pl < 2 ^ 63" and "readLimit c \<le> 0 \<or> int (length pl) \<le> readLimit c"
    and "read_end c = EOF"
  shows "\<exists>c'. ReadMessage room c = (ty, take (length pl - length missing) pl, None, c')"
proof -
  let ?j = "length pl - length missing"
  define c0 where "c0 = c\<lparr>readSeq := Suc (readSeq c), readLength := 0\<rparr>"
  have "concat (br c) = take (length (ws_frame True ty key pl) - length missing) (ws_frame True ty key pl)"
    unfolding assms(2) [symmetric] by simp
  also have "\<dots> = raw_frame True ty key (len7 (length pl)) (len_ext (length pl)) (take ?j (wire_payload key pl))"
    using assms(6) by (auto simp: ws_frame_parts raw_frame_def wire_payload_def take_Cons' split: option.splits)
  finally have c: "concat (br c0) = raw_frame True ty key (len7 (length pl)) (len_ext (length pl)) (take ?j (wire_payload key pl))"
      "readRemaining c0 \<le> 0" "if readFinal c0 then isData ty else ty = continuationFrame" "key_ok (\<not> isServer c0) key" "readErr c0 = None"
    using assms(1,3,4) by (simp_all add: between_def c0_def)
  obtain bs where bs: "advanceFrame c0 = data_frame ty (after_header bs (int (length pl)) True key c0)" "concat bs = take ?j (wire_payload key pl)"
    using advanceFrame_body [OF c(1,2) length_field_len [OF assms(7)] c(3,4)] by blast
  define c1 where "c1 = (after_header bs (int (length pl)) True key c0)\<lparr>readLength := int (length pl)\<rparr>"
  have "advanceFrame c0 = (Inr ty, c1)"
    unfolding bs(1) c1_def using assms(7,8) by (subst data_frame_ok) (simp_all add: c0_def is_int64_def)
  then have reader: "NextReader c = (Inr (ty, readSeq c1), c1)"
    using c(5) assms(3) by (simp add: NextReader_def next_loop.simps c0_def [symmetric])
  have "part_frame c1 (length missing) (take ?j pl) []"
    using c(5) bs(2) assms(4,6) by (cases key) (simp_all add: part_frame_def c1_def wire_payload_def take_mask key_ok_def after_header_def c0_def)
  then obtain c2 where c2: "ReadAll room (readSeq c1) [] c1 = ReadAll room (readSeq c1) (take ?j pl) c2" "part_frame c2 (length missing) [] []" "same_message c1 c2"
    using ReadAll_frame [OF _ refl, of c1 _ _ _ room "[]"] by fastforce
  have "read_end c2 = EOF" "readSeq c2 = readSeq c1" using c2(3) assms(9) by (simp_all add: same_message_def same_reader_def same_peer_def c1_def c0_def)
  then have "\<exists>c'. mr_Read k (readSeq c1) c2 = ([], Some EOF, c')" for k
    using c2(2) assms(5) by (cases rule: br_Read_cases [of "min k (length missing)" c2])
      (auto simp: mr_Read_def mr_loop.simps [of k _ c2] part_frame_def Let_def hideTempErr_def split: if_splits)
  then obtain c' where "mr_Read (Suc (room (length (take ?j pl)))) (readSeq c1) c2 = ([], Some EOF, c')" by blast
  then show ?thesis
    using reader c2(1) by (simp add: ReadMessage_def ReadAll.simps [of room "readSeq c1" "take ?j pl" c2])
qed

end
