(* ===== verification/Ws_Pump.thy ===== *)
theory Ws_Pump
  imports Websocket_Hub Ws_Read
begin

text \<open>
  The write pump of \<open>src/ws/ws.go\<close> on a real websocket connection: \<open>connection.write\<close> and the loop of
  \<open>Heartbeat\<close> with \<open>WriteMessage\<close> of \<open>Ws_Conn\<close> in the place of a scripted outcome.  The loop refines the
  one of \<open>Websocket_Hub\<close>, and what it writes is what a client reads.
\<close>

section \<open>The pump\<close>

definition pump_write :: "int \<Rightarrow> byte list \<Rightarrow> Conn \<Rightarrow> (ws_err option \<times> Conn) go" where
  "pump_write mt payload c = WriteMessage mt payload c"

fun pump :: "hb_event list \<Rightarrow> Conn \<Rightarrow> (bool \<times> Conn) go" where
  "pump [] c = Ret (False, c)"
| "pump (Hb_Message m # es) c =
     go_bind (pump_write Ws_Conn.TextMessage m c) (\<lambda>(err, c'). if err \<noteq> None then Ret (True, ws_Close c') else pump es c')"
| "pump (Hb_Closed # es) c =
     go_bind (pump_write Ws_Conn.CloseMessage [] c) (\<lambda>(_, c'). Ret (True, ws_Close c'))"
| "pump (Hb_Tick # es) c =
     go_bind (pump_write Ws_Conn.PingMessage [] c) (\<lambda>(err, c'). if err \<noteq> None then Ret (True, ws_Close c') else pump es c')"

fun opcode :: "frame_type \<Rightarrow> int" where
  "opcode Websocket_Hub.CloseMessage = Ws_Conn.CloseMessage"
| "opcode Websocket_Hub.TextMessage = Ws_Conn.TextMessage"
| "opcode Websocket_Hub.PingMessage = Ws_Conn.PingMessage"

fun write_all :: "(frame_type \<times> byte list) list \<Rightarrow> Conn \<Rightarrow> Conn go" where
  "write_all [] c = Ret c"
| "write_all ((ft, dat) # fs) c = go_bind (pump_write (opcode ft) dat c) (\<lambda>(_, c'). write_all fs c')"

text \<open>The pump writes the frames that \<open>Heartbeat\<close> lists for some outcomes of its writes.\<close>

lemma pump_refines_Heartbeat:
  assumes "pump es c = Ret (ended, c')"
  shows "\<exists>oks c1. length oks = length es \<and> snd (Heartbeat (zip es oks)) = ended \<and>
     write_all (fst (Heartbeat (zip es oks))) c = Ret c1 \<and> c' = (if ended then ws_Close c1 else c1)"
  using assms
proof (induction es arbitrary: c)
  case Nil
  then show ?case by simp
next
  case (Cons e es)
  have step: "\<exists>oks c1. length oks = length (e # es) \<and> snd (Heartbeat (zip (e # es) oks)) = ended \<and>
      write_all (fst (Heartbeat (zip (e # es) oks))) c = Ret c1 \<and> c' = (if ended then ws_Close c1 else c1)"
    if e: "\<And>ok fs. Heartbeat ((e, ok) # fs) = (if \<not> ok then ([(ft, dat)], True) else map_prod (Cons (ft, dat)) id (Heartbeat fs))"
      and w: "go_bind (pump_write (opcode ft) dat c) (\<lambda>(err, c'). if err \<noteq> None then Ret (True, ws_Close c') else pump es c') = Ret (ended, c')" for ft dat
  proof -
    obtain err c2 where c2: "pump_write (opcode ft) dat c = Ret (err, c2)" "(if err \<noteq> None then Ret (True, ws_Close c2) else pump es c2) = Ret (ended, c')"
      using w by auto
    show ?thesis
    proof (cases err)
      case None
      then obtain oks c1 where "length oks = length es" "snd (Heartbeat (zip es oks)) = ended"
          "write_all (fst (Heartbeat (zip es oks))) c2 = Ret c1" "c' = (if ended then ws_Close c1 else c1)"
        using Cons.IH [of c2] c2(2) by auto
      then show ?thesis using c2(1) e by (intro exI [of _ "True # oks"] exI [of _ c1]) simp
    next
      case (Some x)
      then show ?thesis using c2 e by (intro exI [of _ "False # replicate (length es) True"] exI [of _ c2]) auto
    qed
  qed
  show ?case
  proof (cases e)
    case (Hb_Message m)
    then show ?thesis using Cons.prems by (intro step [of Websocket_Hub.TextMessage m]) simp_all
  next
    case Hb_Tick
    then show ?thesis using Cons.prems by (intro step [of Websocket_Hub.PingMessage "[]"]) simp_all
  next
    case Hb_Closed
    then show ?thesis using Cons.prems by (intro exI [of _ "replicate (Suc (length es)) True"]) (auto split: prod.splits)
  qed
qed

section \<open>What the client reads\<close>

lemma WriteMessage_ping:
  assumes "idle c"
  shows "\<exists>c'. WriteMessage Ws_Conn.PingMessage [] c = Ret (None, c') \<and> idle c' \<and> isServer c' = isServer c \<and>
     sent c' = sent c @ ws_frame True Ws_Conn.PingMessage (next_key c) []"
proof -
  let ?c = "c\<lparr>writeFrameType := Ws_Conn.PingMessage\<rparr>"
  have c: "writer_ok ?c" "buffered ?c = []" "mw_err (writeSeq c) ?c = None" "next_key ?c = next_key c" "isControl Ws_Conn.PingMessage" "Ws_Conn.PingMessage \<noteq> Ws_Conn.CloseMessage"
    using assms by (simp_all add: idle_def writer_ok_def buffered_def mw_err_def isControl_def next_key_def ws_consts)
  then obtain buf where buf: "length buf = length (writeBuf c)"
      "flushFrame True [] ?c = (None, flushed True (ws_frame True Ws_Conn.PingMessage (next_key c) []) buf ?c)"
    using flushFrame_ok [of ?c True "[]"] by auto
  have "NextWriter Ws_Conn.PingMessage c = (Inr (writeSeq c), ?c)"
    using assms c(5) by (simp add: NextWriter_def idle_def writer_ok_def)
  then have "WriteMessage Ws_Conn.PingMessage [] c = Ret (flushFrame True [] ?c)"
    using c(3) by (simp add: WriteMessage_def mw_write_def copy_loop.simps)
  then show ?thesis
    using buf flushed_ok [OF c(1), of buf True] c(6) by (simp add: idle_def)
qed

definition texts :: "hb_event list \<Rightarrow> byte list list" where
  "texts es = concat (map (\<lambda>e. case e of Hb_Message m \<Rightarrow> [m] | _ \<Rightarrow> []) es)"

definition empty_pings :: "(byte list option \<times> byte list) list \<Rightarrow> bool" where
  "empty_pings ps \<longleftrightarrow> set ps \<subseteq> {(None, [])}"

definition text_wire :: "byte list \<Rightarrow> byte list \<Rightarrow> bool" where
  "text_wire m bs \<longleftrightarrow> (\<exists>ps kps. bs = pings_wire ps @ message_frames Ws_Conn.TextMessage kps \<and> empty_pings ps \<and> kps \<noteq> [] \<and> keys_ok True kps \<and> concat (map snd kps) = m)"

lemma pump_ok:
  assumes "idle w" and "isServer w" and "Hb_Closed \<notin> set es"
  shows "\<exists>w' out. pump es w = Ret (False, w') \<and> idle w' \<and> isServer w' \<and> sent w' = sent w @ out \<and>
     (\<forall>ps0. empty_pings ps0 \<longrightarrow> (\<exists>bss ps. pings_wire ps0 @ out = concat bss @ pings_wire ps \<and> list_all2 text_wire (texts es) bss))"
  using assms
proof (induction es arbitrary: w)
  case Nil
  then show ?case by (intro exI [of _ w] exI [of _ "[]"]) (auto simp: texts_def)
next
  case (Cons e es)
  show ?case
  proof (cases e)
    case (Hb_Message m)
    obtain w1 kps where w1: "WriteMessage Ws_Conn.TextMessage m w = Ret (None, w1)" "idle w1" "isServer w1 = isServer w"
        "sent w1 = sent w @ message_frames Ws_Conn.TextMessage kps" "kps \<noteq> []" "concat (map snd kps) = m" "keys_ok (isServer w) kps"
      using WriteMessage_ok [OF Cons.prems(1), of Ws_Conn.TextMessage m] by (auto simp: isData_def)
    then obtain w' out where w': "pump es w1 = Ret (False, w')" "idle w'" "isServer w'" "sent w' = sent w1 @ out"
        "\<And>ps0. empty_pings ps0 \<Longrightarrow> \<exists>bss ps. pings_wire ps0 @ out = concat bss @ pings_wire ps \<and> list_all2 text_wire (texts es) bss"
      using Cons.IH [of w1] Cons.prems by auto
    obtain bss ps where bss: "out = concat bss @ pings_wire ps" "list_all2 text_wire (texts es) bss"
      using w'(5) [of "[]"] by (auto simp: empty_pings_def pings_wire_def)
    have "list_all2 text_wire (texts (e # es)) ((pings_wire ps0 @ message_frames Ws_Conn.TextMessage kps) # bss)" if "empty_pings ps0" for ps0
      using that w1(5-7) Cons.prems(2) bss(2) by (auto simp: Hb_Message texts_def text_wire_def)
    then have "\<exists>bss ps. pings_wire ps0 @ message_frames Ws_Conn.TextMessage kps @ out = concat bss @ pings_wire ps \<and> list_all2 text_wire (texts (e # es)) bss"
      if "empty_pings ps0" for ps0
      using that bss(1) by (intro exI [of _ "(pings_wire ps0 @ message_frames Ws_Conn.TextMessage kps) # bss"] exI [of _ ps]) simp
    then show ?thesis
      using w1(1,4) w'(1-4) Hb_Message by (intro exI [of _ w'] exI [of _ "message_frames Ws_Conn.TextMessage kps @ out"]) (simp add: pump_write_def)
  next
    case Hb_Tick
    let ?p = "ws_frame True Ws_Conn.PingMessage None []"
    obtain w1 where w1: "WriteMessage Ws_Conn.PingMessage [] w = Ret (None, w1)" "idle w1" "isServer w1" "sent w1 = sent w @ ?p"
      using WriteMessage_ping [OF Cons.prems(1)] Cons.prems(2) by (auto simp: next_key_def)
    then obtain w' out where w': "pump es w1 = Ret (False, w')" "idle w'" "isServer w'" "sent w' = sent w1 @ out"
        "\<And>ps0. empty_pings ps0 \<Longrightarrow> \<exists>bss ps. pings_wire ps0 @ out = concat bss @ pings_wire ps \<and> list_all2 text_wire (texts es) bss"
      using Cons.IH [of w1] Cons.prems by auto
    have "\<exists>bss ps. pings_wire ps0 @ ?p @ out = concat bss @ pings_wire ps \<and> list_all2 text_wire (texts (e # es)) bss" if "empty_pings ps0" for ps0
      using w'(5) [of "ps0 @ [(None, [])]"] that by (auto simp: Hb_Tick texts_def pings_wire_def empty_pings_def)
    then show ?thesis
      using w1(1,4) w'(1-4) Hb_Tick by (intro exI [of _ w'] exI [of _ "?p @ out"]) (simp add: pump_write_def)
  qed (use Cons.prems in simp)
qed

text \<open>
  C6. From the hub to the client.  Whatever messages the write pump of a connection takes from its
  channel, with pings at any ticks in between, a client that answers pings reads exactly these
  messages, in order, as text messages, in whatever pieces the bytes arrive.
\<close>

theorem pump_reaches_client:
  assumes "idle w" and "isServer w" and "Hb_Closed \<notin> set es" and "between r" and "\<not> isServer r" and "can_write r" and "handlePing r = None"
    and "\<forall>m \<in> set (texts es). message_ok r (Ws_Conn.TextMessage, m)"
  shows "\<exists>w' wire. pump es w = Ret (False, w') \<and> sent w' = sent w @ wire \<and>
     (\<forall>pieces. concat pieces = wire \<longrightarrow>
        fst (read_messages room (length (texts es)) (r\<lparr>br := pieces\<rparr>)) = map (\<lambda>m. (Ws_Conn.TextMessage, m, None)) (texts es))"
proof -
  obtain w' out where p: "pump es w = Ret (False, w')" "sent w' = sent w @ out"
      "\<And>ps0. empty_pings ps0 \<Longrightarrow> \<exists>bss ps. pings_wire ps0 @ out = concat bss @ pings_wire ps \<and> list_all2 text_wire (texts es) bss"
    using pump_ok [OF assms(1-3)] by blast
  then obtain bss ps where w': "out = concat bss @ pings_wire ps" "list_all2 text_wire (texts es) bss"
    using p(3) [of "[]"] by (auto simp: empty_pings_def pings_wire_def)
  have "fst (read_messages room (length (texts es)) (r\<lparr>br := pieces\<rparr>)) = map (\<lambda>m. (Ws_Conn.TextMessage, m, None)) (texts es)"
    if "concat pieces = out" for pieces
  proof -
    let ?r = "r\<lparr>br := pieces\<rparr>"
    have enc: "ws_encodes ?r (Ws_Conn.TextMessage, m, None) bs" if tw: "text_wire m bs" and m: "m \<in> set (texts es)" for m bs
    proof -
      obtain qs kps where q: "bs = pings_wire qs @ message_frames Ws_Conn.TextMessage kps" "empty_pings qs" "kps \<noteq> []" "keys_ok True kps" "concat (map snd kps) = m"
        using tw unfolding text_wire_def by blast
      have "pings_ok ?r qs" using q(2) assms(5-7) by (auto simp: pings_ok_def empty_pings_def key_ok_def)
      moreover have "frames_ok ?r (Ws_Conn.TextMessage, m) kps"
        using q(3-5) assms(5,8) m by (simp add: frames_ok_def message_ok_def)
      ultimately show ?thesis using ws_encodesI [of ?r qs "(Ws_Conn.TextMessage, m)" kps] q(1) by simp
    qed
    have "list_all2 (ws_encodes ?r) (map (\<lambda>m. (Ws_Conn.TextMessage, m, None)) (texts es)) bss"
      using w'(2) enc by (auto simp: list_all2_map1 list_all2_conv_all_nth)
    moreover have "between ?r" using assms(4) by (simp add: between_def)
    ultimately show ?thesis
      using read_encoded [of ?r "map (\<lambda>m. (Ws_Conn.TextMessage, m, None)) (texts es)" bss "pings_wire ps" room] that w'(1) by simp
  qed
  then show ?thesis using p(1,2) by blast
qed

theorem pump_reaches_client_witness:
  "\<exists>w' wire. pump [Hb_Tick, Hb_Message [104, 105], Hb_Tick] (newConn True 0 [] EOF []) = Ret (False, w') \<and> sent w' = wire \<and>
     (\<forall>pieces. concat pieces = wire \<longrightarrow>
        fst (read_messages (\<lambda>_. 511) 1 (newConn False 0 pieces EOF [])) = [(Ws_Conn.TextMessage, [104, 105], None)])"
proof -
  let ?r = "newConn False 0 [] EOF []" and ?es = "[Hb_Tick, Hb_Message [104, 105], Hb_Tick]"
  have "between ?r" "\<not> isServer ?r" "can_write ?r" "handlePing ?r = None" "isServer (newConn True 0 [] EOF [])" "sent (newConn True 0 [] EOF []) = []"
      "\<And>pieces. ?r\<lparr>br := pieces\<rparr> = newConn False 0 pieces EOF []" "texts ?es = [[104, 105]]"
      "message_ok ?r (Ws_Conn.TextMessage, [104, 105])"
    by (simp_all add: between_def newConn_def can_write_def texts_def message_ok_def isData_def)
  then show ?thesis
    using pump_reaches_client [of "newConn True 0 [] EOF []" ?es ?r "\<lambda>_. 511"] newConn_idle
    by (simp del: pump.simps read_messages.simps)
qed

section \<open>The read pump\<close>

text \<open>
  \<open>GetHeartbeat\<close> on a real connection: it reads and discards messages until \<open>ReadMessage\<close> fails, then
  leaves the registry and closes the connection.  Every message takes bytes off the input, so the loop
  ends on every finite input.
\<close>

lemma keeps_advanceFrame: "input_size (snd (advanceFrame c)) \<le> input_size c"
  unfolding advanceFrame_def Let_def
  by (intro keeps_bind) (auto simp: keepsD keeps_header keeps_length keeps_mask keeps_data keeps_payload keeps_control intro!: keeps_bind)

lemma next_loop_shrinks: "next_loop c = (Inr ty, c') \<Longrightarrow> input_size c' < input_size c"
proof (induction c rule: next_loop.induct)
  case (1 c)
  obtain r c1 where adv: "advanceFrame c = (r, c1)" by fastforce
  from "1.prems" have err: "readErr c = None" by (cases "readErr c") (simp_all add: next_loop.simps)
  show ?case
  proof (cases r)
    case (Inl e)
    then show ?thesis using "1.prems" err adv by (simp add: next_loop.simps)
  next
    case (Inr ft)
    have "input_size c1 < input_size c" using advanceFrame_shrinks adv Inr by blast
    moreover have "c1 = c' \<or> input_size c' < input_size c1"
      using "1.prems" "1.IH" [OF err _ _ _] err adv Inr by (auto simp: next_loop.simps [of c] split: if_splits)
    ultimately show ?thesis by auto
  qed
qed

lemma mr_loop_keeps: "input_size (snd (snd (mr_loop k sq c))) \<le> input_size c"
proof (induction "if readErr c = None then Suc (input_size c) else 0" arbitrary: c rule: less_induct)
  case less
  show ?case
  proof (cases "readErr c = None \<and> readRemaining c \<le> 0 \<and> \<not> readFinal c")
    case True
    obtain r c1 where adv: "advanceFrame c = (r, c1)" by fastforce
    show ?thesis
    proof (cases r)
      case (Inl e)
      then show ?thesis using True adv keeps_advanceFrame [of c] by (simp add: mr_loop.simps [of k sq c])
    next
      case (Inr ft)
      then have lt: "input_size c1 < input_size c" using advanceFrame_shrinks adv by blast
      have "input_size (snd (snd (mr_loop k sq c1))) \<le> input_size c1" using True lt by (intro less.hyps) simp
      then show ?thesis using lt True adv Inr by (auto simp: mr_loop.simps [of k sq c] split: if_splits)
    qed
  next
    case False
    then show ?thesis
    proof (cases "readErr c = None \<and> readRemaining c > 0")
      case True
      then show ?thesis
        by (cases rule: br_Read_cases [of "min k (nat (readRemaining c))" c]) (auto simp: mr_loop.simps [of k sq c] Let_def input_size_def split_beta)
    next
      case other: False
      then show ?thesis using False by (auto simp: mr_loop.simps [of k sq c] split: option.splits)
    qed
  qed
qed

lemma ReadAll_keeps: "input_size (snd (snd (ReadAll room sq acc c))) \<le> input_size c"
proof (induction room sq acc c rule: ReadAll.induct)
  case (1 room sq acc c)
  obtain got err c1 where m: "mr_Read (Suc (room (length acc))) sq c = (got, err, c1)" by (metis prod_cases3)
  then have "input_size c1 \<le> input_size c"
    using mr_loop_keeps [of "Suc (room (length acc))" sq c] by (auto simp: mr_Read_def split: if_splits)
  then show ?case using "1.IH" [OF m [symmetric] refl] m by (cases err) (simp_all add: ReadAll.simps [of room sq acc c])
qed

lemma ReadMessage_shrinks:
  assumes "ReadMessage room c = (ty, p, None, c')"
  shows "input_size c' < input_size c"
proof -
  let ?c = "c\<lparr>readSeq := Suc (readSeq c), readLength := 0\<rparr>"
  obtain r c1 where n: "next_loop ?c = (r, c1)" by fastforce
  then obtain ft where "r = Inr ft" using assms by (cases r) (simp_all add: ReadMessage_def NextReader_def)
  then have "input_size c1 < input_size c" using next_loop_shrinks [of ?c ft c1] n by simp
  moreover have "c' = snd (snd (ReadAll room (readSeq c1) [] c1))"
    using assms n \<open>r = Inr ft\<close> by (simp add: ReadMessage_def NextReader_def split: prod.splits)
  ultimately show ?thesis using ReadAll_keeps [of room "readSeq c1" "[]" c1] by simp
qed

function read_pump :: "(nat \<Rightarrow> nat) \<Rightarrow> Conn \<Rightarrow> ws_err \<times> Conn" where
  "read_pump room c =
     (case ReadMessage room c of
        (_, _, Some e, c') \<Rightarrow> (e, c')
      | (_, _, None, c') \<Rightarrow> read_pump room c')"
  by pat_completeness auto
termination
  by (relation "measure (input_size \<circ> snd)") (auto dest: ReadMessage_shrinks [OF sym])

declare read_pump.simps [simp del]

definition maxMessageSize :: int where
  "maxMessageSize = 64"

definition GetHeartbeat_on :: "(nat \<Rightarrow> nat) \<Rightarrow> nat \<Rightarrow> Conn \<Rightarrow> hub \<Rightarrow> ws_error option \<times> hub \<times> Conn" where
  "GetHeartbeat_on room i c h =
     (let (_, c') = read_pump room (SetPongHandler (Some (\<lambda>_. None)) (SetReadLimit maxMessageSize c));
          (err, h') = Leave i h
      in (err, h', ws_Close c'))"

end
