(* ===== verification/Queue_Interleaving.thy ===== *)
theory Queue_Interleaving
  imports Ring_Queue
begin

text \<open>
  The message queue of \<open>src/queue/queue.go\<close> under concurrent use.  Every section between \<open>Lock\<close> and
  \<open>Unlock\<close> of \<open>varLock\<close> is one step; between the sections other goroutines run.  \<open>queueLock.L\<close> is held
  by its \<open>owner\<close>, \<open>Wait\<close> puts the goroutine to sleep and releases it in one step, \<open>Signal\<close> wakes one of
  the sleepers.  A panic inside a section leaves \<open>varLock\<close> locked, because the sections do not use
  \<open>defer\<close>.

  \<open>pushed\<close> and \<open>popped\<close> record the messages in the order in which they were stored and returned.
\<close>

section \<open>Goroutines and steps\<close>

datatype 'a pc =
    Idle
  | P_Check 'a
  | P_Write 'a
  | F_Check 'a
  | F_Write 'a
  | P_Signal
  | C_Lock
  | C_Test
  | C_Wait
  | C_Asleep
  | C_Read
  | C_Advance "'a option"
  | C_Unlock "'a option"
  | Panicked go_fault

record 'a qstate =
  ring_of :: "'a GrandmaQueue"
  pc :: "nat \<Rightarrow> 'a pc"
  owner :: "nat option"
  asleep :: "nat list"
  var_stuck :: bool
  pushed :: "'a list"
  popped :: "'a option list"

definition init_qstate :: "nat \<Rightarrow> 'a qstate" where
  "init_qstate m = \<lparr>ring_of = NewQueue m, pc = (\<lambda>_. Idle), owner = None, asleep = [], var_stuck = False, pushed = [], popped = []\<rparr>"

definition goto :: "nat \<Rightarrow> 'a pc \<Rightarrow> 'a qstate \<Rightarrow> 'a qstate" where
  "goto t p s = s\<lparr>pc := (pc s)(t := p)\<rparr>"

text \<open>The locked section of \<open>PushMessage\<close> and of \<open>PushFront\<close>.\<close>

definition write_back :: "nat \<Rightarrow> 'a \<Rightarrow> 'a GrandmaQueue \<Rightarrow> 'a GrandmaQueue go" where
  "write_back qlen obj q =
     go_bind (slice_set (queue q) (int (pointer q)) (Some obj)) (\<lambda>s. Ret (q\<lparr>queue := s, pointer := increase qlen (pointer q)\<rparr>))"

definition write_front :: "nat \<Rightarrow> 'a \<Rightarrow> 'a GrandmaQueue \<Rightarrow> 'a GrandmaQueue go" where
  "write_front qlen obj q =
     (let f = decrease qlen (front q) in go_bind (slice_set (queue q) (int f) (Some obj)) (\<lambda>s. Ret (q\<lparr>front := f, queue := s\<rparr>)))"

definition in_section :: "nat \<Rightarrow> 'b go \<Rightarrow> ('b \<Rightarrow> 'a qstate) \<Rightarrow> 'a qstate \<Rightarrow> 'a qstate option" where
  "in_section t m f s =
     (if var_stuck s then None
      else (case m of
        Ret x \<Rightarrow> Some (f x)
      | Panic e \<Rightarrow> Some (goto t (Panicked e) (s\<lparr>var_stuck := True\<rparr>))
      | Hang \<Rightarrow> None))"

definition checked :: "nat \<Rightarrow> nat \<Rightarrow> 'a pc \<Rightarrow> 'a qstate \<Rightarrow> 'a qstate option" where
  "checked n t p s = in_section t (Ret (IsFull n (ring_of s))) (\<lambda>full. goto t (if full then Panicked queue_full_panic else p) s) s"

definition signal :: "nat \<Rightarrow> nat \<Rightarrow> 'a qstate \<Rightarrow> 'a qstate option" where
  "signal t w s =
     (if asleep s = [] then Some (goto t Idle s)
      else if w \<in> set (asleep s) then Some (goto w C_Lock (goto t Idle (s\<lparr>asleep := remove1 w (asleep s)\<rparr>)))
      else None)"

definition run_push :: "nat \<Rightarrow> nat \<Rightarrow> nat \<Rightarrow> 'a qstate \<Rightarrow> 'a qstate option" where
  "run_push n t w s =
     (case pc s t of
        P_Check x \<Rightarrow> checked n t (P_Write x) s
      | P_Write x \<Rightarrow> in_section t (write_back n x (ring_of s)) (\<lambda>q. goto t P_Signal (s\<lparr>ring_of := q, pushed := pushed s @ [x]\<rparr>)) s
      | F_Check x \<Rightarrow> checked n t (F_Write x) s
      | F_Write x \<Rightarrow> in_section t (write_front n x (ring_of s)) (\<lambda>q. goto t P_Signal (s\<lparr>ring_of := q, pushed := pushed s @ [x]\<rparr>)) s
      | P_Signal \<Rightarrow> signal t w s
      | _ \<Rightarrow> None)"

definition run_pop :: "nat \<Rightarrow> nat \<Rightarrow> 'a qstate \<Rightarrow> 'a qstate option" where
  "run_pop n t s =
     (case pc s t of
        C_Lock \<Rightarrow> if owner s = None then Some (goto t C_Test (s\<lparr>owner := Some t\<rparr>)) else None
      | C_Test \<Rightarrow> in_section t (Ret (IsEmpty (ring_of s))) (\<lambda>empty. goto t (if empty then C_Wait else C_Read) s) s
      | C_Wait \<Rightarrow> Some (goto t C_Asleep (s\<lparr>asleep := asleep s @ [t], owner := None\<rparr>))
      | C_Read \<Rightarrow> in_section t (slice_get (queue (ring_of s)) (int (front (ring_of s)))) (\<lambda>v. goto t (C_Advance v) s) s
      | C_Advance v \<Rightarrow> in_section t (Ret (increase n (front (ring_of s)))) (\<lambda>f. goto t (C_Unlock v) (s\<lparr>ring_of := (ring_of s)\<lparr>front := f\<rparr>\<rparr>)) s
      | C_Unlock v \<Rightarrow> Some (goto t Idle (s\<lparr>owner := None, popped := popped s @ [v]\<rparr>))
      | _ \<Rightarrow> None)"

definition is_push :: "'a pc \<Rightarrow> bool" where
  "is_push p = (case p of P_Check _ \<Rightarrow> True | P_Write _ \<Rightarrow> True | F_Check _ \<Rightarrow> True | F_Write _ \<Rightarrow> True | P_Signal \<Rightarrow> True | _ \<Rightarrow> False)"

datatype 'a qevent = Call_Push nat 'a | Call_PushFront nat 'a | Call_Pop nat | Run nat nat

fun qstep :: "nat \<Rightarrow> 'a qevent \<Rightarrow> 'a qstate \<Rightarrow> 'a qstate option" where
  "qstep n (Call_Push t x) s = (if pc s t = Idle then Some (goto t (P_Check x) s) else None)"
| "qstep n (Call_PushFront t x) s = (if pc s t = Idle then Some (goto t (F_Check x) s) else None)"
| "qstep n (Call_Pop t) s = (if pc s t = Idle then Some (goto t C_Lock s) else None)"
| "qstep n (Run t w) s = (if is_push (pc s t) then run_push n t w s else run_pop n t s)"

text \<open>The states that are reached through states that all satisfy \<open>P\<close>.\<close>

inductive q_reach :: "nat \<Rightarrow> nat \<Rightarrow> ('a qstate \<Rightarrow> bool) \<Rightarrow> 'a qstate \<Rightarrow> bool" for n m P where
  q_init: "q_reach n m P (init_qstate m)"
| q_step: "q_reach n m P s \<Longrightarrow> P s \<Longrightarrow> qstep n e s = Some s' \<Longrightarrow> q_reach n m P s'"

section \<open>One producer at a time\<close>

definition storing :: "'a pc \<Rightarrow> bool" where
  "storing p = (case p of P_Check _ \<Rightarrow> True | P_Write _ \<Rightarrow> True | _ \<Rightarrow> False)"

definition serial :: "'a qstate \<Rightarrow> bool" where
  "serial s \<longleftrightarrow> (\<forall>t u. storing (pc s t) \<and> storing (pc s u) \<longrightarrow> t = u) \<and> (\<forall>t x. pc s t \<noteq> F_Check x \<and> pc s t \<noteq> F_Write x)"

definition holds_L :: "'a pc \<Rightarrow> bool" where
  "holds_L p = (case p of C_Test \<Rightarrow> True | C_Wait \<Rightarrow> True | C_Read \<Rightarrow> True | C_Advance _ \<Rightarrow> True | C_Unlock _ \<Rightarrow> True | _ \<Rightarrow> False)"

definition in_transit :: "'a qstate \<Rightarrow> 'a option list" where
  "in_transit s = (case owner s of None \<Rightarrow> [] | Some t \<Rightarrow> (case pc s t of C_Unlock v \<Rightarrow> [v] | _ \<Rightarrow> []))"

definition pc_ok :: "nat \<Rightarrow> 'a GrandmaQueue \<Rightarrow> 'a pc \<Rightarrow> bool" where
  "pc_ok n q p = (case p of
      P_Write _ \<Rightarrow> \<not> IsFull n q
    | C_Read \<Rightarrow> \<not> IsEmpty q
    | C_Advance v \<Rightarrow> \<not> IsEmpty q \<and> v = Some (hd (contents n q))
    | Panicked f \<Rightarrow> f = queue_full_panic
    | _ \<Rightarrow> True)"

lemma pc_simps [simp]:
  "holds_L C_Test" "holds_L C_Wait" "holds_L C_Read" "holds_L (C_Advance v)" "holds_L (C_Unlock v)" "\<not> holds_L Idle" "\<not> holds_L (P_Check x)"
  "\<not> holds_L (P_Write x)" "\<not> holds_L (F_Check x)" "\<not> holds_L (F_Write x)" "\<not> holds_L P_Signal" "\<not> holds_L C_Lock" "\<not> holds_L C_Asleep"
  "\<not> holds_L (Panicked f)" "pc_ok n q (P_Write x) \<longleftrightarrow> \<not> IsFull n q" "pc_ok n q C_Read \<longleftrightarrow> \<not> IsEmpty q"
  "pc_ok n q (C_Advance v) \<longleftrightarrow> \<not> IsEmpty q \<and> v = Some (hd (contents n q))" "pc_ok n q (Panicked f) \<longleftrightarrow> f = queue_full_panic"
  "pc_ok n q Idle" "pc_ok n q (P_Check x)" "pc_ok n q (F_Check x)" "pc_ok n q (F_Write x)" "pc_ok n q P_Signal" "pc_ok n q C_Lock" "pc_ok n q C_Test"
  "pc_ok n q C_Wait" "pc_ok n q C_Asleep" "pc_ok n q (C_Unlock v)"
  by (simp_all add: holds_L_def pc_ok_def)

definition conc_inv :: "nat \<Rightarrow> 'a qstate \<Rightarrow> bool" where
  "conc_inv n s \<longleftrightarrow> ring_inv n (ring_of s) \<and> \<not> var_stuck s \<and> (\<forall>t. holds_L (pc s t) \<longleftrightarrow> owner s = Some t) \<and>
     (\<forall>t. t \<in> set (asleep s) \<longleftrightarrow> pc s t = C_Asleep) \<and> distinct (asleep s) \<and>
     (\<forall>t. pc_ok n (ring_of s) (pc s t)) \<and>
     map Some (pushed s) = popped s @ in_transit s @ map Some (contents n (ring_of s))"

lemma goto_simps [simp]:
  "ring_of (goto t p s) = ring_of s" "owner (goto t p s) = owner s" "asleep (goto t p s) = asleep s" "var_stuck (goto t p s) = var_stuck s"
  "pushed (goto t p s) = pushed s" "popped (goto t p s) = popped s" "pc (goto t p s) = (pc s)(t := p)"
  by (simp_all add: goto_def)

lemma conc_invD:
  assumes "conc_inv n s"
  shows "ring_inv n (ring_of s)" and "\<not> var_stuck s" and "holds_L (pc s t) \<longleftrightarrow> owner s = Some t" and "t \<in> set (asleep s) \<longleftrightarrow> pc s t = C_Asleep"
    and "distinct (asleep s)" and "pc_ok n (ring_of s) (pc s t)" and "map Some (pushed s) = popped s @ in_transit s @ map Some (contents n (ring_of s))"
  using assms by (simp_all add: conc_inv_def)

text \<open>A step that only moves one goroutine on, in or out of the critical section of \<open>L\<close> as before.\<close>

lemma conc_inv_goto:
  assumes "conc_inv n s" and "holds_L p = holds_L (pc s t)" and "p \<noteq> C_Asleep" and "pc s t \<noteq> C_Asleep" and "pc_ok n (ring_of s) p"
    and "\<forall>v. p \<noteq> C_Unlock v" and "\<forall>v. pc s t \<noteq> C_Unlock v"
  shows "conc_inv n (goto t p s)"
proof -
  have "in_transit (goto t p s) = in_transit s"
    using assms(6,7) by (auto simp: in_transit_def split: option.splits pc.splits)
  then show ?thesis using assms(1-5) by (simp add: conc_inv_def)
qed

lemma conc_inv_lock:
  assumes "conc_inv n s" and "owner s = None" and "pc s t = C_Lock"
  shows "conc_inv n (goto t C_Test (s\<lparr>owner := Some t\<rparr>))"
  using assms by (auto simp: conc_inv_def in_transit_def)

lemma conc_inv_wait:
  assumes "conc_inv n s" and "pc s t = C_Wait"
  shows "conc_inv n (goto t C_Asleep (s\<lparr>asleep := asleep s @ [t], owner := None\<rparr>))"
proof -
  have o: "owner s = Some t" using conc_invD(3) [OF assms(1), of t] assms(2) by simp
  moreover have "\<not> holds_L (pc s u)" if "u \<noteq> t" for u using conc_invD(3) [OF assms(1), of u] o that by simp
  moreover have "t \<notin> set (asleep s)" using conc_invD(4) [OF assms(1), of t] assms(2) by simp
  ultimately show ?thesis
    using assms by (auto simp: conc_inv_def in_transit_def)
qed

lemma conc_inv_unlock:
  assumes "conc_inv n s" and "pc s t = C_Unlock v"
  shows "conc_inv n (goto t Idle (s\<lparr>owner := None, popped := popped s @ [v]\<rparr>))"
proof -
  have o: "owner s = Some t" using conc_invD(3) [OF assms(1), of t] assms(2) by simp
  moreover have "\<not> holds_L (pc s u)" if "u \<noteq> t" for u using conc_invD(3) [OF assms(1), of u] o that by simp
  ultimately show ?thesis
    using assms by (auto simp: conc_inv_def in_transit_def)
qed

lemma conc_inv_signal:
  assumes inv: "conc_inv n s" and t: "pc s t = P_Signal" and sig: "signal t w s = Some s'"
  shows "conc_inv n s'"
proof (cases "asleep s = []")
  case True
  then show ?thesis using sig t conc_inv_goto [OF inv, of Idle t] by (auto simp: signal_def)
next
  case False
  then have w: "w \<in> set (asleep s)" "s' = goto w C_Lock (goto t Idle (s\<lparr>asleep := remove1 w (asleep s)\<rparr>))"
    using sig by (auto simp: signal_def split: if_splits)
  have wt: "pc s w = C_Asleep" "w \<noteq> t" using w(1) conc_invD(4) [OF inv, of w] t by auto
  have "in_transit s' = in_transit s" using w(2) wt t by (auto simp: in_transit_def split: option.splits pc.splits)
  then show ?thesis
    using inv w wt t conc_invD(3) [OF inv, of t] conc_invD(3) [OF inv, of w] by (auto simp: conc_inv_def)
qed

lemma write_back_PushMessage: "\<not> IsFull n q \<Longrightarrow> write_back n x q = PushMessage n x q"
  by (simp add: write_back_def PushMessage_def)

lemma conc_inv_write:
  assumes inv: "conc_inv n s" and ser: "serial s" and t: "pc s t = P_Write x"
  obtains q where "write_back n x (ring_of s) = Ret q" "conc_inv n (goto t P_Signal (s\<lparr>ring_of := q, pushed := pushed s @ [x]\<rparr>))"
proof -
  have "\<not> IsFull n (ring_of s)" using conc_invD(6) [OF inv, of t] t by simp
  then obtain q where q: "write_back n x (ring_of s) = Ret q" "ring_inv n q" "contents n q = contents n (ring_of s) @ [x]"
    using PushMessage_ok [OF conc_invD(1) [OF inv], of x] write_back_PushMessage by metis
  have ok: "pc_ok n q (pc s u)" if "u \<noteq> t" for u
  proof -
    have "\<not> storing (pc s u)" using ser t that by (auto simp: serial_def storing_def)
    then show ?thesis
      using conc_invD(6) [OF inv, of u] q conc_invD(1) [OF inv]
      by (auto simp: pc_ok_def storing_def IsEmpty_iff split: pc.splits)
  qed
  let ?s = "goto t P_Signal (s\<lparr>ring_of := q, pushed := pushed s @ [x]\<rparr>)"
  have "in_transit ?s = in_transit s" using t by (auto simp: in_transit_def split: option.splits pc.splits)
  then have "conc_inv n ?s" using inv t q ok conc_invD(3) [OF inv, of t] by (auto simp: conc_inv_def)
  then show thesis using that q(1) by blast
qed

lemma conc_inv_advance:
  assumes inv: "conc_inv n s" and t: "pc s t = C_Advance v"
  shows "conc_inv n (goto t (C_Unlock v) (s\<lparr>ring_of := (ring_of s)\<lparr>front := increase n (front (ring_of s))\<rparr>\<rparr>))"
proof -
  let ?q = "ring_of s" and ?q' = "(ring_of s)\<lparr>front := increase n (front (ring_of s))\<rparr>"
  have ne: "\<not> IsEmpty ?q" "v = Some (hd (contents n ?q))" using conc_invD(6) [OF inv, of t] t by simp_all
  have q: "ring_inv n ?q'" "contents n ?q' = tl (contents n ?q)"
    using PopMessage_ok [OF conc_invD(1) [OF inv] ne(1)] ne(1) by (auto simp: PopMessage_def)
  have o: "owner s = Some t" using conc_invD(3) [OF inv, of t] t by simp
  have ok: "pc_ok n ?q' (pc s u)" if "u \<noteq> t" for u
  proof -
    have "\<not> holds_L (pc s u)" using conc_invD(3) [OF inv, of u] o that by simp
    moreover have "\<not> IsFull n ?q'" using q(1) pop_qsize [OF conc_invD(1) [OF inv] ne(1)] ring_inv_qsize [OF conc_invD(1) [OF inv]] by (simp add: IsFull_iff)
    ultimately show ?thesis
      using conc_invD(6) [OF inv, of u] by (auto simp: pc_ok_def holds_L_def split: pc.splits)
  qed
  have "contents n ?q \<noteq> []" using ne(1) conc_invD(1) [OF inv] by (simp add: IsEmpty_iff)
  then have "map Some (contents n ?q) = v # map Some (contents n ?q')" using q(2) ne(2) by (cases "contents n ?q") simp_all
  then show ?thesis
    using inv t q(1) ok o by (auto simp: conc_inv_def in_transit_def)
qed

lemma conc_inv_read:
  assumes inv: "conc_inv n s" and t: "pc s t = C_Read"
  shows "slice_get (queue (ring_of s)) (int (front (ring_of s))) = Ret (Some (hd (contents n (ring_of s))))"
  using PopMessage_ok [OF conc_invD(1) [OF inv]] conc_invD(6) [OF inv, of t] t by (auto simp: PopMessage_def)

lemma conc_inv_push:
  assumes inv: "conc_inv n s" and ser: "serial s" and step: "run_push n t w s = Some s'"
  shows "conc_inv n s'"
proof (cases "pc s t")
  case (P_Check x)
  then show ?thesis
    using step conc_invD(2) [OF inv] conc_inv_goto [OF inv, of "Panicked queue_full_panic" t] conc_inv_goto [OF inv, of "P_Write x" t]
    by (auto simp: run_push_def checked_def in_section_def)
next
  case (P_Write x)
  from conc_inv_write [OF inv ser P_Write] obtain q where q: "write_back n x (ring_of s) = Ret q" 
      "conc_inv n (goto t P_Signal (s\<lparr>ring_of := q, pushed := pushed s @ [x]\<rparr>))" by blast
  then show ?thesis using step P_Write conc_invD(2) [OF inv] by (auto simp: run_push_def in_section_def)
next
  case P_Signal
  then show ?thesis using step conc_inv_signal [OF inv P_Signal] by (auto simp: run_push_def)
qed (use step ser in \<open>auto simp: run_push_def serial_def\<close>)

lemma conc_inv_pop:
  assumes inv: "conc_inv n s" and step: "run_pop n t s = Some s'"
  shows "conc_inv n s'"
proof (cases "pc s t")
  case C_Lock
  then show ?thesis using step conc_inv_lock [OF inv _ C_Lock] by (auto simp: run_pop_def split: if_splits)
next
  case C_Test
  then show ?thesis
    using step conc_invD(2) [OF inv] conc_inv_goto [OF inv, of C_Wait t] conc_inv_goto [OF inv, of C_Read t]
    by (auto simp: run_pop_def in_section_def)
next
  case C_Wait
  then show ?thesis using step conc_inv_wait [OF inv C_Wait] by (auto simp: run_pop_def)
next
  case C_Read
  then show ?thesis
    using step conc_invD(2) [OF inv] conc_inv_read [OF inv C_Read] conc_invD(6) [OF inv, of t] conc_inv_goto [OF inv, of "C_Advance (Some (hd (contents n (ring_of s))))" t]
    by (auto simp: run_pop_def in_section_def)
next
  case (C_Advance v)
  then show ?thesis using step conc_invD(2) [OF inv] conc_inv_advance [OF inv C_Advance] by (auto simp: run_pop_def in_section_def)
next
  case (C_Unlock v)
  then show ?thesis using step conc_inv_unlock [OF inv C_Unlock] by (auto simp: run_pop_def)
qed (use step in \<open>auto simp: run_pop_def\<close>)

lemma conc_inv_step:
  assumes inv: "conc_inv n s" and ser: "serial s" and step: "qstep n e s = Some s'"
  shows "conc_inv n s'"
proof (cases e)
  case (Call_Push t x)
  then show ?thesis using step conc_inv_goto [OF inv, of "P_Check x" t] by (auto split: if_splits)
next
  case (Call_PushFront t x)
  then show ?thesis using step conc_inv_goto [OF inv, of "F_Check x" t] by (auto split: if_splits)
next
  case (Call_Pop t)
  then show ?thesis using step conc_inv_goto [OF inv, of C_Lock t] by (auto split: if_splits)
next
  case (Run t w)
  then show ?thesis using step conc_inv_push [OF inv ser] conc_inv_pop [OF inv] by (auto split: if_splits)
qed

lemma conc_inv_reach:
  assumes "q_reach n m serial s" and "0 < n" and "n \<le> m"
  shows "conc_inv n s"
  using assms(1)
proof (induction rule: q_reach.induct)
  case q_init
  then show ?case using NewQueue_inv [OF assms(2,3)] by (simp add: conc_inv_def init_qstate_def in_transit_def)
next
  case (q_step s e s')
  then show ?case using conc_inv_step by blast
qed

section \<open>Properties of concurrent use\<close>

text \<open>
  C17. With one producer at a time and any number of consumers, in every interleaving of the locked
  sections: messages are returned in the order in which they were stored, each once; those stored
  and not yet returned are in the ring or in the hands of the one goroutine that holds \<open>L\<close>; and no
  goroutine panics but on a full queue.
\<close>

theorem concurrent_fifo:
  assumes "q_reach n m serial s" and "0 < n" and "n \<le> m"
  shows "map Some (pushed s) = popped s @ in_transit s @ map Some (contents n (ring_of s)) \<and> ring_inv n (ring_of s) \<and> length (in_transit s) \<le> 1 \<and>
     (\<forall>t u. holds_L (pc s t) \<and> holds_L (pc s u) \<longrightarrow> t = u) \<and> (\<forall>t f. pc s t = Panicked f \<longrightarrow> f = queue_full_panic)"
proof -
  note inv = conc_inv_reach [OF assms]
  have "length (in_transit s) \<le> 1" by (auto simp: in_transit_def split: option.splits pc.splits)
  moreover have "f = queue_full_panic" if "pc s t = Panicked f" for t f using conc_invD(6) [OF inv, of t] that by simp
  moreover have "t = u" if "holds_L (pc s t)" "holds_L (pc s u)" for t u
    using conc_invD(3) [OF inv, of t] conc_invD(3) [OF inv, of u] that by simp
  ultimately show ?thesis using conc_invD(1,7) [OF inv] by blast
qed

theorem concurrent_fifo_witness:
  "\<exists>s. q_reach 3 3 serial s \<and> pushed s = [True] \<and> map Some (pushed s) = popped s @ in_transit s @ map Some (contents 3 (ring_of s))"
proof -
  let ?a = "init_qstate 3" and ?b = "goto 0 (P_Check True) (init_qstate 3)" and ?c = "goto 0 (P_Write True) (goto 0 (P_Check True) (init_qstate 3))"
  have "qstep 3 (Call_Push 0 True) ?a = Some ?b" "qstep 3 (Run 0 0) ?b = Some ?c" "serial ?a" "serial ?b" "serial ?c"
    by (auto simp: init_qstate_def is_push_def run_push_def checked_def in_section_def NewQueue_def IsFull_def increase_def serial_def storing_def split: if_splits)
  then have "q_reach 3 3 serial ?c" by (blast intro: q_reach.intros)
  moreover obtain s where s: "qstep 3 (Run 0 0) ?c = Some s" "pushed s = [True]"
    by (simp add: init_qstate_def is_push_def run_push_def in_section_def NewQueue_def write_back_def increase_def slice_set_def)
  ultimately have r: "q_reach 3 3 serial s" using \<open>serial ?c\<close> q_reach.q_step by blast
  show ?thesis using concurrent_fifo [OF r] r s(2) by auto
qed

fun q_run :: "nat \<Rightarrow> 'a qevent list \<Rightarrow> 'a qstate \<Rightarrow> 'a qstate option" where
  "q_run n [] s = Some s"
| "q_run n (e # es) s = (case qstep n e s of None \<Rightarrow> None | Some s' \<Rightarrow> q_run n es s')"

lemma q_run_reach: "q_reach n m (\<lambda>_. True) s \<Longrightarrow> q_run n es s = Some s' \<Longrightarrow> q_reach n m (\<lambda>_. True) s'"
  by (induction es arbitrary: s) (auto intro: q_reach.q_step split: option.splits)

lemmas q_eval = is_push_def run_push_def run_pop_def checked_def in_section_def signal_def

definition quiet :: "'a qstate \<Rightarrow> bool" where
  "quiet s \<longleftrightarrow> pc s = (\<lambda>_. Idle) \<and> asleep s = [] \<and> owner s = None \<and> \<not> var_stuck s"

lemma goto_quiet: "quiet s \<Longrightarrow> (pc s)(t := Idle) = pc s"
  by (auto simp: quiet_def)

lemma push_alone:
  assumes "quiet s" and "ring_inv n (ring_of s)" and "\<not> IsFull n (ring_of s)"
  shows "\<exists>s'. q_run n [Call_Push 0 x, Run 0 0, Run 0 0, Run 0 0] s = Some s' \<and> quiet s' \<and> ring_inv n (ring_of s') \<and>
     contents n (ring_of s') = contents n (ring_of s) @ [x] \<and> pushed s' = pushed s @ [x] \<and> popped s' = popped s"
proof -
  obtain q where q: "write_back n x (ring_of s) = Ret q" "ring_inv n q" "contents n q = contents n (ring_of s) @ [x]"
    using PushMessage_ok [OF assms(2,3), of x] write_back_PushMessage [OF assms(3)] by metis
  then show ?thesis
    using assms(1,3) by (auto simp: q_eval quiet_def fun_upd_idem_iff)
qed

lemma pushes_alone:
  assumes "q_reach n m (\<lambda>_. True) s" and "quiet s" and "ring_inv n (ring_of s)" and "qsize n (ring_of s) + length xs < n"
  shows "\<exists>s'. q_reach n m (\<lambda>_. True) s' \<and> quiet s' \<and> ring_inv n (ring_of s') \<and> contents n (ring_of s') = contents n (ring_of s) @ xs \<and>
     pushed s' = pushed s @ xs \<and> popped s' = popped s"
  using assms
proof (induction xs arbitrary: s)
  case (Cons x xs)
  have "\<not> IsFull n (ring_of s)" using Cons.prems(3,4) by (simp add: IsFull_iff)
  then obtain s1 where s1: "q_run n [Call_Push 0 x, Run 0 0, Run 0 0, Run 0 0] s = Some s1" "quiet s1" "ring_inv n (ring_of s1)"
      "contents n (ring_of s1) = contents n (ring_of s) @ [x]" "pushed s1 = pushed s @ [x]" "popped s1 = popped s"
    using push_alone [OF Cons.prems(2,3)] by blast
  have "qsize n (ring_of s1) + length xs < n" using arg_cong [OF s1(4), of length] Cons.prems(4) by simp
  then show ?case using Cons.IH [OF q_run_reach [OF Cons.prems(1) s1(1)] s1(2,3)] s1(4-6) by simp
qed auto

text \<open>
  C24. Two producers can wipe the queue: the test for a full ring and the store are two sections.  When
  one slot is free and two goroutines both pass the test before either stores, the pointer catches
  up with the front, and a queue that should hold \<open>n\<close> messages counts as empty.  No panic reports it.
\<close>

theorem racing_producers_lose_queue:
  fixes xs :: "'a list"
  assumes "2 \<le> n" and "n \<le> m" and "length xs = n"
  shows "\<exists>s. q_reach n m (\<lambda>_. True) s \<and> pushed s = xs \<and> popped s = [] \<and> contents n (ring_of s) = [] \<and> (\<forall>t. pc s t = Idle)"
proof -
  obtain k where "n = Suc (Suc k)" using assms(1) by (metis add_2_eq_Suc le_Suc_ex)
  then obtain ys x y where xs: "xs = ys @ [x, y]" using assms(3) by (auto simp: length_Suc_conv_rev)
  have r: "q_reach n m (\<lambda>_. True) (init_qstate m :: 'a qstate)" by (rule q_reach.q_init)
  have i: "quiet (init_qstate m :: 'a qstate)" "ring_inv n (ring_of (init_qstate m :: 'a qstate))" "qsize n (ring_of (init_qstate m :: 'a qstate)) = 0"
    using assms NewQueue_inv [of n m] by (simp_all add: quiet_def init_qstate_def NewQueue_def qsize_def)
  have room: "qsize n (ring_of (init_qstate m :: 'a qstate)) + length ys < n" using i(3) assms(3) xs by simp
  obtain s where s: "q_reach n m (\<lambda>_. True) s" "quiet s" "ring_inv n (ring_of s)" "contents n (ring_of s) = ys" "pushed s = ys" "popped s = []"
    using pushes_alone [OF r i(1,2) room] by (auto simp: init_qstate_def)
  have sz: "Suc (Suc (qsize n (ring_of s))) = n" using arg_cong [OF s(4), of length] assms(3) xs by simp
  then have nf: "\<not> IsFull n (ring_of s)" using s(3) by (simp add: IsFull_iff)
  obtain q where q: "write_back n x (ring_of s) = Ret q" "ring_inv n q" "contents n q = ys @ [x]"
    using PushMessage_ok [OF s(3) nf, of x] write_back_PushMessage [OF nf] s(4) by metis
  have "IsFull n q" using arg_cong [OF q(3), of length] sz q(2) s(4) by (simp add: IsFull_iff arg_cong [OF s(4), of length, simplified])
  moreover have p: "pointer q < length (queue q)" using q(2) by (simp add: ring_inv_def)
  ultimately obtain q2 where q2: "write_back n y q = Ret q2" "contents n q2 = []"
    by (simp add: write_back_def IsFull_def contents_def qsize_def)
  have "\<exists>s'. q_run n [Call_Push 0 x, Call_Push 1 y, Run 0 0, Run 1 0, Run 0 0, Run 1 0, Run 0 0, Run 1 0] s = Some s' \<and> pushed s' = xs \<and> popped s' = [] \<and>
      contents n (ring_of s') = [] \<and> (\<forall>t. pc s' t = Idle)"
    using s(2,5,6) nf q(1) q2 xs by (auto simp: q_eval quiet_def)
  then show ?thesis using q_run_reach [OF s(1)] by blast
qed

theorem racing_producers_lose_queue_witness:
  "\<exists>s. q_reach 3 3 (\<lambda>_. True) s \<and> pushed s = ''abc'' \<and> popped s = [] \<and> contents 3 (ring_of s) = [] \<and> (\<forall>t. pc s t = Idle)"
  by (rule racing_producers_lose_queue) simp_all

text \<open>
  A wake-up can be lost: \<open>Signal\<close> is sent without holding \<open>L\<close>, so a message can be stored and
  announced after the consumer has found the queue empty and before it sleeps.  The consumer then
  sleeps on a queue that holds a message, and no goroutine can take a step until another call is made.
\<close>

lemma lost_wake_up:
  assumes "2 \<le> n" and "n \<le> m"
  shows "\<exists>s. q_reach n m (\<lambda>_. True) s \<and> contents n (ring_of s) = [x] \<and> pc s 0 = C_Asleep \<and> (\<forall>t w. qstep n (Run t w) s = None)"
proof -
  have inv: "ring_inv n (NewQueue m)" "\<not> IsFull n (NewQueue m)" using assms NewQueue_inv [of n m] by (simp_all add: IsFull_def NewQueue_def increase_def)
  obtain q where q: "write_back n x (NewQueue m) = Ret q" "contents n q = [x]"
    using PushMessage_ok [OF inv, of x] write_back_PushMessage [OF inv(2)] by (metis NewQueue_contents append_Nil)
  have e: "IsEmpty (NewQueue m)" by (simp add: IsEmpty_def NewQueue_def)
  have "\<exists>s. q_run n [Call_Pop 0, Run 0 0, Run 0 0, Call_Push 1 x, Run 1 0, Run 1 0, Run 1 0, Run 0 0] (init_qstate m) = Some s \<and>
      contents n (ring_of s) = [x] \<and> pc s 0 = C_Asleep \<and> (\<forall>t w. qstep n (Run t w) s = None)"
    using inv(2) e q by (auto simp: q_eval init_qstate_def)
  then show ?thesis using q_run_reach [OF q_reach.q_init] by blast
qed

end
