(* ===== verification/My_Packet.thy ===== *)
theory My_Packet
  imports Go_Strings
begin

text \<open>
  Packets of the MySQL driver (\<open>github.com/ziutek/mymysql/native/packet.go\<close>, with the error values
  of \<open>mysql/errors.go\<close> and \<open>catchError\<close> of \<open>common.go\<close>).

  The driver reports errors by \<open>panic(err)\<close>; the exported functions turn the panic into their error
  result with \<open>catchError\<close>.  A computation here is a function from the state to
  \<open>((my_err + 'a) \<times> state) go\<close>: \<open>Inl e\<close> is a panic with the error \<open>e\<close>, which \<open>catchError\<close> recovers,
  \<open>Panic\<close> a run-time error or a panic with another value, which it does not, and \<open>Hang\<close> a loop that
  never ends.  The state survives an error, as the connection does.

  A payload is sent in packets of at most 0xffffff bytes, each behind a length and a sequence
  number; a payload whose length is a multiple of 0xffffff ends with an empty packet.
\<close>

section \<open>Errors\<close>

datatype my_err =
    IO_EOF
  | Unexpected_EOF
  | Net_Err string
  | ClientError string
  | Server_Error "16 word" "byte list"
  | Text_Err string
  | Num_Err num_error
  | OS_Invalid

definition ErrSeq :: my_err where "ErrSeq = ClientError ''packet sequence error''"
definition ErrPkt :: my_err where "ErrPkt = ClientError ''malformed packet''"
definition ErrPktLong :: my_err where "ErrPktLong = ClientError ''packet too long''"
definition ErrUnexpNullLCS :: my_err where "ErrUnexpNullLCS = ClientError ''unexpected NULL LCS''"
definition ErrUnexpNullLCB :: my_err where "ErrUnexpNullLCB = ClientError ''unexpected NULL LCB''"
definition ErrUnexpNullDate :: my_err where "ErrUnexpNullDate = ClientError ''unexpected NULL DATETIME''"
definition ErrUnexpNullTime :: my_err where "ErrUnexpNullTime = ClientError ''unexpected NULL TIME''"
definition ErrUnkResultPkt :: my_err where "ErrUnkResultPkt = ClientError ''unexpected or unknown result packet''"
definition ErrNotConn :: my_err where "ErrNotConn = ClientError ''not connected''"
definition ErrAlredyConn :: my_err where "ErrAlredyConn = ClientError ''not connected''"
definition ErrBadResult :: my_err where "ErrBadResult = ClientError ''unexpected result''"
definition ErrUnreadedReply :: my_err where "ErrUnreadedReply = ClientError ''reply is not completely read''"
definition ErrBindCount :: my_err where "ErrBindCount = ClientError ''wrong number of values for bind''"
definition ErrBindUnkType :: my_err where "ErrBindUnkType = ClientError ''unknown value type for bind''"
definition ErrRowLength :: my_err where "ErrRowLength = ClientError ''wrong length of row slice''"
definition ErrWrongDateLen :: my_err where "ErrWrongDateLen = ClientError ''wrong datetime/timestamp length''"
definition ErrUnkMySQLType :: my_err where "ErrUnkMySQLType = ClientError ''unknown MySQL type''"
definition ErrWrongParamNum :: my_err where "ErrWrongParamNum = ClientError ''wrong parameter number''"
definition ErrSmallPktSize :: my_err where "ErrSmallPktSize = ClientError ''specified packet size is to small''"
definition ErrReadAfterEOR :: my_err where "ErrReadAfterEOR = ClientError ''previous ScanRow call returned io.EOF''"
definition ErrOldProtocol :: my_err where "ErrOldProtocol = ClientError ''server does not support 4.1 protocol''"
definition ErrAuthentication :: my_err where "ErrAuthentication = ClientError ''authentication error''"

lemmas my_errs = ErrSeq_def ErrPkt_def ErrPktLong_def ErrUnexpNullLCS_def ErrUnexpNullLCB_def
  ErrUnexpNullDate_def ErrUnexpNullTime_def ErrUnkResultPkt_def ErrNotConn_def ErrAlredyConn_def
  ErrBadResult_def ErrUnreadedReply_def ErrBindCount_def ErrBindUnkType_def ErrRowLength_def
  ErrWrongDateLen_def ErrUnkMySQLType_def ErrWrongParamNum_def ErrSmallPktSize_def
  ErrReadAfterEOR_def ErrOldProtocol_def ErrAuthentication_def

section \<open>Computations\<close>

type_synonym ('s, 'a) pm = "'s \<Rightarrow> ((my_err + 'a) \<times> 's) go"

definition pret :: "'a \<Rightarrow> ('s, 'a) pm" where
  "pret x s = Ret (Inr x, s)"

definition raise :: "my_err \<Rightarrow> ('s, 'a) pm" where
  "raise e s = Ret (Inl e, s)"

definition crash :: "go_fault \<Rightarrow> ('s, 'a) pm" where
  "crash f s = Panic f"

definition pbind :: "('s, 'a) pm \<Rightarrow> ('a \<Rightarrow> ('s, 'b) pm) \<Rightarrow> ('s, 'b) pm" where
  "pbind m f s = go_bind (m s) (\<lambda>(r, s'). case r of Inl e \<Rightarrow> Ret (Inl e, s') | Inr x \<Rightarrow> f x s')"

definition gets :: "('s \<Rightarrow> 'a) \<Rightarrow> ('s, 'a) pm" where
  "gets f s = Ret (Inr (f s), s)"

definition modify :: "('s \<Rightarrow> 's) \<Rightarrow> ('s, unit) pm" where
  "modify f s = Ret (Inr (), f s)"

text \<open>The deferred \<open>catchError(&err)\<close>: an error panic becomes the error result, \<open>io.EOF\<close> being an
  unexpected end of the input.\<close>

definition caught :: "my_err \<Rightarrow> my_err" where
  "caught e = (if e = IO_EOF then Unexpected_EOF else e)"

definition catchError :: "('s, 'a) pm \<Rightarrow> ('s, 'a) pm" where
  "catchError m s = go_bind (m s) (\<lambda>(r, s'). Ret (case r of Inl e \<Rightarrow> Inl (caught e) | Inr x \<Rightarrow> Inr x, s'))"

lemma pbind_simps [simp]:
  "m s = Ret (Inr x, s') \<Longrightarrow> pbind m f s = f x s'"
  "m s = Ret (Inl e, s') \<Longrightarrow> pbind m f s = Ret (Inl e, s')"
  "m s = Panic p \<Longrightarrow> pbind m f s = Panic p"
  "m s = Hang \<Longrightarrow> pbind m f s = Hang"
  by (simp_all add: pbind_def)

lemma pbind_pret [simp]: "pbind (pret x) f s = f x s"
  and pbind_raise [simp]: "pbind (raise e) f s = Ret (Inl e, s)"
  and pbind_crash [simp]: "pbind (crash p) f s = Panic p"
  by (simp_all add: pbind_def pret_def raise_def crash_def)

lemma pbind_gets [simp]: "pbind (gets g) f s = f (g s) s"
  by (simp add: pbind_def gets_def)

lemma pbind_modify [simp]: "pbind (modify h) f s = f () (h s)"
  by (simp add: pbind_def modify_def)

lemma pbind_cong [fundef_cong]:
  "s = s' \<Longrightarrow> m s' = m' s' \<Longrightarrow> (\<And>x t. m' s' = Ret (Inr x, t) \<Longrightarrow> f x t = f' x t) \<Longrightarrow> pbind m f s = pbind m' f' s'"
  by (cases "m' s'") (auto simp: pbind_def split: sum.splits)

lemma pbind_assoc: "pbind (pbind m f) g = pbind m (\<lambda>x. pbind (f x) g)"
  by (rule ext) (auto simp: pbind_def go_bind_assoc intro!: arg_cong2 [where f = go_bind] split: sum.splits)

lemma pbind_eq_Inr:
  "pbind m f s = Ret (Inr y, t) \<longleftrightarrow> (\<exists>x u. m s = Ret (Inr x, u) \<and> f x u = Ret (Inr y, t))"
  by (cases "m s") (auto simp: pbind_def split: sum.splits)

section \<open>Buffered reading and writing\<close>

text \<open>
  \<open>bufio.Reader\<close> over the socket: \<open>pieces\<close> are the parts in which its bytes become available.  A
  \<open>Read\<close> yields at most the first available piece; when nothing is left it reports \<open>rd_err\<close>.
\<close>

record bufio_rd =
  pieces :: "byte list list"
  rd_err :: my_err
  last_byte :: "byte option"

definition avail :: "bufio_rd \<Rightarrow> byte list list" where
  "avail r = dropWhile (\<lambda>p. p = []) (pieces r)"

definition rd_Read :: "nat \<Rightarrow> bufio_rd \<Rightarrow> (my_err + byte list) \<times> bufio_rd" where
  "rd_Read n r =
     (if n = 0 then (Inr [], r)
      else case avail r of
        [] \<Rightarrow> (Inl (rd_err r), r\<lparr>pieces := []\<rparr>)
      | p # ps \<Rightarrow> (Inr (take n p), r\<lparr>pieces := drop n p # ps, last_byte := Some (last (take n p))\<rparr>))"

definition rd_ReadByte :: "bufio_rd \<Rightarrow> (my_err + byte) \<times> bufio_rd" where
  "rd_ReadByte r =
     (case avail r of
        [] \<Rightarrow> (Inl (rd_err r), r\<lparr>pieces := []\<rparr>)
      | p # ps \<Rightarrow> (Inr (hd p), r\<lparr>pieces := tl p # ps, last_byte := Some (hd p)\<rparr>))"

fun unread :: "byte \<Rightarrow> byte list list \<Rightarrow> byte list list" where
  "unread b [] = [[b]]"
| "unread b (p # ps) = (b # p) # ps"

definition rd_UnreadByte :: "bufio_rd \<Rightarrow> (my_err + unit) \<times> bufio_rd" where
  "rd_UnreadByte r =
     (case last_byte r of
        None \<Rightarrow> (Inl (Text_Err ''bufio: invalid use of UnreadByte''), r)
      | Some b \<Rightarrow> (Inr (), r\<lparr>pieces := unread b (pieces r), last_byte := None\<rparr>))"

text \<open>\<open>io.CopyN(ioutil.Discard, rd, n)\<close>.\<close>

fun drop_pieces :: "nat \<Rightarrow> byte list list \<Rightarrow> byte list list" where
  "drop_pieces k [] = []"
| "drop_pieces k (p # ps) = (if k \<le> length p then drop k p # ps else drop_pieces (k - length p) ps)"

definition rd_Discard :: "nat \<Rightarrow> bufio_rd \<Rightarrow> (my_err + unit) \<times> bufio_rd" where
  "rd_Discard k r =
     (if k \<le> length (concat (pieces r)) then (Inr (), r\<lparr>pieces := drop_pieces k (pieces r), last_byte := None\<rparr>)
      else (Inl (rd_err r), r\<lparr>pieces := []\<rparr>))"

text \<open>
  \<open>bufio.Writer\<close> with its 4096 bytes of buffer: \<open>wire\<close> is what the socket has accepted.  When
  \<open>net_fail\<close> is set, writes to the socket fail; the writer then keeps the error in \<open>wr_err\<close>.
\<close>

record bufio_wr =
  wbuf :: "byte list"
  wire :: "byte list"
  wr_err :: "my_err option"
  net_fail :: "my_err option"

definition net_write :: "byte list \<Rightarrow> bufio_wr \<Rightarrow> bufio_wr" where
  "net_write bs w =
     (case net_fail w of
        None \<Rightarrow> w\<lparr>wire := wire w @ bs\<rparr>
      | Some e \<Rightarrow> w\<lparr>wr_err := Some e\<rparr>)"

definition wr_Flush :: "bufio_wr \<Rightarrow> bufio_wr" where
  "wr_Flush w =
     (if wr_err w \<noteq> None \<or> wbuf w = [] then w
      else case net_fail w of
        None \<Rightarrow> w\<lparr>wire := wire w @ wbuf w, wbuf := []\<rparr>
      | Some e \<Rightarrow> w\<lparr>wr_err := Some e\<rparr>)"

definition wr_Write :: "byte list \<Rightarrow> bufio_wr \<Rightarrow> bufio_wr" where
  "wr_Write bs w =
     (if wr_err w \<noteq> None then w
      else let room = 4096 - length (wbuf w) in
        if length bs \<le> room then w\<lparr>wbuf := wbuf w @ bs\<rparr>
        else if wbuf w = [] then net_write bs w
        else let w1 = wr_Flush (w\<lparr>wbuf := wbuf w @ take room bs\<rparr>); rest = drop room bs in
          if wr_err w1 \<noteq> None then w1
          else if length rest \<le> 4096 then w1\<lparr>wbuf := rest\<rparr>
          else net_write rest w1)"

section \<open>Reading packets\<close>

text \<open>
  \<open>pktReader\<close> and \<open>pktWriter\<close> refer to the connection's buffers and to its sequence number and have
  fields of their own.  Only one of each is in use at a time, so their fields (\<open>remain\<close>, \<open>last_pkt\<close>
  and \<open>w_remain\<close>, \<open>w_to_write\<close>, \<open>w_last\<close>, \<open>w_buf\<close>) are kept in the state of the connection, which
  extends this record.
\<close>

record pkt_io =
  rd :: bufio_rd
  wr :: bufio_wr
  pkt_seq :: byte
  remain :: int
  last_pkt :: bool
  w_remain :: nat
  w_to_write :: nat
  w_last :: bool
  w_buf :: "byte list"

definition max_pkt :: nat where "max_pkt = 16777215"

lemma max_pkt_pos: "0 < max_pkt"
  by (simp add: max_pkt_def)

definition DecodeU24 :: "byte list \<Rightarrow> 32 word" where
  "DecodeU24 buf = or (push_bit 8 (or (push_bit 8 (ucast (buf ! 2))) (ucast (buf ! 1)))) (ucast (buf ! 0))"

definition EncodeU24 :: "32 word \<Rightarrow> byte list" where
  "EncodeU24 v = [ucast v, ucast (drop_bit 8 v), ucast (drop_bit 16 v)]"

definition on_rd :: "(bufio_rd \<Rightarrow> (my_err + 'b) \<times> bufio_rd) \<Rightarrow> ('a pkt_io_scheme, 'b) pm" where
  "on_rd f s = (case f (rd s) of (r, b) \<Rightarrow> Ret (r, s\<lparr>rd := b\<rparr>))"

definition newPktReader :: "('a pkt_io_scheme, unit) pm" where
  "newPktReader = modify (\<lambda>s. s\<lparr>remain := 0, last_pkt := False\<rparr>)"

lemma concat_avail [simp]: "concat (avail r) = concat (pieces r)"
proof -
  have "concat (dropWhile (\<lambda>p. p = []) ps) = concat ps" for ps :: "byte list list"
    by (induction ps) auto
  then show ?thesis by (simp add: avail_def)
qed

lemma avail_hd: "avail r = p # ps \<Longrightarrow> p \<noteq> []"
  using hd_dropWhile [of "\<lambda>p. p = []" "pieces r"] by (simp add: avail_def)

definition unreads :: "bufio_rd \<Rightarrow> byte list" where
  "unreads r = concat (pieces r)"

lemma avail_Cons: "avail r = p # ps \<Longrightarrow> unreads r = p @ concat ps"
  unfolding unreads_def by (metis concat.simps(2) concat_avail)

lemma rd_Read_some:
  assumes "0 < n" and "unreads r \<noteq> []"
  obtains k r' where "0 < k" "k \<le> n" "k \<le> length (unreads r)" "rd_Read n r = (Inr (take k (unreads r)), r')"
    "unreads r' = drop k (unreads r)" "rd_err r' = rd_err r"
proof (cases "avail r")
  case Nil
  then show ?thesis using assms concat_avail [of r] by (simp add: unreads_def)
next
  case (Cons p ps)
  note u = avail_Cons [OF Cons]
  show ?thesis
    using assms avail_hd [OF Cons] Cons u
    by (intro that [of "min n (length p)" "r\<lparr>pieces := drop n p # ps, last_byte := Some (last (take n p))\<rparr>"])
      (auto simp: rd_Read_def unreads_def min_def)
qed

lemma rd_Read_eq_Inr:
  "rd_Read n r = (Inr bs, r') \<Longrightarrow> 0 < n \<Longrightarrow>
     length (unreads r) = length bs + length (unreads r') \<and> 0 < length bs \<and> length bs \<le> n"
  by (auto simp: rd_Read_def unreads_def dest: avail_hd avail_Cons [unfolded unreads_def] split: list.splits if_splits)

lemma rd_Read_0 [simp]: "rd_Read 0 r = (Inr [], r)"
  by (simp add: rd_Read_def)

function header_loop :: "nat \<Rightarrow> ('a pkt_io_scheme, byte list) pm" where
  "header_loop k s =
     (if k = 0 then pret [] s
      else pbind (on_rd (rd_Read k)) (\<lambda>a. pbind (header_loop (k - length a)) (\<lambda>b. pret (a @ b))) s)"
  by pat_completeness auto
termination
proof (relation "measure fst", goal_cases)
  case (2 k s a t)
  then show ?case
    by (cases "rd_Read k (rd s)") (auto simp: on_rd_def dest: rd_Read_eq_Inr)
qed simp

declare header_loop.simps [simp del]

definition in_left :: "'a pkt_io_scheme \<Rightarrow> nat" where
  "in_left s = length (unreads (rd s))"

definition readHeader :: "('a pkt_io_scheme, unit) pm" where
  "readHeader =
     pbind (header_loop 3) (\<lambda>ibuf.
     pbind (modify (\<lambda>s. s\<lparr>remain := uint (DecodeU24 ibuf)\<rparr>)) (\<lambda>_.
     pbind (on_rd rd_ReadByte) (\<lambda>q.
     pbind (gets pkt_seq) (\<lambda>expected.
       if expected \<noteq> q then raise ErrSeq
       else modify (\<lambda>s. s\<lparr>pkt_seq := pkt_seq s + 1, last_pkt := remain s \<noteq> int max_pkt\<rparr>)))))"

definition next_header :: "('a pkt_io_scheme, unit) pm" where
  "next_header s =
     (if remain s = 0 then (if last_pkt s then raise IO_EOF s else readHeader s) else pret () s)"

lemma on_rd_in_left:
  assumes "on_rd (rd_Read n) s = Ret (Inr a, t)" and "0 < n"
  shows "in_left s = length a + in_left t \<and> 1 \<le> length a \<and> length a \<le> n \<and> remain t = remain s \<and> last_pkt t = last_pkt s"
  using assms by (cases "rd_Read n (rd s)") (auto simp: on_rd_def in_left_def Suc_le_eq dest: rd_Read_eq_Inr)

lemma on_rd_le: "on_rd (rd_Read n) s = Ret (Inr a, t) \<Longrightarrow> in_left t \<le> in_left s"
  using on_rd_in_left [of n s a t] by (cases "n = 0") (auto simp: on_rd_def)

lemma ReadByte_in_left:
  "on_rd rd_ReadByte s = Ret (r, t) \<Longrightarrow> in_left t \<le> in_left s"
  by (auto simp: on_rd_def rd_ReadByte_def in_left_def avail_Cons split: list.splits)
    (simp_all add: unreads_def)

lemma header_loop_in_left:
  "header_loop k s = Ret (Inr a, t) \<Longrightarrow> in_left t + k \<le> in_left s"
proof (induction k s arbitrary: a t rule: header_loop.induct)
  case (1 k s)
  show ?case
  proof (cases "k = 0")
    case True
    then show ?thesis using 1(2) by (simp add: header_loop.simps pret_def)
  next
    case False
    then obtain b u c v where r: "on_rd (rd_Read k) s = Ret (Inr b, u)" "header_loop (k - length b) u = Ret (Inr c, v)"
        "t = v"
      using 1(2) by (subst (asm) header_loop.simps) (auto simp: pbind_eq_Inr pret_def)
    then show ?thesis using 1(1) [OF False r(1,2)] on_rd_in_left [OF r(1)] False by simp
  qed
qed

lemma readHeader_in_left: "readHeader s = Ret (Inr u, t) \<Longrightarrow> in_left t < in_left s"
proof -
  assume "readHeader s = Ret (Inr u, t)"
  then obtain a v q w where 1: "header_loop 3 s = Ret (Inr a, v)"
      and 2: "on_rd rd_ReadByte (v\<lparr>remain := uint (DecodeU24 a)\<rparr>) = Ret (Inr q, w)"
      and 3: "rd t = rd w"
    by (auto simp: readHeader_def pbind_eq_Inr modify_def gets_def raise_def split: if_splits)
  show ?thesis
    using header_loop_in_left [OF 1] ReadByte_in_left [OF 2] 3 by (simp add: in_left_def)
qed

lemma next_header_in_left:
  "next_header s = Ret (Inr u, t) \<Longrightarrow> in_left t \<le> in_left s \<and> (in_left t < in_left s \<or> remain t \<noteq> 0)"
  by (auto simp: next_header_def pret_def raise_def dest: readHeader_in_left split: if_splits)

text \<open>A slice bound that is negative, in \<open>readFull\<close>, and a negative length for \<open>make\<close>, in
  \<open>readAll\<close>, are run-time errors; \<open>CopyN\<close> of a negative count copies nothing and reports no error, so
  the loops of \<open>skipAll\<close> and \<open>skipN\<close> then never end.  The count is negative after a byte has been
  read behind the header of an empty packet.\<close>

function readFull :: "nat \<Rightarrow> ('a pkt_io_scheme, byte list) pm" where
  "readFull n s =
     (if n = 0 then pret [] s
      else pbind next_header (\<lambda>_ s1.
        if remain s1 < 0 then Panic Index_Out_Of_Range
        else pbind (on_rd (rd_Read (min n (nat (remain s1))))) (\<lambda>a s2.
             pbind (readFull (n - length a)) (\<lambda>b. pret (a @ b)) (s2\<lparr>remain := remain s2 - int (length a)\<rparr>)) s1) s)"
  by pat_completeness auto
termination
proof (relation "measure (in_left \<circ> snd)", goal_cases)
  case (2 n s u t a v)
  have "in_left v < in_left s"
    using next_header_in_left [OF 2(2)] 2(3) on_rd_le [OF 2(4)] on_rd_in_left [OF 2(4)] 2(1)
    by (cases "remain t = 0") auto
  then show ?case by (simp add: in_left_def)
qed simp

definition readByte :: "('a pkt_io_scheme, byte) pm" where
  "readByte =
     pbind next_header (\<lambda>_. pbind (on_rd rd_ReadByte) (\<lambda>b.
     pbind (modify (\<lambda>s. s\<lparr>remain := remain s - 1\<rparr>)) (\<lambda>_. pret b)))"

function readAll :: "('a pkt_io_scheme, byte list) pm" where
  "readAll s =
     (if remain s = 0 \<and> last_pkt s then pret [] s
      else pbind next_header (\<lambda>_ s1.
        if remain s1 < 0 then Panic (Explicit_Panic ''runtime error: makeslice: len out of range'')
        else pbind (on_rd (rd_Read (nat (remain s1)))) (\<lambda>a s2.
             pbind readAll (\<lambda>b. pret (a @ b)) (s2\<lparr>remain := remain s2 - int (length a)\<rparr>)) s1) s)"
  by pat_completeness auto
termination
proof (relation "measure in_left", goal_cases)
  case (2 s u t a v)
  have "in_left v < in_left s"
    using next_header_in_left [OF 2(2)] 2(3) on_rd_le [OF 2(4)] on_rd_in_left [OF 2(4)]
    by (cases "remain t = 0") auto
  then show ?case by (simp add: in_left_def)
qed simp

declare readFull.simps [simp del] readAll.simps [simp del]

lemma Discard_in_left:
  assumes "on_rd (rd_Discard k) s = Ret (Inr u, t)"
  shows "in_left s = k + in_left t \<and> remain t = remain s \<and> last_pkt t = last_pkt s"
proof -
  have "concat (drop_pieces k ps) = drop k (concat ps)" if "k \<le> length (concat ps)" for ps
    using that by (induction ps arbitrary: k) auto
  then show ?thesis
    using assms by (auto simp: on_rd_def rd_Discard_def in_left_def unreads_def split: if_splits)
qed

function skipAll :: "('a pkt_io_scheme, unit) pm" where
  "skipAll s =
     (if remain s = 0 \<and> last_pkt s then pret () s
      else pbind next_header (\<lambda>_ s1.
        if remain s1 < 0 then Hang
        else pbind (on_rd (rd_Discard (nat (remain s1)))) (\<lambda>_ s2. skipAll (s2\<lparr>remain := 0\<rparr>)) s1) s)"
  by pat_completeness auto
termination
proof (relation "measure in_left", goal_cases)
  case (2 s u t v w)
  have "in_left w < in_left s"
    using next_header_in_left [OF 2(2)] 2(3) Discard_in_left [OF 2(4)]
    by (cases "remain t = 0") auto
  then show ?case by (simp add: in_left_def)
qed simp

function skipN :: "int \<Rightarrow> ('a pkt_io_scheme, unit) pm" where
  "skipN n s =
     (if n \<le> 0 then pret () s
      else pbind next_header (\<lambda>_ s1.
        if remain s1 < 0 then Hang
        else pbind (on_rd (rd_Discard (nat (min n (remain s1))))) (\<lambda>_ s2.
             skipN (n - min n (remain s1)) (s2\<lparr>remain := remain s2 - min n (remain s1)\<rparr>)) s1) s)"
  by pat_completeness auto
termination
proof (relation "measure (in_left \<circ> snd)", goal_cases)
  case (2 n s u t v w)
  have "in_left w < in_left s"
    using next_header_in_left [OF 2(2)] 2(1,3) Discard_in_left [OF 2(4)]
    by (cases "remain t = 0") auto
  then show ?case by (simp add: in_left_def)
qed simp

declare skipAll.simps [simp del] skipN.simps [simp del]

definition unreadByte :: "('a pkt_io_scheme, unit) pm" where
  "unreadByte = pbind (on_rd rd_UnreadByte) (\<lambda>_. modify (\<lambda>s. s\<lparr>remain := remain s + 1\<rparr>))"

definition pr_eof :: "'a pkt_io_scheme \<Rightarrow> bool" where
  "pr_eof s \<longleftrightarrow> remain s = 0 \<and> last_pkt s"

definition checkEof :: "('a pkt_io_scheme, unit) pm" where
  "checkEof s = (if pr_eof s then pret () s else raise ErrPktLong s)"

section \<open>The wire format\<close>

definition header :: "byte \<Rightarrow> nat \<Rightarrow> byte list" where
  "header q n = EncodeU24 (of_nat n) @ [q]"

function frames :: "byte \<Rightarrow> byte list \<Rightarrow> byte list" where
  "frames q p =
     (if length p < max_pkt then header q (length p) @ p
      else header q max_pkt @ take max_pkt p @ frames (q + 1) (drop max_pkt p))"
  by pat_completeness auto
termination by (relation "measure (length \<circ> snd)") (simp_all add: max_pkt_def)

declare frames.simps [simp del]

definition nframes :: "byte list \<Rightarrow> nat" where
  "nframes p = length p div max_pkt + 1"

text \<open>
  The reader \<open>s\<close> is inside a payload of which \<open>p\<close> is still to come, however it is cut into packets
  and pieces; behind it come the bytes \<open>rest\<close>, and \<open>q\<close> is the sequence number after it.  The flag \<open>e\<close>
  says that the payload does not end on a packet boundary, so that no empty packet follows it.
\<close>

definition reading :: "'a pkt_io_scheme \<Rightarrow> byte list \<Rightarrow> byte list \<Rightarrow> byte \<Rightarrow> bool \<Rightarrow> bool" where
  "reading s p rest q e \<longleftrightarrow>
     (if last_pkt s then remain s = int (length p) \<and> unreads (rd s) = p @ rest \<and> q = pkt_seq s \<and> e
      else 0 \<le> remain s \<and> remain s \<le> int (length p)
        \<and> unreads (rd s) = take (nat (remain s)) p @ frames (pkt_seq s) (drop (nat (remain s)) p) @ rest
        \<and> q = pkt_seq s + of_nat (nframes (drop (nat (remain s)) p))
        \<and> e = ((length p - nat (remain s)) mod max_pkt \<noteq> 0))"

definition moved_rd :: "'a pkt_io_scheme \<Rightarrow> 'a pkt_io_scheme \<Rightarrow> bool" where
  "moved_rd s t \<longleftrightarrow> (\<exists>r q m l. t = s\<lparr>rd := r, pkt_seq := q, remain := m, last_pkt := l\<rparr> \<and> rd_err r = rd_err (rd s))"

definition parses :: "('a pkt_io_scheme, 'b) pm \<Rightarrow> 'b \<Rightarrow> byte list \<Rightarrow> bool" where
  "parses m x p \<longleftrightarrow>
     (\<forall>s p' rest q e. reading s (p @ p') rest q e \<longrightarrow>
        (\<exists>t. m s = Ret (Inr x, t) \<and> reading t p' rest q e \<and> moved_rd s t))"

lemma moved_rd_refl [simp]: "moved_rd s s"
  unfolding moved_rd_def
  by (intro exI [of _ "rd s"] exI [of _ "pkt_seq s"] exI [of _ "remain s"] exI [of _ "last_pkt s"]) simp

lemma moved_rd_trans [trans]: "moved_rd s t \<Longrightarrow> moved_rd t u \<Longrightarrow> moved_rd s u"
  unfolding moved_rd_def by fastforce

lemma moved_rdI:
  "rd_err r = rd_err (rd s) \<Longrightarrow> moved_rd s (s\<lparr>rd := r, pkt_seq := q, remain := m, last_pkt := l\<rparr>)"
  unfolding moved_rd_def by blast

lemma moved_rd_rd: "rd_err r = rd_err (rd s) \<Longrightarrow> moved_rd s (s\<lparr>rd := r\<rparr>)"
  using moved_rdI [where s = s and r = r and q = "pkt_seq s" and m = "remain s" and l = "last_pkt s"] by simp

lemma moved_rd_both: "rd_err r = rd_err (rd s) \<Longrightarrow> moved_rd s (s\<lparr>rd := r, remain := m\<rparr>)"
  using moved_rdI [where s = s and r = r and q = "pkt_seq s" and m = m and l = "last_pkt s"] by simp

lemma moved_rd_remain [simp]: "moved_rd s (s\<lparr>remain := m\<rparr>)"
  using moved_rdI [where s = s and r = "rd s" and q = "pkt_seq s" and m = m and l = "last_pkt s"] by simp

lemma parses_ret: "parses (pret x) x []"
  by (simp add: parses_def pret_def)

lemma parses_bind:
  assumes "parses m x p" and "parses (f x) y p'"
  shows "parses (pbind m f) y (p @ p')"
  unfolding parses_def
proof (intro allI impI)
  fix s :: "'a pkt_io_scheme" and p'' rest q e
  assume "reading s ((p @ p') @ p'') rest q e"
  then obtain t where t: "m s = Ret (Inr x, t)" "reading t (p' @ p'') rest q e" "moved_rd s t"
    using assms(1) unfolding parses_def by (metis append_assoc)
  then obtain u where "f x t = Ret (Inr y, u)" "reading u p'' rest q e" "moved_rd t u"
    using assms(2) unfolding parses_def by blast
  then show "\<exists>t. pbind m f s = Ret (Inr y, t) \<and> reading t p'' rest q e \<and> moved_rd s t"
    using t moved_rd_trans by auto
qed

lemma DecodeU24_EncodeU24: "uint (DecodeU24 (EncodeU24 v)) = uint v mod 2 ^ 24"
proof -
  have "bit (DecodeU24 (EncodeU24 v)) n = bit (take_bit 24 v) n" if "n < 32" for n
    using that by (cases "n < 16") (auto simp: DecodeU24_def EncodeU24_def bit_simps)
  then have "DecodeU24 (EncodeU24 v) = take_bit 24 v"
    by (intro bit_word_eqI) simp
  then have "uint (DecodeU24 (EncodeU24 v)) = take_bit 24 (uint v)"
    by (simp only: unsigned_take_bit_eq)
  then show ?thesis
    by (simp add: take_bit_eq_mod)
qed

lemma DecodeU24_header:
  assumes "n \<le> max_pkt"
  shows "uint (DecodeU24 (EncodeU24 (of_nat n))) = int n"
proof -
  have "int n < 2 ^ 24" using assms by (simp add: max_pkt_def)
  then show ?thesis
    by (simp add: DecodeU24_EncodeU24 unsigned_of_nat take_bit_eq_mod)
qed

lemma header_loop_ok:
  "unreads (rd s) = a @ x \<Longrightarrow> length a = k \<Longrightarrow>
     \<exists>r. header_loop k s = Ret (Inr a, s\<lparr>rd := r\<rparr>) \<and> unreads r = x \<and> rd_err r = rd_err (rd s)"
proof (induction k s arbitrary: a rule: header_loop.induct)
  case (1 k s)
  show ?case
  proof (cases "k = 0")
    case True
    then show ?thesis using 1(2,3) by (intro exI [of _ "rd s"]) (simp add: header_loop.simps pret_def)
  next
    case False
    then have "unreads (rd s) \<noteq> []" using 1(2,3) by auto
    with False obtain j r where j: "0 < j" "j \<le> k" "rd_Read k (rd s) = (Inr (take j (unreads (rd s))), r)"
        "unreads r = drop j (unreads (rd s))" "rd_err r = rd_err (rd s)"
      by (metis rd_Read_some neq0_conv)
    have r: "on_rd (rd_Read k) s = Ret (Inr (take j a), s\<lparr>rd := r\<rparr>)"
      using j(2,3) 1(2,3) by (simp add: on_rd_def)
    have u: "unreads (rd (s\<lparr>rd := r\<rparr>)) = drop j a @ x" "length (drop j a) = k - length (take j a)"
      using j(2,4) 1(2,3) by simp_all
    obtain r' where "header_loop (k - length (take j a)) (s\<lparr>rd := r\<rparr>) = Ret (Inr (drop j a), s\<lparr>rd := r'\<rparr>)"
        "unreads r' = x" "rd_err r' = rd_err r"
      using 1(1) [OF False r u] by auto
    then show ?thesis
      using False r j(5) by (subst header_loop.simps) (auto simp: pret_def)
  qed
qed

lemma rd_ReadByte_ok:
  assumes "unreads r = b # x"
  obtains r' where "rd_ReadByte r = (Inr b, r')" "unreads r' = x" "rd_err r' = rd_err r" "last_byte r' = Some b"
proof -
  obtain p ps where p: "avail r = p # ps"
    using assms concat_avail [of r] by (cases "avail r") (auto simp: unreads_def)
  have "hd p = b" "tl p @ concat ps = x"
    using avail_hd [OF p] avail_Cons [OF p] assms by (cases p; simp)+
  then show ?thesis
    using p by (intro that [of "r\<lparr>pieces := tl p # ps, last_byte := Some b\<rparr>"])
      (auto simp: rd_ReadByte_def unreads_def)
qed

lemma readHeader_ok:
  assumes "unreads (rd s) = header (pkt_seq s) n @ x" and "n \<le> max_pkt"
  shows "\<exists>r. readHeader s = Ret (Inr (), s\<lparr>rd := r, pkt_seq := pkt_seq s + 1, remain := int n, last_pkt := n < max_pkt\<rparr>)
     \<and> unreads r = x \<and> rd_err r = rd_err (rd s)"
proof -
  have "unreads (rd s) = EncodeU24 (of_nat n) @ pkt_seq s # x" "length (EncodeU24 (of_nat n)) = 3"
    using assms(1) by (simp_all add: header_def EncodeU24_def)
  then obtain r where r: "header_loop 3 s = Ret (Inr (EncodeU24 (of_nat n)), s\<lparr>rd := r\<rparr>)"
      "unreads r = pkt_seq s # x" "rd_err r = rd_err (rd s)"
    using header_loop_ok by blast
  obtain r' where "rd_ReadByte r = (Inr (pkt_seq s), r')" "unreads r' = x" "rd_err r' = rd_err r"
    using rd_ReadByte_ok [OF r(2)] by metis
  then show ?thesis
    using r assms(2) unfolding readHeader_def
    by (intro exI [of _ r']) (auto simp: DecodeU24_header on_rd_def modify_def intro!: pkt_io.equality)
qed

lemma moved_rd_seq: "moved_rd s t \<Longrightarrow> rd_err (rd t) = rd_err (rd s)"
  by (auto simp: moved_rd_def)

lemma next_header_reading:
  assumes "reading s p rest q e" and "p \<noteq> []"
  shows "\<exists>t. next_header s = Ret (Inr (), t) \<and> reading t p rest q e \<and> moved_rd s t \<and> 0 < remain t"
proof (cases "remain s = 0")
  case False
  then show ?thesis using assms by (auto simp: next_header_def reading_def pret_def split: if_splits)
next
  case True
  then have l: "\<not> last_pkt s" using assms by (auto simp: reading_def)
  define n where "n = min (length p) max_pkt"
  have n: "0 < n" "n \<le> length p" "n \<le> max_pkt" using assms(2) by (simp_all add: n_def max_pkt_def)
  have u: "unreads (rd s) = frames (pkt_seq s) p @ rest" "q = pkt_seq s + of_nat (nframes p)"
      "e = (length p mod max_pkt \<noteq> 0)"
    using assms(1) True l by (simp_all add: reading_def)
  have f: "frames (pkt_seq s) p = header (pkt_seq s) n @ take n p
      @ (if n < max_pkt then [] else frames (pkt_seq s + 1) (drop n p))"
    by (subst frames.simps) (auto simp: n_def min_def)
  obtain r where r: "readHeader s = Ret (Inr (), s\<lparr>rd := r, pkt_seq := pkt_seq s + 1, remain := int n, last_pkt := n < max_pkt\<rparr>)"
      "unreads r = take n p @ (if n < max_pkt then [] else frames (pkt_seq s + 1) (drop n p)) @ rest"
      "rd_err r = rd_err (rd s)"
    using readHeader_ok [of s n] u(1) f n(3) by fastforce
  define t where "t = s\<lparr>rd := r, pkt_seq := pkt_seq s + 1, remain := int n, last_pkt := n < max_pkt\<rparr>"
  have "reading t p rest q e"
  proof (cases "n < max_pkt")
    case True
    then have "n = length p" by (simp add: n_def min_def split: if_splits)
    then show ?thesis using True r u n by (simp add: reading_def t_def nframes_def)
  next
    case False
    then have m: "n = max_pkt" "max_pkt \<le> length p" using n by simp_all
    have "length p div max_pkt = (length p - max_pkt) div max_pkt + 1"
      using m(2) by (simp add: max_pkt_def le_div_geq)
    moreover have "length p mod max_pkt = (length p - max_pkt) mod max_pkt"
      using m(2) by (simp add: le_mod_geq)
    ultimately show ?thesis
      using False m r u by (simp add: reading_def t_def nframes_def)
  qed
  moreover have "moved_rd s t" unfolding t_def using r(3) by (rule moved_rdI)
  ultimately show ?thesis using True l r(1) n(1) by (auto simp: next_header_def t_def)
qed

lemma reading_drop:
  assumes "reading s p rest q e" and "int k \<le> remain s" and "unreads r = drop k (unreads (rd s))"
  shows "reading (s\<lparr>rd := r, remain := remain s - int k\<rparr>) (drop k p) rest q e"
proof -
  have r: "remain s \<le> int (length p)" "k \<le> nat (remain s)" "k \<le> length p"
    using assms(1,2) by (auto simp: reading_def split: if_splits)
  have n: "nat (remain s - int k) = nat (remain s) - k" by simp
  have l: "length p - nat (remain s) = length (drop k p) - (nat (remain s) - k)"
    and d: "drop (nat (remain s)) p = drop (nat (remain s) - k) (drop k p)"
    and t: "drop k (take (nat (remain s)) p) = take (nat (remain s) - k) (drop k p)"
    using r by (simp_all add: drop_take)
  show ?thesis
  proof (cases "last_pkt s")
    case True
    then show ?thesis using assms r by (simp add: reading_def)
  next
    case False
    then have "0 \<le> remain s"
      and u: "unreads (rd s) = take (nat (remain s)) p @ frames (pkt_seq s) (drop (nat (remain s)) p) @ rest"
      and q: "q = pkt_seq s + of_nat (nframes (drop (nat (remain s)) p))"
      and e: "e = ((length p - nat (remain s)) mod max_pkt \<noteq> 0)"
      using assms(1) by (auto simp: reading_def)
    moreover have "unreads r = take (nat (remain s) - k) (drop k p) @ frames (pkt_seq s) (drop (nat (remain s) - k) (drop k p)) @ rest"
      using assms(3) r by (simp add: u drop_append t [symmetric] d [symmetric] del: drop_drop)
    moreover have "q = pkt_seq s + of_nat (nframes (drop (nat (remain s) - k) (drop k p)))"
        "e = ((length (drop k p) - (nat (remain s) - k)) mod max_pkt \<noteq> 0)"
      using q e by (simp_all only: d [symmetric] l [symmetric])
    ultimately show ?thesis using False r by (simp add: reading_def n)
  qed
qed

lemma fragment_take:
  assumes "reading s (p @ p') rest q e" and "k \<le> length p" and "int k \<le> remain s"
  shows "take k (unreads (rd s)) = take k p"
  using assms by (auto simp: reading_def split: if_splits)

lemma fragment_Read:
  assumes "reading s (p @ p') rest q e" and "0 < remain s" and "p \<noteq> []"
  obtains k r where "0 < k" "k \<le> length p" "rd_Read (min (length p) (nat (remain s))) (rd s) = (Inr (take k p), r)"
    "reading (s\<lparr>rd := r, remain := remain s - int k\<rparr>) (drop k p @ p') rest q e" "rd_err r = rd_err (rd s)"
proof -
  define m where "m = min (length p) (nat (remain s))"
  have m: "0 < m" "m \<le> length p" "int m \<le> remain s" using assms(2,3) by (auto simp: m_def)
  have "unreads (rd s) \<noteq> []"
    using fragment_take [OF assms(1) m(2,3)] m(1) assms(3) by (cases "unreads (rd s)") auto
  then obtain k r where k: "0 < k" "k \<le> m" "rd_Read m (rd s) = (Inr (take k (unreads (rd s))), r)"
      "unreads r = drop k (unreads (rd s))" "rd_err r = rd_err (rd s)"
    using rd_Read_some [of m "rd s"] m(1) by blast
  then have "k \<le> length p" "int k \<le> remain s" using m by simp_all
  then show ?thesis
    using that [of k r] k fragment_take [OF assms(1)] reading_drop [OF assms(1) _ k(4)]
    by (simp add: m_def)
qed

lemma readFull_parses: "length p = n \<Longrightarrow> parses (readFull n) p p"
  unfolding parses_def
proof (intro allI impI)
  fix s :: "'a pkt_io_scheme" and p' rest q e
  assume "length p = n" and "reading s (p @ p') rest q e"
  then show "\<exists>t. readFull n s = Ret (Inr p, t) \<and> reading t p' rest q e \<and> moved_rd s t"
  proof (induction n s arbitrary: p rule: readFull.induct)
    case (1 n s)
    show ?case
    proof (cases "n = 0")
      case True
      then show ?thesis using 1(2,3) by (simp add: readFull.simps pret_def)
    next
      case False
      then have "p \<noteq> []" using 1(2) by auto
      then obtain t where t: "next_header s = Ret (Inr (), t)" "reading t (p @ p') rest q e" "moved_rd s t" "0 < remain t"
        using next_header_reading [OF 1(3)] by auto
      obtain k r where k: "0 < k" "k \<le> length p" "rd_Read (min n (nat (remain t))) (rd t) = (Inr (take k p), r)"
          "reading (t\<lparr>rd := r, remain := remain t - int k\<rparr>) (drop k p @ p') rest q e" "rd_err r = rd_err (rd t)"
        using fragment_Read [OF t(2,4) \<open>p \<noteq> []\<close>] 1(2) by metis
      have o: "on_rd (rd_Read (min n (nat (remain t)))) t = Ret (Inr (take k p), t\<lparr>rd := r\<rparr>)"
        using k(3) by (simp add: on_rd_def)
      let ?u = "(t\<lparr>rd := r\<rparr>)\<lparr>remain := remain (t\<lparr>rd := r\<rparr>) - int (length (take k p))\<rparr>"
      have u: "?u = t\<lparr>rd := r, remain := remain t - int k\<rparr>" using k(2) by simp
      have "reading ?u (drop k p @ p') rest q e" using k(4) by (simp only: u)
      moreover have "length (drop k p) = n - length (take k p)" using 1(2) k(2) by simp
      ultimately obtain v where v: "readFull (n - length (take k p)) ?u = Ret (Inr (drop k p), v)"
          "reading v p' rest q e" "moved_rd ?u v"
        using 1(1) [OF False t(1) _ o] t(4) by fastforce
      have "moved_rd t ?u"
        unfolding u using k(5) by (rule moved_rd_both)
      then have "moved_rd s v" using t(3) v(3) moved_rd_trans by blast
      then show ?thesis
        using False t(1,4) o v(1,2) by (subst readFull.simps) (auto simp: pret_def)
    qed
  qed
qed

text \<open>One byte; the reader remembers it, so that it can be pushed back.\<close>

lemma readByte_reading:
  assumes "reading s (b # p) rest q e"
  obtains t where "readByte s = Ret (Inr b, t)" "reading t p rest q e" "moved_rd s t"
    "last_byte (rd t) = Some b" "0 \<le> remain t"
proof -
  obtain t where t: "next_header s = Ret (Inr (), t)" "reading t (b # p) rest q e" "moved_rd s t" "0 < remain t"
    using next_header_reading [OF assms] by auto
  have m: "nat (remain t) = Suc (nat (remain t) - 1)" using t(4) by simp
  obtain y where "unreads (rd t) = b # y"
    using t(2,4) by (auto simp: reading_def take_Cons' split: if_splits)
  then obtain r where r: "rd_ReadByte (rd t) = (Inr b, r)" "unreads r = y" "rd_err r = rd_err (rd t)" "last_byte r = Some b"
    using rd_ReadByte_ok by metis
  define u where "u = t\<lparr>rd := r, remain := remain t - 1\<rparr>"
  have n: "nat (remain t - 1) = nat (remain t) - 1" by simp
  have "reading u p rest q e"
    using t(2,4) r(2) \<open>unreads (rd t) = b # y\<close>
    by (auto simp: reading_def u_def n take_Cons' drop_Cons' split: if_splits)
  moreover have "moved_rd s u"
    using t(3) moved_rd_both [OF r(3), of "remain t - 1"] unfolding u_def by (rule moved_rd_trans)
  moreover have "readByte s = Ret (Inr b, u)"
    using t(1) r(1) by (simp add: readByte_def on_rd_def modify_def pret_def u_def)
  ultimately show ?thesis using that r(4) t(4) by (simp add: u_def)
qed

lemma readByte_parses: "parses readByte b [b]"
  unfolding parses_def by (metis append_Cons append_Nil readByte_reading)

lemma unreadByte_reading:
  assumes "reading t p rest q e" and "last_byte (rd t) = Some b" and "0 \<le> remain t"
  shows "\<exists>u. unreadByte t = Ret (Inr (), u) \<and> reading u (b # p) rest q e \<and> moved_rd t u"
proof -
  let ?r = "(rd t)\<lparr>pieces := unread b (pieces (rd t)), last_byte := None\<rparr>"
  have u: "unreads ?r = b # unreads (rd t)"
    by (cases "pieces (rd t)") (simp_all add: unreads_def)
  have n: "nat (remain t + 1) = Suc (nat (remain t))" using assms(3) by simp
  have "reading (t\<lparr>rd := ?r, remain := remain t + 1\<rparr>) (b # p) rest q e"
    using assms(1) u by (auto simp: reading_def n split: if_splits)
  moreover have "moved_rd t (t\<lparr>rd := ?r, remain := remain t + 1\<rparr>)"
    by (rule moved_rd_both) simp
  ultimately show ?thesis
    using assms(2) by (simp add: unreadByte_def on_rd_def rd_UnreadByte_def modify_def)
qed

definition finished :: "'a pkt_io_scheme \<Rightarrow> byte list \<Rightarrow> byte \<Rightarrow> bool" where
  "finished s rest q \<longleftrightarrow> pr_eof s \<and> unreads (rd s) = rest \<and> pkt_seq s = q"

lemma reading_finished: "reading s [] rest q True \<longleftrightarrow> finished s rest q"
  by (auto simp: reading_def finished_def pr_eof_def max_pkt_def)

lemma checkEof_finished: "finished s rest q \<Longrightarrow> checkEof s = Ret (Inr (), s)"
  by (simp add: finished_def checkEof_def pret_def)

lemma checkEof_boundary: "reading s [] rest q False \<Longrightarrow> checkEof s = Ret (Inl ErrPktLong, s)"
  by (auto simp: reading_def checkEof_def raise_def pr_eof_def split: if_splits)

text \<open>Reading or skipping the rest also takes the empty packet behind a full last one.\<close>

lemma next_header_end:
  assumes "reading s [] rest q False"
  shows "\<exists>t. next_header s = Ret (Inr (), t) \<and> finished t rest q \<and> moved_rd s t"
proof -
  have s: "\<not> last_pkt s" "remain s = 0" "unreads (rd s) = header (pkt_seq s) 0 @ rest" "q = pkt_seq s + 1"
    using assms by (auto simp: reading_def frames.simps nframes_def max_pkt_def split: if_splits)
  then obtain r where "readHeader s = Ret (Inr (), s\<lparr>rd := r, pkt_seq := pkt_seq s + 1, remain := 0, last_pkt := True\<rparr>)"
      "unreads r = rest" "rd_err r = rd_err (rd s)"
    using readHeader_ok [OF s(3)] by (auto simp: max_pkt_def)
  then show ?thesis
    using s moved_rdI [of r s] by (auto simp: next_header_def finished_def pr_eof_def)
qed

lemma readAll_reading:
  "reading s p rest q e \<Longrightarrow> \<exists>t. readAll s = Ret (Inr p, t) \<and> finished t rest q \<and> moved_rd s t"
proof (induction s arbitrary: p rule: readAll.induct)
  case (1 s)
  consider "pr_eof s" | "\<not> pr_eof s" "p = []" | "\<not> pr_eof s" "p \<noteq> []" by blast
  then show ?case
  proof cases
    case 1
    then have "p = []" "finished s rest q"
      using "1.prems" by (auto simp: reading_def pr_eof_def finished_def)
    then show ?thesis using 1 by (subst readAll.simps) (auto simp: pr_eof_def pret_def)
  next
    case 2
    then have "reading s [] rest q False"
      using "1.prems" by (cases e) (auto simp: reading_finished finished_def)
    then obtain t where t: "next_header s = Ret (Inr (), t)" "finished t rest q" "moved_rd s t"
      using next_header_end by blast
    have "remain t = 0" "t\<lparr>remain := 0\<rparr> = t"
      using t(2) by (auto simp: finished_def pr_eof_def)
    then have "readAll (t\<lparr>remain := 0\<rparr>) = Ret (Inr [], t)"
      using t(2) by (subst readAll.simps) (simp add: finished_def pr_eof_def pret_def)
    then show ?thesis
      using t 2 \<open>remain t = 0\<close> by (subst readAll.simps) (auto simp: pr_eof_def on_rd_def pret_def)
  next
    case 3
    then obtain t where t: "next_header s = Ret (Inr (), t)" "reading t p rest q e" "moved_rd s t" "0 < remain t"
      using next_header_reading [OF "1.prems"] by auto
    have "min (length p) (nat (remain t)) = nat (remain t)"
      using t(2) by (auto simp: reading_def split: if_splits)
    then obtain k r where k: "0 < k" "k \<le> length p" "rd_Read (nat (remain t)) (rd t) = (Inr (take k p), r)"
        "reading (t\<lparr>rd := r, remain := remain t - int k\<rparr>) (drop k p) rest q e" "rd_err r = rd_err (rd t)"
      using fragment_Read [of t p "[]" rest q e] t(2,4) 3 by auto
    let ?u = "(t\<lparr>rd := r\<rparr>)\<lparr>remain := remain (t\<lparr>rd := r\<rparr>) - int (length (take k p))\<rparr>"
    have u: "?u = t\<lparr>rd := r, remain := remain t - int k\<rparr>" using k(2) by simp
    have o: "on_rd (rd_Read (nat (remain t))) t = Ret (Inr (take k p), t\<lparr>rd := r\<rparr>)"
      using k(3) by (simp add: on_rd_def)
    obtain v where v: "readAll ?u = Ret (Inr (drop k p), v)" "finished v rest q" "moved_rd ?u v"
      using "1.IH" [OF _ t(1) _ o, of "drop k p"] 3 t(4) k(4) unfolding u pr_eof_def by auto
    have "moved_rd t ?u" unfolding u using k(5) by (rule moved_rd_both)
    then have "moved_rd s v" using t(3) v(3) moved_rd_trans by blast
    then show ?thesis
      using 3 t(1,4) o v(1,2) by (subst readAll.simps) (auto simp: pr_eof_def pret_def)
  qed
qed

lemma Discard_reading:
  assumes "reading s (p @ p') rest q e" and "k \<le> length p" and "int k \<le> remain s"
  shows "\<exists>r. on_rd (rd_Discard k) s = Ret (Inr (), s\<lparr>rd := r\<rparr>) \<and> rd_err r = rd_err (rd s)
    \<and> reading (s\<lparr>rd := r, remain := remain s - int k\<rparr>) (drop k p @ p') rest q e"
proof -
  have d: "concat (drop_pieces k ps) = drop k (concat ps)" if "k \<le> length (concat ps)" for ps
    using that by (induction ps arbitrary: k) auto
  have "k \<le> length (unreads (rd s))"
    using arg_cong [OF fragment_take [OF assms], of length] assms(2) by simp
  then show ?thesis
    using d [of "pieces (rd s)"] assms(2,3) reading_drop [OF assms(1,3)]
    by (intro exI [of _ "(rd s)\<lparr>pieces := drop_pieces k (pieces (rd s)), last_byte := None\<rparr>"])
      (simp add: on_rd_def rd_Discard_def unreads_def)
qed

lemma skipAll_reading:
  "reading s p rest q e \<Longrightarrow> \<exists>t. skipAll s = Ret (Inr (), t) \<and> finished t rest q \<and> moved_rd s t"
proof (induction s arbitrary: p rule: skipAll.induct)
  case (1 s)
  consider "pr_eof s" | "\<not> pr_eof s" "p = []" | "\<not> pr_eof s" "p \<noteq> []" by blast
  then show ?case
  proof cases
    case 1
    then have "p = []" "finished s rest q"
      using "1.prems" by (auto simp: reading_def pr_eof_def finished_def)
    then show ?thesis using 1 by (subst skipAll.simps) (auto simp: pr_eof_def pret_def)
  next
    case 2
    then have "reading s [] rest q False"
      using "1.prems" by (cases e) (auto simp: reading_finished finished_def)
    then obtain t where t: "next_header s = Ret (Inr (), t)" "finished t rest q" "moved_rd s t"
      using next_header_end by blast
    then have z: "reading t ([] @ []) rest q True" "remain t = 0"
      by (simp_all add: reading_finished) (simp add: finished_def pr_eof_def)
    then obtain r where r: "on_rd (rd_Discard 0) t = Ret (Inr (), t\<lparr>rd := r\<rparr>)" "rd_err r = rd_err (rd t)"
        "finished (t\<lparr>rd := r, remain := 0\<rparr>) rest q"
      using Discard_reading [OF z(1), of 0] by (auto simp: reading_finished)
    have "skipAll (t\<lparr>rd := r, remain := 0\<rparr>) = Ret (Inr (), t\<lparr>rd := r, remain := 0\<rparr>)"
      using r(3) by (subst skipAll.simps) (auto simp: finished_def pr_eof_def pret_def)
    moreover have "moved_rd s (t\<lparr>rd := r, remain := 0\<rparr>)"
      using t(3) moved_rd_both [OF r(2)] by (rule moved_rd_trans)
    ultimately show ?thesis
      using t(1) z(2) r 2 by (subst skipAll.simps) (auto simp: pr_eof_def)
  next
    case 3
    then obtain t where t: "next_header s = Ret (Inr (), t)" "reading t p rest q e" "moved_rd s t" "0 < remain t"
      using next_header_reading [OF "1.prems"] by auto
    define k where "k = nat (remain t)"
    have k: "k \<le> length p" "int k \<le> remain t"
      using t(2,4) by (auto simp: reading_def k_def split: if_splits)
    then obtain r where r: "on_rd (rd_Discard k) t = Ret (Inr (), t\<lparr>rd := r\<rparr>)" "rd_err r = rd_err (rd t)"
        "reading (t\<lparr>rd := r, remain := 0\<rparr>) (drop k p) rest q e"
      using Discard_reading [of t p "[]" rest q e k] t(2,4) by (auto simp: k_def)
    obtain v where v: "skipAll (t\<lparr>rd := r, remain := 0\<rparr>) = Ret (Inr (), v)" "finished v rest q"
        "moved_rd (t\<lparr>rd := r, remain := 0\<rparr>) v"
      using "1.IH" [OF _ t(1) _ r(1) [unfolded k_def], of "drop k p"] 3 t(4) r(3) unfolding pr_eof_def by auto
    have "moved_rd s v"
      using t(3) moved_rd_both [OF r(2)] v(3) moved_rd_trans by blast
    then show ?thesis
      using 3 t(1,4) r(1) v(1,2) by (subst skipAll.simps) (auto simp: pr_eof_def k_def)
  qed
qed

lemma skipN_parses: "length p = n \<Longrightarrow> parses (skipN (int n)) () p"
  unfolding parses_def
proof (intro allI impI)
  fix s :: "'a pkt_io_scheme" and p' rest q e
  assume "length p = n" and "reading s (p @ p') rest q e"
  then show "\<exists>t. skipN (int n) s = Ret (Inr (), t) \<and> reading t p' rest q e \<and> moved_rd s t"
  proof (induction "int n" s arbitrary: p n rule: skipN.induct)
    case (1 s)
    show ?case
    proof (cases "n = 0")
      case True
      then show ?thesis using 1(2,3) by (simp add: skipN.simps pret_def)
    next
      case False
      then have "p \<noteq> []" using 1(2) by auto
      then obtain t where t: "next_header s = Ret (Inr (), t)" "reading t (p @ p') rest q e" "moved_rd s t" "0 < remain t"
        using next_header_reading [OF 1(3)] by auto
      define k where "k = min n (nat (remain t))"
      have k: "k \<le> length p" "int k \<le> remain t" "min (int n) (remain t) = int k"
        using t(4) 1(2) by (auto simp: k_def)
      obtain r where r: "on_rd (rd_Discard k) t = Ret (Inr (), t\<lparr>rd := r\<rparr>)" "rd_err r = rd_err (rd t)"
          "reading (t\<lparr>rd := r, remain := remain t - int k\<rparr>) (drop k p @ p') rest q e"
        using Discard_reading [OF t(2) k(1,2)] by blast
      have n: "int n - int k = int (n - k)" "length (drop k p) = n - k" using k(1) 1(2) by auto
      define u where "u = t\<lparr>rd := r, remain := remain t - int k\<rparr>"
      have u: "(t\<lparr>rd := r\<rparr>)\<lparr>remain := remain (t\<lparr>rd := r\<rparr>) - min (int n) (remain t)\<rparr> = u"
        by (simp add: u_def k(3))
      have o: "on_rd (rd_Discard (nat (min (int n) (remain t)))) t = Ret (Inr (), t\<lparr>rd := r\<rparr>)"
        by (simp only: k(3) nat_int r(1))
      have m: "int (n - k) = int n - min (int n) (remain t)" by (simp only: k(3) n(1))
      have z: "\<not> int n \<le> 0" "\<not> remain t < 0" using False t(4) by simp_all
      obtain v where v: "skipN (int (n - k)) u = Ret (Inr (), v)" "reading v p' rest q e" "moved_rd u v"
        using 1(1) [OF z(1) t(1) z(2) o m [symmetric] n(2), unfolded u] r(3) unfolding u_def [symmetric] m [symmetric] by blast
      have "moved_rd s v"
        using t(3) moved_rd_both [OF r(2)] v(3) moved_rd_trans unfolding u_def by blast
      moreover have "skipN (int n) s = skipN (int (n - k)) u"
        using z by (subst skipN.simps) (simp add: pbind_def t(1) r(1) u_def m k(3) del: of_nat_diff)
      ultimately show ?thesis using v(1,2) by auto
    qed
  qed
qed


section \<open>Writing packets\<close>

definition newPktWriter :: "nat \<Rightarrow> ('a pkt_io_scheme, unit) pm" where
  "newPktWriter to_write =
     modify (\<lambda>s. s\<lparr>w_remain := 0, w_to_write := to_write, w_last := False, w_buf := replicate 23 0\<rparr>)"

definition on_wr :: "(bufio_wr \<Rightarrow> bufio_wr) \<Rightarrow> ('a pkt_io_scheme, unit) pm" where
  "on_wr f s =
     (let w = f (wr s) in
      case wr_err w of None \<Rightarrow> Ret (Inr (), s\<lparr>wr := w\<rparr>) | Some e \<Rightarrow> Ret (Inl e, s\<lparr>wr := w\<rparr>))"

definition writeHeader :: "nat \<Rightarrow> ('a pkt_io_scheme, unit) pm" where
  "writeHeader l =
     pbind (on_wr (wr_Write (EncodeU24 (of_nat l)))) (\<lambda>_.
     pbind (gets pkt_seq) (\<lambda>q.
     pbind (on_wr (wr_Write [q])) (\<lambda>_.
     modify (\<lambda>s. s\<lparr>pkt_seq := pkt_seq s + 1\<rparr>))))"

definition start_fragment :: "('a pkt_io_scheme, unit) pm" where
  "start_fragment s =
     (if w_remain s \<noteq> 0 then pret () s
      else if w_to_write s = 0 then Panic (Explicit_Panic ''too many data for write as packet'')
      else let m = min (w_to_write s) max_pkt in
        writeHeader m (s\<lparr>w_remain := m, w_last := (if max_pkt \<le> w_to_write s then w_last s else True), w_to_write := w_to_write s - m\<rparr>))"

lemma on_wr_w_remain: "on_wr f s = Ret (r, t) \<Longrightarrow> w_remain t = w_remain s"
  by (auto simp: on_wr_def Let_def split: option.splits)

lemma start_fragment_remain: "start_fragment s = Ret (Inr u, t) \<Longrightarrow> 0 < w_remain t"
  by (auto simp: start_fragment_def writeHeader_def pret_def pbind_eq_Inr gets_def modify_def Let_def max_pkt_def min_def
      dest!: on_wr_w_remain split: if_splits)

function write_loop :: "byte list \<Rightarrow> ('a pkt_io_scheme, unit) pm" where
  "write_loop buf s =
     (if buf = [] then pret () s
      else pbind start_fragment (\<lambda>_ s1.
        pbind (on_wr (wr_Write (take (w_remain s1) buf))) (\<lambda>_ s2.
          write_loop (drop (w_remain s1) buf) (s2\<lparr>w_remain := w_remain s2 - length (take (w_remain s1) buf)\<rparr>)) s1) s)"
  by pat_completeness auto
termination
proof (relation "measure (length \<circ> fst)", goal_cases)
  case (2 buf s u t v w)
  then show ?case using start_fragment_remain [OF 2(2)] 2(1) by (cases buf) simp_all
qed simp

declare write_loop.simps [simp del]

definition pw_write :: "byte list \<Rightarrow> ('a pkt_io_scheme, unit) pm" where
  "pw_write buf =
     (if buf = [] then pret ()
      else pbind (write_loop buf) (\<lambda>_ s.
        if w_remain s + w_to_write s = 0 then
          pbind (if w_last s then pret () else writeHeader 0) (\<lambda>_. on_wr wr_Flush) s
        else pret () s))"

text \<open>The small writes go through the buffer \<open>w_buf\<close> of 23 bytes, whose other bytes keep their values.\<close>

definition put_buf :: "byte list \<Rightarrow> ('a pkt_io_scheme, unit) pm" where
  "put_buf bs = modify (\<lambda>s. s\<lparr>w_buf := bs @ drop (length bs) (w_buf s)\<rparr>)"

definition write_small :: "byte list \<Rightarrow> ('a pkt_io_scheme, unit) pm" where
  "write_small bs = pbind (put_buf bs) (\<lambda>_. pw_write bs)"

definition writeByte :: "byte \<Rightarrow> ('a pkt_io_scheme, unit) pm" where
  "writeByte b = write_small [b]"

definition writeZeros :: "nat \<Rightarrow> ('a pkt_io_scheme, unit) pm" where
  "writeZeros n = (if n \<le> 23 then write_small (replicate n 0) else crash Index_Out_Of_Range)"

text \<open>
  The writer \<open>s\<close> still has to be given the payload \<open>p\<close>; once it has been, the bytes that the
  connection has sent in all are \<open>outp\<close>, flushed, and \<open>q\<close> is the next sequence number.
\<close>

definition sent :: "bufio_wr \<Rightarrow> byte list" where
  "sent w = wire w @ wbuf w"

definition healthy :: "bufio_wr \<Rightarrow> bool" where
  "healthy w \<longleftrightarrow> wr_err w = None \<and> net_fail w = None \<and> length (wbuf w) \<le> 4096"

definition writing :: "'a pkt_io_scheme \<Rightarrow> byte list \<Rightarrow> byte list \<Rightarrow> byte \<Rightarrow> bool" where
  "writing s p outp q \<longleftrightarrow>
     healthy (wr s) \<and> length p = w_remain s + w_to_write s \<and> (w_last s \<longrightarrow> w_to_write s = 0) \<and> length (w_buf s) = 23 \<and>
     (if p = [] then wire (wr s) = outp \<and> wbuf (wr s) = [] \<and> q = pkt_seq s
      else if w_last s then sent (wr s) @ p = outp \<and> q = pkt_seq s
      else sent (wr s) @ take (w_remain s) p @ frames (pkt_seq s) (drop (w_remain s) p) = outp
        \<and> q = pkt_seq s + of_nat (nframes (drop (w_remain s) p)))"

definition moved_wr :: "'a pkt_io_scheme \<Rightarrow> 'a pkt_io_scheme \<Rightarrow> bool" where
  "moved_wr s t \<longleftrightarrow> (\<exists>w q m k l b. t = s\<lparr>wr := w, pkt_seq := q, w_remain := m, w_to_write := k, w_last := l, w_buf := b\<rparr>)"

definition emits :: "('a pkt_io_scheme, unit) pm \<Rightarrow> byte list \<Rightarrow> bool" where
  "emits m p \<longleftrightarrow>
     (\<forall>s p' outp q. writing s (p @ p') outp q \<longrightarrow>
        (\<exists>t. m s = Ret (Inr (), t) \<and> writing t p' outp q \<and> moved_wr s t))"

lemma wr_Write_ok:
  "healthy w \<Longrightarrow> healthy (wr_Write bs w) \<and> sent (wr_Write bs w) = sent w @ bs \<and> wr_err (wr_Write bs w) = None"
  by (auto simp: healthy_def wr_Write_def sent_def Let_def net_write_def wr_Flush_def split: if_splits)

lemma wr_Flush_ok:
  "healthy w \<Longrightarrow> healthy (wr_Flush w) \<and> wire (wr_Flush w) = sent w \<and> wbuf (wr_Flush w) = [] \<and> wr_err (wr_Flush w) = None"
  by (auto simp: healthy_def sent_def wr_Flush_def split: if_splits)

lemma moved_wrI: "moved_wr s (s\<lparr>wr := w, pkt_seq := q, w_remain := m, w_to_write := k, w_last := l, w_buf := b\<rparr>)"
  unfolding moved_wr_def by blast

lemma moved_wr_refl [simp]: "moved_wr s s"
  using moved_wrI [where s = s and w = "wr s" and q = "pkt_seq s" and m = "w_remain s" and k = "w_to_write s"
      and l = "w_last s" and b = "w_buf s"] by simp

lemma moved_wr_trans [trans]: "moved_wr s t \<Longrightarrow> moved_wr t u \<Longrightarrow> moved_wr s u"
  unfolding moved_wr_def by fastforce

lemma emits_bind:
  assumes "emits m p" and "emits m' p'"
  shows "emits (pbind m (\<lambda>_. m')) (p @ p')"
  unfolding emits_def
proof (intro allI impI)
  fix s :: "'a pkt_io_scheme" and p'' outp q
  assume "writing s ((p @ p') @ p'') outp q"
  then obtain t where t: "m s = Ret (Inr (), t)" "writing t (p' @ p'') outp q" "moved_wr s t"
    using assms(1) unfolding emits_def by (metis append_assoc)
  then obtain u where "m' t = Ret (Inr (), u)" "writing u p'' outp q" "moved_wr t u"
    using assms(2) unfolding emits_def by blast
  then show "\<exists>t. pbind m (\<lambda>_. m') s = Ret (Inr (), t) \<and> writing t p'' outp q \<and> moved_wr s t"
    using t moved_wr_trans by auto
qed

lemma emits_ret: "emits (pret ()) []"
  by (simp add: emits_def pret_def)

lemma writing_start:
  assumes "healthy (wr s)" and "p \<noteq> []"
  shows "\<exists>t. newPktWriter (length p) s = Ret (Inr (), t) \<and> moved_wr s t
    \<and> writing t p (sent (wr s) @ frames (pkt_seq s) p) (pkt_seq s + of_nat (nframes p))"
  using assms moved_wrI [where s = s and w = "wr s" and q = "pkt_seq s" and m = 0 and k = "length p" and l = False and b = "replicate 23 0"]
  by (simp add: newPktWriter_def modify_def writing_def)

lemma writeHeader_ok:
  assumes "healthy (wr s)"
  shows "\<exists>w. writeHeader l s = Ret (Inr (), s\<lparr>wr := w, pkt_seq := pkt_seq s + 1\<rparr>) \<and> healthy w
    \<and> sent w = sent (wr s) @ header (pkt_seq s) l"
  using wr_Write_ok [OF assms] wr_Write_ok [OF conjunct1 [OF wr_Write_ok [OF assms]]]
  by (intro exI [of _ "wr_Write [pkt_seq s] (wr_Write (EncodeU24 (of_nat l)) (wr s))"])
    (simp add: writeHeader_def on_wr_def header_def modify_def)

text \<open>Inside a payload the bytes sent so far do not have to be flushed.\<close>

definition ahead :: "'a pkt_io_scheme \<Rightarrow> byte list \<Rightarrow> byte list \<Rightarrow> byte \<Rightarrow> bool" where
  "ahead s p outp q \<longleftrightarrow>
     healthy (wr s) \<and> length p = w_remain s + w_to_write s \<and> (w_last s \<longrightarrow> w_to_write s = 0) \<and> length (w_buf s) = 23 \<and>
     (if w_last s then sent (wr s) @ p = outp \<and> q = pkt_seq s
      else sent (wr s) @ take (w_remain s) p @ frames (pkt_seq s) (drop (w_remain s) p) = outp
        \<and> q = pkt_seq s + of_nat (nframes (drop (w_remain s) p)))"

lemma writing_ahead: "p \<noteq> [] \<Longrightarrow> writing s p outp q \<longleftrightarrow> ahead s p outp q"
  by (auto simp: writing_def ahead_def)

lemma start_fragment_ok:
  assumes "ahead s p outp q" and "p \<noteq> []"
  shows "\<exists>t. start_fragment s = Ret (Inr (), t) \<and> ahead t p outp q \<and> moved_wr s t \<and> 0 < w_remain t"
proof (cases "w_remain s = 0")
  case False
  then show ?thesis using assms by (simp add: start_fragment_def pret_def)
next
  case True
  then have s: "healthy (wr s)" "length p = w_to_write s" "\<not> w_last s" "length (w_buf s) = 23"
      "sent (wr s) @ frames (pkt_seq s) p = outp" "q = pkt_seq s + of_nat (nframes p)"
    using assms by (auto simp: ahead_def split: if_splits)
  define m where "m = min (w_to_write s) max_pkt"
  have m: "0 < m" "m \<le> w_to_write s" using assms(2) s(2) by (cases p; simp add: m_def max_pkt_def)+
  define u where "u = s\<lparr>w_remain := m, w_last := (if max_pkt \<le> w_to_write s then w_last s else True), w_to_write := w_to_write s - m\<rparr>"
  obtain w where w: "writeHeader m u = Ret (Inr (), u\<lparr>wr := w, pkt_seq := pkt_seq u + 1\<rparr>)" "healthy w"
      "sent w = sent (wr u) @ header (pkt_seq u) m"
    using writeHeader_ok [of u m] s(1) by (auto simp: u_def)
  let ?t = "u\<lparr>wr := w, pkt_seq := pkt_seq u + 1\<rparr>"
  have "?t = s\<lparr>wr := w, pkt_seq := pkt_seq s + 1, w_remain := m, w_to_write := w_to_write s - m,
      w_last := w_last u, w_buf := w_buf s\<rparr>"
    by (rule pkt_io.equality) (simp_all add: u_def)
  then have "moved_wr s ?t" using moved_wrI by metis
  moreover have "ahead ?t p outp q"
  proof (cases "length p < max_pkt")
    case True
    then have "m = length p" using s(2) by (simp add: m_def)
    moreover have "frames (pkt_seq s) p = header (pkt_seq s) (length p) @ p" using True by (subst frames.simps) simp
    ultimately show ?thesis using w(2,3) s True by (simp add: ahead_def u_def nframes_def)
  next
    case False
    then have "m = max_pkt" using s(2) by (simp add: m_def)
    moreover have "frames (pkt_seq s) p = header (pkt_seq s) max_pkt @ take max_pkt p @ frames (pkt_seq s + 1) (drop max_pkt p)"
      using False by (subst frames.simps) simp
    moreover have "nframes p = nframes (drop max_pkt p) + 1"
      using False by (simp add: nframes_def max_pkt_def le_div_geq)
    ultimately show ?thesis using w(2,3) s False by (simp add: ahead_def u_def)
  qed
  ultimately show ?thesis
    using True m w(1) s(2) by (auto simp: start_fragment_def m_def u_def Let_def)
qed

lemma write_loop_ok:
  "ahead s (b @ p) outp q \<Longrightarrow> \<exists>t. write_loop b s = Ret (Inr (), t) \<and> ahead t p outp q \<and> moved_wr s t"
proof (induction b s rule: write_loop.induct)
  case (1 b s)
  show ?case
  proof (cases "b = []")
    case True
    then show ?thesis using 1(2) by (simp add: write_loop.simps pret_def)
  next
    case False
    then obtain t where t: "start_fragment s = Ret (Inr (), t)" "ahead t (b @ p) outp q" "moved_wr s t" "0 < w_remain t"
      using start_fragment_ok [OF 1(2)] by auto
    define n where "n = w_remain t"
    define w where "w = wr_Write (take n b) (wr t)"
    have h: "healthy (wr t)" using t(2) by (simp add: ahead_def)
    note w = wr_Write_ok [OF h, of "take n b", folded w_def]
    define u where "u = t\<lparr>wr := w, w_remain := n - length (take n b)\<rparr>"
    have o: "on_wr (wr_Write (take n b)) t = Ret (Inr (), t\<lparr>wr := w\<rparr>)"
      using w by (simp add: on_wr_def flip: w_def)
    have u: "(t\<lparr>wr := w\<rparr>)\<lparr>w_remain := w_remain (t\<lparr>wr := w\<rparr>) - length (take n b)\<rparr> = u"
      by (simp add: u_def n_def)
    have a: "ahead u (drop n b @ p) outp q"
    proof (cases "length b \<le> n")
      case True
      then show ?thesis using t(2) w by (auto simp: ahead_def u_def n_def)
    next
      case False
      then show ?thesis using t(2) w by (auto simp: ahead_def u_def n_def)
    qed
    have m: "moved_wr t u"
      using moved_wrI [where s = t and w = w and q = "pkt_seq t" and m = "n - length (take n b)" and k = "w_to_write t"
          and l = "w_last t" and b = "w_buf t"] by (simp add: u_def)
    obtain v where v: "write_loop (drop n b) u = Ret (Inr (), v)" "ahead v p outp q" "moved_wr u v"
      using 1(1) [OF False t(1) o [unfolded n_def], folded n_def, unfolded u] a by auto
    have "write_loop b s = write_loop (drop n b) u"
      using False t(1) o u by (subst write_loop.simps) (simp add: pbind_def flip: n_def)
    then show ?thesis using v t(3) m moved_wr_trans by metis
  qed
qed

lemma pw_write_emits: "emits (pw_write p) p"
  unfolding emits_def
proof (intro allI impI)
  fix s :: "'a pkt_io_scheme" and p' outp q
  assume a: "writing s (p @ p') outp q"
  show "\<exists>t. pw_write p s = Ret (Inr (), t) \<and> writing t p' outp q \<and> moved_wr s t"
  proof (cases "p = []")
    case True
    then show ?thesis using a by (simp add: pw_write_def pret_def)
  next
    case False
    then obtain t where t: "write_loop p s = Ret (Inr (), t)" "ahead t p' outp q" "moved_wr s t"
      using write_loop_ok a writing_ahead by (metis append_is_Nil_conv)
    show ?thesis
    proof (cases "p' = []")
      case False
      then have "w_remain t + w_to_write t \<noteq> 0" using t(2) by (cases p') (auto simp: ahead_def)
      then show ?thesis using \<open>p \<noteq> []\<close> t False by (auto simp: pw_write_def writing_ahead pret_def)
    next
      case True
      then have z: "w_remain t = 0" "w_to_write t = 0" "healthy (wr t)" "length (w_buf t) = 23"
        using t(2) by (auto simp: ahead_def)
      obtain u where u: "(if w_last t then pret () else writeHeader 0) t = Ret (Inr (), u)" "healthy (wr u)"
          "sent (wr u) = outp" "q = pkt_seq u" "w_remain u = 0" "w_to_write u = 0" "length (w_buf u) = 23" "moved_wr t u"
      proof (cases "w_last t")
        case True
        then show ?thesis using that [of t] t(2) z \<open>p' = []\<close> by (simp add: pret_def ahead_def)
      next
        case False
        obtain w where w: "writeHeader 0 t = Ret (Inr (), t\<lparr>wr := w, pkt_seq := pkt_seq t + 1\<rparr>)" "healthy w"
            "sent w = sent (wr t) @ header (pkt_seq t) 0"
          using writeHeader_ok z(3) by blast
        have "moved_wr t (t\<lparr>wr := w, pkt_seq := pkt_seq t + 1\<rparr>)"
          using moved_wrI [where s = t and w = w and q = "pkt_seq t + 1" and m = "w_remain t" and k = "w_to_write t"
              and l = "w_last t" and b = "w_buf t"] by simp
        then show ?thesis
          using that [OF _ _ _ _ _ _ _ \<open>moved_wr t _\<close>] t(2) z \<open>p' = []\<close> False w
          by (simp add: ahead_def frames.simps nframes_def max_pkt_def)
      qed
      note f = wr_Flush_ok [OF u(2)]
      have "moved_wr u (u\<lparr>wr := wr_Flush (wr u)\<rparr>)"
        using moved_wrI [where s = u and w = "wr_Flush (wr u)" and q = "pkt_seq u" and m = "w_remain u" and k = "w_to_write u"
            and l = "w_last u" and b = "w_buf u"] by simp
      then have "moved_wr s (u\<lparr>wr := wr_Flush (wr u)\<rparr>)" using t(3) u(8) moved_wr_trans by blast
      then show ?thesis
        using \<open>p \<noteq> []\<close> t(1) z(1,2) u f True by (simp add: pw_write_def on_wr_def writing_def pbind_def)
    qed
  qed
qed

lemma write_small_emits: "length p \<le> 23 \<Longrightarrow> emits (write_small p) p"
  unfolding emits_def
proof (intro allI impI)
  fix s :: "'a pkt_io_scheme" and p' outp q
  assume a: "length p \<le> 23" "writing s (p @ p') outp q"
  define u where "u = s\<lparr>w_buf := p @ drop (length p) (w_buf s)\<rparr>"
  have "writing u (p @ p') outp q" using a by (auto simp: writing_def u_def)
  then obtain t where "pw_write p u = Ret (Inr (), t)" "writing t p' outp q" "moved_wr u t"
    using pw_write_emits unfolding emits_def by blast
  moreover have "moved_wr s u"
    using moved_wrI [where s = s and w = "wr s" and q = "pkt_seq s" and m = "w_remain s" and k = "w_to_write s"
        and l = "w_last s" and b = "p @ drop (length p) (w_buf s)"] by (simp add: u_def)
  ultimately show "\<exists>t. write_small p s = Ret (Inr (), t) \<and> writing t p' outp q \<and> moved_wr s t"
    using moved_wr_trans by (auto simp: write_small_def put_buf_def u_def)
qed

lemma writeByte_emits: "emits (writeByte b) [b]"
  by (simp add: writeByte_def write_small_emits)

lemma writeZeros_emits: "n \<le> 23 \<Longrightarrow> emits (writeZeros n) (replicate n 0)"
  by (simp add: writeZeros_def write_small_emits)

section \<open>Packets from end to end\<close>

lemma newPktReader_reading:
  assumes "unreads (rd s) = frames (pkt_seq s) p @ rest"
  shows "\<exists>t. newPktReader s = Ret (Inr (), t) \<and> moved_rd s t
    \<and> reading t p rest (pkt_seq s + of_nat (nframes p)) (length p mod max_pkt \<noteq> 0)"
  using assms moved_rdI [where s = s and r = "rd s" and q = "pkt_seq s" and m = 0 and l = False]
  by (simp add: newPktReader_def modify_def reading_def)

fun write_chunks :: "byte list list \<Rightarrow> ('a pkt_io_scheme, unit) pm" where
  "write_chunks [] = pret ()"
| "write_chunks (b # bs) = pbind (pw_write b) (\<lambda>_. write_chunks bs)"

definition send_packet :: "byte list list \<Rightarrow> ('a pkt_io_scheme, unit) pm" where
  "send_packet bs = pbind (newPktWriter (length (concat bs))) (\<lambda>_. write_chunks bs)"

definition recv_packet :: "('a pkt_io_scheme, byte list) pm" where
  "recv_packet = pbind newPktReader (\<lambda>_. readAll)"

lemma write_chunks_emits: "emits (write_chunks bs) (concat bs)"
  by (induction bs) (simp_all add: emits_ret emits_bind pw_write_emits)

lemma writing_done:
  "writing s [] outp q \<longleftrightarrow>
     healthy (wr s) \<and> w_remain s = 0 \<and> w_to_write s = 0 \<and> length (w_buf s) = 23 \<and> wire (wr s) = outp \<and> wbuf (wr s) = [] \<and> q = pkt_seq s"
  by (auto simp: writing_def)

lemma emits_packet:
  assumes "emits m p" and "p \<noteq> []" and "healthy (wr s)"
  shows "\<exists>t. pbind (newPktWriter (length p)) (\<lambda>_. m) s = Ret (Inr (), t) \<and> moved_wr s t \<and> healthy (wr t)
    \<and> wire (wr t) = sent (wr s) @ frames (pkt_seq s) p \<and> wbuf (wr t) = [] \<and> pkt_seq t = pkt_seq s + of_nat (nframes p)"
proof -
  obtain t where t: "newPktWriter (length p) s = Ret (Inr (), t)" "moved_wr s t"
      "writing t (p @ []) (sent (wr s) @ frames (pkt_seq s) p) (pkt_seq s + of_nat (nframes p))"
    using writing_start [OF assms(3,2)] by auto
  then obtain u where "m t = Ret (Inr (), u)" "moved_wr t u"
      "writing u [] (sent (wr s) @ frames (pkt_seq s) p) (pkt_seq s + of_nat (nframes p))"
    using assms(1) unfolding emits_def by blast
  then show ?thesis using t moved_wr_trans by (auto simp: writing_done)
qed

lemma parses_packet:
  assumes "parses m x p" and "unreads (rd s) = frames (pkt_seq s) p @ rest"
  shows "\<exists>t. pbind newPktReader (\<lambda>_. m) s = Ret (Inr x, t) \<and> moved_rd s t
    \<and> reading t [] rest (pkt_seq s + of_nat (nframes p)) (length p mod max_pkt \<noteq> 0)"
proof -
  obtain t where t: "newPktReader s = Ret (Inr (), t)" "moved_rd s t"
      "reading t (p @ []) rest (pkt_seq s + of_nat (nframes p)) (length p mod max_pkt \<noteq> 0)"
    using newPktReader_reading [OF assms(2)] by auto
  then obtain u where "m t = Ret (Inr x, u)" "moved_rd t u"
      "reading u [] rest (pkt_seq s + of_nat (nframes p)) (length p mod max_pkt \<noteq> 0)"
    using assms(1) unfolding parses_def by blast
  then show ?thesis using t moved_rd_trans by auto
qed

text \<open>
  C8. Whatever chunks a packet writer is given, as long as their total length is the one it was made
  for, the connection sends the framing of their concatenation and flushes it; a packet reader on
  the other side that expects the same sequence number recovers exactly these bytes, under every
  segmentation of the stream and for every length (a payload of 16 MB and more goes through several
  packets), leaves what follows, and both sides end with the same sequence number.
\<close>

theorem packet_roundtrip:
  assumes "healthy (wr c)" and "wbuf (wr c) = []" and "concat chunks \<noteq> []"
  shows "\<exists>c' bs. send_packet chunks c = Ret (Inr (), c') \<and> wire (wr c') = wire (wr c) @ bs \<and> wbuf (wr c') = [] \<and>
     (\<forall>r rest. pkt_seq r = pkt_seq c \<and> unreads (rd r) = bs @ rest \<longrightarrow>
       (\<exists>r'. recv_packet r = Ret (Inr (concat chunks), r') \<and> unreads (rd r') = rest \<and> pkt_seq r' = pkt_seq c'))"
proof -
  define p where "p = concat chunks"
  obtain c' where c': "send_packet chunks c = Ret (Inr (), c')" "wire (wr c') = wire (wr c) @ frames (pkt_seq c) p"
      "wbuf (wr c') = []" "pkt_seq c' = pkt_seq c + of_nat (nframes p)"
    using emits_packet [OF write_chunks_emits assms(3,1)] assms(2) by (auto simp: send_packet_def sent_def p_def)
  have "\<exists>r'. recv_packet r = Ret (Inr p, r') \<and> unreads (rd r') = rest \<and> pkt_seq r' = pkt_seq c'"
    if "pkt_seq r = pkt_seq c" "unreads (rd r) = frames (pkt_seq c) p @ rest" for r :: "'b pkt_io_scheme" and rest
  proof -
    have "unreads (rd r) = frames (pkt_seq r) p @ rest" using that by simp
    then obtain t where "newPktReader r = Ret (Inr (), t)"
        "reading t p rest (pkt_seq r + of_nat (nframes p)) (length p mod max_pkt \<noteq> 0)"
      using newPktReader_reading by blast
    then show ?thesis
      using readAll_reading [of t p rest] c'(4) that(1) by (auto simp: recv_packet_def finished_def)
  qed
  then show ?thesis using c'(1-3) by (auto simp: p_def)
qed

definition sample_io :: "pkt_io" where
  "sample_io = \<lparr>rd = \<lparr>pieces = [], rd_err = IO_EOF, last_byte = None\<rparr>,
     wr = \<lparr>wbuf = [], wire = [], wr_err = None, net_fail = None\<rparr>, pkt_seq = 0, remain = 0, last_pkt = False,
     w_remain = 0, w_to_write = 0, w_last = False, w_buf = []\<rparr>"

theorem packet_roundtrip_witness:
  "\<exists>c' bs. send_packet [[1, 2], [3 :: byte]] sample_io = Ret (Inr (), c') \<and> wire (wr c') = bs \<and> wbuf (wr c') = []"
  using packet_roundtrip [of sample_io "[[1, 2], [3 :: byte]]"]
  by (auto simp: sample_io_def healthy_def)

text \<open>
  Reading exactly a payload and then checking for its end works unless the payload fills its
  last packet: the empty packet that ends such a payload has not been read yet, and the check
  reports that the packet is too long although every byte of it has been consumed.
\<close>

lemma exact_payload_checked:
  assumes "unreads (rd s) = frames (pkt_seq s) p @ rest" and "p \<noteq> []"
  shows "\<exists>t. pbind newPktReader (\<lambda>_. pbind (readFull (length p)) (\<lambda>x. pbind checkEof (\<lambda>_. pret x))) s =
     Ret (if length p mod max_pkt = 0 then Inl ErrPktLong else Inr p, t)"
proof -
  obtain t where t: "pbind newPktReader (\<lambda>_. readFull (length p)) s = Ret (Inr p, t)"
      "reading t [] rest (pkt_seq s + of_nat (nframes p)) (length p mod max_pkt \<noteq> 0)"
    using parses_packet [OF readFull_parses assms(1)] by auto
  have "pbind newPktReader (\<lambda>_. pbind (readFull (length p)) (\<lambda>x. pbind checkEof (\<lambda>_. pret x))) s =
      pbind checkEof (\<lambda>_. pret p) t"
    unfolding pbind_assoc [symmetric] using t(1) by simp
  then show ?thesis
    using t(2) checkEof_boundary [of t rest] checkEof_finished [of t rest]
    by (cases "length p mod max_pkt = 0") (auto simp: reading_finished pret_def)
qed

end
