(* ===== verification/My_Codecs.thy ===== *)
theory My_Codecs
  imports My_Packet
begin

text \<open>
  Encodings inside the packets of the MySQL driver
  (\<open>github.com/ziutek/mymysql/native/codecs.go\<close>): little-endian integers, length-coded binaries,
  strings with a terminating zero, and the binary forms of \<open>time.Duration\<close>, \<open>time.Time\<close> and
  \<open>mysql.Date\<close>.  Every reader has a lemma that it parses what the writer emits, every writer one that
  the length declared for it is the number of bytes it writes.
\<close>

section \<open>Integers\<close>

definition DecodeU16 :: "byte list \<Rightarrow> 16 word" where
  "DecodeU16 buf = or (push_bit 8 (ucast (buf ! 1))) (ucast (buf ! 0))"

definition DecodeU32 :: "byte list \<Rightarrow> 32 word" where
  "DecodeU32 buf =
     or (push_bit 8 (or (push_bit 8 (or (push_bit 8 (ucast (buf ! 3))) (ucast (buf ! 2)))) (ucast (buf ! 1)))) (ucast (buf ! 0))"

fun decode_from :: "nat \<Rightarrow> 64 word \<Rightarrow> byte list \<Rightarrow> 64 word" where
  "decode_from ii rv [] = rv"
| "decode_from ii rv (vv # vs) = decode_from (Suc ii) (or rv (push_bit (ii * 8) (ucast vv))) vs"

definition DecodeU64 :: "byte list \<Rightarrow> 64 word" where
  "DecodeU64 buf = decode_from 0 0 buf"

definition EncodeU16 :: "16 word \<Rightarrow> byte list" where
  "EncodeU16 v = [ucast v, ucast (drop_bit 8 v)]"

definition EncodeU32 :: "32 word \<Rightarrow> byte list" where
  "EncodeU32 v = [ucast v, ucast (drop_bit 8 v), ucast (drop_bit 16 v), ucast (drop_bit 24 v)]"

definition EncodeU64 :: "64 word \<Rightarrow> byte list" where
  "EncodeU64 v =
     [ucast v, ucast (drop_bit 8 v), ucast (drop_bit 16 v), ucast (drop_bit 24 v), ucast (drop_bit 32 v),
      ucast (drop_bit 40 v), ucast (drop_bit 48 v), ucast (drop_bit 56 v)]"

definition readU16 :: "('a pkt_io_scheme, 16 word) pm" where
  "readU16 = pbind (readFull 2) (\<lambda>buf. pret (DecodeU16 buf))"

definition readU24 :: "('a pkt_io_scheme, 32 word) pm" where
  "readU24 = pbind (readFull 3) (\<lambda>buf. pret (DecodeU24 buf))"

definition readU32 :: "('a pkt_io_scheme, 32 word) pm" where
  "readU32 = pbind (readFull 4) (\<lambda>buf. pret (DecodeU32 buf))"

definition readU64 :: "('a pkt_io_scheme, 64 word) pm" where
  "readU64 = pbind (readFull 8) (\<lambda>buf. pret (DecodeU64 buf))"

definition writeU16 :: "16 word \<Rightarrow> ('a pkt_io_scheme, unit) pm" where
  "writeU16 v = write_small (EncodeU16 v)"

definition writeU24 :: "32 word \<Rightarrow> ('a pkt_io_scheme, unit) pm" where
  "writeU24 v = write_small (EncodeU24 v)"

definition writeU32 :: "32 word \<Rightarrow> ('a pkt_io_scheme, unit) pm" where
  "writeU32 v = write_small (EncodeU32 v)"

definition writeU64 :: "64 word \<Rightarrow> ('a pkt_io_scheme, unit) pm" where
  "writeU64 v = write_small (EncodeU64 v)"

lemma length_EncodeU [simp]:
  "length (EncodeU16 a) = 2" "length (EncodeU24 b) = 3" "length (EncodeU32 b) = 4" "length (EncodeU64 c) = 8"
  by (simp_all add: EncodeU16_def EncodeU24_def EncodeU32_def EncodeU64_def)

lemma DecodeU16_EncodeU16 [simp]: "DecodeU16 (EncodeU16 v) = v"
proof (rule bit_word_eqI)
  fix n assume "n < LENGTH(16)"
  then show "bit (DecodeU16 (EncodeU16 v)) n = bit v n"
    by (auto simp: DecodeU16_def EncodeU16_def bit_simps)
qed

lemma DecodeU32_EncodeU32 [simp]: "DecodeU32 (EncodeU32 v) = v"
proof (rule bit_word_eqI)
  fix n assume "n < LENGTH(32)"
  then have n: "n < 32" by simp
  consider "n < 8" | "8 \<le> n" "n < 16" | "16 \<le> n" "n < 24" | "24 \<le> n" by linarith
  then show "bit (DecodeU32 (EncodeU32 v)) n = bit v n"
    using n by cases (auto simp: DecodeU32_def EncodeU32_def bit_simps)
qed

lemma bit_decode_from:
  "bit (decode_from i rv bs) n \<longleftrightarrow>
     bit rv n \<or> n < 64 \<and> 8 * i \<le> n \<and> n < 8 * (i + length bs) \<and> bit (bs ! (n div 8 - i)) (n mod 8)"
proof (induction i rv bs rule: decode_from.induct)
  case (2 i rv v vs)
  have "bit (push_bit (i * 8) (ucast v :: 64 word)) n \<longleftrightarrow> n < 64 \<and> n div 8 = i \<and> bit v (n mod 8)"
  proof -
    have "bit (push_bit (i * 8) (ucast v :: 64 word)) n \<longleftrightarrow> n < 64 \<and> i * 8 \<le> n \<and> bit v (n - i * 8)"
      by (auto simp: bit_simps)
    moreover have "i * 8 \<le> n \<and> bit v (n - i * 8) \<longleftrightarrow> n div 8 = i \<and> bit v (n mod 8)"
    proof (cases "n div 8 = i")
      case True
      then have "i * 8 \<le> n" "n - i * 8 = n mod 8" by (simp_all add: minus_div_mult_eq_mod [symmetric])
      then show ?thesis using True by simp
    next
      case False
      have "n - i * 8 < 8 \<Longrightarrow> i * 8 \<le> n \<Longrightarrow> n div 8 = i" by presburger
      then show ?thesis using False bit_imp_le_length [of v "n - i * 8"] by auto
    qed
    ultimately show ?thesis by blast
  qed
  moreover have "(v # vs) ! (n div 8 - i) = vs ! (n div 8 - Suc i)" if "n div 8 \<noteq> i" "8 * i \<le> n"
  proof -
    have "n div 8 - i = Suc (n div 8 - Suc i)" using that by linarith
    then show ?thesis by simp
  qed
  ultimately show ?case
    using 2 by (cases "n div 8 = i") (auto simp: bit_or_iff)
qed auto

lemma DecodeU64_EncodeU64 [simp]: "DecodeU64 (EncodeU64 v) = v"
proof (rule bit_word_eqI)
  have e: "EncodeU64 v = map (\<lambda>j. ucast (drop_bit (8 * j) v)) [0..<8]"
    by (simp add: EncodeU64_def upt_rec)
  fix n assume "n < LENGTH(64)"
  then show "bit (DecodeU64 (EncodeU64 v)) n = bit v n"
    by (auto simp: DecodeU64_def bit_decode_from e bit_simps)
qed

lemma DecodeU24_take: "v < 16777216 \<Longrightarrow> DecodeU24 (EncodeU24 v) = v"
  using DecodeU24_EncodeU24 [of v] by (auto simp: word_less_def intro!: word_uint_eqI)

lemma parses_map: "parses m x p \<Longrightarrow> parses (pbind m (\<lambda>y. pret (f y))) (f x) p"
  using parses_bind [OF _ parses_ret] by fastforce

lemma parses_then: "parses m x p \<Longrightarrow> f x = pret y \<Longrightarrow> parses (pbind m f) y p"
  using parses_bind [of m x p f y "[]"] by (simp add: parses_ret)

lemma readU_parses:
  "parses readU16 a (EncodeU16 a)" "parses readU32 b (EncodeU32 b)" "parses readU64 c (EncodeU64 c)"
  using parses_map [OF readFull_parses [of "EncodeU16 a"], of 2 DecodeU16]
    parses_map [OF readFull_parses [of "EncodeU32 b"], of 4 DecodeU32]
    parses_map [OF readFull_parses [of "EncodeU64 c"], of 8 DecodeU64]
  by (simp_all add: readU16_def readU32_def readU64_def)

lemma readU24_parses: "b < 16777216 \<Longrightarrow> parses readU24 b (EncodeU24 b)"
  using parses_map [OF readFull_parses [of "EncodeU24 b"], of 3 DecodeU24]
  by (simp add: readU24_def DecodeU24_take)

lemma writeU_emits:
  "emits (writeU16 a) (EncodeU16 a)" "emits (writeU24 b) (EncodeU24 b)" "emits (writeU32 b) (EncodeU32 b)"
  "emits (writeU64 c) (EncodeU64 c)"
  by (simp_all add: writeU16_def writeU24_def writeU32_def writeU64_def write_small_emits)

section \<open>Length-coded binaries\<close>

definition readNullLCB :: "('a pkt_io_scheme, 64 word \<times> bool) pm" where
  "readNullLCB =
     pbind readByte (\<lambda>bb.
       if bb = 251 then pret (0, True)
       else if bb = 252 then pbind readU16 (\<lambda>v. pret (ucast v, False))
       else if bb = 253 then pbind readU24 (\<lambda>v. pret (ucast v, False))
       else if bb = 254 then pbind readU64 (\<lambda>v. pret (v, False))
       else pret (ucast bb, False))"

definition readLCB :: "('a pkt_io_scheme, 64 word) pm" where
  "readLCB = pbind readNullLCB (\<lambda>(lcb, null). if null then raise ErrUnexpNullLCB else pret lcb)"

definition writeLCB :: "64 word \<Rightarrow> ('a pkt_io_scheme, unit) pm" where
  "writeLCB v =
     (if v \<le> 250 then writeByte (ucast v)
      else if v \<le> 0xffff then pbind (writeByte 252) (\<lambda>_. writeU16 (ucast v))
      else if v \<le> 0xffffff then pbind (writeByte 253) (\<lambda>_. writeU24 (ucast v))
      else pbind (writeByte 254) (\<lambda>_. writeU64 v))"

definition lenLCB :: "64 word \<Rightarrow> nat" where
  "lenLCB v = (if v \<le> 250 then 1 else if v \<le> 0xffff then 3 else if v \<le> 0xffffff then 4 else 9)"

definition lcb :: "64 word \<Rightarrow> byte list" where
  "lcb v =
     (if v \<le> 250 then [ucast v]
      else if v \<le> 0xffff then 252 # EncodeU16 (ucast v)
      else if v \<le> 0xffffff then 253 # EncodeU24 (ucast v)
      else 254 # EncodeU64 v)"

lemma length_lcb [simp]: "length (lcb v) = lenLCB v"
  by (simp add: lcb_def lenLCB_def)

lemma emits_Cons: "emits m p \<Longrightarrow> emits (pbind (writeByte b) (\<lambda>_. m)) (b # p)"
  using emits_bind [OF writeByte_emits] by fastforce

lemma writeLCB_emits: "emits (writeLCB v) (lcb v)"
  by (simp add: writeLCB_def lcb_def emits_Cons writeByte_emits writeU_emits)

lemma parses_Cons: "parses (f b) x p \<Longrightarrow> parses (pbind readByte f) x (b # p)"
  using parses_bind [OF readByte_parses, of f b x p] by simp

lemma unat_narrow:
  "unat (v :: 64 word) < 256 \<Longrightarrow> unat (ucast v :: byte) = unat v"
  "unat v < 65536 \<Longrightarrow> unat (ucast v :: 16 word) = unat v"
  "unat v < 4294967296 \<Longrightarrow> unat (ucast v :: 32 word) = unat v"
  by (simp_all add: unsigned_ucast_eq take_bit_nat_eq_self)

lemma ucast_small:
  "v \<le> 250 \<Longrightarrow> (ucast (ucast v :: byte) :: 64 word) = v \<and> (ucast v :: byte) \<le> 250"
  "v \<le> 0xffff \<Longrightarrow> (ucast (ucast v :: 16 word) :: 64 word) = v"
  "v \<le> 0xffffff \<Longrightarrow> (ucast (ucast v :: 32 word) :: 64 word) = v \<and> (ucast v :: 32 word) < 16777216"
  using unat_narrow [of v]
  by (auto simp: word_le_nat_alt word_less_nat_alt word_unat_eq_iff unsigned_ucast_eq unsigned_take_bit_eq
      take_bit_nat_eq_self)

lemma readNullLCB_parses: "parses readNullLCB (v, False) (lcb v)"
proof -
  have ne: "b \<noteq> 251 \<and> b \<noteq> 252 \<and> b \<noteq> 253 \<and> b \<noteq> 254" if "b \<le> 250" for b :: byte
    using that by (auto simp: word_le_nat_alt)
  consider "v \<le> 250" | "\<not> v \<le> 250" "v \<le> 0xffff" | "\<not> v \<le> 250" "\<not> v \<le> 0xffff" "v \<le> 0xffffff"
    | "\<not> v \<le> 250" "\<not> v \<le> 0xffff" "\<not> v \<le> 0xffffff" by blast
  then show ?thesis
  proof cases
    case 1
    then show ?thesis
      using ne ucast_small(1) [of v] parses_ret [of "(v, False)"]
      by (auto simp: readNullLCB_def lcb_def intro!: parses_Cons)
  next
    case 2
    then show ?thesis
      using ucast_small(2) [of v] parses_map [OF readU_parses(1), of "\<lambda>w. (ucast w :: 64 word, False)" "ucast v"]
      by (auto simp: readNullLCB_def lcb_def intro!: parses_Cons)
  next
    case 3
    then show ?thesis
      using ucast_small(3) [of v] parses_map [OF readU24_parses [of "ucast v"], of "\<lambda>w. (ucast w :: 64 word, False)"]
      by (auto simp: readNullLCB_def lcb_def intro!: parses_Cons)
  next
    case 4
    then show ?thesis
      using parses_map [OF readU_parses(3), of "\<lambda>w. (w, False)" v]
      by (auto simp: readNullLCB_def lcb_def intro!: parses_Cons)
  qed
qed

lemma readLCB_parses: "parses readLCB v (lcb v)"
  using parses_bind [OF readNullLCB_parses, of "\<lambda>(l, null). if null then raise ErrUnexpNullLCB else pret l" v v "[]"]
  by (simp add: readLCB_def parses_ret)

text \<open>
  \<open>make([]byte, l)\<close> panics when \<open>l\<close> does not fit an \<open>int\<close>; otherwise memory is taken to suffice.
\<close>

definition readNullBin :: "('a pkt_io_scheme, byte list \<times> bool) pm" where
  "readNullBin =
     pbind readNullLCB (\<lambda>(l, null).
       if null then pret ([], True)
       else if 2 ^ 63 \<le> unat l then crash (Explicit_Panic ''runtime error: makeslice: len out of range'')
       else pbind (readFull (unat l)) (\<lambda>buf. pret (buf, False)))"

definition readBin :: "('a pkt_io_scheme, byte list) pm" where
  "readBin = pbind readNullBin (\<lambda>(buf, null). if null then raise ErrUnexpNullLCS else pret buf)"

definition skipBin :: "('a pkt_io_scheme, unit) pm" where
  "skipBin = pbind readNullLCB (\<lambda>(n, _). skipN (sint n))"

definition writeBin :: "byte list \<Rightarrow> ('a pkt_io_scheme, unit) pm" where
  "writeBin buf = pbind (writeLCB (of_nat (length buf))) (\<lambda>_. pw_write buf)"

definition lenBin :: "byte list \<Rightarrow> nat" where
  "lenBin buf = lenLCB (of_nat (length buf)) + length buf"

definition lenStr :: "string \<Rightarrow> nat" where
  "lenStr str = lenLCB (of_nat (length str)) + length str"

lemma ReadByte_less: "on_rd rd_ReadByte s = Ret (Inr b, t) \<Longrightarrow> in_left t < in_left s"
  by (auto simp: on_rd_def rd_ReadByte_def in_left_def avail_Cons split: list.splits dest!: avail_hd)
    (auto simp: unreads_def simp flip: length_greater_0_conv)

lemma readByte_less: "readByte s = Ret (Inr b, t) \<Longrightarrow> in_left t < in_left s"
proof -
  assume "readByte s = Ret (Inr b, t)"
  then obtain u v where "next_header s = Ret (Inr (), u)" "on_rd rd_ReadByte u = Ret (Inr b, v)" "rd t = rd v"
    by (auto simp: readByte_def pbind_eq_Inr modify_def pret_def)
  then show ?thesis
    using next_header_in_left ReadByte_less by (fastforce simp: in_left_def)
qed

function readNTB :: "('a pkt_io_scheme, byte list) pm" where
  "readNTB s = pbind readByte (\<lambda>ch s1. if ch = 0 then pret [] s1 else pbind readNTB (\<lambda>buf. pret (ch # buf)) s1) s"
  by pat_completeness auto
termination
  by (relation "measure in_left") (auto dest: readByte_less)

declare readNTB.simps [simp del]

definition writeNTB :: "byte list \<Rightarrow> ('a pkt_io_scheme, unit) pm" where
  "writeNTB buf = pbind (pw_write buf) (\<lambda>_. writeByte 0)"

definition lcs :: "byte list \<Rightarrow> byte list" where
  "lcs b = lcb (of_nat (length b)) @ b"

text \<open>Payloads whose length a 64-bit integer can hold as an \<open>int\<close>.\<close>

definition small_bin :: "byte list \<Rightarrow> bool" where
  "small_bin b \<longleftrightarrow> length b < 2 ^ 63"

lemma length_lcs [simp]: "length (lcs b) = lenBin b"
  by (simp add: lcs_def lenBin_def)

lemma writeBin_emits: "emits (writeBin b) (lcs b)"
  unfolding writeBin_def lcs_def by (intro emits_bind writeLCB_emits pw_write_emits)

lemma unat_len: "small_bin b \<Longrightarrow> unat (of_nat (length b) :: 64 word) = length b"
  by (simp add: small_bin_def unat_of_nat take_bit_nat_eq_self unsigned_of_nat)

lemma readNullBin_parses: "small_bin b \<Longrightarrow> parses readNullBin (b, False) (lcs b)"
  unfolding readNullBin_def lcs_def
  by (rule parses_bind [OF readNullLCB_parses])
    (auto simp: unat_len small_bin_def intro!: parses_map [of _ b b "\<lambda>x. (x, False)"] readFull_parses)

lemma readNullLCB_null: "parses readNullLCB (0, True) [251]"
  unfolding readNullLCB_def by (rule parses_Cons) (simp add: parses_ret)

lemma readNullBin_null: "parses readNullBin ([], True) [251]"
proof -
  have "parses readNullBin ([], True) ([251] @ [])"
    unfolding readNullBin_def by (rule parses_bind [OF readNullLCB_null]) (simp add: parses_ret)
  then show ?thesis by simp
qed

lemma readBin_parses: "small_bin b \<Longrightarrow> parses readBin b (lcs b)"
  using parses_bind [OF readNullBin_parses, of b "\<lambda>(buf, null). if null then raise ErrUnexpNullLCS else pret buf" b "[]"]
  by (simp add: readBin_def parses_ret)

lemma skipBin_parses: "small_bin b \<Longrightarrow> parses skipBin () (lcs b)"
  unfolding skipBin_def lcs_def
  by (rule parses_bind [OF readNullLCB_parses])
    (use skipN_parses [of b "length b"] in \<open>simp add: small_bin_def signed_of_nat signed_take_bit_int_eq_self\<close>)

lemma readNTB_parses: "0 \<notin> set b \<Longrightarrow> parses (readNTB :: ('a pkt_io_scheme, byte list) pm) b (b @ [0])"
proof (induction b)
  case Nil
  have "parses (pbind readByte (\<lambda>ch (s1 :: 'a pkt_io_scheme). if ch = 0 then pret [] s1 else pbind readNTB (\<lambda>buf. pret (ch # buf)) s1)) [] [0]"
    by (rule parses_Cons) (simp add: parses_def pret_def)
  then show ?case by (simp add: parses_def readNTB.simps)
next
  case (Cons c b)
  have "parses (pbind readByte (\<lambda>ch (s1 :: 'a pkt_io_scheme). if ch = 0 then pret [] s1 else pbind readNTB (\<lambda>buf. pret (ch # buf)) s1)) (c # b) (c # b @ [0])"
    by (rule parses_Cons) (use Cons parses_map [of readNTB b "b @ [0]" "\<lambda>x. c # x"] in \<open>simp add: parses_def\<close>)
  then show ?case by (simp add: parses_def readNTB.simps)
qed

lemma writeNTB_emits: "emits (writeNTB b) (b @ [0])"
  unfolding writeNTB_def by (intro emits_bind pw_write_emits writeByte_emits)

section \<open>Durations\<close>

text \<open>
  \<open>time.Duration\<close> counts nanoseconds in 64 bits; \<open>go_quot\<close> and \<open>go_rem\<close> are Go's truncating division.
  \<open>EncodeDuration\<close> fills a buffer that its caller provides and reuses.
\<close>

definition go_rem :: "int \<Rightarrow> int \<Rightarrow> int" where
  "go_rem a b = a - go_quot a b * b"

definition put_at :: "nat \<Rightarrow> 'a list \<Rightarrow> 'a list \<Rightarrow> 'a list" where
  "put_at i bs buf = take i buf @ bs @ drop (i + length bs) buf"

definition duration_value :: "byte \<Rightarrow> byte list \<Rightarrow> int" where
  "duration_value dlen buf =
     (let t12 = (if dlen = 12 then uint (DecodeU32 (drop 8 buf)) else 0);
          t8 = (if dlen \<noteq> 5 then wrap64 (t12 + (uint (buf ! 5) * 3600 + uint (buf ! 6) * 60 + uint (buf ! 7)) * 1000000000) else t12);
          tt = wrap64 (t8 + wrap64 (uint (DecodeU32 (take 4 (drop 1 buf))) * 86400000000000))
      in if buf ! 0 \<noteq> 0 then wrap64 (- tt) else tt)"

definition readDuration :: "('a pkt_io_scheme, int) pm" where
  "readDuration =
     pbind readByte (\<lambda>dlen.
       if dlen = 251 then raise ErrUnexpNullTime
       else if dlen = 0 then pret 0
       else if dlen \<noteq> 5 \<and> dlen \<noteq> 8 \<and> dlen \<noteq> 12 then raise ErrWrongDateLen
       else pbind (readFull (unat dlen)) (\<lambda>buf. pret (duration_value dlen buf)))"

definition EncodeDuration :: "byte list \<Rightarrow> int \<Rightarrow> byte list \<times> nat" where
  "EncodeDuration buf d0 =
     (let (buf, d) = (if d0 < 0 then (put_at 1 [1] buf, wrap64 (- d0)) else (buf, d0));
          ns = word_of_int (go_rem d 1000000000) :: 32 word;
          (buf, l) = (if ns \<noteq> 0 then (put_at 9 (EncodeU32 ns) buf, 4) else (buf, 0 :: byte));
          d = go_quot d 1000000000;
          hms = go_rem d 86400;
          (buf, l) = (if l \<noteq> 0 \<or> hms \<noteq> 0 then
             (put_at 6 [word_of_int (go_quot (go_quot hms 60) 60), word_of_int (go_rem (go_quot hms 60) 60), word_of_int (go_rem hms 60)] buf, l + 3)
             else (buf, l));
          day = word_of_int (go_quot d 86400) :: 32 word;
          (buf, l) = (if l \<noteq> 0 \<or> day \<noteq> 0 then (put_at 2 (EncodeU32 day) buf, l + 4) else (buf, l));
          l = l + 1
      in (put_at 0 [l] buf, unat (l + 1)))"

definition write_buf :: "nat \<Rightarrow> (byte list \<Rightarrow> byte list \<times> nat) \<Rightarrow> ('a pkt_io_scheme, unit) pm" where
  "write_buf k f s =
     (let (buf, n) = f (take k (w_buf s)) in pw_write (take n buf) (s\<lparr>w_buf := buf @ drop k (w_buf s)\<rparr>))"

definition writeDuration :: "int \<Rightarrow> ('a pkt_io_scheme, unit) pm" where
  "writeDuration d = write_buf 13 (\<lambda>buf. EncodeDuration buf d)"

definition lenDuration :: "int \<Rightarrow> nat" where
  "lenDuration d =
     (if d = 0 then 2
      else if go_rem d 1000000000 \<noteq> 0 then 13
      else if go_rem (go_quot d 1000000000) 86400 \<noteq> 0 then 9
      else 6)"

text \<open>The bytes of a duration, given the sign byte: \<open>a\<close> is its absolute value.\<close>

definition duration_bytes :: "byte \<Rightarrow> int \<Rightarrow> byte list" where
  "duration_bytes sg a =
     (let ns = a mod 1000000000; sec = a div 1000000000; hms = sec mod 86400; day = sec div 86400;
          days = EncodeU32 (word_of_int day);
          clock = [word_of_int (hms div 60 div 60), word_of_int (hms div 60 mod 60), word_of_int (hms mod 60)]
      in if ns \<noteq> 0 then [12, sg] @ days @ clock @ EncodeU32 (word_of_int ns)
         else if hms \<noteq> 0 then [8, sg] @ days @ clock
         else if day \<noteq> 0 then [5, sg] @ days
         else [1, sg])"

lemma go_rem_nonneg: "0 \<le> a \<Longrightarrow> 0 < b \<Longrightarrow> go_rem a b = a mod b"
  by (simp add: go_rem_def minus_div_mult_eq_mod)

lemma word32_zero: "0 \<le> k \<Longrightarrow> k < 4294967296 \<Longrightarrow> (word_of_int k :: 32 word) = 0 \<longleftrightarrow> k = 0"
  by (auto simp: word_of_int_eq_0_iff dest: zdvd_imp_le)

lemma length_13:
  assumes "length buf = 13"
  obtains b0 b1 b2 b3 b4 b5 b6 b7 b8 b9 b10 b11 b12 where "buf = [b0, b1, b2, b3, b4, b5, b6, b7, b8, b9, b10, b11, b12]"
  using assms by (auto simp: numeral_eq_Suc length_Suc_conv)

lemma EncodeDuration_bytes:
  assumes "length buf = 13" and "\<bar>d\<bar> < 2 ^ 63"
  shows "\<exists>b n. EncodeDuration buf d = (b, n) \<and> length b = 13 \<and> n \<le> 13
    \<and> take n b = duration_bytes (if d < 0 then 1 else buf ! 1) \<bar>d\<bar> \<and> n = length (duration_bytes 0 \<bar>d\<bar>)"
proof -
  define a where "a = \<bar>d\<bar>"
  define ns sec where "ns = a mod 1000000000" and "sec = a div 1000000000"
  define hms day where "hms = sec mod 86400" and "day = sec div 86400"
  have a: "0 \<le> a" "a < 2 ^ 63" using assms(2) by (simp_all add: a_def)
  have w: "(if d < 0 then wrap64 (- d) else d) = a"
    using assms(2) by (auto simp: a_def is_int64_def)
  have r: "0 \<le> ns" "ns < 1000000000" "0 \<le> sec" "0 \<le> hms" "0 \<le> day" "day < 4294967296"
    using a by (simp_all add: ns_def sec_def hms_def day_def) 
  obtain b0 b1 b2 b3 b4 b5 b6 b7 b8 b9 b10 b11 b12 where b: "buf = [b0, b1, b2, b3, b4, b5, b6, b7, b8, b9, b10, b11, b12]"
    using length_13 [OF assms(1)] .
  let ?sg = "if d < 0 then 1 else b1"
  have b1: "(if d < 0 then (put_at 1 [1] buf, wrap64 (- d)) else (buf, d)) = ([b0, ?sg, b2, b3, b4, b5, b6, b7, b8, b9, b10, b11, b12], a)"
    using w by (cases "d < 0") (simp_all add: b put_at_def)
  have h: "0 \<le> hms div 60" using r(4) by (simp add: pos_imp_zdiv_nonneg_iff)
  have g: "go_rem a 1000000000 = ns" "go_quot a 1000000000 = sec" "go_rem sec 86400 = hms" "go_quot sec 86400 = day"
      "go_quot hms 60 = hms div 60" "go_quot (hms div 60) 60 = hms div 60 div 60" "go_rem (hms div 60) 60 = hms div 60 mod 60" "go_rem hms 60 = hms mod 60"
    using go_rem_nonneg [OF a(1), of 1000000000] go_quot_nonneg [OF a(1), of 1000000000] go_rem_nonneg [OF r(3), of 86400]
      go_quot_nonneg [OF r(3), of 86400] go_quot_nonneg [OF r(4), of 60] go_quot_nonneg [OF h, of 60] go_rem_nonneg [OF h, of 60] go_rem_nonneg [OF r(4), of 60]
    by (simp_all only: ns_def [symmetric] sec_def [symmetric] hms_def [symmetric] day_def [symmetric]) 
  have z: "(word_of_int ns :: 32 word) = 0 \<longleftrightarrow> ns = 0" "(word_of_int day :: 32 word) = 0 \<longleftrightarrow> day = 0"
    using r by (simp_all add: word32_zero)
  have D: "duration_bytes sg a =
      (if ns \<noteq> 0 then [12, sg] @ EncodeU32 (word_of_int day) @ [word_of_int (hms div 60 div 60), word_of_int (hms div 60 mod 60), word_of_int (hms mod 60)] @ EncodeU32 (word_of_int ns)
         else if hms \<noteq> 0 then [8, sg] @ EncodeU32 (word_of_int day) @ [word_of_int (hms div 60 div 60), word_of_int (hms div 60 mod 60), word_of_int (hms mod 60)]
         else if day \<noteq> 0 then [5, sg] @ EncodeU32 (word_of_int day)
         else [1, sg])" for sg
    by (simp add: duration_bytes_def Let_def ns_def sec_def hms_def day_def)
  show ?thesis
    unfolding EncodeDuration_def b1 a_def [symmetric] D
    by (simp add: Let_def g z put_at_def EncodeU32_def b)
qed

lemma uint_small:
  "0 \<le> k \<Longrightarrow> k < 256 \<Longrightarrow> uint (word_of_int k :: byte) = k"
  "0 \<le> k \<Longrightarrow> k < 65536 \<Longrightarrow> uint (word_of_int k :: 16 word) = k"
  "0 \<le> k \<Longrightarrow> k < 4294967296 \<Longrightarrow> uint (word_of_int k :: 32 word) = k"
  by (simp_all add: uint_word_of_int)

lemma duration_parts:
  fixes a :: int
  assumes "0 \<le> a" and "a < 2 ^ 63"
  defines "ns \<equiv> a mod 1000000000" and "hms \<equiv> a div 1000000000 mod 86400" and "day \<equiv> a div 1000000000 div 86400"
  shows "0 \<le> ns" "ns < 1000000000" "0 \<le> hms" "hms < 86400" "0 \<le> day" "day \<le> 106751"
    "hms div 60 div 60 * 3600 + hms div 60 mod 60 * 60 + hms mod 60 = hms"
    "ns + hms * 1000000000 + day * 86400000000000 = a"
proof -
  show "0 \<le> ns" "ns < 1000000000" "0 \<le> hms" "hms < 86400" "0 \<le> day" "day \<le> 106751"
    using assms(1,2) by (simp_all add: ns_def hms_def day_def)
  show "hms div 60 div 60 * 3600 + hms div 60 mod 60 * 60 + hms mod 60 = hms"
    using div_mult_mod_eq [of hms 60] div_mult_mod_eq [of "hms div 60" 60] by linarith
  show "ns + hms * 1000000000 + day * 86400000000000 = a"
    using div_mult_mod_eq [of a 1000000000] div_mult_mod_eq [of "a div 1000000000" 86400]
    unfolding ns_def hms_def day_def by linarith
qed

lemma readDuration_parses:
  assumes "0 < a" and "a < 2 ^ 63"
  shows "parses readDuration (if sg \<noteq> 0 then - a else a) (duration_bytes sg a)"
proof -
  define ns hms day where "ns = a mod 1000000000" and "hms = a div 1000000000 mod 86400" and "day = a div 1000000000 div 86400"
  note d = duration_parts [OF less_imp_le [OF assms(1)] assms(2), folded ns_def hms_def day_def]
  have i: "is_int64 a" "is_int64 (- a)" "is_int64 (day * 86400000000000)" "is_int64 (hms * 1000000000)" "is_int64 (ns + hms * 1000000000)"
    using d(1-6) assms by (simp_all add: is_int64_def)
  have h0: "0 \<le> hms div 60 div 60" using d(3) by (intro div_int_pos_iff [THEN iffD2]) auto
  have h: "hms div 60 div 60 < 256" "hms div 60 mod 60 < 256" "hms mod 60 < 256" using d(3,4) by simp_all
  define clock :: "byte list" where "clock = [word_of_int (hms div 60 div 60), word_of_int (hms div 60 mod 60), word_of_int (hms mod 60)]"
  define days :: "byte list" where "days = EncodeU32 (word_of_int day)"
  obtain y0 y1 y2 y3 where y: "days = [y0, y1, y2, y3]" unfolding days_def EncodeU32_def by blast
  have u: "uint (DecodeU32 days) = day" "uint (word_of_int ns :: 32 word) = ns"
    using d(1,2,5,6) by (simp_all add: days_def uint_small)
  have c: "uint (clock ! 0) * 3600 + uint (clock ! 1) * 60 + uint (clock ! 2) = hms"
    using d(3,7) uint_small(1) [OF h0 h(1)] uint_small(1) [OF _ h(2)] uint_small(1) [OF _ h(3)]
    by (simp add: clock_def)
  have D: "duration_bytes sg a =
      (if ns \<noteq> 0 then 12 # [sg] @ days @ clock @ EncodeU32 (word_of_int ns)
       else if hms \<noteq> 0 then 8 # [sg] @ days @ clock
       else if day \<noteq> 0 then 5 # [sg] @ days else [1, sg])"
    by (simp add: duration_bytes_def Let_def ns_def hms_def day_def clock_def days_def)
  define r where "r = (if sg \<noteq> 0 then - a else a)"
  consider (full) "ns \<noteq> 0" | (clock) "ns = 0" "hms \<noteq> 0" | (day) "ns = 0" "hms = 0" "day \<noteq> 0"
    using d(8) assms(1) by fastforce
  then have "parses readDuration r (duration_bytes sg a)"
  proof cases
    case full
    have p: "parses (readFull 12) ([sg] @ days @ clock @ EncodeU32 (word_of_int ns)) ([sg] @ days @ clock @ EncodeU32 (word_of_int ns))"
      by (rule readFull_parses) (simp add: y clock_def)
    have t: "take 4 (drop 1 ([sg] @ days @ clock @ EncodeU32 (word_of_int ns))) = days"
        "drop 8 ([sg] @ days @ clock @ EncodeU32 (word_of_int ns)) = EncodeU32 (word_of_int ns)"
        "([sg] @ days @ clock @ EncodeU32 (word_of_int ns)) ! 5 = clock ! 0" "([sg] @ days @ clock @ EncodeU32 (word_of_int ns)) ! 6 = clock ! 1"
        "([sg] @ days @ clock @ EncodeU32 (word_of_int ns)) ! 7 = clock ! 2" "([sg] @ days @ clock @ EncodeU32 (word_of_int ns)) ! 0 = sg"
      by (simp_all add: y clock_def)
    have "duration_value 12 ([sg] @ days @ clock @ EncodeU32 (word_of_int ns)) = r"
      unfolding duration_value_def t by (simp add: u c i d(8) Let_def r_def del: distrib_right_numeral One_nat_def)
    then have "parses (pbind (readFull 12) (\<lambda>buf. pret (duration_value 12 buf))) r ([sg] @ days @ clock @ EncodeU32 (word_of_int ns))"
      by (intro parses_then [OF p]) simp
    with full show ?thesis
      unfolding readDuration_def D by (auto intro!: parses_Cons simp del: append.simps)
  next
    case clock
    have p: "parses (readFull 8) ([sg] @ days @ clock) ([sg] @ days @ clock)"
      by (rule readFull_parses) (simp add: y clock_def)
    have t: "take 4 (drop 1 ([sg] @ days @ clock)) = days" "([sg] @ days @ clock) ! 5 = clock ! 0"
        "([sg] @ days @ clock) ! 6 = clock ! 1" "([sg] @ days @ clock) ! 7 = clock ! 2" "([sg] @ days @ clock) ! 0 = sg"
      by (simp_all add: y clock_def)
    have "duration_value 8 ([sg] @ days @ clock) = r"
      using d(8) clock unfolding duration_value_def t by (simp add: u c i Let_def r_def del: distrib_right_numeral One_nat_def)
    then have "parses (pbind (readFull 8) (\<lambda>buf. pret (duration_value 8 buf))) r ([sg] @ days @ clock)"
      by (intro parses_then [OF p]) simp
    with clock show ?thesis
      unfolding readDuration_def D by (auto intro!: parses_Cons simp del: append.simps)
  next
    case day
    have p: "parses (readFull 5) ([sg] @ days) ([sg] @ days)"
      by (rule readFull_parses) (simp add: y)
    have t: "take 4 (drop 1 ([sg] @ days)) = days" "([sg] @ days) ! 0 = sg"
      by (simp_all add: y)
    have "duration_value 5 ([sg] @ days) = r"
      using d(8) day unfolding duration_value_def t by (simp add: u i Let_def r_def)
    then have "parses (pbind (readFull 5) (\<lambda>buf. pret (duration_value 5 buf))) r ([sg] @ days)"
      by (intro parses_then [OF p]) simp
    with day show ?thesis
      unfolding readDuration_def D by (auto intro!: parses_Cons simp del: append.simps)
  qed
  then show ?thesis by (simp add: r_def)
qed

lemma go_rem_eq: "0 < b \<Longrightarrow> go_rem d b = sgn d * (\<bar>d\<bar> mod b)"
  using minus_div_mult_eq_mod [of "\<bar>d\<bar>" b] by (cases "0 \<le> d") (auto simp: go_rem_def go_quot_def sgn_if)

lemma go_rem_abs: "0 < b \<Longrightarrow> go_rem d b = 0 \<longleftrightarrow> \<bar>d\<bar> mod b = 0"
  by (auto simp: go_rem_eq sgn_if)

lemma abs_go_quot: "0 < b \<Longrightarrow> \<bar>go_quot d b\<bar> = \<bar>d\<bar> div b"
  by (auto simp: go_quot_def abs_mult sgn_if div_abs_eq pos_imp_zdiv_nonneg_iff)

lemma length_duration_bytes:
  assumes "\<bar>d\<bar> < 2 ^ 63"
  shows "length (duration_bytes sg \<bar>d\<bar>) = lenDuration d"
proof -
  define ns hms day where "ns = \<bar>d\<bar> mod 1000000000" and "hms = \<bar>d\<bar> div 1000000000 mod 86400"
    and "day = \<bar>d\<bar> div 1000000000 div 86400"
  have l: "length (duration_bytes sg \<bar>d\<bar>) = (if ns \<noteq> 0 then 13 else if hms \<noteq> 0 then 9 else if day \<noteq> 0 then 6 else 2)"
    by (simp add: duration_bytes_def Let_def flip: ns_def hms_def day_def)
  have q: "\<bar>go_quot d 1000000000\<bar> = \<bar>d\<bar> div 1000000000" by (rule abs_go_quot) simp
  have r: "go_rem d 1000000000 = 0 \<longleftrightarrow> ns = 0" "go_rem (go_quot d 1000000000) 86400 = 0 \<longleftrightarrow> hms = 0"
    by (simp_all add: go_rem_abs q ns_def hms_def)
  have "ns + hms * 1000000000 + day * 86400000000000 = \<bar>d\<bar>"
    using duration_parts(8) [of "\<bar>d\<bar>"] assms by (simp add: ns_def hms_def day_def)
  moreover have "d = 0 \<Longrightarrow> ns = 0 \<and> hms = 0 \<and> day = 0" by (simp add: ns_def hms_def day_def)
  ultimately have "d = 0 \<longleftrightarrow> ns = 0 \<and> hms = 0 \<and> day = 0" by auto
  then show ?thesis by (simp add: l lenDuration_def r)
qed

lemma readDuration_zero:
  assumes "reading s (1 # p) rest q e"
  shows "\<exists>t. readDuration s = Ret (Inl ErrWrongDateLen, t)"
proof -
  obtain t where "readByte s = Ret (Inr 1, t)" using readByte_reading [OF assms] by metis
  then show ?thesis by (simp add: readDuration_def raise_def)
qed

text \<open>
  A duration is encoded in as many bytes as \<open>lenDuration\<close> declares, and reading them gives it back
  with two exceptions.  The zero duration is written as a length byte 1, which the reader rejects.
  The sign byte of a positive duration is whatever the caller's buffer held before: when that is not
  zero, the duration comes out negative.
\<close>

lemma duration_roundtrip:
  assumes "length buf = 13" and "\<bar>d\<bar> < 2 ^ 63" and "EncodeDuration buf d = (b, n)"
    and "reading s (take n b @ p) rest q e"
  shows "n = lenDuration d \<and>
    (\<exists>t. readDuration s =
       Ret (if d = 0 then Inl ErrWrongDateLen else Inr (if d < 0 \<or> buf ! 1 \<noteq> 0 then - \<bar>d\<bar> else \<bar>d\<bar>), t))"
proof -
  define sg where "sg = (if d < 0 then 1 else buf ! 1)"
  have n: "n = lenDuration d" and b: "take n b = duration_bytes sg \<bar>d\<bar>"
    using EncodeDuration_bytes [OF assms(1,2)] assms(2,3) length_duration_bytes [OF assms(2), of 0] by (auto simp: sg_def)
  show ?thesis
  proof (cases "d = 0")
    case True
    then have "reading s (1 # sg # p) rest q e" using assms(4) b by (simp add: duration_bytes_def)
    then show ?thesis using readDuration_zero True n by simp
  next
    case False
    then have "parses readDuration (if sg \<noteq> 0 then - \<bar>d\<bar> else \<bar>d\<bar>) (take n b)"
      using assms(2) by (simp add: b readDuration_parses del: abs_less_iff)
    then have "\<exists>t. readDuration s = Ret (Inr (if sg \<noteq> 0 then - \<bar>d\<bar> else \<bar>d\<bar>), t)"
      using assms(4) unfolding parses_def by blast
    moreover have "(if sg \<noteq> 0 then - \<bar>d\<bar> else \<bar>d\<bar>) =
        (if d = 0 then 0 else if d < 0 \<or> buf ! 1 \<noteq> 0 then - \<bar>d\<bar> else \<bar>d\<bar>)"
      using False by (simp add: sg_def)
    ultimately show ?thesis using n False by (simp only: if_False simp_thms)
  qed
qed

definition sample_duration :: pkt_io where
  "sample_duration = sample_io\<lparr>rd := \<lparr>pieces = [[12, 0x80, 0], [0, 0, 0, 1, 2, 3, 4, 0, 0, 0]], rd_err = IO_EOF, last_byte = None\<rparr>,
      remain := 13, last_pkt := True\<rparr>"

section \<open>Dates and times\<close>

text \<open>
  \<open>time.Time\<close> in the local zone, by its civil fields; the zone is taken to have no gaps.  \<open>time.Date\<close>
  carries values out of range over to the next larger unit.
\<close>

record mtime =
  t_year :: int
  t_month :: int
  t_day :: int
  t_hour :: int
  t_min :: int
  t_sec :: int
  t_nsec :: int

definition zero_time :: mtime where
  "zero_time = \<lparr>t_year = 1, t_month = 1, t_day = 1, t_hour = 0, t_min = 0, t_sec = 0, t_nsec = 0\<rparr>"

definition leap :: "int \<Rightarrow> bool" where
  "leap y \<longleftrightarrow> y mod 4 = 0 \<and> (y mod 100 \<noteq> 0 \<or> y mod 400 = 0)"

definition days_in :: "int \<Rightarrow> int \<Rightarrow> int" where
  "days_in y m = (if m = 2 then (if leap y then 29 else 28) else if m = 4 \<or> m = 6 \<or> m = 9 \<or> m = 11 then 30 else 31)"

function norm_day :: "int \<Rightarrow> int \<Rightarrow> int \<Rightarrow> int \<times> int \<times> int" where
  "norm_day y m d =
     (if d < 1 then
        let y' = (if m = 1 then y - 1 else y); m' = (if m = 1 then 12 else m - 1) in norm_day y' m' (d + days_in y' m')
      else if days_in y m < d then
        norm_day (if m = 12 then y + 1 else y) (if m = 12 then 1 else m + 1) (d - days_in y m)
      else (y, m, d))"
  by pat_completeness auto
termination
  by (relation "measure (\<lambda>(y, m, d). nat (if d < 1 then 64 - d else d))") (auto simp: days_in_def)

declare norm_day.simps [simp del]

definition time_Date :: "int \<Rightarrow> int \<Rightarrow> int \<Rightarrow> int \<Rightarrow> int \<Rightarrow> int \<Rightarrow> int \<Rightarrow> mtime" where
  "time_Date y mon d h m s n =
     (let y0 = y + (mon - 1) div 12; mon0 = (mon - 1) mod 12 + 1;
          s0 = s + n div 1000000000; m0 = m + s0 div 60; h0 = h + m0 div 60; d0 = d + h0 div 24;
          (y1, mon1, d1) = norm_day y0 mon0 d0
      in \<lparr>t_year = y1, t_month = mon1, t_day = d1, t_hour = h0 mod 24, t_min = m0 mod 60, t_sec = s0 mod 60,
          t_nsec = n mod 1000000000\<rparr>)"

definition valid_time :: "mtime \<Rightarrow> bool" where
  "valid_time t \<longleftrightarrow>
     1 \<le> t_month t \<and> t_month t \<le> 12 \<and> 1 \<le> t_day t \<and> t_day t \<le> days_in (t_year t) (t_month t)
     \<and> 0 \<le> t_hour t \<and> t_hour t < 24 \<and> 0 \<le> t_min t \<and> t_min t < 60 \<and> 0 \<le> t_sec t \<and> t_sec t < 60
     \<and> 0 \<le> t_nsec t \<and> t_nsec t < 1000000000"

lemma time_Date_valid:
  "valid_time t \<Longrightarrow> time_Date (t_year t) (t_month t) (t_day t) (t_hour t) (t_min t) (t_sec t) (t_nsec t) = t"
  by (auto simp: valid_time_def time_Date_def Let_def norm_day.simps intro!: mtime.equality)

definition time_value :: "byte \<Rightarrow> byte list \<Rightarrow> mtime" where
  "time_value dlen buf =
     (let u = (if dlen = 11 then uint (DecodeU32 (drop 7 buf)) else 0);
          h = (if dlen \<noteq> 4 then uint (buf ! 4) else 0);
          m = (if dlen \<noteq> 4 then uint (buf ! 5) else 0);
          s = (if dlen \<noteq> 4 then uint (buf ! 6) else 0)
      in time_Date (uint (DecodeU16 (take 2 buf))) (uint (buf ! 2)) (uint (buf ! 3)) h m s (u * 1000))"

definition readTime :: "('a pkt_io_scheme, mtime) pm" where
  "readTime =
     pbind readByte (\<lambda>dlen.
       if dlen = 251 then raise ErrUnexpNullDate
       else if dlen = 0 then pret zero_time
       else if dlen \<noteq> 4 \<and> dlen \<noteq> 7 \<and> dlen \<noteq> 11 then raise ErrWrongDateLen
       else pbind (readFull (unat dlen)) (\<lambda>buf. pret (time_value dlen buf)))"

definition encodeNonzeroTime ::
    "byte list \<Rightarrow> 16 word \<Rightarrow> byte \<Rightarrow> byte \<Rightarrow> byte \<Rightarrow> byte \<Rightarrow> byte \<Rightarrow> 32 word \<Rightarrow> byte list \<times> nat" where
  "encodeNonzeroTime buf y mon d h m s u =
     (let (buf, l) = (if u \<noteq> 0 then (put_at 8 (EncodeU32 u) buf, 4) else (buf, 0 :: byte));
          (buf, l) = (if u \<noteq> 0 \<or> s \<noteq> 0 \<or> m \<noteq> 0 \<or> h \<noteq> 0 then (put_at 5 [h, m, s] buf, l + 3) else (buf, l));
          buf = put_at 1 (EncodeU16 y) (put_at 3 [mon, d] buf); l = l + 4
      in (put_at 0 [l] buf, unat (l + 1)))"

definition getTimeMicroseconds :: "mtime \<Rightarrow> int" where
  "getTimeMicroseconds t = (t_nsec t + 500) div 1000"

definition EncodeTime :: "byte list \<Rightarrow> mtime \<Rightarrow> byte list \<times> nat" where
  "EncodeTime buf t =
     (if t = zero_time then (put_at 0 [0] buf, 1)
      else encodeNonzeroTime buf (word_of_int (t_year t)) (word_of_int (t_month t)) (word_of_int (t_day t))
             (word_of_int (t_hour t)) (word_of_int (t_min t)) (word_of_int (t_sec t)) (word_of_int (getTimeMicroseconds t)))"

definition writeTime :: "mtime \<Rightarrow> ('a pkt_io_scheme, unit) pm" where
  "writeTime t = write_buf 12 (\<lambda>buf. EncodeTime buf t)"

definition lenTime :: "mtime \<Rightarrow> nat" where
  "lenTime t =
     (if t = zero_time then 1
      else if getTimeMicroseconds t \<noteq> 0 then 12
      else if t_sec t \<noteq> 0 \<or> t_min t \<noteq> 0 \<or> t_hour t \<noteq> 0 then 8
      else 5)"

record my_date =
  d_year :: "16 word"
  d_month :: byte
  d_day :: byte

definition Date_IsZero :: "my_date \<Rightarrow> bool" where
  "Date_IsZero d \<longleftrightarrow> d_day d = 0 \<and> d_month d = 0 \<and> d_year d = 0"

definition readDate :: "('a pkt_io_scheme, my_date) pm" where
  "readDate =
     pbind readTime (\<lambda>t. pret \<lparr>d_year = word_of_int (t_year t), d_month = word_of_int (t_month t), d_day = word_of_int (t_day t)\<rparr>)"

definition EncodeDate :: "byte list \<Rightarrow> my_date \<Rightarrow> byte list \<times> nat" where
  "EncodeDate buf d =
     (if Date_IsZero d then (put_at 0 [0] buf, 1) else encodeNonzeroTime buf (d_year d) (d_month d) (d_day d) 0 0 0 0)"

definition writeDate :: "my_date \<Rightarrow> ('a pkt_io_scheme, unit) pm" where
  "writeDate d = write_buf 5 (\<lambda>buf. EncodeDate buf d)"

definition lenDate :: "my_date \<Rightarrow> nat" where
  "lenDate d = (if Date_IsZero d then 1 else 5)"

definition time_bytes :: "16 word \<Rightarrow> byte \<Rightarrow> byte \<Rightarrow> byte \<Rightarrow> byte \<Rightarrow> byte \<Rightarrow> 32 word \<Rightarrow> byte list" where
  "time_bytes y mon d h m s u =
     (if u \<noteq> 0 then 11 # EncodeU16 y @ [mon, d, h, m, s] @ EncodeU32 u
      else if s \<noteq> 0 \<or> m \<noteq> 0 \<or> h \<noteq> 0 then 7 # EncodeU16 y @ [mon, d, h, m, s]
      else 4 # EncodeU16 y @ [mon, d])"

lemma length_12:
  assumes "length buf = 12"
  obtains b0 b1 b2 b3 b4 b5 b6 b7 b8 b9 b10 b11 where "buf = [b0, b1, b2, b3, b4, b5, b6, b7, b8, b9, b10, b11]"
  using assms by (auto simp: numeral_eq_Suc length_Suc_conv)

lemma encodeNonzeroTime_bytes:
  assumes "length buf = 12 \<or> length buf = 5 \<and> h = 0 \<and> m = 0 \<and> s = 0 \<and> u = 0"
  shows "\<exists>b n. encodeNonzeroTime buf y mon d h m s u = (b, n) \<and> length b = length buf \<and> n \<le> length buf
    \<and> take n b = time_bytes y mon d h m s u \<and> n = length (time_bytes y mon d h m s u)"
  using assms
proof (elim disjE conjE)
  assume "length buf = 12"
  then obtain b0 b1 b2 b3 b4 b5 b6 b7 b8 b9 b10 b11 where b: "buf = [b0, b1, b2, b3, b4, b5, b6, b7, b8, b9, b10, b11]"
    by (rule length_12)
  show ?thesis
    by (simp add: b encodeNonzeroTime_def time_bytes_def Let_def put_at_def EncodeU32_def EncodeU16_def)
next
  assume l: "length buf = 5" and z: "h = 0" "m = 0" "s = 0" "u = 0"
  obtain b0 b1 b2 b3 b4 where b: "buf = [b0, b1, b2, b3, b4]"
    using l by (auto simp: numeral_eq_Suc length_Suc_conv)
  show ?thesis
    by (simp add: b z encodeNonzeroTime_def time_bytes_def Let_def put_at_def EncodeU16_def)
qed

lemma readTime_parses:
  "parses readTime (time_Date (uint y) (uint mon) (uint d) (uint h) (uint m) (uint s) (uint u * 1000)) (time_bytes y mon d h m s u)"
proof -
  obtain y0 y1 where y: "EncodeU16 y = [y0, y1]" unfolding EncodeU16_def by blast
  have yv: "DecodeU16 [y0, y1] = y" by (simp flip: y)
  consider (full) "u \<noteq> 0" | (clock) "u = 0" "s \<noteq> 0 \<or> m \<noteq> 0 \<or> h \<noteq> 0" | (day) "u = 0" "s = 0" "m = 0" "h = 0" by blast
  then show ?thesis
  proof cases
    case full
    have "parses (pbind (readFull 11) (\<lambda>buf. pret (time_value 11 buf)))
        (time_Date (uint y) (uint mon) (uint d) (uint h) (uint m) (uint s) (uint u * 1000)) (EncodeU16 y @ [mon, d, h, m, s] @ EncodeU32 u)"
      by (rule parses_then [OF readFull_parses]) (simp_all add: time_value_def y yv)
    with full show ?thesis
      by (auto simp: readTime_def time_bytes_def intro!: parses_Cons)
  next
    case clock
    have "parses (pbind (readFull 7) (\<lambda>buf. pret (time_value 7 buf)))
        (time_Date (uint y) (uint mon) (uint d) (uint h) (uint m) (uint s) 0) (EncodeU16 y @ [mon, d, h, m, s])"
      by (rule parses_then [OF readFull_parses]) (simp_all add: time_value_def y yv)
    with clock show ?thesis
      by (auto simp: readTime_def time_bytes_def intro!: parses_Cons)
  next
    case day
    have "parses (pbind (readFull 4) (\<lambda>buf. pret (time_value 4 buf)))
        (time_Date (uint y) (uint mon) (uint d) 0 0 0 0) (EncodeU16 y @ [mon, d])"
      by (rule parses_then [OF readFull_parses]) (simp_all add: time_value_def y yv)
    with day show ?thesis
      by (auto simp: readTime_def time_bytes_def intro!: parses_Cons)
  qed
qed

lemma readTime_zero: "parses readTime zero_time [0]"
  unfolding readTime_def by (rule parses_Cons) (simp add: parses_ret)

lemma writing_w_buf: "writing s p outp q \<Longrightarrow> length b = 23 \<Longrightarrow> writing (s\<lparr>w_buf := b\<rparr>) p outp q"
  by (simp add: writing_def)

lemma write_buf_ok:
  assumes "writing s (p @ p') outp q" and "k \<le> 23" and "f (take k (w_buf s)) = (b, n)" and "length b = k" and "take n b = p"
  shows "\<exists>t. write_buf k f s = Ret (Inr (), t) \<and> writing t p' outp q \<and> moved_wr s t"
proof -
  let ?u = "s\<lparr>w_buf := b @ drop k (w_buf s)\<rparr>"
  have "length (b @ drop k (w_buf s)) = 23" using assms(1,2,4) by (simp add: writing_def)
  then have "writing ?u (p @ p') outp q" using assms(1) writing_w_buf by blast
  then obtain t where "pw_write p ?u = Ret (Inr (), t)" "writing t p' outp q" "moved_wr ?u t"
    using pw_write_emits unfolding emits_def by blast
  moreover have "moved_wr s ?u"
    using moved_wrI [where s = s and w = "wr s" and q = "pkt_seq s" and m = "w_remain s" and k = "w_to_write s"
        and l = "w_last s" and b = "b @ drop k (w_buf s)"] by simp
  ultimately show ?thesis
    using assms(3,5) moved_wr_trans by (auto simp: write_buf_def)
qed

lemma write_buf_emits:
  assumes "k \<le> 23" and "\<And>buf. length buf = k \<Longrightarrow> \<exists>b n. f buf = (b, n) \<and> length b = k \<and> take n b = p"
  shows "emits (write_buf k f) p"
  unfolding emits_def
proof (intro allI impI)
  fix s :: "'a pkt_io_scheme" and p' outp q
  assume a: "writing s (p @ p') outp q"
  then have "length (take k (w_buf s)) = k" using assms(1) by (simp add: writing_def)
  then obtain b n where "f (take k (w_buf s)) = (b, n)" "length b = k" "take n b = p" using assms(2) by blast
  then show "\<exists>t. write_buf k f s = Ret (Inr (), t) \<and> writing t p' outp q \<and> moved_wr s t"
    using write_buf_ok [OF a assms(1)] by blast
qed

text \<open>The bytes of a time and of a date, as their encoders produce them.\<close>

definition mtime_bytes :: "mtime \<Rightarrow> byte list" where
  "mtime_bytes t =
     (if t = zero_time then [0]
      else time_bytes (word_of_int (t_year t)) (word_of_int (t_month t)) (word_of_int (t_day t))
             (word_of_int (t_hour t)) (word_of_int (t_min t)) (word_of_int (t_sec t)) (word_of_int (getTimeMicroseconds t)))"

definition date_bytes :: "my_date \<Rightarrow> byte list" where
  "date_bytes d = (if Date_IsZero d then [0] else 4 # EncodeU16 (d_year d) @ [d_month d, d_day d])"

lemma EncodeTime_bytes:
  "length buf = 12 \<Longrightarrow> \<exists>b n. EncodeTime buf t = (b, n) \<and> length b = 12 \<and> take n b = mtime_bytes t \<and> n = length (mtime_bytes t)"
  using encodeNonzeroTime_bytes [of buf "word_of_int (t_hour t)" "word_of_int (t_min t)" "word_of_int (t_sec t)"
      "word_of_int (getTimeMicroseconds t)" "word_of_int (t_year t)" "word_of_int (t_month t)" "word_of_int (t_day t)"]
  by (auto simp: EncodeTime_def mtime_bytes_def put_at_def)

lemma EncodeDate_bytes:
  "length buf = 5 \<Longrightarrow> \<exists>b n. EncodeDate buf d = (b, n) \<and> length b = 5 \<and> take n b = date_bytes d \<and> n = lenDate d"
  using encodeNonzeroTime_bytes [of buf 0 0 0 0 "d_year d" "d_month d" "d_day d"]
  by (auto simp: EncodeDate_def date_bytes_def lenDate_def put_at_def time_bytes_def)

lemma writeTime_emits: "emits (writeTime t) (mtime_bytes t)"
  unfolding writeTime_def using EncodeTime_bytes by (intro write_buf_emits) fastforce+

lemma writeDate_emits: "emits (writeDate d) (date_bytes d)"
  unfolding writeDate_def using EncodeDate_bytes by (intro write_buf_emits) fastforce+

lemma word_zero_iff:
  "0 \<le> k \<Longrightarrow> k < 256 \<Longrightarrow> (word_of_int k :: byte) = 0 \<longleftrightarrow> k = 0"
  by (auto simp: word_of_int_eq_0_iff dest: zdvd_imp_le)

lemma days_in_le: "days_in y m \<le> 31"
  by (simp add: days_in_def)

lemma getTimeMicroseconds_range:
  "valid_time t \<Longrightarrow> 0 \<le> getTimeMicroseconds t \<and> getTimeMicroseconds t \<le> 1000000"
  unfolding valid_time_def getTimeMicroseconds_def by linarith

lemma length_mtime_bytes:
  assumes "valid_time t"
  shows "length (mtime_bytes t) = lenTime t"
proof -
  have "0 \<le> getTimeMicroseconds t" "getTimeMicroseconds t < 4294967296"
    using getTimeMicroseconds_range [OF assms] by simp_all
  then have "(word_of_int (getTimeMicroseconds t) :: 32 word) = 0 \<longleftrightarrow> getTimeMicroseconds t = 0"
    by (rule word32_zero)
  then show ?thesis
    using assms by (simp add: mtime_bytes_def lenTime_def time_bytes_def word_zero_iff valid_time_def)
qed

lemma readTime_mtime_bytes:
  assumes "valid_time t" and "0 \<le> t_year t" and "t_year t < 65536" and "t_nsec t < 999999500"
  shows "parses readTime (t\<lparr>t_nsec := (t_nsec t + 500) div 1000 * 1000\<rparr>) (mtime_bytes t)"
proof (cases "t = zero_time")
  case True
  then show ?thesis
    using readTime_zero by (simp add: mtime_bytes_def) (simp add: zero_time_def)
next
  case False
  let ?u = "getTimeMicroseconds t"
  have v: "t_month t < 256" "t_day t < 256" "t_hour t < 256" "t_min t < 256" "t_sec t < 256"
      "0 \<le> t_month t" "0 \<le> t_day t" "0 \<le> t_hour t" "0 \<le> t_min t" "0 \<le> t_sec t" "0 \<le> ?u" "?u < 1000000"
    using assms(1,4) days_in_le [of "t_year t" "t_month t"] unfolding valid_time_def getTimeMicroseconds_def by linarith+
  have "time_Date (t_year t) (t_month t) (t_day t) (t_hour t) (t_min t) (t_sec t) (?u * 1000) = t\<lparr>t_nsec := ?u * 1000\<rparr>"
    using time_Date_valid [of "t\<lparr>t_nsec := ?u * 1000\<rparr>"] assms(1) v by (simp add: valid_time_def)
  then show ?thesis
    using readTime_parses [of "word_of_int (t_year t)" "word_of_int (t_month t)" "word_of_int (t_day t)" "word_of_int (t_hour t)"
        "word_of_int (t_min t)" "word_of_int (t_sec t)" "word_of_int ?u"] False assms(2,3) v
    by (simp add: mtime_bytes_def uint_small) (simp add: getTimeMicroseconds_def)
qed

text \<open>
  A valid time with a year up to 65535 is encoded in as many bytes as \<open>lenTime\<close> declares, and
  reading them gives it back rounded to the nearest microsecond (when rounding does not carry into
  the next second, in which case the sender writes the microseconds as 1000000).
\<close>

lemma time_roundtrip:
  assumes "valid_time t" and "0 \<le> t_year t" and "t_year t < 65536" and "t_nsec t < 999999500"
    and "length buf = 12" and "EncodeTime buf t = (b, n)" and "reading s (take n b @ p) rest q e"
  shows "n = lenTime t \<and> (\<exists>s'. readTime s = Ret (Inr (t\<lparr>t_nsec := (t_nsec t + 500) div 1000 * 1000\<rparr>), s') \<and> reading s' p rest q e)"
proof -
  have "take n b = mtime_bytes t" "n = lenTime t"
    using EncodeTime_bytes [OF assms(5), of t] assms(6) length_mtime_bytes [OF assms(1)] by auto
  then show ?thesis
    using readTime_mtime_bytes [OF assms(1-4)] assms(7) unfolding parses_def by metis
qed

text \<open>
  A date that exists is encoded in as many bytes as \<open>lenDate\<close> declares and is read back
  unchanged; MySQL's zero date 0000-00-00, which the driver supports as a value, is read back as
  0001-01-01.
\<close>

definition date_exists :: "my_date \<Rightarrow> bool" where
  "date_exists d \<longleftrightarrow>
     1 \<le> uint (d_month d) \<and> uint (d_month d) \<le> 12 \<and> 1 \<le> uint (d_day d)
     \<and> uint (d_day d) \<le> days_in (uint (d_year d)) (uint (d_month d))"

lemma readDate_parses:
  assumes "date_exists d \<or> Date_IsZero d"
  shows "parses readDate (if Date_IsZero d then \<lparr>d_year = 1, d_month = 1, d_day = 1\<rparr> else d) (date_bytes d)"
proof (cases "Date_IsZero d")
  case True
  then show ?thesis
    unfolding readDate_def by (intro parses_then [where x = zero_time]) (simp_all add: date_bytes_def readTime_zero, simp add: zero_time_def)
next
  case False
  let ?t = "time_Date (uint (d_year d)) (uint (d_month d)) (uint (d_day d)) 0 0 0 0"
  have "t_year ?t = uint (d_year d) \<and> t_month ?t = uint (d_month d) \<and> t_day ?t = uint (d_day d)"
    using assms False by (auto simp: date_exists_def time_Date_def Let_def norm_day.simps)
  moreover have "parses readTime ?t (date_bytes d)"
    using readTime_parses [of "d_year d" "d_month d" "d_day d" 0 0 0 0] False by (simp add: date_bytes_def time_bytes_def)
  ultimately show ?thesis
    using False unfolding readDate_def by (intro parses_then [where x = ?t]) (simp_all, cases d, simp)
qed

lemma date_roundtrip:
  assumes "date_exists d \<or> Date_IsZero d" and "length buf = 5" and "EncodeDate buf d = (b, n)"
    and "reading s (take n b @ p) rest q e"
  shows "n = lenDate d \<and>
    (\<exists>s'. readDate s = Ret (Inr (if Date_IsZero d then \<lparr>d_year = 1, d_month = 1, d_day = 1\<rparr> else d), s') \<and> reading s' p rest q e)"
  using EncodeDate_bytes [OF assms(2), of d] assms(3,4) readDate_parses [OF assms(1)] unfolding parses_def by fastforce

end
