(* ===== verification/My_Result.thy ===== *)
theory My_Result
  imports My_Codecs
begin

text \<open>
  Results of the MySQL driver (\<open>github.com/ziutek/mymysql/native/result.go\<close>, with the fields of
  \<open>mysql/field.go\<close>, the status bits of \<open>mysql/status.go\<close> and the constants of \<open>native/consts.go\<close>): the
  connection's state, the packets a server answers with, text rows and binary rows.
\<close>

section \<open>Connection, fields and results\<close>

record Field =
  Catalog :: string
  Db :: string
  Table :: string
  OrgTable :: string
  Name :: string
  OrgName :: string
  DispLen :: "32 word"
  FFlags :: "16 word"
  FType :: byte
  Scale :: byte

definition empty_field :: Field where
  "empty_field = \<lparr>Catalog = [], Db = [], Table = [], OrgTable = [], Name = [], OrgName = [], DispLen = 0, FFlags = 0,
     FType = 0, Scale = 0\<rparr>"

record serverInfo =
  prot_ver :: byte
  serv_ver :: "byte list"
  thr_id :: "32 word"
  scramble :: "byte list"
  caps :: "16 word"
  lang :: byte

text \<open>A bound parameter: its protocol type, the value behind its pointer at the time it is sent, and the
  length that is known from its Go type.\<close>

datatype param_val =
    P_nil
  | P_string "byte list"
  | P_bytes "byte list"
  | P_bool bool
  | P_int8 "8 word" | P_uint8 "8 word"
  | P_int16 "16 word" | P_uint16 "16 word"
  | P_int32 "32 word" | P_uint32 "32 word"
  | P_int64 "64 word" | P_uint64 "64 word"
  | P_int "64 word" | P_uint "64 word"
  | P_float32 "32 word" | P_float64 "64 word"
  | P_date my_date
  | P_time mtime
  | P_timestamp mtime
  | P_duration int

record paramValue =
  p_typ :: "16 word"
  p_val :: param_val
  p_raw :: bool
  p_length :: int

text \<open>\<open>s_my\<close>: the statement refers to its connection; a deleted statement does not.\<close>

record Stmt =
  s_my :: bool
  s_id :: "32 word"
  s_sql :: "byte list"
  s_params :: "paramValue list"
  s_rebind :: bool
  s_binded :: bool
  s_fields :: "Field list"
  s_n_fields :: nat
  s_param_count :: nat
  s_warning_count :: nat
  s_status :: "16 word"
  s_null_bitmap :: "byte list"

record my_conn = pkt_io +
  connected :: bool
  user :: "byte list"
  passwd :: "byte list"
  dbname :: "byte list"
  info :: serverInfo
  unreaded_reply :: bool
  init_cmds :: "byte list list"
  stmts :: "Stmt list"
  stmt_map :: "(32 word \<times> nat) list"
  status :: "16 word"
  max_pkt_size :: int
  narrowTypeSet :: bool
  fullFieldInfo :: bool

text \<open>\<open>len(res.fields)\<close> is \<open>n_fields\<close>; \<open>rfields\<close> are the \<open>field_count\<close> elements that have been received.\<close>

record my_result =
  status_only :: bool
  r_binary :: bool
  n_fields :: nat
  rfields :: "Field list"
  fc_map :: "string \<rightharpoonup> nat"
  message :: "byte list"
  affected_rows :: "64 word"
  insert_id :: "64 word"
  warning_count :: nat
  r_status :: "16 word"
  eor_returned :: bool

abbreviation field_count :: "my_result \<Rightarrow> nat" where
  "field_count r \<equiv> length (rfields r)"

definition new_result :: my_result where
  "new_result = \<lparr>status_only = False, r_binary = False, n_fields = 0, rfields = [], fc_map = Map.empty, message = [],
     affected_rows = 0, insert_id = 0, warning_count = 0, r_status = 0, eor_returned = False\<rparr>"

definition result_Map :: "my_result \<Rightarrow> string \<Rightarrow> int" where
  "result_Map res field_name = (case fc_map res field_name of Some fi \<Rightarrow> int fi | None \<Rightarrow> - 1)"

definition SERVER_MORE_RESULTS_EXISTS :: "16 word" where "SERVER_MORE_RESULTS_EXISTS = 0x08"
definition SERVER_STATUS_NO_BACKSLASH_ESCAPES :: "16 word" where "SERVER_STATUS_NO_BACKSLASH_ESCAPES = 0x200"
definition FLAG_UNSIGNED :: "16 word" where "FLAG_UNSIGNED = 0x20"

section \<open>Values\<close>

text \<open>
  The dynamic values of a row.  Integers keep their width and sign in the constructor, floats are
  kept as their bits.  A decimal is converted by \<open>strconv.ParseFloat\<close>; it is represented by its
  digits, checked for the syntax that \<open>ParseFloat\<close> accepts.
\<close>

datatype my_val =
    V_nil
  | V_bytes "byte list"
  | V_int8 "8 word" | V_uint8 "8 word"
  | V_int16 "16 word" | V_uint16 "16 word"
  | V_int32 "32 word" | V_uint32 "32 word"
  | V_int64 "64 word" | V_uint64 "64 word"
  | V_float32 "32 word" | V_float64 "64 word"
  | V_decimal string
  | V_date my_date
  | V_time mtime
  | V_duration int

definition is_dec :: "char \<Rightarrow> bool" where
  "is_dec c \<longleftrightarrow> char_digit c \<noteq> None"

definition float_syntax :: "string \<Rightarrow> bool" where
  "float_syntax s =
     (let s1 = (case s of c # cs \<Rightarrow> if c = CHR ''+'' \<or> c = CHR ''-'' then cs else s | [] \<Rightarrow> s);
          ip = takeWhile is_dec s1; s2 = dropWhile is_dec s1;
          (fp, s3) = (case s2 of c # cs \<Rightarrow> if c = CHR ''.'' then (takeWhile is_dec cs, dropWhile is_dec cs) else ([], s2)
                      | [] \<Rightarrow> ([], []))
      in ip @ fp \<noteq> [] \<and>
         (case s3 of
            [] \<Rightarrow> True
          | c # cs \<Rightarrow> (c = CHR ''e'' \<or> c = CHR ''E'') \<and>
              (let ds = (case cs of d # es \<Rightarrow> if d = CHR ''+'' \<or> d = CHR ''-'' then es else cs | [] \<Rightarrow> [])
               in ds \<noteq> [] \<and> list_all is_dec ds)))"

definition MYSQL_TYPE_DECIMAL :: byte where "MYSQL_TYPE_DECIMAL = 0x00"
definition MYSQL_TYPE_TINY :: byte where "MYSQL_TYPE_TINY = 0x01"
definition MYSQL_TYPE_SHORT :: byte where "MYSQL_TYPE_SHORT = 0x02"
definition MYSQL_TYPE_LONG :: byte where "MYSQL_TYPE_LONG = 0x03"
definition MYSQL_TYPE_FLOAT :: byte where "MYSQL_TYPE_FLOAT = 0x04"
definition MYSQL_TYPE_DOUBLE :: byte where "MYSQL_TYPE_DOUBLE = 0x05"
definition MYSQL_TYPE_NULL :: byte where "MYSQL_TYPE_NULL = 0x06"
definition MYSQL_TYPE_TIMESTAMP :: byte where "MYSQL_TYPE_TIMESTAMP = 0x07"
definition MYSQL_TYPE_LONGLONG :: byte where "MYSQL_TYPE_LONGLONG = 0x08"
definition MYSQL_TYPE_INT24 :: byte where "MYSQL_TYPE_INT24 = 0x09"
definition MYSQL_TYPE_DATE :: byte where "MYSQL_TYPE_DATE = 0x0a"
definition MYSQL_TYPE_TIME :: byte where "MYSQL_TYPE_TIME = 0x0b"
definition MYSQL_TYPE_DATETIME :: byte where "MYSQL_TYPE_DATETIME = 0x0c"
definition MYSQL_TYPE_YEAR :: byte where "MYSQL_TYPE_YEAR = 0x0d"
definition MYSQL_TYPE_NEWDATE :: byte where "MYSQL_TYPE_NEWDATE = 0x0e"
definition MYSQL_TYPE_VARCHAR :: byte where "MYSQL_TYPE_VARCHAR = 0x0f"
definition MYSQL_TYPE_BIT :: byte where "MYSQL_TYPE_BIT = 0x10"
definition MYSQL_TYPE_NEWDECIMAL :: byte where "MYSQL_TYPE_NEWDECIMAL = 0xf6"
definition MYSQL_TYPE_ENUM :: byte where "MYSQL_TYPE_ENUM = 0xf7"
definition MYSQL_TYPE_SET :: byte where "MYSQL_TYPE_SET = 0xf8"
definition MYSQL_TYPE_TINY_BLOB :: byte where "MYSQL_TYPE_TINY_BLOB = 0xf9"
definition MYSQL_TYPE_MEDIUM_BLOB :: byte where "MYSQL_TYPE_MEDIUM_BLOB = 0xfa"
definition MYSQL_TYPE_LONG_BLOB :: byte where "MYSQL_TYPE_LONG_BLOB = 0xfb"
definition MYSQL_TYPE_BLOB :: byte where "MYSQL_TYPE_BLOB = 0xfc"
definition MYSQL_TYPE_VAR_STRING :: byte where "MYSQL_TYPE_VAR_STRING = 0xfd"
definition MYSQL_TYPE_STRING :: byte where "MYSQL_TYPE_STRING = 0xfe"
definition MYSQL_TYPE_GEOMETRY :: byte where "MYSQL_TYPE_GEOMETRY = 0xff"
definition MYSQL_UNSIGNED_MASK :: "16 word" where "MYSQL_UNSIGNED_MASK = 0x8000"

lemmas my_types = MYSQL_TYPE_DECIMAL_def MYSQL_TYPE_TINY_def MYSQL_TYPE_SHORT_def MYSQL_TYPE_LONG_def MYSQL_TYPE_FLOAT_def
  MYSQL_TYPE_DOUBLE_def MYSQL_TYPE_NULL_def MYSQL_TYPE_TIMESTAMP_def MYSQL_TYPE_LONGLONG_def MYSQL_TYPE_INT24_def
  MYSQL_TYPE_DATE_def MYSQL_TYPE_TIME_def MYSQL_TYPE_DATETIME_def MYSQL_TYPE_YEAR_def MYSQL_TYPE_NEWDATE_def
  MYSQL_TYPE_VARCHAR_def MYSQL_TYPE_BIT_def MYSQL_TYPE_NEWDECIMAL_def MYSQL_TYPE_ENUM_def MYSQL_TYPE_SET_def
  MYSQL_TYPE_TINY_BLOB_def MYSQL_TYPE_MEDIUM_BLOB_def MYSQL_TYPE_LONG_BLOB_def MYSQL_TYPE_BLOB_def
  MYSQL_TYPE_VAR_STRING_def MYSQL_TYPE_STRING_def MYSQL_TYPE_GEOMETRY_def

definition bin_types :: "byte list" where
  "bin_types = [MYSQL_TYPE_STRING, MYSQL_TYPE_VAR_STRING, MYSQL_TYPE_VARCHAR, MYSQL_TYPE_BIT, MYSQL_TYPE_BLOB,
     MYSQL_TYPE_TINY_BLOB, MYSQL_TYPE_MEDIUM_BLOB, MYSQL_TYPE_LONG_BLOB, MYSQL_TYPE_SET, MYSQL_TYPE_ENUM, MYSQL_TYPE_GEOMETRY]"

definition pmap :: "('a \<Rightarrow> 'b) \<Rightarrow> ('s, 'a) pm \<Rightarrow> ('s, 'b) pm" where
  "pmap f m = pbind m (\<lambda>x. pret (f x))"

definition readValue :: "byte \<Rightarrow> bool \<Rightarrow> ('a pkt_io_scheme, my_val) pm" where
  "readValue ty uns =
     (if ty \<in> set bin_types then pmap V_bytes readBin
      else if ty = MYSQL_TYPE_TINY then pmap (if uns then V_uint8 else V_int8) readByte
      else if ty = MYSQL_TYPE_SHORT \<or> ty = MYSQL_TYPE_YEAR then pmap (if uns then V_uint16 else V_int16) readU16
      else if ty = MYSQL_TYPE_LONG \<or> ty = MYSQL_TYPE_INT24 then pmap (if uns then V_uint32 else V_int32) readU32
      else if ty = MYSQL_TYPE_LONGLONG then pmap (if uns then V_uint64 else V_int64) readU64
      else if ty = MYSQL_TYPE_FLOAT then pmap V_float32 readU32
      else if ty = MYSQL_TYPE_DOUBLE then pmap V_float64 readU64
      else if ty = MYSQL_TYPE_DECIMAL \<or> ty = MYSQL_TYPE_NEWDECIMAL then
        pbind readBin (\<lambda>b.
          if float_syntax (string_of_bytes b) then pret (V_decimal (string_of_bytes b))
          else raise (Text_Err (''MySQL server returned wrong decimal value: '' @ string_of_bytes b)))
      else if ty = MYSQL_TYPE_DATE \<or> ty = MYSQL_TYPE_NEWDATE then pmap V_date readDate
      else if ty = MYSQL_TYPE_DATETIME \<or> ty = MYSQL_TYPE_TIMESTAMP then pmap V_time readTime
      else if ty = MYSQL_TYPE_TIME then pmap V_duration readDuration
      else raise ErrUnkMySQLType)"

text \<open>\<open>float64(math.Float32frombits(b))\<close> keeps the value; it stays represented by the 32 bits.  A wrong
  decimal is a panic with a string here, which \<open>catchError\<close> does not recover.\<close>

definition readValueNarrow :: "byte \<Rightarrow> bool \<Rightarrow> ('a pkt_io_scheme, my_val) pm" where
  "readValueNarrow ty uns =
     (if ty \<in> set bin_types then pmap V_bytes readBin
      else if ty = MYSQL_TYPE_TINY then pmap (\<lambda>b. V_int64 (if uns then ucast b else scast b)) readByte
      else if ty = MYSQL_TYPE_SHORT \<or> ty = MYSQL_TYPE_YEAR then pmap (\<lambda>w. V_int64 (if uns then ucast w else scast w)) readU16
      else if ty = MYSQL_TYPE_LONG \<or> ty = MYSQL_TYPE_INT24 then pmap (\<lambda>w. V_int64 (if uns then ucast w else scast w)) readU32
      else if ty = MYSQL_TYPE_LONGLONG then
        pbind readU64 (\<lambda>v. if uns \<and> 2 ^ 63 \<le> unat v then raise (Text_Err ''Value to large for int64 type'') else pret (V_int64 v))
      else if ty = MYSQL_TYPE_FLOAT then pmap V_float32 readU32
      else if ty = MYSQL_TYPE_DOUBLE then pmap V_float64 readU64
      else if ty = MYSQL_TYPE_DECIMAL \<or> ty = MYSQL_TYPE_NEWDECIMAL then
        pbind readBin (\<lambda>b.
          if float_syntax (string_of_bytes b) then pret (V_decimal (string_of_bytes b))
          else crash (Explicit_Panic (''MySQL server returned wrong decimal value: '' @ string_of_bytes b)))
      else if ty = MYSQL_TYPE_DATETIME \<or> ty = MYSQL_TYPE_TIMESTAMP \<or> ty = MYSQL_TYPE_DATE \<or> ty = MYSQL_TYPE_NEWDATE then pmap V_time readTime
      else if ty = MYSQL_TYPE_TIME then pmap (\<lambda>d. V_int64 (word_of_int d)) readDuration
      else raise ErrUnkMySQLType)"

section \<open>Packets of the server\<close>

definition getErrorPacket :: "('a pkt_io_scheme, 'b) pm" where
  "getErrorPacket =
     pbind readU16 (\<lambda>code. pbind readByte (\<lambda>h.
       if h \<noteq> 35 then raise ErrPkt
       else pbind (skipN 5) (\<lambda>_. pbind readAll (\<lambda>msg. pbind checkEof (\<lambda>_. raise (Server_Error code msg))))))"

definition getOkPacket :: "('a my_conn_scheme, my_result) pm" where
  "getOkPacket =
     pbind readLCB (\<lambda>ar. pbind readLCB (\<lambda>ii. pbind readU16 (\<lambda>st.
     pbind (modify (\<lambda>c. c\<lparr>status := st\<rparr>)) (\<lambda>_.
     pbind readU16 (\<lambda>wc. pbind readAll (\<lambda>msg. pbind checkEof (\<lambda>_.
       pret (new_result\<lparr>status_only := True, affected_rows := ar, insert_id := ii, r_status := st, warning_count := unat wc,
         message := msg\<rparr>))))))))"

definition getEofPacket :: "('a pkt_io_scheme, nat \<times> 16 word) pm" where
  "getEofPacket s =
     (if pr_eof s then pret (0, 0) s
      else pbind readU16 (\<lambda>wc s1.
        if pr_eof s1 then pret (unat wc, 0) s1
        else pbind readU16 (\<lambda>st. pbind checkEof (\<lambda>_. pret (unat wc, st))) s1) s)"

definition getResSetHeadPacket :: "('a pkt_io_scheme, my_result) pm" where
  "getResSetHeadPacket =
     pbind unreadByte (\<lambda>_. pbind readLCB (\<lambda>fc. pbind checkEof (\<lambda>_.
       if 2 ^ 63 \<le> unat fc then crash (Explicit_Panic ''runtime error: makeslice: len out of range'')
       else pret (new_result\<lparr>n_fields := unat fc\<rparr>))))"

definition readStr :: "('a pkt_io_scheme, string) pm" where
  "readStr = pbind readBin (\<lambda>b. pret (string_of_bytes b))"

definition field_body :: "bool \<Rightarrow> ('a pkt_io_scheme, Field) pm" where
  "field_body full =
     (let str = (if full then readStr else pbind skipBin (\<lambda>_. pret [])) in
     pbind str (\<lambda>cat. pbind str (\<lambda>db. pbind str (\<lambda>tab. pbind str (\<lambda>otab.
     pbind readStr (\<lambda>nam. pbind str (\<lambda>onam.
     pbind (skipN 3) (\<lambda>_. pbind readU32 (\<lambda>dl. pbind readByte (\<lambda>ty. pbind readU16 (\<lambda>fl. pbind readByte (\<lambda>sc.
     pbind (skipN 2) (\<lambda>_. pbind checkEof (\<lambda>_.
       pret \<lparr>Catalog = cat, Db = db, Table = tab, OrgTable = otab, Name = nam, OrgName = onam, DispLen = dl, FFlags = fl,
         FType = ty, Scale = sc\<rparr>))))))))))))))"

definition getFieldPacket :: "('a my_conn_scheme, Field) pm" where
  "getFieldPacket = pbind unreadByte (\<lambda>_. pbind (gets fullFieldInfo) field_body)"

fun text_columns :: "nat \<Rightarrow> ('a pkt_io_scheme, my_val list) pm" where
  "text_columns 0 = pret []"
| "text_columns (Suc n) =
     pbind readNullBin (\<lambda>(bin, null). pbind (text_columns n) (\<lambda>vs. pret ((if null then V_nil else V_bytes bin) # vs)))"

definition getTextRowPacket :: "my_result \<Rightarrow> ('a pkt_io_scheme, my_val list) pm" where
  "getTextRowPacket res =
     pbind unreadByte (\<lambda>_. pbind (text_columns (field_count res)) (\<lambda>row. pbind checkEof (\<lambda>_. pret row)))"

definition null_bit :: "nat \<Rightarrow> byte list \<Rightarrow> bool" where
  "null_bit k bitmap \<longleftrightarrow> and (bitmap ! (k div 8)) (push_bit (k - k div 8 * 8) 1) \<noteq> 0"

fun bin_columns :: "bool \<Rightarrow> byte list \<Rightarrow> nat \<Rightarrow> Field list \<Rightarrow> ('a pkt_io_scheme, my_val list) pm" where
  "bin_columns narrow bitmap ii [] = pret []"
| "bin_columns narrow bitmap ii (f # fs) =
     pbind (if null_bit (ii + 2) bitmap then pret V_nil
            else (if narrow then readValueNarrow else readValue) (FType f) (and (FFlags f) FLAG_UNSIGNED \<noteq> 0)) (\<lambda>v.
     pbind (bin_columns narrow bitmap (Suc ii) fs) (\<lambda>vs. pret (v # vs)))"

definition getBinRowPacket :: "my_result \<Rightarrow> ('a my_conn_scheme, my_val list) pm" where
  "getBinRowPacket res =
     pbind (readFull ((field_count res + 9) div 8)) (\<lambda>bitmap.
     pbind (gets narrowTypeSet) (\<lambda>narrow. bin_columns narrow bitmap 0 (rfields res)))"

text \<open>
  \<open>getResult\<close> returns a result, nil, or (also nil) after filling the row it was given, which has
  \<open>n\<close> elements.
\<close>

datatype got = Got_nil | Got_result my_result | Got_row "my_val list"

text \<open>The loop over packets ends because every round consumes input.\<close>

definition shrinks :: "nat \<Rightarrow> ('a pkt_io_scheme, 'b) pm \<Rightarrow> bool" where
  "shrinks k m \<longleftrightarrow> (\<forall>s x t. m s = Ret (Inr x, t) \<longrightarrow> in_left t \<le> in_left s + k)"

named_theorems shrinks_rules \<open>computations that do not add to the input\<close>

lemma shrinks_bind [shrinks_rules]: "shrinks k m \<Longrightarrow> (\<And>x. shrinks 0 (f x)) \<Longrightarrow> shrinks k (pbind m f)"
  by (simp add: shrinks_def pbind_eq_Inr) (meson le_trans)

lemma shrinks_basic [shrinks_rules]:
  "shrinks 0 (pret x)" "shrinks 0 (raise e)" "shrinks 0 (crash p)" "shrinks 0 (gets g)" "shrinks 0 checkEof"
  by (auto simp: shrinks_def pret_def raise_def crash_def gets_def checkEof_def)

lemma shrinks_if [shrinks_rules]: "shrinks k m \<Longrightarrow> shrinks k m' \<Longrightarrow> shrinks k (if b then m else m')"
  by simp

lemma shrinks_case_prod [shrinks_rules]: "(\<And>a b. shrinks k (f a b)) \<Longrightarrow> shrinks k (case_prod f p)"
  by (cases p) simp

lemma shrinks_readByte [shrinks_rules]: "shrinks 0 readByte"
  unfolding shrinks_def using readByte_less by fastforce

lemma shrinks_start: "shrinks 0 next_header"
  unfolding shrinks_def using next_header_in_left by fastforce

lemma shrinks_Read: "shrinks 0 (on_rd (rd_Read n))"
  unfolding shrinks_def using on_rd_le by fastforce

lemma shrinks_Discard: "shrinks 0 (on_rd (rd_Discard n))"
  unfolding shrinks_def using Discard_in_left by fastforce

lemma in_left_remain [simp]: "in_left (s\<lparr>remain := m\<rparr>) = in_left s"
  by (simp add: in_left_def)

lemma readFull_in_left: "readFull n s = Ret (Inr x, t) \<Longrightarrow> in_left t \<le> in_left s"
proof (induction n s arbitrary: x t rule: readFull.induct)
  case (1 n s)
  show ?case
  proof (cases "n = 0")
    case True
    then show ?thesis using "1.prems" by (simp add: readFull.simps pret_def)
  next
    case False
    then obtain u a v b where u: "next_header s = Ret (Inr (), u)" "\<not> remain u < 0"
        and v: "on_rd (rd_Read (min n (nat (remain u)))) u = Ret (Inr a, v)"
        and b: "readFull (n - length a) (v\<lparr>remain := remain v - int (length a)\<rparr>) = Ret (Inr b, t)"
      using "1.prems" by (subst (asm) readFull.simps) (auto simp: pbind_eq_Inr pret_def split: if_splits)
    show ?thesis
      using "1.IH" [OF False u v b] next_header_in_left [OF u(1)] on_rd_le [OF v] by simp
  qed
qed

lemma skipN_in_left: "skipN n s = Ret (Inr x, t) \<Longrightarrow> in_left t \<le> in_left s"
proof (induction n s arbitrary: x t rule: skipN.induct)
  case (1 n s)
  show ?case
  proof (cases "n \<le> 0")
    case True
    then show ?thesis using "1.prems" by (simp add: skipN.simps pret_def)
  next
    case False
    then obtain u v where u: "next_header s = Ret (Inr (), u)" "\<not> remain u < 0"
        and v: "on_rd (rd_Discard (nat (min n (remain u)))) u = Ret (Inr (), v)"
        and b: "skipN (n - min n (remain u)) (v\<lparr>remain := remain v - min n (remain u)\<rparr>) = Ret (Inr x, t)"
      using "1.prems" by (subst (asm) skipN.simps) (auto simp: pbind_eq_Inr split: if_splits)
    show ?thesis
      using "1.IH" [OF False u v b] next_header_in_left [OF u(1)] Discard_in_left [OF v] by simp
  qed
qed

lemma shrinks_loops [shrinks_rules]: "shrinks 0 (readFull n)" "shrinks 0 (skipN i)"
  unfolding shrinks_def using readFull_in_left skipN_in_left by fastforce+

lemma shrinks_LCB [shrinks_rules]: "shrinks 0 readNullLCB" "shrinks 0 readLCB"
  by (auto simp: readNullLCB_def readLCB_def readU16_def readU24_def readU64_def intro!: shrinks_rules)

lemma shrinks_Bin [shrinks_rules]: "shrinks 0 readNullBin" "shrinks 0 readBin" "shrinks 0 skipBin" "shrinks 0 readStr"
  by (auto simp: readNullBin_def readBin_def skipBin_def readStr_def intro!: shrinks_rules)

lemma shrinks_unread: "shrinks 1 unreadByte"
proof -
  have "length (unreads (r\<lparr>pieces := unread b (pieces r), last_byte := None\<rparr>)) = length (unreads r) + 1" for b r
    by (cases "pieces r") (simp_all add: unreads_def)
  then show ?thesis
    by (auto simp: shrinks_def unreadByte_def on_rd_def rd_UnreadByte_def pbind_eq_Inr modify_def in_left_def split: option.splits)
qed

lemma shrinks_Head: "shrinks 1 getResSetHeadPacket"
  unfolding getResSetHeadPacket_def by (intro shrinks_rules shrinks_unread)

lemma shrinks_Field: "shrinks 1 getFieldPacket"
  unfolding getFieldPacket_def field_body_def Let_def readU32_def readU16_def by (intro shrinks_rules shrinks_unread)

text \<open>The first byte of a packet comes behind its header of four bytes.\<close>

definition open_packet :: "('a pkt_io_scheme, byte) pm" where
  "open_packet = pbind newPktReader (\<lambda>_. readByte)"

lemma open_packet_in_left: "open_packet s = Ret (Inr b, t) \<Longrightarrow> in_left t + 2 \<le> in_left s"
proof -
  assume "open_packet s = Ret (Inr b, t)"
  then obtain u v where u: "next_header (s\<lparr>remain := 0, last_pkt := False\<rparr>) = Ret (Inr (), u)"
      and v: "on_rd rd_ReadByte u = Ret (Inr b, v)" "in_left t = in_left v"
    by (auto simp: open_packet_def newPktReader_def readByte_def pbind_eq_Inr modify_def pret_def)
  have "in_left u < in_left s"
    using u readHeader_in_left by (fastforce simp: next_header_def in_left_def)
  then show ?thesis using ReadByte_less [OF v(1)] v(2) by simp
qed

function getResult :: "my_result option \<Rightarrow> nat \<Rightarrow> ('a my_conn_scheme, got) pm" where
  "getResult ro n s =
     pbind open_packet (\<lambda>pkt0 s1.
       if pkt0 = 255 then getErrorPacket s1
       else case ro of
         None \<Rightarrow>
           if pkt0 = 0 then pmap Got_result getOkPacket s1
           else if pkt0 < 251 then pbind getResSetHeadPacket (\<lambda>res. getResult (Some res) n) s1
           else if pkt0 = 251 then getResult None n s1
           else if pkt0 = 254 then pret Got_nil s1
           else raise ErrUnkResultPkt s1
       | Some res \<Rightarrow>
           if pkt0 = 254 then
             pbind getEofPacket (\<lambda>(wc, st).
             pbind (modify (\<lambda>c. c\<lparr>status := st\<rparr>)) (\<lambda>_.
               pret (Got_result (res\<lparr>warning_count := wc, r_status := st\<rparr>)))) s1
           else if pkt0 > 0 \<and> pkt0 < 251 \<and> field_count res < n_fields res then
             pbind getFieldPacket (\<lambda>f.
               getResult (Some (res\<lparr>rfields := rfields res @ [f], fc_map := (fc_map res)(Name f \<mapsto> field_count res)\<rparr>)) n) s1
           else if pkt0 < 254 \<and> field_count res = n_fields res then
             if n \<noteq> field_count res then raise ErrRowLength s1
             else pmap Got_row (if r_binary res then getBinRowPacket res else getTextRowPacket res) s1
           else raise ErrUnkResultPkt s1) s"
  by pat_completeness auto
termination
proof (relation "measure (\<lambda>(ro, n, s). in_left s)", goal_cases)
  case (2 ro n s b t r u)
  then show ?case
    using open_packet_in_left [OF 2(1)] shrinks_Head unfolding shrinks_def by fastforce
next
  case (3 ro n s b t)
  then show ?case using open_packet_in_left [OF 3(1)] by simp
next
  case (4 ro n s b t res f u)
  then show ?case
    using open_packet_in_left [OF 4(1)] shrinks_Field unfolding shrinks_def by fastforce
qed simp

declare getResult.simps [simp del]

section \<open>What the server sends\<close>

definition parses_eof :: "('a pkt_io_scheme, 'b) pm \<Rightarrow> 'b \<Rightarrow> byte list \<Rightarrow> bool" where
  "parses_eof m x p \<longleftrightarrow>
     (\<forall>s rest q. reading s p rest q True \<longrightarrow> (\<exists>t. m s = Ret (Inr x, t) \<and> finished t rest q \<and> moved_rd s t))"

lemma parses_eof_bind: "parses m x p \<Longrightarrow> parses_eof (f x) y p' \<Longrightarrow> parses_eof (pbind m f) y (p @ p')"
  unfolding parses_def parses_eof_def by (metis pbind_simps(1) moved_rd_trans)

lemma parsesD:
  "parses m x p \<Longrightarrow> reading s (p @ p') rest q e \<Longrightarrow> \<exists>t. m s = Ret (Inr x, t) \<and> reading t p' rest q e \<and> moved_rd s t"
  unfolding parses_def by blast

lemma parses_eof_Cons: "parses_eof (f b) y p \<Longrightarrow> parses_eof (pbind readByte f) y (b # p)"
  using parses_eof_bind [OF readByte_parses, of f b y p] by simp

lemma parses_eof_check: "parses_eof (pbind checkEof (\<lambda>_. pret x)) x []"
  by (auto simp: parses_eof_def reading_finished pbind_simps(1) [OF checkEof_finished] pret_def)

lemma parses_eof_all: "parses_eof (pbind readAll (\<lambda>x. pbind checkEof (\<lambda>_. pret (f x)))) (f p) p"
  unfolding parses_eof_def
proof (intro allI impI)
  fix s :: "'a pkt_io_scheme" and rest q
  assume "reading s p rest q True"
  then obtain t where t: "readAll s = Ret (Inr p, t)" "finished t rest q" "moved_rd s t"
    using readAll_reading by blast
  then show "\<exists>t. pbind readAll (\<lambda>x. pbind checkEof (\<lambda>_. pret (f x))) s = Ret (Inr (f p), t) \<and> finished t rest q \<and> moved_rd s t"
    by (auto simp: pbind_simps(1) [OF checkEof_finished] pret_def)
qed

lemma open_packet_reading:
  assumes "unreads (rd s) = frames (pkt_seq s) (b # p) @ rest"
  obtains t where "open_packet s = Ret (Inr b, t)" "moved_rd s t" "last_byte (rd t) = Some b" "0 \<le> remain t"
    "reading t p rest (pkt_seq s + of_nat (nframes (b # p))) (Suc (length p) mod max_pkt \<noteq> 0)"
proof -
  obtain u where u: "newPktReader s = Ret (Inr (), u)" "moved_rd s u"
      "reading u (b # p) rest (pkt_seq s + of_nat (nframes (b # p))) (Suc (length p) mod max_pkt \<noteq> 0)"
    using newPktReader_reading [OF assms] by auto
  obtain t where "readByte u = Ret (Inr b, t)" "reading t p rest (pkt_seq s + of_nat (nframes (b # p))) (Suc (length p) mod max_pkt \<noteq> 0)"
      "moved_rd u t" "last_byte (rd t) = Some b" "0 \<le> remain t"
    using readByte_reading [OF u(3)] by metis
  then show ?thesis using that u(1,2) moved_rd_trans by (auto simp: open_packet_def)
qed

text \<open>A connection whose input continues with one whole packet.\<close>

definition next_packet :: "'a my_conn_scheme \<Rightarrow> byte list \<Rightarrow> byte list \<Rightarrow> bool" where
  "next_packet s p rest \<longleftrightarrow> unreads (rd s) = frames (pkt_seq s) p @ rest \<and> length p mod max_pkt \<noteq> 0"

definition after_packet :: "'a my_conn_scheme \<Rightarrow> byte list \<Rightarrow> byte list \<Rightarrow> 'a my_conn_scheme \<Rightarrow> bool" where
  "after_packet s p rest t \<longleftrightarrow> moved_rd s t \<and> unreads (rd t) = rest \<and> pkt_seq t = pkt_seq s + of_nat (nframes p)"

lemma handler_eof:
  assumes "next_packet s (b # p) rest" and "parses_eof m x p"
  obtains t u where "open_packet s = Ret (Inr b, t)" "m t = Ret (Inr x, u)" "after_packet s (b # p) rest u"
proof -
  obtain t where t: "open_packet s = Ret (Inr b, t)" "moved_rd s t"
      "reading t p rest (pkt_seq s + of_nat (nframes (b # p))) True"
    using open_packet_reading [of s b p rest] assms(1) by (auto simp: next_packet_def)
  obtain u where "m t = Ret (Inr x, u)" "finished u rest (pkt_seq s + of_nat (nframes (b # p)))" "moved_rd t u"
    using assms(2) t(3) unfolding parses_eof_def by blast
  then show ?thesis
    using that t(1,2) moved_rd_trans by (fastforce simp: after_packet_def finished_def)
qed

lemma handler_unread:
  assumes "next_packet s (b # p) rest" and "parses_eof m x (b # p)"
  obtains t u where "open_packet s = Ret (Inr b, t)" "pbind unreadByte (\<lambda>_. m) t = Ret (Inr x, u)" "after_packet s (b # p) rest u"
    "moved_rd s t"
proof -
  obtain t where t: "open_packet s = Ret (Inr b, t)" "moved_rd s t" "last_byte (rd t) = Some b" "0 \<le> remain t"
      "reading t p rest (pkt_seq s + of_nat (nframes (b # p))) True"
    using open_packet_reading [of s b p rest] assms(1) by (auto simp: next_packet_def)
  obtain v where v: "unreadByte t = Ret (Inr (), v)" "reading v (b # p) rest (pkt_seq s + of_nat (nframes (b # p))) True" "moved_rd t v"
    using unreadByte_reading [OF t(5,3,4)] by blast
  obtain u where "m v = Ret (Inr x, u)" "finished u rest (pkt_seq s + of_nat (nframes (b # p)))" "moved_rd v u"
    using assms(2) v(2) unfolding parses_eof_def by blast
  moreover have "moved_rd s u" using t(2) v(3) \<open>moved_rd v u\<close> by (blast intro: moved_rd_trans)
  ultimately show ?thesis
    using that [of t u] t(1,2) v(1) by (auto simp: after_packet_def finished_def)
qed

definition ok_bytes :: "64 word \<Rightarrow> 64 word \<Rightarrow> 16 word \<Rightarrow> 16 word \<Rightarrow> byte list \<Rightarrow> byte list" where
  "ok_bytes ar ii st wc msg = 0 # lcb ar @ lcb ii @ EncodeU16 st @ EncodeU16 wc @ msg"

definition eof_bytes :: "16 word \<Rightarrow> 16 word \<Rightarrow> byte list" where
  "eof_bytes wc st = 254 # EncodeU16 wc @ EncodeU16 st"

definition err_bytes :: "16 word \<Rightarrow> byte list \<Rightarrow> byte list \<Rightarrow> byte list" where
  "err_bytes code sqlstate msg = 255 # EncodeU16 code @ 35 # sqlstate @ msg"

definition head_bytes :: "nat \<Rightarrow> byte list" where
  "head_bytes n = lcb (of_nat n)"

definition field_bytes :: "byte list \<Rightarrow> byte list \<Rightarrow> Field \<Rightarrow> byte list" where
  "field_bytes fill fill' f =
     lcs (bytes_of_string (Catalog f)) @ lcs (bytes_of_string (Db f)) @ lcs (bytes_of_string (Table f)) @
     lcs (bytes_of_string (OrgTable f)) @ lcs (bytes_of_string (Name f)) @ lcs (bytes_of_string (OrgName f)) @
     fill @ EncodeU32 (DispLen f) @ [FType f] @ EncodeU16 (FFlags f) @ [Scale f] @ fill'"

fun cell :: "byte list option \<Rightarrow> byte list" where
  "cell None = [251]"
| "cell (Some b) = lcs b"

definition row_bytes :: "byte list option list \<Rightarrow> byte list" where
  "row_bytes cs = concat (map cell cs)"

fun cell_val :: "byte list option \<Rightarrow> my_val" where
  "cell_val None = V_nil"
| "cell_val (Some b) = V_bytes b"

definition shown_field :: "bool \<Rightarrow> Field \<Rightarrow> Field" where
  "shown_field full f =
     (if full then f else empty_field\<lparr>Name := Name f, DispLen := DispLen f, FFlags := FFlags f, FType := FType f, Scale := Scale f\<rparr>)"

definition small_field :: "Field \<Rightarrow> bool" where
  "small_field f \<longleftrightarrow> (\<forall>x \<in> {Catalog f, Db f, Table f, OrgTable f, Name f, OrgName f}. length x < 2 ^ 63)"

lemma readStr_parses: "length x < 2 ^ 63 \<Longrightarrow> parses readStr x (lcs (bytes_of_string x))"
  unfolding readStr_def by (rule parses_then [OF readBin_parses]) (simp_all add: small_bin_def comp_def)

lemma skipStr_parses: "length x < 2 ^ 63 \<Longrightarrow> parses (pbind skipBin (\<lambda>_. pret [])) [] (lcs (bytes_of_string x))"
  by (rule parses_then [OF skipBin_parses]) (simp_all add: small_bin_def)

lemma field_body_parses:
  assumes "small_field f" and "length fill = 3" and "length fill' = 2"
  shows "parses_eof (field_body full) (shown_field full f) (field_bytes fill fill' f)"
proof -
  have s: "length (Catalog f) < 2 ^ 63" "length (Db f) < 2 ^ 63" "length (Table f) < 2 ^ 63"
      "length (OrgTable f) < 2 ^ 63" "length (Name f) < 2 ^ 63" "length (OrgName f) < 2 ^ 63"
    using assms(1) by (simp_all add: small_field_def)
  have k: "parses (skipN 3) () fill" "parses (skipN 2) () fill'"
    using skipN_parses [OF assms(2)] skipN_parses [OF assms(3)] by simp_all
  have tail: "parses_eof (pbind (skipN 2) (\<lambda>_. pbind checkEof (\<lambda>_. pret x))) x fill'" for x :: Field
    using parses_eof_bind [OF k(2) parses_eof_check] by simp
  show ?thesis
  proof (cases full)
    case True
    then show ?thesis
      unfolding field_body_def Let_def field_bytes_def
      by (auto intro!: parses_eof_bind [OF readStr_parses] parses_eof_bind [OF k(1)] parses_eof_bind [OF readU_parses(2)]
          parses_eof_bind [OF readU_parses(1)] parses_eof_Cons tail [THEN back_subst [of "\<lambda>x. parses_eof _ x _"]] s simp: shown_field_def)
  next
    case False
    then show ?thesis
      unfolding field_body_def Let_def field_bytes_def
      by (auto intro!: parses_eof_bind [OF readStr_parses] parses_eof_bind [OF skipStr_parses] parses_eof_bind [OF k(1)]
          parses_eof_bind [OF readU_parses(2)] parses_eof_bind [OF readU_parses(1)] parses_eof_Cons
          tail [THEN back_subst [of "\<lambda>x. parses_eof _ x _"]] s simp: shown_field_def empty_field_def)
  qed
qed

lemma text_columns_parses:
  "\<forall>c \<in> set cs. \<forall>b. c = Some b \<longrightarrow> small_bin b \<Longrightarrow>
     parses (text_columns (length cs) :: ('a pkt_io_scheme, my_val list) pm) (map cell_val cs) (row_bytes cs)"
proof (induction cs)
  case Nil
  then show ?case by (simp add: row_bytes_def parses_ret)
next
  case (Cons c cs)
  have r: "parses (pbind (text_columns (length cs) :: ('a pkt_io_scheme, my_val list) pm) (\<lambda>vs. pret (v # vs))) (v # map cell_val cs) (row_bytes cs)" for v
    by (rule parses_map [where f = "\<lambda>vs. v # vs"]) (use Cons in simp)
  define g :: "byte list \<times> bool \<Rightarrow> ('a pkt_io_scheme, my_val list) pm" where
    "g = (\<lambda>(bin, null). pbind (text_columns (length cs)) (\<lambda>vs. pret ((if null then V_nil else V_bytes bin) # vs)))"
  have t: "text_columns (length (c # cs)) = pbind readNullBin g" by (simp add: g_def)
  show ?case
  proof (cases c)
    case None
    then show ?thesis
      unfolding t using parses_bind [OF readNullBin_null, of g "V_nil # map cell_val cs" "row_bytes cs"] r
      by (simp add: row_bytes_def g_def)
  next
    case (Some b)
    then have "small_bin b" using Cons.prems by simp
    then show ?thesis
      unfolding t using parses_bind [OF readNullBin_parses, of b g "V_bytes b # map cell_val cs" "row_bytes cs"] r Some
      by (simp add: row_bytes_def g_def)
  qed
qed

text \<open>One round of \<open>getResult\<close> for every kind of packet.\<close>

lemma after_packet_conn:
  "after_packet s p rest t \<Longrightarrow> fullFieldInfo t = fullFieldInfo s \<and> narrowTypeSet t = narrowTypeSet s \<and> status t = status s"
  by (auto simp: after_packet_def moved_rd_def)

lemma getResult_head:
  assumes "next_packet s (head_bytes k) rest" and "1 \<le> k" and "k \<le> 250"
  obtains t where "getResult None n s = getResult (Some (new_result\<lparr>n_fields := k\<rparr>)) n t" "after_packet s (head_bytes k) rest t"
proof -
  have u: "unat (of_nat k :: 64 word) = k" "unat (of_nat k :: byte) = k"
    using assms(3) by (simp_all add: unsigned_of_nat take_bit_nat_eq_self)
  then have h: "head_bytes k = [of_nat k]"
    using assms(3) by (simp add: head_bytes_def lcb_def word_le_nat_alt word_unat_eq_iff unsigned_ucast_eq take_bit_nat_eq_self unsigned_take_bit_eq)
  define m :: "('a my_conn_scheme, my_result) pm" where "m = pbind readLCB (\<lambda>fc. pbind checkEof (\<lambda>_.
       if 2 ^ 63 \<le> unat fc then crash (Explicit_Panic ''runtime error: makeslice: len out of range'')
       else pret (new_result\<lparr>n_fields := unat fc\<rparr>)))"
  have "parses_eof m (new_result\<lparr>n_fields := k\<rparr>) ([of_nat k] @ [])"
    unfolding m_def
    by (rule parses_eof_bind [OF readLCB_parses [of "of_nat k", folded head_bytes_def, unfolded h]])
      (use assms(3) u in \<open>simp add: parses_eof_check\<close>)
  then have m: "parses_eof m (new_result\<lparr>n_fields := k\<rparr>) [of_nat k]" by simp
  obtain t v where t: "open_packet s = Ret (Inr (of_nat k), t)" "pbind unreadByte (\<lambda>_. m) t = Ret (Inr (new_result\<lparr>n_fields := k\<rparr>), v)"
      "after_packet s (head_bytes k) rest v"
    using handler_unread [OF assms(1) [unfolded h] m] unfolding h by metis
  have b: "(of_nat k :: byte) \<noteq> 255" "(of_nat k :: byte) \<noteq> 0" "(of_nat k :: byte) < 251"
    using assms(2,3) u(2) by (auto simp: word_unat_eq_iff word_less_nat_alt)
  have "getResSetHeadPacket t = Ret (Inr (new_result\<lparr>n_fields := k\<rparr>), v)"
    using t(2) unfolding getResSetHeadPacket_def m_def .
  then have "getResult None n s = getResult (Some (new_result\<lparr>n_fields := k\<rparr>)) n v"
    using t(1) b by (subst getResult.simps) simp
  then show ?thesis using that t(3) by blast
qed

lemma getFieldPacket_next:
  assumes "next_packet s (field_bytes fill fill' f) rest" and "small_field f" and "length fill = 3" and "length fill' = 2"
    and "1 \<le> length (Catalog f)" and "length (Catalog f) \<le> 250"
  obtains b t v where "open_packet s = Ret (Inr b, t)" "getFieldPacket t = Ret (Inr (shown_field (fullFieldInfo s) f), v)"
    "after_packet s (field_bytes fill fill' f) rest v" "0 < b" "b < 251"
proof -
  define k where "k = length (Catalog f)"
  have u: "unat (of_nat k :: 64 word) = k" "unat (of_nat k :: byte) = k"
    using assms(6) by (simp_all add: k_def unsigned_of_nat take_bit_nat_eq_self)
  then have "lcb (of_nat k) = [of_nat k]"
    using assms(6) by (simp add: k_def lcb_def word_le_nat_alt word_unat_eq_iff unsigned_ucast_eq take_bit_nat_eq_self unsigned_take_bit_eq)
  then obtain p where p: "field_bytes fill fill' f = of_nat k # p"
    by (simp add: field_bytes_def lcs_def k_def)
  obtain t v where t: "open_packet s = Ret (Inr (of_nat k), t)" "pbind unreadByte (\<lambda>_. field_body (fullFieldInfo s)) t =
      Ret (Inr (shown_field (fullFieldInfo s) f), v)" "after_packet s (of_nat k # p) rest v" "moved_rd s t"
    using handler_unread [of s "of_nat k" p rest, OF assms(1) [unfolded p] field_body_parses [OF assms(2-4), unfolded p]] by blast
  have "getFieldPacket t = Ret (Inr (shown_field (fullFieldInfo s) f), v)"
  proof -
    have "fullFieldInfo t = fullFieldInfo s" using t(4) by (auto simp: moved_rd_def)
    moreover obtain w where "unreadByte t = Ret (Inr (), w)" "field_body (fullFieldInfo s) w = Ret (Inr (shown_field (fullFieldInfo s) f), v)"
      using t(2) by (auto simp: pbind_eq_Inr)
    moreover from this have "fullFieldInfo w = fullFieldInfo t"
      by (auto simp: unreadByte_def on_rd_def pbind_eq_Inr modify_def split: prod.splits)
    ultimately show ?thesis by (simp add: getFieldPacket_def)
  qed
  moreover have "(0 :: byte) < of_nat k" "(of_nat k :: byte) < 251"
    using assms(5,6) u(2) by (auto simp: word_unat_eq_iff word_less_nat_alt k_def)
  ultimately show ?thesis using that t(1,3) p by metis
qed

lemma getResult_field:
  assumes "next_packet s (field_bytes fill fill' f) rest" and "small_field f" and "length fill = 3" and "length fill' = 2"
    and "1 \<le> length (Catalog f)" and "length (Catalog f) \<le> 250" and "field_count r < n_fields r"
  obtains t where "getResult (Some r) n s = getResult (Some (r\<lparr>rfields := rfields r @ [shown_field (fullFieldInfo s) f],
      fc_map := (fc_map r)(Name f \<mapsto> field_count r)\<rparr>)) n t" "after_packet s (field_bytes fill fill' f) rest t"
proof -
  obtain b t v where t: "open_packet s = Ret (Inr b, t)" "getFieldPacket t = Ret (Inr (shown_field (fullFieldInfo s) f), v)"
      "after_packet s (field_bytes fill fill' f) rest v" "0 < b" "b < 251"
    using getFieldPacket_next [OF assms(1-6)] .
  have "b \<noteq> 255" "b \<noteq> 254" using t(5) by auto
  moreover have "Name (shown_field full f) = Name f" for full by (simp add: shown_field_def)
  ultimately have "getResult (Some r) n s = getResult (Some (r\<lparr>rfields := rfields r @ [shown_field (fullFieldInfo s) f],
      fc_map := (fc_map r)(Name f \<mapsto> field_count r)\<rparr>)) n v"
    using t assms(7) by (subst getResult.simps) simp
  then show ?thesis using that t(3) by metis
qed

lemma getEofPacket_parses: "parses_eof getEofPacket (unat wc, st) (EncodeU16 wc @ EncodeU16 st)"
  unfolding parses_eof_def
proof (intro allI impI)
  fix s :: "'a pkt_io_scheme" and rest q
  assume a: "reading s (EncodeU16 wc @ EncodeU16 st) rest q True"
  then have "\<not> pr_eof s" by (auto simp: reading_def pr_eof_def EncodeU16_def split: if_splits)
  moreover obtain t where t: "readU16 s = Ret (Inr wc, t)" "reading t (EncodeU16 st) rest q True" "moved_rd s t"
    using readU_parses(1) a unfolding parses_def by blast
  moreover have "\<not> pr_eof t" using t(2) by (auto simp: reading_def pr_eof_def EncodeU16_def split: if_splits)
  moreover have "reading t (EncodeU16 st @ []) rest q True" using t(2) by simp
  then obtain u where "readU16 t = Ret (Inr st, u)" "reading u [] rest q True" "moved_rd t u"
    using parsesD [OF readU_parses(1)] by blast
  moreover from this have "checkEof u = Ret (Inr (), u)" "finished u rest q"
    by (simp_all add: reading_finished checkEof_finished)
  ultimately show "\<exists>t. getEofPacket s = Ret (Inr (unat wc, st), t) \<and> finished t rest q \<and> moved_rd s t"
    using moved_rd_trans by (auto simp: getEofPacket_def pret_def)
qed

lemma getResult_eof:
  assumes "next_packet s (eof_bytes wc st) rest"
  obtains t where "getResult (Some r) n s =
      Ret (Inr (Got_result (r\<lparr>warning_count := unat wc, r_status := st\<rparr>)), t\<lparr>status := st\<rparr>)"
    "after_packet s (eof_bytes wc st) rest t"
proof -
  obtain t v where t: "open_packet s = Ret (Inr 254, t)" "getEofPacket t = Ret (Inr (unat wc, st), v)"
      "after_packet s (eof_bytes wc st) rest v"
    using handler_eof [OF assms [unfolded eof_bytes_def] getEofPacket_parses] unfolding eof_bytes_def by metis
  then have "getResult (Some r) n s = Ret (Inr (Got_result (r\<lparr>warning_count := unat wc, r_status := st\<rparr>)), v\<lparr>status := st\<rparr>)"
    by (subst getResult.simps) (simp add: pret_def)
  then show ?thesis using that t(3) by blast
qed

text \<open>A text row is taken for one unless its first column has 2^24 bytes or more.\<close>

definition cells_ok :: "byte list option list \<Rightarrow> bool" where
  "cells_ok cs \<longleftrightarrow>
     cs \<noteq> [] \<and> (\<forall>c \<in> set cs. \<forall>b. c = Some b \<longrightarrow> small_bin b) \<and> (\<forall>b. hd cs = Some b \<longrightarrow> length b < 2 ^ 24)
     \<and> length (row_bytes cs) mod max_pkt \<noteq> 0"

lemma row_bytes_hd:
  assumes "cells_ok cs"
  obtains b p where "row_bytes cs = b # p" "b < 254" "b \<noteq> 255"
proof -
  obtain c cs' where c: "cs = c # cs'" using assms by (cases cs) (auto simp: cells_ok_def)
  have "\<exists>b p. lcs x = b # p \<and> b < 254" if "length x < 2 ^ 24" for x
  proof -
    have u: "unat (of_nat (length x) :: 64 word) = length x"
      using that by (simp add: unsigned_of_nat take_bit_nat_eq_self)
    have "(of_nat (length x) :: 64 word) \<le> 0xffffff" using that u by (simp add: word_le_nat_alt)
    moreover have "unat (ucast (of_nat (length x) :: 64 word) :: byte) = length x" if "length x \<le> 250"
      using that u by (simp add: unsigned_ucast_eq take_bit_nat_eq_self)
    ultimately show ?thesis
      using u by (auto simp: lcs_def lcb_def word_less_nat_alt word_le_nat_alt)
  qed
  moreover have "cell None = 251 # []" by simp
  ultimately have "\<exists>b p. cell c = b # p \<and> b < 254"
    using assms c by (cases c) (auto simp: cells_ok_def)
  then show ?thesis using that c by (fastforce simp: row_bytes_def)
qed

lemma getResult_row:
  assumes "next_packet s (row_bytes cs) rest" and "cells_ok cs" and "length cs = n_fields r" and "field_count r = n_fields r"
    and "\<not> r_binary r"
  obtains t where "getResult (Some r) (n_fields r) s = Ret (Inr (Got_row (map cell_val cs)), t)" "after_packet s (row_bytes cs) rest t"
proof -
  obtain b p where b: "row_bytes cs = b # p" "b < 254" "b \<noteq> 255" using row_bytes_hd [OF assms(2)] .
  define m :: "('a my_conn_scheme, my_val list) pm"
    where "m = pbind (text_columns (field_count r)) (\<lambda>row. pbind checkEof (\<lambda>_. pret row))"
  have "parses (text_columns (field_count r) :: ('a my_conn_scheme, my_val list) pm) (map cell_val cs) (row_bytes cs)"
    using text_columns_parses [of cs] assms(2-4) by (simp add: cells_ok_def)
  then have "parses_eof m (map cell_val cs) (row_bytes cs @ [])"
    unfolding m_def by (rule parses_eof_bind) (rule parses_eof_check)
  then have m: "parses_eof m (map cell_val cs) (b # p)"
    using b by simp
  obtain t v where t: "open_packet s = Ret (Inr b, t)" "getTextRowPacket r t = Ret (Inr (map cell_val cs), v)"
      "after_packet s (row_bytes cs) rest v"
    using handler_unread [OF assms(1) [unfolded b(1)] m] b(1) unfolding getTextRowPacket_def m_def by metis
  then have "getResult (Some r) (n_fields r) s = Ret (Inr (Got_row (map cell_val cs)), v)"
    using b assms(4,5) by (subst getResult.simps) (auto simp: pmap_def pret_def)
  then show ?thesis using that t(3) by blast
qed

lemma reading_status: "reading s p rest q e \<Longrightarrow> reading (s\<lparr>status := st\<rparr>) p rest q e"
  by (simp add: reading_def)

lemma getResult_ok:
  assumes "next_packet s (ok_bytes ar ii st wc msg) rest"
  obtains t where "getResult None n s = Ret (Inr (Got_result (new_result\<lparr>status_only := True, affected_rows := ar, insert_id := ii,
      r_status := st, warning_count := unat wc, message := msg\<rparr>)), t\<lparr>status := st\<rparr>)" "after_packet s (ok_bytes ar ii st wc msg) rest t"
proof -
  let ?p = "lcb ar @ lcb ii @ EncodeU16 st @ EncodeU16 wc @ msg"
  let ?q = "pkt_seq s + of_nat (nframes (0 # ?p))"
  obtain t where t: "open_packet s = Ret (Inr 0, t)" "moved_rd s t" "reading t ?p rest ?q True"
    using open_packet_reading [of s 0 ?p rest] assms by (auto simp: next_packet_def ok_bytes_def)
  obtain t1 where t1: "readLCB t = Ret (Inr ar, t1)" "reading t1 (lcb ii @ EncodeU16 st @ EncodeU16 wc @ msg) rest ?q True" "moved_rd t t1"
    using parsesD [OF readLCB_parses t(3)] by blast
  obtain t2 where t2: "readLCB t1 = Ret (Inr ii, t2)" "reading t2 (EncodeU16 st @ EncodeU16 wc @ msg) rest ?q True" "moved_rd t1 t2"
    using parsesD [OF readLCB_parses t1(2)] by blast
  obtain t3 where t3: "readU16 t2 = Ret (Inr st, t3)" "reading t3 (EncodeU16 wc @ msg) rest ?q True" "moved_rd t2 t3"
    using parsesD [OF readU_parses(1) t2(2)] by blast
  have "reading (t3\<lparr>status := st\<rparr>) (EncodeU16 wc @ msg) rest ?q True" using t3(2) by (rule reading_status)
  then obtain t4 where t4: "readU16 (t3\<lparr>status := st\<rparr>) = Ret (Inr wc, t4)" "reading t4 msg rest ?q True" "moved_rd (t3\<lparr>status := st\<rparr>) t4"
    using parsesD [OF readU_parses(1)] by blast
  obtain t5 where t5: "readAll t4 = Ret (Inr msg, t5)" "finished t5 rest ?q" "moved_rd t4 t5"
    using readAll_reading [OF t4(2)] by blast
  have s3: "moved_rd s t3" using t(2) t1(3) t2(3) t3(3) by (blast intro: moved_rd_trans)
  have "moved_rd (t3\<lparr>status := st\<rparr>) t5" using t4(3) t5(3) by (rule moved_rd_trans)
  then have "moved_rd t3 (t5\<lparr>status := status t3\<rparr>)" "status t5 = st"
    by (auto simp: moved_rd_def) blast
  then have "after_packet s (ok_bytes ar ii st wc msg) rest (t5\<lparr>status := status t3\<rparr>)" "t5\<lparr>status := status t3, status := st\<rparr> = t5"
    using s3 t5(2) moved_rd_trans by (auto simp: after_packet_def finished_def ok_bytes_def)
  moreover have "getResult None n s = Ret (Inr (Got_result (new_result\<lparr>status_only := True, affected_rows := ar, insert_id := ii,
      r_status := st, warning_count := unat wc, message := msg\<rparr>)), t5)"
    using t(1) t1(1) t2(1) t3(1) t4(1) t5(1) checkEof_finished [OF t5(2)]
    by (subst getResult.simps) (simp add: getOkPacket_def pmap_def pret_def)
  ultimately show ?thesis using that by metis
qed

lemma getResult_error:
  assumes "next_packet s (err_bytes code sqlstate msg) rest" and "length sqlstate = 5"
  obtains t where "getResult ro n s = Ret (Inl (Server_Error code msg), t)" "after_packet s (err_bytes code sqlstate msg) rest t"
proof -
  let ?p = "EncodeU16 code @ 35 # sqlstate @ msg"
  let ?q = "pkt_seq s + of_nat (nframes (255 # ?p))"
  obtain t where t: "open_packet s = Ret (Inr 255, t)" "moved_rd s t" "reading t ?p rest ?q True"
    using open_packet_reading [of s 255 ?p rest] assms by (auto simp: next_packet_def err_bytes_def)
  obtain t1 where t1: "readU16 t = Ret (Inr code, t1)" "reading t1 (35 # sqlstate @ msg) rest ?q True" "moved_rd t t1"
    using parsesD [OF readU_parses(1) t(3)] by blast
  obtain t2 where t2: "readByte t1 = Ret (Inr 35, t2)" "reading t2 (sqlstate @ msg) rest ?q True" "moved_rd t1 t2"
    using readByte_reading [OF t1(2)] by metis
  obtain t3 where t3: "skipN 5 t2 = Ret (Inr (), t3)" "reading t3 msg rest ?q True" "moved_rd t2 t3"
    using parsesD [OF skipN_parses [OF assms(2)] t2(2)] by auto
  obtain t4 where t4: "readAll t3 = Ret (Inr msg, t4)" "finished t4 rest ?q" "moved_rd t3 t4"
    using readAll_reading [OF t3(2)] by blast
  have "moved_rd s t4" using t(2) t1(3) t2(3) t3(3) t4(3) by (blast intro: moved_rd_trans)
  then have "after_packet s (err_bytes code sqlstate msg) rest t4"
    using t4(2) by (simp add: after_packet_def finished_def err_bytes_def)
  moreover have "getResult ro n s = Ret (Inl (Server_Error code msg), t4)"
    using t(1) t1(1) t2(1) t3(1) t4(1) checkEof_finished [OF t4(2)]
    by (subst getResult.simps) (simp add: getErrorPacket_def raise_def)
  ultimately show ?thesis using that by blast
qed

end
