(* ===== verification/My_Client.thy ===== *)
theory My_Client
  imports My_Result
begin

text \<open>
  Text queries of the MySQL driver: the commands of \<open>native/command.go\<close>, the query and result
  functions of \<open>native/mysql.go\<close>, and the helpers of \<open>mysql/utils.go\<close> (\<open>Query\<close>, \<open>GetRows\<close>,
  \<open>GetLastRow\<close> and their relatives).  An operation with a result \<open>(value, err)\<close> of which only one half
  counts returns \<open>Inl err\<close> or \<open>Inr value\<close>; those that return both, such as \<open>GetRows\<close>, return both.
\<close>

section \<open>Commands\<close>

definition COM_QUIT :: byte where "COM_QUIT = 0x01"
definition COM_INIT_DB :: byte where "COM_INIT_DB = 0x02"
definition COM_QUERY :: byte where "COM_QUERY = 0x03"
definition COM_PING :: byte where "COM_PING = 0x0e"
definition COM_STMT_PREPARE :: byte where "COM_STMT_PREPARE = 0x16"
definition COM_STMT_EXECUTE :: byte where "COM_STMT_EXECUTE = 0x17"
definition COM_STMT_SEND_LONG_DATA :: byte where "COM_STMT_SEND_LONG_DATA = 0x18"
definition COM_STMT_CLOSE :: byte where "COM_STMT_CLOSE = 0x19"
definition COM_STMT_RESET :: byte where "COM_STMT_RESET = 0x1a"

definition reset_seq :: "('a pkt_io_scheme, unit) pm" where
  "reset_seq = modify (\<lambda>s. s\<lparr>pkt_seq := 0\<rparr>)"

definition sendCmd :: "byte \<Rightarrow> ('a pkt_io_scheme, unit) pm" where
  "sendCmd cmd = pbind reset_seq (\<lambda>_. pbind (newPktWriter 1) (\<lambda>_. writeByte cmd))"

definition sendCmdStr :: "byte \<Rightarrow> byte list \<Rightarrow> ('a pkt_io_scheme, unit) pm" where
  "sendCmdStr cmd str =
     pbind reset_seq (\<lambda>_. pbind (newPktWriter (1 + length str)) (\<lambda>_. pbind (writeByte cmd) (\<lambda>_. pw_write str)))"

definition sendCmdU32 :: "byte \<Rightarrow> 32 word \<Rightarrow> ('a pkt_io_scheme, unit) pm" where
  "sendCmdU32 cmd u =
     pbind reset_seq (\<lambda>_. pbind (newPktWriter (1 + 4)) (\<lambda>_. pbind (writeByte cmd) (\<lambda>_. writeU32 u)))"

definition sendLongData :: "32 word \<Rightarrow> 16 word \<Rightarrow> byte list \<Rightarrow> ('a pkt_io_scheme, unit) pm" where
  "sendLongData stmtid pnum dat =
     pbind reset_seq (\<lambda>_. pbind (newPktWriter (1 + 4 + 2 + length dat)) (\<lambda>_.
     pbind (writeByte COM_STMT_SEND_LONG_DATA) (\<lambda>_. pbind (writeU32 stmtid) (\<lambda>_. pbind (writeU16 pnum) (\<lambda>_. pw_write dat)))))"

section \<open>Queries\<close>

definition getResponse :: "('a my_conn_scheme, my_result) pm" where
  "getResponse =
     pbind (getResult None 0) (\<lambda>g.
       case g of
         Got_result res \<Rightarrow> pbind (modify (\<lambda>c. c\<lparr>unreaded_reply := \<not> status_only res\<rparr>)) (\<lambda>_. pret res)
       | _ \<Rightarrow> raise ErrBadResult)"

definition on_idle :: "('a my_conn_scheme, 'b) pm \<Rightarrow> ('a my_conn_scheme, 'b) pm" where
  "on_idle m c =
     catchError (\<lambda>c. if \<not> connected c then raise ErrNotConn c else if unreaded_reply c then raise ErrUnreadedReply c else m c) c"

text \<open>\<open>sql\<close> is the text after \<open>fmt.Sprintf\<close> has filled in the parameters, if there are any.\<close>

definition Start :: "byte list \<Rightarrow> ('a my_conn_scheme, my_result) pm" where
  "Start sql = on_idle (pbind (sendCmdStr COM_QUERY sql) (\<lambda>_. getResponse))"

definition Use :: "byte list \<Rightarrow> ('a my_conn_scheme, unit) pm" where
  "Use db =
     on_idle (pbind (sendCmdStr COM_INIT_DB db) (\<lambda>_. pbind (getResult None 0) (\<lambda>_. modify (\<lambda>c. c\<lparr>dbname := db\<rparr>))))"

definition Ping :: "('a my_conn_scheme, unit) pm" where
  "Ping = on_idle (pbind (sendCmd COM_PING) (\<lambda>_. pbind (getResult None 0) (\<lambda>_. pret ())))"

definition MoreResults :: "my_result \<Rightarrow> bool" where
  "MoreResults res \<longleftrightarrow> and (r_status res) SERVER_MORE_RESULTS_EXISTS \<noteq> 0"

definition getRow :: "my_result \<Rightarrow> nat \<Rightarrow> ('a my_conn_scheme, got) pm" where
  "getRow res n = catchError (getResult (Some res) n)"

text \<open>\<open>ScanRow\<close> into a slice of \<open>n\<close> elements (\<open>None\<close>: the nil slice): the row, or \<open>None\<close> for
  \<open>io.EOF\<close>, with the result's new state.\<close>

definition ScanRow :: "nat option \<Rightarrow> my_result \<Rightarrow> ('a my_conn_scheme, my_val list option \<times> my_result) pm" where
  "ScanRow row res =
     (case row of
        None \<Rightarrow> raise ErrRowLength
      | Some n \<Rightarrow>
          if eor_returned res then raise ErrReadAfterEOR
          else if status_only res then pret (None, res\<lparr>eor_returned := True\<rparr>)
          else pbind (getRow res n) (\<lambda>g.
            case g of
              Got_result res' \<Rightarrow>
                pbind (if MoreResults res' then pret () else modify (\<lambda>c. c\<lparr>unreaded_reply := False\<rparr>)) (\<lambda>_.
                  pret (None, res'\<lparr>eor_returned := True\<rparr>))
            | Got_row vs \<Rightarrow> pret (Some vs, res)
            | Got_nil \<Rightarrow> pret (Some [], res)))"

definition GetRow :: "my_result \<Rightarrow> ('a my_conn_scheme, my_val list option \<times> my_result) pm" where
  "GetRow res = ScanRow (Some (field_count res)) res"

definition attempt :: "('s, 'b) pm \<Rightarrow> ('s, my_err + 'b) pm" where
  "attempt m s = go_bind (m s) (\<lambda>(r, t). Ret (Inr r, t))"

lemma shrinks_value [shrinks_rules]:
  "shrinks 0 readTime" "shrinks 0 readDate" "shrinks 0 readDuration" "shrinks 0 (readValue ty u)" "shrinks 0 (readValueNarrow ty u)"
  unfolding readTime_def readDate_def readDuration_def readValue_def readValueNarrow_def pmap_def readU16_def readU32_def readU64_def
  by (intro shrinks_rules)+

lemma shrinks_columns [shrinks_rules]: "shrinks 0 (text_columns n)" "shrinks 0 (bin_columns nr bm ii fs)"
  by (induction n; auto intro!: shrinks_rules) (induction fs arbitrary: ii; auto intro!: shrinks_rules)

lemma shrinks_rows: "shrinks 1 (getTextRowPacket res)" "shrinks 1 (getBinRowPacket res)"
proof -
  show "shrinks 1 (getTextRowPacket res)"
    unfolding getTextRowPacket_def by (intro shrinks_rules shrinks_unread)
  have "shrinks 0 (getBinRowPacket res)"
    unfolding getBinRowPacket_def by (intro shrinks_rules)
  then show "shrinks 1 (getBinRowPacket res)" unfolding shrinks_def by fastforce
qed

lemma shrinksD: "shrinks k m \<Longrightarrow> m s = Ret (Inr x, t) \<Longrightarrow> in_left t \<le> in_left s + k"
  unfolding shrinks_def by blast

lemma readAll_in_left: "readAll s = Ret (Inr a, t) \<Longrightarrow> in_left t \<le> in_left s"
proof (induction s arbitrary: a t rule: readAll.induct)
  case (1 s)
  show ?case
  proof (cases "remain s = 0 \<and> last_pkt s")
    case True
    then show ?thesis using "1.prems" by (simp add: readAll.simps pret_def)
  next
    case False
    then obtain u b v c where h: "next_header s = Ret (Inr (), u)" "\<not> remain u < 0"
        and d: "on_rd (rd_Read (nat (remain u))) u = Ret (Inr b, v)"
        and r: "readAll (v\<lparr>remain := remain v - int (length b)\<rparr>) = Ret (Inr c, t)"
      using trans [OF readAll.simps [symmetric] "1.prems"] by (auto simp: pbind_eq_Inr pret_def split: if_splits)
    have "in_left u \<le> in_left s" using next_header_in_left [OF h(1)] by simp
    then show ?thesis
      using "1.IH" [OF False h d r] on_rd_le [OF d] by (simp add: in_left_def)
  qed
qed

lemma shrinks_Ok: "shrinks 0 getOkPacket"
  unfolding getOkPacket_def readU16_def
  by (intro shrinks_rules) (auto simp: shrinks_def modify_def in_left_def dest: readAll_in_left [unfolded in_left_def])

lemma shrinks_Eof: "shrinks 0 getEofPacket"
  unfolding shrinks_def
proof (intro allI impI)
  fix s t :: "'a pkt_io_scheme" and x
  assume a: "getEofPacket s = Ret (Inr x, t)"
  have u: "shrinks 0 readU16" unfolding readU16_def by (intro shrinks_rules)
  have c: "shrinks 0 (pbind readU16 (\<lambda>st. pbind checkEof (\<lambda>_. pret (wc, st))))" for wc :: nat
    by (intro shrinks_rules u)
  show "in_left t \<le> in_left s + 0"
  proof (cases "pr_eof s")
    case True
    then show ?thesis using a by (simp add: getEofPacket_def pret_def)
  next
    case False
    then have "pbind readU16 (\<lambda>wc s1. if pr_eof s1 then pret (unat wc, 0) s1
        else pbind readU16 (\<lambda>st. pbind checkEof (\<lambda>_. pret (unat wc, st))) s1) s = Ret (Inr x, t)"
      using a by (simp add: getEofPacket_def)
    from pbind_eq_Inr [THEN iffD1, OF this] obtain wc v where v: "readU16 s = Ret (Inr wc, v)"
        "t = v \<or> pbind readU16 (\<lambda>st. pbind checkEof (\<lambda>_. pret (unat wc, st))) v = Ret (Inr x, t)"
      by (auto simp: pret_def split: if_splits)
    from v(2) have "in_left t \<le> in_left v" using shrinksD [OF c, of _ v x t] by auto
    then show ?thesis using shrinksD [OF u v(1)] by simp
  qed
qed

lemma getResult_less: "getResult ro n s = Ret (Inr g, t) \<Longrightarrow> in_left t < in_left s"
proof (induction ro n s arbitrary: t rule: getResult.induct)
  case (1 ro n s)
  obtain b u where b: "open_packet s = Ret (Inr b, u)"
    using "1.prems" by (subst (asm) getResult.simps) (auto simp: pbind_eq_Inr)
  note less = open_packet_in_left [OF b]
  have ne: "b \<noteq> 255"
  proof
    assume "b = 255"
    then have "getErrorPacket u = Ret (Inr g, t)"
      using "1.prems" b by (subst (asm) getResult.simps) simp
    then show False by (auto simp: getErrorPacket_def pbind_eq_Inr raise_def split: if_splits)
  qed
  show ?case
  proof (cases ro)
    case None
    consider "b = 0" | "b \<noteq> 0" "b < 251" | "b \<noteq> 0" "\<not> b < 251" "b = 251" | "b \<noteq> 0" "\<not> b < 251" "b \<noteq> 251" by blast
    then show ?thesis
    proof cases
      case 1
      then obtain r where "getOkPacket u = Ret (Inr r, t)"
        using "1.prems" b ne None by (subst (asm) getResult.simps) (auto simp: pmap_def pbind_eq_Inr pret_def)
      then show ?thesis using shrinksD [OF shrinks_Ok] less by fastforce
    next
      case 2
      then obtain res v where v: "getResSetHeadPacket u = Ret (Inr res, v)" "getResult (Some res) n v = Ret (Inr g, t)"
        using "1.prems" b ne None by (subst (asm) getResult.simps) (auto simp: pbind_eq_Inr)
      have "in_left v \<le> in_left u + 1" using shrinks_Head v(1) unfolding shrinks_def by blast
      then show ?thesis using "1.IH"(1) [OF b ne None 2 v] less by simp
    next
      case 3
      then have v: "getResult None n u = Ret (Inr g, t)"
        using "1.prems" b ne None by (subst (asm) getResult.simps) simp
      then show ?thesis using "1.IH"(2) [OF b ne None 3 v] less by simp
    next
      case 4
      then have "u = t" using "1.prems" b ne None
        by (subst (asm) getResult.simps) (auto simp: pret_def raise_def split: if_splits)
      then show ?thesis using less by simp
    qed
  next
    case (Some res)
    consider (eof) "b = 254" | (field) "b \<noteq> 254" "0 < b \<and> b < 251 \<and> field_count res < n_fields res"
      | (other) "b \<noteq> 254" "\<not> (0 < b \<and> b < 251 \<and> field_count res < n_fields res)" by blast
    then show ?thesis
    proof cases
      case eof
      then obtain x v where "getEofPacket u = Ret (Inr x, v)" "in_left t = in_left v"
        using "1.prems" b ne Some
        by (subst (asm) getResult.simps) (auto simp: pbind_eq_Inr pret_def modify_def in_left_def)
      then show ?thesis using shrinksD [OF shrinks_Eof] less by fastforce
    next
      case field
      then obtain f v where f: "getFieldPacket u = Ret (Inr f, v)"
        and v: "getResult (Some (res\<lparr>rfields := rfields res @ [f], fc_map := (fc_map res)(Name f \<mapsto> field_count res)\<rparr>)) n v = Ret (Inr g, t)"
        using "1.prems" b ne Some by (subst (asm) getResult.simps) (auto simp: pbind_eq_Inr)
      have "in_left v \<le> in_left u + 1" using shrinks_Field f unfolding shrinks_def by blast
      then show ?thesis using "1.IH"(3) [OF b ne Some field f v] less by simp
    next
      case other
      then obtain vs where "(if r_binary res then getBinRowPacket res else getTextRowPacket res) u = Ret (Inr vs, t)"
        using "1.prems" b ne Some
        by (subst (asm) getResult.simps) (auto simp: pmap_def pbind_eq_Inr pret_def raise_def split: if_splits)
      then have "in_left t \<le> in_left u + 1"
        using shrinksD [OF shrinks_rows(1)] shrinksD [OF shrinks_rows(2)] by (auto split: if_splits)
      then show ?thesis using less by simp
    qed
  qed
qed

lemma catchError_eq_Inr: "catchError m s = Ret (Inr x, t) \<longleftrightarrow> m s = Ret (Inr x, t)"
proof (cases "m s")
  case (Ret p)
  then show ?thesis by (cases p; cases "fst p") (auto simp: catchError_def)
qed (simp_all add: catchError_def)

lemma ScanRow_less:
  assumes "ScanRow row res s = Ret (Inr (Some vs, res'), t)"
  shows "in_left t < in_left s"
proof -
  obtain n g u where u: "getRow res n s = Ret (Inr g, u)"
      and k: "(case g of
              Got_result res' \<Rightarrow>
                pbind (if MoreResults res' then pret () else modify (\<lambda>c. c\<lparr>unreaded_reply := False\<rparr>)) (\<lambda>_.
                  pret (None, res'\<lparr>eor_returned := True\<rparr>))
            | Got_row vs \<Rightarrow> pret (Some vs, res)
            | Got_nil \<Rightarrow> pret (Some [], res)) u = Ret (Inr (Some vs, res'), t)"
    using assms by (auto simp: ScanRow_def pbind_eq_Inr pret_def raise_def split: option.splits if_splits)
  have g: "getRow res n s = Ret (Inr g, t)" "\<forall>r. g \<noteq> Got_result r"
    using u k by (cases g; auto simp: pbind_eq_Inr pret_def)+
  then have "getResult (Some res) n s = Ret (Inr g, t)"
    by (simp add: getRow_def catchError_eq_Inr)
  then show ?thesis using getResult_less by blast
qed

text \<open>\<open>GetRows\<close> returns the rows read so far together with the error, if there is one.\<close>

function GetRows :: "my_result \<Rightarrow> ('a my_conn_scheme, my_val list list \<times> my_err option \<times> my_result) pm" where
  "GetRows res s =
     pbind (attempt (GetRow res)) (\<lambda>r s1.
       case r of
         Inl e \<Rightarrow> pret ([], Some e, res) s1
       | Inr (None, res') \<Rightarrow> pret ([], None, res') s1
       | Inr (Some row, res') \<Rightarrow> pbind (GetRows res') (\<lambda>(rows, e, res''). pret (row # rows, e, res'')) s1) s"
  by pat_completeness auto
termination
  by (relation "measure (in_left \<circ> snd)") (auto simp: attempt_def GetRow_def dest: ScanRow_less)

function last_loop :: "my_val list \<Rightarrow> my_result \<Rightarrow> ('a my_conn_scheme, my_val list option \<times> my_err option \<times> my_result) pm" where
  "last_loop row res s =
     pbind (attempt (GetRow res)) (\<lambda>r s1.
       case r of
         Inl e \<Rightarrow> pret (None, Some e, res) s1
       | Inr (None, res') \<Rightarrow> pret (Some row, None, res') s1
       | Inr (Some row', res') \<Rightarrow> last_loop row' res' s1) s"
  by pat_completeness auto
termination
  by (relation "measure (in_left \<circ> snd \<circ> snd)") (auto simp: attempt_def GetRow_def dest: ScanRow_less)

declare GetRows.simps [simp del] last_loop.simps [simp del]

definition GetLastRow :: "my_result \<Rightarrow> ('a my_conn_scheme, my_val list option \<times> my_err option \<times> my_result) pm" where
  "GetLastRow res =
     pbind (attempt (GetRow res)) (\<lambda>r.
       case r of
         Inl e \<Rightarrow> pret (None, Some e, res)
       | Inr (None, res') \<Rightarrow> pret (None, None, res')
       | Inr (Some row, res') \<Rightarrow> last_loop row res')"

definition End_result :: "my_result \<Rightarrow> ('a my_conn_scheme, my_err option \<times> my_result) pm" where
  "End_result res = pbind (GetLastRow res) (\<lambda>(_, e, res'). pret (e, res'))"

definition GetFirstRow :: "my_result \<Rightarrow> ('a my_conn_scheme, my_val list option \<times> my_err option \<times> my_result) pm" where
  "GetFirstRow res =
     pbind (attempt (GetRow res)) (\<lambda>r.
       case r of
         Inl e \<Rightarrow> pret (None, Some e, res)
       | Inr (None, res') \<Rightarrow> pret (None, None, res')
       | Inr (Some row, res') \<Rightarrow> pbind (End_result res') (\<lambda>(e, res''). pret (Some row, e, res'')))"

definition after_start ::
    "(my_result \<Rightarrow> ('a my_conn_scheme, 'r \<times> my_err option \<times> my_result) pm) \<Rightarrow> 'r \<Rightarrow> ('a my_conn_scheme, my_result) pm \<Rightarrow>
     ('a my_conn_scheme, 'r \<times> my_result option \<times> my_err option) pm" where
  "after_start rest none start =
     pbind (attempt start) (\<lambda>r.
       case r of
         Inl e \<Rightarrow> pret (none, None, Some e)
       | Inr res \<Rightarrow> pbind (rest res) (\<lambda>(rows, e, res'). pret (rows, Some res', e)))"

definition Query :: "byte list \<Rightarrow> ('a my_conn_scheme, my_val list list \<times> my_result option \<times> my_err option) pm" where
  "Query sql = after_start GetRows [] (Start sql)"

definition QueryFirst :: "byte list \<Rightarrow> ('a my_conn_scheme, my_val list option \<times> my_result option \<times> my_err option) pm" where
  "QueryFirst sql = after_start GetFirstRow None (Start sql)"

definition QueryLast :: "byte list \<Rightarrow> ('a my_conn_scheme, my_val list option \<times> my_result option \<times> my_err option) pm" where
  "QueryLast sql = after_start GetLastRow None (Start sql)"

definition nextResult :: "my_result \<Rightarrow> ('a my_conn_scheme, my_result option) pm" where
  "nextResult res = catchError (if MoreResults res then pmap Some getResponse else pret None)"

text \<open>\<open>NextResult\<close> of the API adds only a test that \<open>nextResult\<close> repeats.\<close>

definition NextResult :: "my_result \<Rightarrow> ('a my_conn_scheme, my_result option) pm" where
  "NextResult res = (if \<not> MoreResults res then pret None else nextResult res)"

section \<open>A query and its reply\<close>

fun stream :: "byte \<Rightarrow> byte list list \<Rightarrow> byte list" where
  "stream q [] = []"
| "stream q (p # ps) = frames q p @ stream (q + of_nat (nframes p)) ps"

fun seq_after :: "byte \<Rightarrow> byte list list \<Rightarrow> byte" where
  "seq_after q [] = q"
| "seq_after q (p # ps) = seq_after (q + of_nat (nframes p)) ps"

definition whole :: "byte list \<Rightarrow> bool" where
  "whole p \<longleftrightarrow> length p mod max_pkt \<noteq> 0"

text \<open>A connection on which the packets \<open>ps\<close> come next, and then \<open>rest\<close>.\<close>

definition coming :: "'a my_conn_scheme \<Rightarrow> byte list list \<Rightarrow> byte list \<Rightarrow> byte \<Rightarrow> bool" where
  "coming s ps rest q \<longleftrightarrow> unreads (rd s) = stream (pkt_seq s) ps @ rest \<and> q = seq_after (pkt_seq s) ps"

lemma coming_Cons: "coming s (p # ps) rest q \<Longrightarrow> whole p \<Longrightarrow> next_packet s p (stream (pkt_seq s + of_nat (nframes p)) ps @ rest)"
  by (simp add: coming_def next_packet_def whole_def)

lemma coming_after:
  "coming s (p # ps) rest q \<Longrightarrow> after_packet s p (stream (pkt_seq s + of_nat (nframes p)) ps @ rest) t \<Longrightarrow> coming t ps rest q \<and> moved_rd s t"
  by (simp add: coming_def after_packet_def)

record field_def =
  fd_field :: Field
  fd_fill :: "byte list"
  fd_fill' :: "byte list"

definition fd_bytes :: "field_def \<Rightarrow> byte list" where
  "fd_bytes d = field_bytes (fd_fill d) (fd_fill' d) (fd_field d)"

definition fd_ok :: "field_def \<Rightarrow> bool" where
  "fd_ok d \<longleftrightarrow>
     small_field (fd_field d) \<and> length (fd_fill d) = 3 \<and> length (fd_fill' d) = 2 \<and> 1 \<le> length (Catalog (fd_field d))
     \<and> length (Catalog (fd_field d)) \<le> 250 \<and> whole (fd_bytes d)"

fun add_fields :: "bool \<Rightarrow> my_result \<Rightarrow> Field list \<Rightarrow> my_result" where
  "add_fields full r [] = r"
| "add_fields full r (f # fs) =
     add_fields full (r\<lparr>rfields := rfields r @ [shown_field full f], fc_map := (fc_map r)(Name f \<mapsto> field_count r)\<rparr>) fs"

lemma add_fields_simps [simp]:
  "rfields (add_fields full r fs) = rfields r @ map (shown_field full) fs" "n_fields (add_fields full r fs) = n_fields r"
  "status_only (add_fields full r fs) = status_only r" "r_binary (add_fields full r fs) = r_binary r"
  "eor_returned (add_fields full r fs) = eor_returned r"
  by (induction fs arbitrary: r) simp_all

lemma whole_eof: "whole (eof_bytes wc st)"
  by (simp add: whole_def eof_bytes_def max_pkt_def)

text \<open>The fields of a result, up to the packet that ends them.\<close>

definition with_eof :: "my_result \<Rightarrow> 16 word \<Rightarrow> 16 word \<Rightarrow> my_result" where
  "with_eof r wc st = r\<lparr>warning_count := unat wc, r_status := st\<rparr>"

lemma getResult_fields:
  assumes "\<forall>d \<in> set ds. fd_ok d" and "field_count r + length ds = n_fields r"
    and "coming s (map fd_bytes ds @ eof_bytes wc st # ps) rest q"
  shows "\<exists>t. getResult (Some r) n s =
      Ret (Inr (Got_result (with_eof (add_fields (fullFieldInfo s) r (map fd_field ds)) wc st)), t\<lparr>status := st\<rparr>)
    \<and> coming t ps rest q \<and> moved_rd s t"
  using assms
proof (induction ds arbitrary: r s)
  case Nil
  then have c: "coming s (eof_bytes wc st # ps) rest q" by simp
  obtain t where "getResult (Some r) n s = Ret (Inr (Got_result (r\<lparr>warning_count := unat wc, r_status := st\<rparr>)), t\<lparr>status := st\<rparr>)"
      "after_packet s (eof_bytes wc st) (stream (pkt_seq s + of_nat (nframes (eof_bytes wc st))) ps @ rest) t"
    using getResult_eof [OF coming_Cons [OF c whole_eof]] by blast
  then show ?case using coming_after [OF c] by (auto simp: with_eof_def)
next
  case (Cons d ds)
  then have c: "coming s (fd_bytes d # (map fd_bytes ds @ eof_bytes wc st # ps)) rest q" and d: "fd_ok d" by simp_all
  then have w: "whole (fd_bytes d)" by (simp add: fd_ok_def)
  let ?r = "r\<lparr>rfields := rfields r @ [shown_field (fullFieldInfo s) (fd_field d)], fc_map := (fc_map r)(Name (fd_field d) \<mapsto> field_count r)\<rparr>"
  obtain t where t: "getResult (Some r) n s = getResult (Some ?r) n t"
      "after_packet s (fd_bytes d) (stream (pkt_seq s + of_nat (nframes (fd_bytes d))) (map fd_bytes ds @ eof_bytes wc st # ps) @ rest) t"
    using getResult_field [OF coming_Cons [OF c w, unfolded fd_bytes_def [of d]]] d Cons.prems(2)
    unfolding fd_ok_def fd_bytes_def [of d] by (metis add_Suc_right length_Cons less_add_Suc1)
  note ct = coming_after [OF c t(2)]
  have "fullFieldInfo t = fullFieldInfo s" using t(2) by (rule conjunct1 [OF after_packet_conn])
  then obtain u where "getResult (Some ?r) n t =
      Ret (Inr (Got_result (with_eof (add_fields (fullFieldInfo s) ?r (map fd_field ds)) wc st)), u\<lparr>status := st\<rparr>)"
      "coming u ps rest q" "moved_rd t u"
    using Cons.IH [of ?r t] Cons.prems(1,2) ct by auto
  then show ?case using t(1) ct moved_rd_trans by auto
qed

definition table_reply ::
    "field_def list \<Rightarrow> 16 word \<Rightarrow> 16 word \<Rightarrow> byte list option list list \<Rightarrow> 16 word \<Rightarrow> 16 word \<Rightarrow> byte list list" where
  "table_reply ds wc1 st1 rows wc st =
     head_bytes (length ds) # map fd_bytes ds @ eof_bytes wc1 st1 # map row_bytes rows @ [eof_bytes wc st]"

lemma coming_status: "coming (s\<lparr>status := st\<rparr>) ps rest q \<longleftrightarrow> coming s ps rest q"
  by (simp add: coming_def)

lemma getResponse_head:
  assumes "\<forall>d \<in> set ds. fd_ok d" and "1 \<le> length ds" and "length ds \<le> 250"
    and "coming s (head_bytes (length ds) # map fd_bytes ds @ eof_bytes wc1 st1 # ps) rest q"
  shows "\<exists>t. getResponse s = Ret (Inr (with_eof (add_fields (fullFieldInfo s) (new_result\<lparr>n_fields := length ds\<rparr>) (map fd_field ds)) wc1 st1),
      t\<lparr>status := st1, unreaded_reply := True\<rparr>)
    \<and> coming t ps rest q \<and> moved_rd s t"
proof -
  let ?ps = "map fd_bytes ds @ eof_bytes wc1 st1 # ps"
  have c: "coming s (head_bytes (length ds) # ?ps) rest q" by (rule assms(4))
  have "length (head_bytes (length ds)) \<le> 9" by (simp add: head_bytes_def lenLCB_def)
  moreover have "0 < length (head_bytes (length ds))" by (simp add: head_bytes_def lenLCB_def)
  ultimately have w: "whole (head_bytes (length ds))" by (simp add: whole_def max_pkt_def)
  obtain t where t: "getResult None 0 s = getResult (Some (new_result\<lparr>n_fields := length ds\<rparr>)) 0 t"
      "after_packet s (head_bytes (length ds)) (stream (pkt_seq s + of_nat (nframes (head_bytes (length ds)))) ?ps @ rest) t"
    using getResult_head [OF coming_Cons [OF c w] assms(2,3)] by blast
  note ct = coming_after [OF c t(2)]
  have "fullFieldInfo t = fullFieldInfo s" using t(2) by (rule conjunct1 [OF after_packet_conn])
  moreover have f: "field_count (new_result\<lparr>n_fields := length ds\<rparr>) + length ds = n_fields (new_result\<lparr>n_fields := length ds\<rparr>)"
    by (simp add: new_result_def)
  ultimately obtain u where u: "getResult (Some (new_result\<lparr>n_fields := length ds\<rparr>)) 0 t = Ret (Inr (Got_result
        (with_eof (add_fields (fullFieldInfo s) (new_result\<lparr>n_fields := length ds\<rparr>) (map fd_field ds)) wc1 st1)), u\<lparr>status := st1\<rparr>)"
      "coming u ps rest q" "moved_rd t u"
    using getResult_fields [OF assms(1) f conjunct1 [OF ct], of 0] by auto
  moreover have "moved_rd s u" using ct u(3) moved_rd_trans by blast
  ultimately show ?thesis
    using t(1) by (auto simp: getResponse_def pret_def with_eof_def new_result_def)
qed

lemma getResponse_table:
  assumes "\<forall>d \<in> set ds. fd_ok d" and "1 \<le> length ds" and "length ds \<le> 250"
    and "coming s (table_reply ds wc1 st1 rows wc st) rest q"
  shows "\<exists>t. getResponse s = Ret (Inr (with_eof (add_fields (fullFieldInfo s) (new_result\<lparr>n_fields := length ds\<rparr>) (map fd_field ds)) wc1 st1),
      t\<lparr>status := st1, unreaded_reply := True\<rparr>)
    \<and> coming t (map row_bytes rows @ [eof_bytes wc st]) rest q \<and> moved_rd s t"
  using getResponse_head [OF assms(1-3) assms(4) [unfolded table_reply_def]] .

lemma GetRows_table:
  assumes "\<forall>cs \<in> set rows. cells_ok cs \<and> length cs = n_fields r" and "field_count r = n_fields r"
    and "\<not> r_binary r" and "\<not> status_only r" and "\<not> eor_returned r"
    and "coming s (map row_bytes rows @ [eof_bytes wc st]) rest q"
  shows "\<exists>t. GetRows r s = Ret (Inr (map (map cell_val) rows, None, (with_eof r wc st)\<lparr>eor_returned := True\<rparr>),
        (if MoreResults (with_eof r wc st) then t else t\<lparr>unreaded_reply := False\<rparr>)\<lparr>status := st\<rparr>)
      \<and> coming t [] rest q \<and> moved_rd s t"
  using assms(1,6)
proof (induction rows arbitrary: s)
  case Nil
  then have c: "coming s [eof_bytes wc st] rest q" by simp
  obtain t where t: "getResult (Some r) (field_count r) s = Ret (Inr (Got_result (with_eof r wc st)), t\<lparr>status := st\<rparr>)"
      "after_packet s (eof_bytes wc st) (stream (pkt_seq s + of_nat (nframes (eof_bytes wc st))) [] @ rest) t"
    using getResult_eof [OF coming_Cons [OF c whole_eof]] unfolding with_eof_def by blast
  have "GetRow r s = Ret (Inr (None, (with_eof r wc st)\<lparr>eor_returned := True\<rparr>),
      (if MoreResults (with_eof r wc st) then t else t\<lparr>unreaded_reply := False\<rparr>)\<lparr>status := st\<rparr>)"
    using t(1) assms(4,5)
    by (auto simp: GetRow_def ScanRow_def getRow_def catchError_def pret_def modify_def pbind_def)
  then show ?case
    using coming_after [OF c t(2)] by (subst GetRows.simps) (auto simp: attempt_def pret_def)
next
  case (Cons cs rows)
  then have c: "coming s (row_bytes cs # (map row_bytes rows @ [eof_bytes wc st])) rest q"
    and ok: "cells_ok cs" "length cs = n_fields r" by simp_all
  have w: "whole (row_bytes cs)" using ok by (simp add: cells_ok_def whole_def)
  obtain t where t: "getResult (Some r) (field_count r) s = Ret (Inr (Got_row (map cell_val cs)), t)"
      "after_packet s (row_bytes cs) (stream (pkt_seq s + of_nat (nframes (row_bytes cs))) (map row_bytes rows @ [eof_bytes wc st]) @ rest) t"
    using getResult_row [OF coming_Cons [OF c w] ok assms(2,3)] unfolding assms(2) by blast
  note ct = coming_after [OF c t(2)]
  have g: "GetRow r s = Ret (Inr (Some (map cell_val cs), r), t)"
    using t(1) assms(4,5) by (simp add: GetRow_def ScanRow_def getRow_def catchError_def pret_def pbind_def)
  obtain u where "GetRows r t = Ret (Inr (map (map cell_val) rows, None, (with_eof r wc st)\<lparr>eor_returned := True\<rparr>),
        (if MoreResults (with_eof r wc st) then u else u\<lparr>unreaded_reply := False\<rparr>)\<lparr>status := st\<rparr>)" "coming u [] rest q" "moved_rd t u"
    using Cons.IH [of t] Cons.prems(1) ct by auto
  then show ?case
    using g ct moved_rd_trans by (subst GetRows.simps) (auto simp: attempt_def pret_def)
qed

definition my_idle :: "'a my_conn_scheme \<Rightarrow> bool" where
  "my_idle s \<longleftrightarrow> connected s \<and> \<not> unreaded_reply s \<and> healthy (wr s) \<and> wbuf (wr s) = []"

lemma sendCmdStr_ok:
  assumes "my_idle s"
  shows "\<exists>t. sendCmdStr cmd str s = Ret (Inr (), t) \<and> moved_wr s t \<and> healthy (wr t) \<and> wbuf (wr t) = []
    \<and> wire (wr t) = wire (wr s) @ frames 0 (cmd # str) \<and> pkt_seq t = of_nat (nframes (cmd # str))"
proof -
  let ?s = "s\<lparr>pkt_seq := 0\<rparr>"
  have e: "emits (pbind (writeByte cmd) (\<lambda>_. pw_write str)) (cmd # str)" by (rule emits_Cons [OF pw_write_emits])
  have h: "healthy (wr ?s)" using assms by (simp add: my_idle_def)
  obtain t where t: "pbind (newPktWriter (length (cmd # str))) (\<lambda>_. pbind (writeByte cmd) (\<lambda>_. pw_write str)) ?s = Ret (Inr (), t)"
      "moved_wr ?s t" "healthy (wr t)" "wire (wr t) = sent (wr s) @ frames 0 (cmd # str)" "wbuf (wr t) = []"
      "pkt_seq t = of_nat (nframes (cmd # str))"
    using emits_packet [OF e _ h] by auto
  moreover have "moved_wr s ?s"
    using moved_wrI [where s = s and w = "wr s" and q = 0 and m = "w_remain s" and k = "w_to_write s" and l = "w_last s" and b = "w_buf s"]
    by simp
  ultimately show ?thesis
    using assms moved_wr_trans by (auto simp: sendCmdStr_def reset_seq_def my_idle_def sent_def)
qed

lemma moved_wr_conn:
  "moved_wr s t \<Longrightarrow> rd t = rd s \<and> connected t = connected s \<and> unreaded_reply t = unreaded_reply s \<and> status t = status s
     \<and> fullFieldInfo t = fullFieldInfo s \<and> narrowTypeSet t = narrowTypeSet s \<and> dbname t = dbname s"
  by (auto simp: moved_wr_def)

lemma moved_rd_conn:
  "moved_rd s t \<Longrightarrow> wr t = wr s \<and> connected t = connected s \<and> unreaded_reply t = unreaded_reply s \<and> status t = status s
     \<and> fullFieldInfo t = fullFieldInfo s \<and> narrowTypeSet t = narrowTypeSet s \<and> dbname t = dbname s"
  by (auto simp: moved_rd_def)

lemma Query_table:
  assumes "my_idle s" and "\<forall>d \<in> set ds. fd_ok d" and "1 \<le> length ds" and "length ds \<le> 250"
    and "\<forall>cs \<in> set rows. cells_ok cs \<and> length cs = length ds"
    and "unreads (rd s) = stream (of_nat (nframes (COM_QUERY # sql))) (table_reply ds wc1 st1 rows wc st) @ rest"
  shows "\<exists>res t. Query sql s = Ret (Inr (map (map cell_val) rows, Some res, None), t)
    \<and> wire (wr t) = wire (wr s) @ frames 0 (COM_QUERY # sql) \<and> unreads (rd t) = rest
    \<and> rfields res = map (shown_field (fullFieldInfo s) \<circ> fd_field) ds \<and> r_status res = st \<and> status t = st
    \<and> (if and st SERVER_MORE_RESULTS_EXISTS = 0 then my_idle t else unreaded_reply t)"
proof -
  obtain s1 where s1: "sendCmdStr COM_QUERY sql s = Ret (Inr (), s1)" "moved_wr s s1" "healthy (wr s1)" "wbuf (wr s1) = []"
      "wire (wr s1) = wire (wr s) @ frames 0 (COM_QUERY # sql)" "pkt_seq s1 = of_nat (nframes (COM_QUERY # sql))"
    using sendCmdStr_ok [OF assms(1)] by blast
  note m1 = moved_wr_conn [OF s1(2)]
  let ?q = "seq_after (pkt_seq s1) (table_reply ds wc1 st1 rows wc st)"
  have c1: "coming s1 (table_reply ds wc1 st1 rows wc st) rest ?q"
    using assms(6) s1(6) m1 by (simp add: coming_def)
  define r where "r = with_eof (add_fields (fullFieldInfo s) (new_result\<lparr>n_fields := length ds\<rparr>) (map fd_field ds)) wc1 st1"
  obtain t1 where t1: "getResponse s1 = Ret (Inr r, t1\<lparr>status := st1, unreaded_reply := True\<rparr>)"
      "coming t1 (map row_bytes rows @ [eof_bytes wc st]) rest ?q" "moved_rd s1 t1"
    using getResponse_table [OF assms(2-4) c1] m1 unfolding r_def by auto
  define s2 where "s2 = t1\<lparr>status := st1, unreaded_reply := True\<rparr>"
  have r: "field_count r = n_fields r" "\<not> r_binary r" "\<not> status_only r" "\<not> eor_returned r" "n_fields r = length ds"
    by (simp_all add: r_def with_eof_def new_result_def)
  have c2: "coming s2 (map row_bytes rows @ [eof_bytes wc st]) rest ?q"
    using t1(2) by (simp add: s2_def coming_def)
  obtain t2 where t2: "GetRows r s2 = Ret (Inr (map (map cell_val) rows, None, (with_eof r wc st)\<lparr>eor_returned := True\<rparr>),
        (if MoreResults (with_eof r wc st) then t2 else t2\<lparr>unreaded_reply := False\<rparr>)\<lparr>status := st\<rparr>)" "coming t2 [] rest ?q" "moved_rd s2 t2"
    using GetRows_table [OF _ r(1-4) c2] assms(5) r(5) by auto
  have "Start sql s = Ret (Inr r, s2)"
    using assms(1) s1(1) t1(1) by (simp add: Start_def on_idle_def catchError_eq_Inr my_idle_def s2_def)
  then have "Query sql s = Ret (Inr (map (map cell_val) rows, Some ((with_eof r wc st)\<lparr>eor_returned := True\<rparr>), None),
      (if MoreResults (with_eof r wc st) then t2 else t2\<lparr>unreaded_reply := False\<rparr>)\<lparr>status := st\<rparr>)"
    using t2(1) by (simp add: Query_def after_start_def attempt_def pret_def)
  moreover have "unreaded_reply t2" "connected t2" "wr t2 = wr s1" "unreads (rd t2) = rest"
    using moved_rd_conn [OF t2(3)] moved_rd_conn [OF t1(3)] m1 assms(1) t2(2) by (auto simp: s2_def my_idle_def coming_def)
  moreover have "MoreResults (with_eof r wc st) \<longleftrightarrow> and st SERVER_MORE_RESULTS_EXISTS \<noteq> 0"
    by (simp add: MoreResults_def with_eof_def)
  ultimately show ?thesis
    using s1(3-5) by (auto simp: my_idle_def with_eof_def r_def new_result_def comp_def)
qed


definition sample_field :: field_def where
  "sample_field = \<lparr>fd_field = empty_field\<lparr>Catalog := ''def'', Name := ''n'', FType := 253\<rparr>, fd_fill = [12, 33, 0], fd_fill' = [0, 0]\<rparr>"

definition conn_with :: "byte list list \<Rightarrow> my_conn" where
  "conn_with ps = \<lparr>rd = \<lparr>pieces = ps, rd_err = IO_EOF, last_byte = None\<rparr>,
     wr = \<lparr>wbuf = [], wire = [], wr_err = None, net_fail = None\<rparr>, pkt_seq = 0, remain = 0, last_pkt = False,
     w_remain = 0, w_to_write = 0, w_last = False, w_buf = [],
     connected = True, user = [], passwd = [], dbname = [],
     info = \<lparr>prot_ver = 10, serv_ver = [], thr_id = 1, scramble = replicate 20 0, caps = 0xffff, lang = 33\<rparr>,
     unreaded_reply = False, init_cmds = [], stmts = [], stmt_map = [], status = 0, max_pkt_size = 16777215,
     narrowTypeSet = False, fullFieldInfo = True\<rparr>"

definition sample_reply :: "byte list list" where
  "sample_reply = table_reply [sample_field] 0 2 [[None], [Some [49, 50]]] 0 2"

lemma sample_field_ok: "fd_ok sample_field"
  by (simp add: fd_ok_def sample_field_def small_field_def empty_field_def whole_def fd_bytes_def field_bytes_def lenBin_def lenLCB_def
      max_pkt_def)


section \<open>Errors while rows are read\<close>

text \<open>Reading leaves the connection's own fields alone, on errors as well: its state, its statements,
  its registered commands, and what other layers add to it.\<close>

definition held :: "'a my_conn_scheme \<Rightarrow> bool \<times> bool \<times> Stmt list \<times> (32 word \<times> nat) list \<times> byte list list \<times> 'a" where
  "held c = (unreaded_reply c, connected c, stmts c, stmt_map c, init_cmds c, my_conn.more c)"

lemma held_simps [simp]:
  "held (c\<lparr>rd := r\<rparr>) = held c" "held (c\<lparr>wr := w\<rparr>) = held c" "held (c\<lparr>pkt_seq := q\<rparr>) = held c" "held (c\<lparr>remain := m\<rparr>) = held c"
  "held (c\<lparr>last_pkt := l\<rparr>) = held c" "held (c\<lparr>w_remain := k\<rparr>) = held c" "held (c\<lparr>w_to_write := k\<rparr>) = held c" "held (c\<lparr>w_last := l\<rparr>) = held c"
  "held (c\<lparr>w_buf := b\<rparr>) = held c" "held (c\<lparr>status := st\<rparr>) = held c" "held (c\<lparr>info := i\<rparr>) = held c" "held (c\<lparr>dbname := d\<rparr>) = held c"
  by (simp_all add: held_def)

definition holding :: "('a my_conn_scheme, 'b) pm \<Rightarrow> bool" where
  "holding m \<longleftrightarrow> (\<forall>s r t. m s = Ret (r, t) \<longrightarrow> held t = held s)"

named_theorems holding_rules \<open>computations that leave the state of the connection alone\<close>

lemma holdingD: "holding m \<Longrightarrow> m s = Ret (r, t) \<Longrightarrow> held t = held s"
  unfolding holding_def by blast

lemma pbind_eq_Ret:
  "pbind m g s = Ret (r, t) \<longleftrightarrow>
     (\<exists>e. m s = Ret (Inl e, t) \<and> r = Inl e) \<or> (\<exists>x u. m s = Ret (Inr x, u) \<and> g x u = Ret (r, t))"
  by (cases "m s") (auto simp: pbind_def split: sum.splits)

lemma holding_bind [holding_rules]: "holding m \<Longrightarrow> (\<And>x. holding (g x)) \<Longrightarrow> holding (pbind m g)"
  unfolding holding_def pbind_eq_Ret by metis

lemma holding_basic [holding_rules]:
  "holding (pret x)" "holding (raise e)" "holding (crash p)" "holding (gets h)" "holding checkEof" "holding (on_rd g)"
  "holding newPktReader" "holding (modify (\<lambda>s. s\<lparr>remain := m\<rparr>))"
  by (auto simp: holding_def pret_def raise_def crash_def gets_def checkEof_def on_rd_def newPktReader_def modify_def split: prod.splits)

lemma holding_if [holding_rules]: "holding m \<Longrightarrow> holding m' \<Longrightarrow> holding (if b then m else m')"
  by simp

lemma holding_case_prod [holding_rules]: "(\<And>a b. holding (g a b)) \<Longrightarrow> holding (case_prod g p)"
  by (cases p) simp

lemma holding_header_loop: "header_loop k s = Ret (r, t) \<Longrightarrow> held t = held s"
proof (induction k s arbitrary: r t rule: header_loop.induct)
  case (1 k s)
  show ?case
  proof (cases "k = 0")
    case True
    then show ?thesis using "1.prems" by (simp add: header_loop.simps pret_def)
  next
    case False
    then show ?thesis
      using "1.prems" "1.IH" [OF False] holdingD [OF holding_basic(6)]
      by (subst (asm) header_loop.simps) (fastforce simp: pbind_eq_Ret pret_def)
  qed
qed

lemma holding_header [holding_rules]: "holding (header_loop k)" "holding readHeader" "holding next_header"
proof -
  show h: "holding (header_loop k)" for k unfolding holding_def using holding_header_loop by blast
  show r: "holding readHeader"
    unfolding readHeader_def by (intro holding_rules h) (auto simp: holding_def modify_def)
  show "holding next_header"
    using holdingD [OF r] by (auto simp: holding_def next_header_def raise_def pret_def split: if_splits)
qed

lemma holding_readFull': "readFull n s = Ret (r, t) \<Longrightarrow> held t = held s"
proof (induction n s arbitrary: r t rule: readFull.induct)
  case (1 n s)
  show ?case
  proof (cases "n = 0")
    case True
    then show ?thesis using "1.prems" by (simp add: readFull.simps pret_def)
  next
    case False
    from "1.prems" False consider (e) e where "next_header s = Ret (Inl e, t)"
      | (f) u e where "next_header s = Ret (Inr (), u)" "on_rd (rd_Read (min n (nat (remain u)))) u = Ret (Inl e, t)"
      | (g) u a v r' where "next_header s = Ret (Inr (), u)" "\<not> remain u < 0" "on_rd (rd_Read (min n (nat (remain u)))) u = Ret (Inr a, v)"
          "readFull (n - length a) (v\<lparr>remain := remain v - int (length a)\<rparr>) = Ret (r', t)"
      by (subst (asm) readFull.simps) (auto simp: pbind_eq_Ret pret_def split: if_splits)
    then show ?thesis
    proof cases
      case e
      then show ?thesis using holdingD [OF holding_header(3)] by blast
    next
      case f
      then show ?thesis using holdingD [OF holding_header(3)] holdingD [OF holding_basic(6)] by metis
    next
      case g
      then show ?thesis
        using "1.IH" [OF False g] holdingD [OF holding_header(3) g(1)] holdingD [OF holding_basic(6) g(3)] by simp
    qed
  qed
qed

lemma holding_readAll': "readAll s = Ret (r, t) \<Longrightarrow> held t = held s"
proof (induction s arbitrary: r t rule: readAll.induct)
  case (1 s)
  show ?case
  proof (cases "remain s = 0 \<and> last_pkt s")
    case True
    then show ?thesis using "1.prems" by (simp add: readAll.simps pret_def)
  next
    case False
    from "1.prems" False consider (e) e where "next_header s = Ret (Inl e, t)"
      | (f) u e where "next_header s = Ret (Inr (), u)" "on_rd (rd_Read (nat (remain u))) u = Ret (Inl e, t)"
      | (g) u a v r' where "next_header s = Ret (Inr (), u)" "\<not> remain u < 0" "on_rd (rd_Read (nat (remain u))) u = Ret (Inr a, v)"
          "readAll (v\<lparr>remain := remain v - int (length a)\<rparr>) = Ret (r', t)"
      by (subst (asm) readAll.simps) (auto simp: pbind_eq_Ret pret_def split: if_splits)
    then show ?thesis
    proof cases
      case e
      then show ?thesis using holdingD [OF holding_header(3)] by blast
    next
      case f
      then show ?thesis using holdingD [OF holding_header(3)] holdingD [OF holding_basic(6)] by metis
    next
      case g
      then show ?thesis
        using "1.IH" [OF False g] holdingD [OF holding_header(3) g(1)] holdingD [OF holding_basic(6) g(3)] by simp
    qed
  qed
qed

lemma holding_skipN': "skipN n s = Ret (r, t) \<Longrightarrow> held t = held s"
proof (induction n s arbitrary: r t rule: skipN.induct)
  case (1 n s)
  show ?case
  proof (cases "n \<le> 0")
    case True
    then show ?thesis using "1.prems" by (simp add: skipN.simps pret_def)
  next
    case False
    from "1.prems" False consider (e) e where "next_header s = Ret (Inl e, t)"
      | (f) u e where "next_header s = Ret (Inr (), u)" "on_rd (rd_Discard (nat (min n (remain u)))) u = Ret (Inl e, t)"
      | (g) u v where "next_header s = Ret (Inr (), u)" "\<not> remain u < 0" "on_rd (rd_Discard (nat (min n (remain u)))) u = Ret (Inr (), v)"
          "skipN (n - min n (remain u)) (v\<lparr>remain := remain v - min n (remain u)\<rparr>) = Ret (r, t)"
      by (subst (asm) skipN.simps) (auto simp: pbind_eq_Ret split: if_splits)
    then show ?thesis
    proof cases
      case e
      then show ?thesis using holdingD [OF holding_header(3)] by blast
    next
      case f
      then show ?thesis using holdingD [OF holding_header(3)] holdingD [OF holding_basic(6)] by metis
    next
      case g
      then show ?thesis
        using "1.IH" [OF False g] holdingD [OF holding_header(3) g(1)] holdingD [OF holding_basic(6) g(3)] by simp
    qed
  qed
qed

lemma holding_loops [holding_rules]: "holding (readFull n)" "holding readAll" "holding (skipN i)"
  unfolding holding_def using holding_readFull' holding_readAll' holding_skipN' by blast+

lemma holding_bytes [holding_rules]: "holding readByte" "holding unreadByte" "holding open_packet"
proof -
  show b: "holding readByte"
    unfolding readByte_def by (intro holding_rules) (auto simp: holding_def modify_def)
  show "holding unreadByte"
    unfolding unreadByte_def by (intro holding_rules) (auto simp: holding_def modify_def)
  show "holding open_packet" unfolding open_packet_def by (intro holding_rules b)
qed

lemma holding_ints [holding_rules]: "holding readU16" "holding readU24" "holding readU32" "holding readU64"
  unfolding readU16_def readU24_def readU32_def readU64_def by (intro holding_rules)+

lemma holding_lcb [holding_rules]: "holding readNullLCB" "holding readLCB" "holding readNullBin" "holding readBin" "holding skipBin" "holding readStr"
  unfolding readNullLCB_def readLCB_def readNullBin_def readBin_def skipBin_def readStr_def by (intro holding_rules)+

lemma holding_values [holding_rules]:
  "holding readTime" "holding readDate" "holding readDuration" "holding (readValue ty u)" "holding (readValueNarrow ty u)"
  unfolding readTime_def readDate_def readDuration_def readValue_def readValueNarrow_def pmap_def by (intro holding_rules)+

lemma holding_columns [holding_rules]: "holding (text_columns n)" "holding (bin_columns nr bm ii fs)"
  by (induction n; auto intro!: holding_rules) (induction fs arbitrary: ii; auto intro!: holding_rules)

lemma holding_packets [holding_rules]:
  "holding getErrorPacket" "holding getOkPacket" "holding getResSetHeadPacket" "holding getFieldPacket"
  "holding (getTextRowPacket res)" "holding (getBinRowPacket res)"
proof -
  show "holding getErrorPacket" unfolding getErrorPacket_def by (intro holding_rules)
  show "holding getOkPacket" unfolding getOkPacket_def by (intro holding_rules) (auto simp: holding_def modify_def)
  show "holding getResSetHeadPacket" unfolding getResSetHeadPacket_def by (intro holding_rules)
  have "holding (field_body full)" for full unfolding field_body_def Let_def by (intro holding_rules)
  then show "holding getFieldPacket" unfolding getFieldPacket_def by (intro holding_rules)
  show "holding (getTextRowPacket res)" unfolding getTextRowPacket_def by (intro holding_rules)
  show "holding (getBinRowPacket res)" unfolding getBinRowPacket_def by (intro holding_rules)
qed

lemma holding_getEofPacket [holding_rules]: "holding (getEofPacket :: ('a my_conn_scheme, nat \<times> 16 word) pm)"
proof -
  have k: "holding (\<lambda>s1 :: 'a my_conn_scheme. if pr_eof s1 then pret x s1 else m s1)" if "holding m"
    for x :: "nat \<times> 16 word" and m
    using that by (auto simp: holding_def pret_def)
  have e: "holding (pbind readU16 (\<lambda>st. pbind checkEof (\<lambda>_. pret (unat wc, st))))" for wc :: "16 word" by (intro holding_rules)
  show ?thesis
    unfolding getEofPacket_def by (intro k holding_rules e)
qed

lemma holding_getResult': "getResult ro n s = Ret (r, t) \<Longrightarrow> held t = held s"
proof (induction ro n s arbitrary: r t rule: getResult.induct)
  case (1 ro n s)
  show ?case
  proof (cases "\<exists>e. open_packet s = Ret (Inl e, t)")
    case True
    then show ?thesis using holdingD [OF holding_bytes(3)] by blast
  next
    case False
    then obtain b u where b: "open_packet s = Ret (Inr b, u)"
      using "1.prems" by (subst (asm) getResult.simps) (auto simp: pbind_eq_Ret)
    note u = holdingD [OF holding_bytes(3) b]
    show ?thesis
    proof (cases "b = 255")
      case True
      then have "getErrorPacket u = Ret (r, t)"
        using "1.prems" b by (subst (asm) getResult.simps) simp
      then show ?thesis using u holdingD [OF holding_packets(1)] by metis
    next
      case ne: False
      show ?thesis
      proof (cases ro)
        case None
        consider "b = 0" | "b \<noteq> 0" "b < 251" | "b \<noteq> 0" "\<not> b < 251" "b = 251" | "b \<noteq> 0" "\<not> b < 251" "b \<noteq> 251" by blast
        then show ?thesis
        proof cases
          case 1
          then have "pmap Got_result getOkPacket u = Ret (r, t)"
            using "1.prems" b ne None by (subst (asm) getResult.simps) simp
          moreover have "holding (pmap Got_result getOkPacket)" unfolding pmap_def by (intro holding_rules)
          ultimately show ?thesis using u holdingD by metis
        next
          case 2
          then have "pbind getResSetHeadPacket (\<lambda>res. getResult (Some res) n) u = Ret (r, t)"
            using "1.prems" b ne None by (subst (asm) getResult.simps) simp
          then show ?thesis
            using "1.IH"(1) [OF b ne None 2] holdingD [OF holding_packets(3)] u unfolding pbind_eq_Ret by metis
        next
          case 3
          then have "getResult None n u = Ret (r, t)"
            using "1.prems" b ne None by (subst (asm) getResult.simps) simp
          then show ?thesis using "1.IH"(2) [OF b ne None 3] u by metis
        next
          case 4
          then show ?thesis using "1.prems" b ne None u
            by (subst (asm) getResult.simps) (auto simp: pret_def raise_def split: if_splits)
        qed
      next
        case (Some res)
        consider (eof) "b = 254" | (field) "b \<noteq> 254" "0 < b \<and> b < 251 \<and> field_count res < n_fields res"
          | (other) "b \<noteq> 254" "\<not> (0 < b \<and> b < 251 \<and> field_count res < n_fields res)" by blast
        then show ?thesis
        proof cases
          case eof
          define m where "m = pbind getEofPacket (\<lambda>(wc, st).
             pbind (modify (\<lambda>c :: 'a my_conn_scheme. c\<lparr>status := st\<rparr>)) (\<lambda>_.
               pret (Got_result (res\<lparr>warning_count := wc, r_status := st\<rparr>))))"
          have "holding m" unfolding m_def by (intro holding_rules) (auto simp: holding_def modify_def)
          moreover have "m u = Ret (r, t)"
            using "1.prems" b ne Some eof by (subst (asm) getResult.simps) (simp add: m_def)
          ultimately show ?thesis using u holdingD by metis
        next
          case field
          then have "pbind getFieldPacket (\<lambda>f. getResult (Some (res\<lparr>rfields := rfields res @ [f],
              fc_map := (fc_map res)(Name f \<mapsto> field_count res)\<rparr>)) n) u = Ret (r, t)"
            using "1.prems" b ne Some by (subst (asm) getResult.simps) simp
          then show ?thesis
            using "1.IH"(3) [OF b ne Some field] holdingD [OF holding_packets(4)] u unfolding pbind_eq_Ret by metis
        next
          case other
          define m :: "('a my_conn_scheme, got) pm" where "m = (if b < 254 \<and> field_count res = n_fields res then
             if n \<noteq> field_count res then raise ErrRowLength
             else pmap Got_row (if r_binary res then getBinRowPacket res else getTextRowPacket res) else raise ErrUnkResultPkt)"
          have "holding m" unfolding m_def pmap_def by (intro holding_rules)
          moreover have "m u = Ret (r, t)"
            using "1.prems" b ne Some other by (subst (asm) getResult.simps) (auto simp: m_def)
          ultimately show ?thesis using u holdingD by metis
        qed
      qed
    qed
  qed
qed

lemma holding_getRow: "holding (getRow res n)"
proof -
  have "holding (getResult (Some res) n)" unfolding holding_def using holding_getResult' by blast
  moreover have "holding (catchError m)" if "holding m" for m :: "('a my_conn_scheme, got) pm"
    using that by (auto simp: holding_def catchError_def)
  ultimately show ?thesis by (simp add: getRow_def)
qed

lemma ScanRow_error:
  assumes "ScanRow (Some n) res s = Ret (Inl e, t)"
  shows "held t = held s"
proof -
  define k where "k = (\<lambda>g. case g of
              Got_result res' \<Rightarrow>
                pbind (if MoreResults res' then pret () else modify (\<lambda>c :: 'a my_conn_scheme. c\<lparr>unreaded_reply := False\<rparr>)) (\<lambda>_.
                  pret (None, res'\<lparr>eor_returned := True\<rparr>))
            | Got_row vs \<Rightarrow> pret (Some vs, res)
            | Got_nil \<Rightarrow> pret (Some [], res))"
  have k: "k g u \<noteq> Ret (Inl e, t)" for g u
    by (cases g) (auto simp: k_def pret_def modify_def pbind_def split: if_splits)
  have "t = s \<or> pbind (getRow res n) k s = Ret (Inl e, t)"
    using assms by (auto simp: ScanRow_def raise_def pret_def k_def split: if_splits)
  then show ?thesis using holdingD [OF holding_getRow] k unfolding pbind_eq_Ret by metis
qed

lemma ScanRow_row:
  assumes "ScanRow (Some n) res s = Ret (Inr (Some vs, res'), t)"
  shows "held t = held s"
proof -
  obtain g u where g: "getRow res n s = Ret (Inr g, u)"
    and k: "(case g of
              Got_result res' \<Rightarrow>
                pbind (if MoreResults res' then pret () else modify (\<lambda>c. c\<lparr>unreaded_reply := False\<rparr>)) (\<lambda>_.
                  pret (None, res'\<lparr>eor_returned := True\<rparr>))
            | Got_row vs \<Rightarrow> pret (Some vs, res)
            | Got_nil \<Rightarrow> pret (Some [], res)) u = Ret (Inr (Some vs, res'), t)"
    using assms by (auto simp: ScanRow_def pbind_eq_Inr pret_def raise_def split: option.splits if_splits)
  have "u = t" using k by (cases g) (auto simp: pbind_eq_Inr pret_def)
  then show ?thesis using holdingD [OF holding_getRow g] by blast
qed

lemma GetRows_error:
  "GetRows res s = Ret (Inr (rows, Some e, res'), t) \<Longrightarrow> held t = held s"
proof (induction res s arbitrary: rows res' t rule: GetRows.induct)
  case (1 res s)
  obtain r u where r: "GetRow res s = Ret (r, u)"
      and k: "(case r of
         Inl e \<Rightarrow> pret ([], Some e, res) u
       | Inr (None, res') \<Rightarrow> pret ([], None, res') u
       | Inr (Some row, res') \<Rightarrow> pbind (GetRows res') (\<lambda>(rows, e, res''). pret (row # rows, e, res'')) u)
        = Ret (Inr (rows, Some e, res'), t)"
    using "1.prems" by (subst (asm) GetRows.simps) (auto simp: pbind_eq_Inr attempt_def)
  consider (error) "GetRow res s = Ret (Inl e, t)"
    | (row) vs res1 rows' where "GetRow res s = Ret (Inr (Some vs, res1), u)" "GetRows res1 u = Ret (Inr (rows', Some e, res'), t)"
    using k r by (auto simp: pbind_eq_Inr pret_def split: sum.splits option.splits prod.splits)
  then show ?case
  proof cases
    case error
    then show ?thesis using ScanRow_error by (simp add: GetRow_def)
  next
    case row
    have "attempt (GetRow res) s = Ret (Inr (Inr (Some vs, res1)), u)" using row(1) by (simp add: attempt_def)
    then show ?thesis
      using "1.IH" [OF _ refl refl refl row(2)] ScanRow_row [OF row(1) [unfolded GetRow_def]] by simp
  qed
qed

section \<open>Leaving\<close>

text \<open>\<open>closeConn\<close>: \<open>COM_QUIT\<close> is sent, and whatever becomes of it the socket is closed; \<open>close_err\<close> is what
  the socket's \<open>Close\<close> reports.  The deferred function overwrites \<open>err\<close> before \<open>catchError\<close> runs, which
  then still finds the panic of \<open>sendCmd\<close>, if there was one.\<close>

definition closeConn :: "my_err option \<Rightarrow> ('a my_conn_scheme, unit) pm" where
  "closeConn close_err =
     pbind (attempt (catchError (sendCmd COM_QUIT))) (\<lambda>r. pbind (modify (\<lambda>c. c\<lparr>connected := False\<rparr>)) (\<lambda>_.
       case r of
         Inl e \<Rightarrow> raise e
       | Inr _ \<Rightarrow> (case close_err of None \<Rightarrow> pret () | Some e \<Rightarrow> raise e)))"

definition Close :: "my_err option \<Rightarrow> ('a my_conn_scheme, unit) pm" where
  "Close close_err c =
     (if \<not> connected c then raise ErrNotConn c
      else if unreaded_reply c then raise ErrUnreadedReply c
      else closeConn close_err c)"

lemma on_idle_unread: "connected c \<Longrightarrow> unreaded_reply c \<Longrightarrow> on_idle m c = Ret (Inl ErrUnreadedReply, c)"
  by (simp add: on_idle_def catchError_def raise_def caught_def my_errs)

text \<open>
  When reading the rows of a reply ends with an error other than the end of the rows (a packet
  out of sequence, a malformed packet, an error packet of the server, a network error), the reply
  counts as unread for ever: every further command fails with "reply is not completely read", and so does \<open>Close\<close>,
  which therefore never closes the socket.
\<close>

lemma failed_read_blocks_connection:
  assumes "GetRows res s = Ret (Inr (rows, Some e, res'), t)" "connected s" "unreaded_reply s"
  shows "Start sql t = Ret (Inl ErrUnreadedReply, t) \<and> Use db t = Ret (Inl ErrUnreadedReply, t)
    \<and> Ping t = Ret (Inl ErrUnreadedReply, t) \<and> Close ce t = Ret (Inl ErrUnreadedReply, t)"
proof -
  have t: "connected t" "unreaded_reply t" using GetRows_error [OF assms(1)] assms(2,3) by (auto simp: held_def)
  then show ?thesis by (simp add: Start_def Use_def Ping_def on_idle_unread Close_def raise_def)
qed

text \<open>A reply of one column, cut off after the end of its field list.\<close>

end
