(* ===== verification/My_Stmt.thy ===== *)
theory My_Stmt
  imports My_Client "HOL-Library.AList"
begin

text \<open>
  Prepared statements of the MySQL driver: binding parameters (\<open>native/binding.go\<close>), writing them
  (\<open>native/paramvalue.go\<close>), preparing and executing (\<open>native/prepared.go\<close> and the statement functions of
  \<open>native/mysql.go\<close>).

  The statements a program holds are objects that it shares with the connection: they are the list
  \<open>stmts\<close> of the connection, a handle is an index of it, and \<open>stmt_map\<close> maps the server's statement
  identifiers to handles.
\<close>

section \<open>Binding\<close>

text \<open>
  A parameter is a Go value behind an interface, which \<open>bindValue\<close> inspects by reflection: its type,
  and its value.  \<open>None\<close> is an untyped \<open>nil\<close> or a nil pointer.  The value \<open>P_nil\<close> of a type is a pointer to a nil
  pointer to that type (for \<open>mysql.Raw\<close>: a nil \<open>Val\<close>).  When the program has bound a pointer, the value is the one that is behind it
  when the statement is executed.
\<close>

datatype go_type =
    T_string | T_bool
  | T_int | T_int8 | T_int16 | T_int32 | T_int64 | T_duration
  | T_uint | T_uint8 | T_uint16 | T_uint32 | T_uint64
  | T_float32 | T_float64
  | T_blob | T_bytes | T_slice
  | T_time | T_date | T_timestamp | T_raw "16 word" | T_struct
  | T_unsupported

definition INT_TYPE :: "16 word" where "INT_TYPE = ucast MYSQL_TYPE_LONGLONG"
definition SIZE_OF_INT :: int where "SIZE_OF_INT = 8"

definition bound :: "16 word \<Rightarrow> int \<Rightarrow> param_val \<Rightarrow> my_err + paramValue" where
  "bound ty len v = Inr \<lparr>p_typ = ty, p_val = v, p_raw = False, p_length = len\<rparr>"

definition unsigned_type :: "byte \<Rightarrow> 16 word" where
  "unsigned_type ty = or (ucast ty) MYSQL_UNSIGNED_MASK"

fun bindValue :: "(go_type \<times> param_val) option \<Rightarrow> my_err + paramValue" where
  "bindValue None = bound (ucast MYSQL_TYPE_NULL) 0 P_nil"
| "bindValue (Some (T_string, v)) = bound (ucast MYSQL_TYPE_STRING) (- 1) v"
| "bindValue (Some (T_int, v)) = bound INT_TYPE SIZE_OF_INT v"
| "bindValue (Some (T_int8, v)) = bound (ucast MYSQL_TYPE_TINY) 1 v"
| "bindValue (Some (T_int16, v)) = bound (ucast MYSQL_TYPE_SHORT) 2 v"
| "bindValue (Some (T_int32, v)) = bound (ucast MYSQL_TYPE_LONG) 4 v"
| "bindValue (Some (T_duration, v)) = bound (ucast MYSQL_TYPE_TIME) (- 1) v"
| "bindValue (Some (T_int64, v)) = bound (ucast MYSQL_TYPE_LONGLONG) 8 v"
| "bindValue (Some (T_uint, v)) = bound (or INT_TYPE MYSQL_UNSIGNED_MASK) SIZE_OF_INT v"
| "bindValue (Some (T_uint8, v)) = bound (unsigned_type MYSQL_TYPE_TINY) 1 v"
| "bindValue (Some (T_uint16, v)) = bound (unsigned_type MYSQL_TYPE_SHORT) 2 v"
| "bindValue (Some (T_uint32, v)) = bound (unsigned_type MYSQL_TYPE_LONG) 4 v"
| "bindValue (Some (T_uint64, v)) = bound (unsigned_type MYSQL_TYPE_LONGLONG) 8 v"
| "bindValue (Some (T_float32, v)) = bound (ucast MYSQL_TYPE_FLOAT) 4 v"
| "bindValue (Some (T_float64, v)) = bound (ucast MYSQL_TYPE_DOUBLE) 8 v"
| "bindValue (Some (T_blob, v)) = bound (ucast MYSQL_TYPE_BLOB) (- 1) v"
| "bindValue (Some (T_bytes, v)) = bound (ucast MYSQL_TYPE_VAR_STRING) (- 1) v"
| "bindValue (Some (T_time, v)) = bound (ucast MYSQL_TYPE_DATETIME) (- 1) v"
| "bindValue (Some (T_date, v)) = bound (ucast MYSQL_TYPE_DATE) (- 1) v"
| "bindValue (Some (T_timestamp, v)) = bound (ucast MYSQL_TYPE_TIMESTAMP) (- 1) v"
| "bindValue (Some ((T_raw rt), v)) = Inr \<lparr>p_typ = rt, p_val = v, p_raw = True, p_length = - 1\<rparr>"
| "bindValue (Some (T_bool, v)) = bound (ucast MYSQL_TYPE_TINY) (- 1) v"
| "bindValue (Some (T_slice, v)) = Inl ErrBindUnkType"
| "bindValue (Some (T_struct, v)) = Inl ErrBindUnkType"
| "bindValue (Some (T_unsupported, v)) = Inl ErrBindUnkType"

text \<open>Values of the types that \<open>bindValue\<close> accepts.\<close>

fun has_go_type :: "param_val \<Rightarrow> go_type \<Rightarrow> bool" where
  "has_go_type P_nil ty \<longleftrightarrow> True"
| "has_go_type (P_string b) ty \<longleftrightarrow> ty = T_string"
| "has_go_type (P_bytes b) ty \<longleftrightarrow> ty = T_bytes \<or> ty = T_blob \<or> (\<exists>rt. ty = T_raw rt)"
| "has_go_type (P_bool x) ty \<longleftrightarrow> ty = T_bool"
| "has_go_type (P_int w) ty \<longleftrightarrow> ty = T_int"
| "has_go_type (P_int8 w8) ty \<longleftrightarrow> ty = T_int8"
| "has_go_type (P_int16 w16) ty \<longleftrightarrow> ty = T_int16"
| "has_go_type (P_int32 w32) ty \<longleftrightarrow> ty = T_int32"
| "has_go_type (P_int64 w) ty \<longleftrightarrow> ty = T_int64"
| "has_go_type (P_duration d) ty \<longleftrightarrow> ty = T_duration"
| "has_go_type (P_uint w) ty \<longleftrightarrow> ty = T_uint"
| "has_go_type (P_uint8 w8) ty \<longleftrightarrow> ty = T_uint8"
| "has_go_type (P_uint16 w16) ty \<longleftrightarrow> ty = T_uint16"
| "has_go_type (P_uint32 w32) ty \<longleftrightarrow> ty = T_uint32"
| "has_go_type (P_uint64 w) ty \<longleftrightarrow> ty = T_uint64"
| "has_go_type (P_float32 w32) ty \<longleftrightarrow> ty = T_float32"
| "has_go_type (P_float64 w) ty \<longleftrightarrow> ty = T_float64"
| "has_go_type (P_date da) ty \<longleftrightarrow> ty = T_date"
| "has_go_type (P_time t) ty \<longleftrightarrow> ty = T_time"
| "has_go_type (P_timestamp t) ty \<longleftrightarrow> ty = T_timestamp"

section \<open>Lengths and values of parameters\<close>

text \<open>
  \<open>v.String()\<close>, \<open>v.Bytes()\<close> and the type assertions on \<open>v.Interface()\<close>.  \<open>String\<close> of a value that is not
  a string is a description of its type; \<open>Bytes\<close> of a value that is no byte slice and a failed assertion are run-time
  panics.
\<close>

definition v_String :: "param_val \<Rightarrow> byte list" where
  "v_String v = (case v of P_string b \<Rightarrow> b | _ \<Rightarrow> bytes_of_string ''<[]uint8 Value>'')"

definition v_Bytes :: "param_val \<Rightarrow> byte list go" where
  "v_Bytes v = (case v of P_bytes b \<Rightarrow> Ret b | _ \<Rightarrow> Panic (Explicit_Panic ''reflect.Value.Bytes of non-byte slice''))"

definition wrong_assertion :: go_fault where
  "wrong_assertion = Explicit_Panic ''interface conversion''"

definition param_Len :: "paramValue \<Rightarrow> nat go" where
  "param_Len val =
     (if p_val val = P_nil then Ret 0
      else if 0 \<le> p_length val then Ret (nat (p_length val))
      else if p_typ val = ucast MYSQL_TYPE_STRING then Ret (lenBin (v_String (p_val val)))
      else if p_typ val = ucast MYSQL_TYPE_DATE then (case p_val val of P_date d \<Rightarrow> Ret (lenDate d) | _ \<Rightarrow> Panic wrong_assertion)
      else if p_typ val = ucast MYSQL_TYPE_TIMESTAMP then (case p_val val of P_timestamp t \<Rightarrow> Ret (lenTime t) | _ \<Rightarrow> Panic wrong_assertion)
      else if p_typ val = ucast MYSQL_TYPE_DATETIME then (case p_val val of P_time t \<Rightarrow> Ret (lenTime t) | _ \<Rightarrow> Panic wrong_assertion)
      else if p_typ val = ucast MYSQL_TYPE_TIME then (case p_val val of P_duration d \<Rightarrow> Ret (lenDuration d) | _ \<Rightarrow> Panic wrong_assertion)
      else if p_typ val = ucast MYSQL_TYPE_TINY then Ret 1
      else go_bind (v_Bytes (p_val val)) (\<lambda>b. Ret (lenBin b)))"

definition lift_go :: "'b go \<Rightarrow> ('s, 'b) pm" where
  "lift_go m s = go_bind m (\<lambda>x. Ret (Inr x, s))"

definition writeValue :: "paramValue \<Rightarrow> ('a pkt_io_scheme, unit) pm" where
  "writeValue val =
     (let ty = and (p_typ val) (not MYSQL_UNSIGNED_MASK); unsign = (and (p_typ val) MYSQL_UNSIGNED_MASK \<noteq> 0)
      in
      if p_val val = P_nil then pret ()
      else if p_raw val \<or> p_typ val = ucast MYSQL_TYPE_VAR_STRING \<or> p_typ val = ucast MYSQL_TYPE_BLOB then
        pbind (lift_go (v_Bytes (p_val val))) writeBin
      else if ty = ucast MYSQL_TYPE_NULL then pret ()
      else if ty = ucast MYSQL_TYPE_STRING then writeBin (v_String (p_val val))
      else if ty = ucast MYSQL_TYPE_LONG then
        (case (unsign, p_val val) of
           (True, P_uint32 w) \<Rightarrow> writeU32 w | (True, P_uint w) \<Rightarrow> writeU32 (ucast w)
         | (False, P_int32 w) \<Rightarrow> writeU32 w | (False, P_int w) \<Rightarrow> writeU32 (ucast w)
         | _ \<Rightarrow> crash wrong_assertion)
      else if ty = ucast MYSQL_TYPE_FLOAT then (case p_val val of P_float32 w \<Rightarrow> writeU32 w | _ \<Rightarrow> crash wrong_assertion)
      else if ty = ucast MYSQL_TYPE_SHORT then
        (case (unsign, p_val val) of
           (True, P_uint16 w) \<Rightarrow> writeU16 w | (False, P_int16 w) \<Rightarrow> writeU16 w | _ \<Rightarrow> crash wrong_assertion)
      else if ty = ucast MYSQL_TYPE_TINY then
        (if p_length val = - 1 then
           (case p_val val of P_bool b \<Rightarrow> writeByte (if b then 1 else 0) | _ \<Rightarrow> crash wrong_assertion)
         else case (unsign, p_val val) of
           (True, P_uint8 w) \<Rightarrow> writeByte w | (False, P_int8 w) \<Rightarrow> writeByte w | _ \<Rightarrow> crash wrong_assertion)
      else if ty = ucast MYSQL_TYPE_LONGLONG then
        (case (unsign, p_val val) of
           (True, P_uint64 w) \<Rightarrow> writeU64 w | (True, P_uint w) \<Rightarrow> writeU64 w
         | (False, P_int64 w) \<Rightarrow> writeU64 w | (False, P_int w) \<Rightarrow> writeU64 w
         | _ \<Rightarrow> crash wrong_assertion)
      else if ty = ucast MYSQL_TYPE_DOUBLE then (case p_val val of P_float64 w \<Rightarrow> writeU64 w | _ \<Rightarrow> crash wrong_assertion)
      else if ty = ucast MYSQL_TYPE_DATE then (case p_val val of P_date d \<Rightarrow> writeDate d | _ \<Rightarrow> crash wrong_assertion)
      else if ty = ucast MYSQL_TYPE_TIMESTAMP then (case p_val val of P_timestamp t \<Rightarrow> writeTime t | _ \<Rightarrow> crash wrong_assertion)
      else if ty = ucast MYSQL_TYPE_DATETIME then (case p_val val of P_time t \<Rightarrow> writeTime t | _ \<Rightarrow> crash wrong_assertion)
      else if ty = ucast MYSQL_TYPE_TIME then (case p_val val of P_duration d \<Rightarrow> writeDuration d | _ \<Rightarrow> crash wrong_assertion)
      else raise ErrBindUnkType)"

section \<open>Preparing\<close>

definition unbound :: paramValue where
  "unbound = \<lparr>p_typ = 0, p_val = P_nil, p_raw = False, p_length = 0\<rparr>"

definition no_stmt :: Stmt where
  "no_stmt = \<lparr>s_my = False, s_id = 0, s_sql = [], s_params = [], s_rebind = False, s_binded = False, s_fields = [], s_n_fields = 0,
     s_param_count = 0, s_warning_count = 0, s_status = 0, s_null_bitmap = []\<rparr>"

definition getPrepareOkPacket :: "('a pkt_io_scheme, Stmt) pm" where
  "getPrepareOkPacket =
     pbind readU32 (\<lambda>id. pbind readU16 (\<lambda>nf. pbind readU16 (\<lambda>pl.
     pbind (skipN 1) (\<lambda>_. pbind readU16 (\<lambda>wc. pbind checkEof (\<lambda>_.
       pret (no_stmt\<lparr>s_my := True, s_id := id, s_n_fields := unat nf, s_params := replicate (unat pl) unbound,
         s_null_bitmap := replicate ((unat pl + 7) div 8) 0, s_warning_count := unat wc\<rparr>)))))))"

lemma skipAll_in_left: "skipAll s = Ret (Inr (), t) \<Longrightarrow> in_left t \<le> in_left s"
proof (induction s rule: skipAll.induct)
  case (1 s)
  show ?case
  proof (cases "remain s = 0 \<and> last_pkt s")
    case True
    then show ?thesis using "1.prems" by (simp add: skipAll.simps pret_def)
  next
    case False
    obtain u v where h: "next_header s = Ret (Inr (), u)" "\<not> remain u < 0"
        and d: "on_rd (rd_Discard (nat (remain u))) u = Ret (Inr (), v)" and r: "skipAll (v\<lparr>remain := 0\<rparr>) = Ret (Inr (), t)"
      using "1.prems" False by (subst (asm) skipAll.simps) (auto simp: pbind_eq_Inr split: if_splits)
    have "in_left u \<le> in_left s" using next_header_in_left [OF h(1)] by simp
    then show ?thesis
      using "1.IH" [OF False h d r] Discard_in_left [OF d] by (simp add: in_left_def)
  qed
qed

text \<open>\<open>len(stmt.fields)\<close> is \<open>s_n_fields\<close>; \<open>s_fields\<close> are the \<open>field_count\<close> elements received so far.\<close>

function getPrepareResult :: "Stmt option \<Rightarrow> ('a my_conn_scheme, Stmt) pm" where
  "getPrepareResult so s =
     pbind open_packet (\<lambda>pkt0 s1.
       if pkt0 = 255 then getErrorPacket s1
       else case so of
         None \<Rightarrow> if pkt0 = 0 then getPrepareOkPacket s1 else raise ErrUnkResultPkt s1
       | Some st \<Rightarrow>
           let unreaded_params = (s_param_count st < length (s_params st)) in
           if pkt0 = 254 then
             pbind getEofPacket (\<lambda>(wc, stat). pbind (modify (\<lambda>c. c\<lparr>status := stat\<rparr>)) (\<lambda>_.
               pret (st\<lparr>s_warning_count := wc, s_status := stat\<rparr>))) s1
           else if 0 < pkt0 \<and> pkt0 < 251 \<and> (length (s_fields st) < s_n_fields st \<or> unreaded_params) then
             if unreaded_params then
               pbind skipAll (\<lambda>_. getPrepareResult (Some (st\<lparr>s_param_count := s_param_count st + 1\<rparr>))) s1
             else pbind getFieldPacket (\<lambda>f. getPrepareResult (Some (st\<lparr>s_fields := s_fields st @ [f]\<rparr>))) s1
           else raise ErrUnkResultPkt s1) s"
  by pat_completeness auto
termination
proof (relation "measure (in_left \<circ> snd)", goal_cases)
  case (2 so s pkt0 u st ur x v)
  then show ?case using open_packet_in_left [OF 2(1)] skipAll_in_left by fastforce
next
  case (3 so s pkt0 u st ur f v)
  have "in_left v \<le> in_left u + 1" using shrinks_Field 3(8) unfolding shrinks_def by blast
  then show ?case using open_packet_in_left [OF 3(1)] by simp
qed simp

declare getPrepareResult.simps [simp del]

definition prepare :: "byte list \<Rightarrow> ('a my_conn_scheme, Stmt) pm" where
  "prepare sql =
     catchError (pbind (sendCmdStr COM_STMT_PREPARE sql) (\<lambda>_.
       pbind (getPrepareResult None) (\<lambda>stmt.
       pbind (if s_params stmt \<noteq> [] then getPrepareResult (Some stmt) else pret stmt) (\<lambda>stmt.
         if 0 < s_n_fields stmt then getPrepareResult (Some stmt) else pret stmt))))"

definition stmt_ready :: "('a my_conn_scheme, 'b) pm \<Rightarrow> ('a my_conn_scheme, 'b) pm" where
  "stmt_ready m c = (if \<not> connected c then raise ErrNotConn c else if unreaded_reply c then raise ErrUnreadedReply c else m c)"

text \<open>The handle of the new statement is the number of statements before it.\<close>

definition Prepare :: "byte list \<Rightarrow> ('a my_conn_scheme, nat) pm" where
  "Prepare sql =
     stmt_ready (pbind (prepare sql) (\<lambda>stmt. pbind (gets (\<lambda>c. length (stmts c))) (\<lambda>i.
       pbind (modify (\<lambda>c. c\<lparr>stmts := stmts c @ [stmt\<lparr>s_sql := sql\<rparr>], stmt_map := AList.update (s_id stmt) i (stmt_map c)\<rparr>)) (\<lambda>_.
         pret i))))"

section \<open>Executing\<close>

definition stmt_at :: "nat \<Rightarrow> ('a my_conn_scheme, Stmt) pm" where
  "stmt_at i = gets (\<lambda>c. stmts c ! i)"

definition upd_stmt :: "nat \<Rightarrow> (Stmt \<Rightarrow> Stmt) \<Rightarrow> ('a my_conn_scheme, unit) pm" where
  "upd_stmt i f = modify (\<lambda>c. c\<lparr>stmts := (stmts c)[i := f (stmts c ! i)]\<rparr>)"

text \<open>
  The arguments of \<open>Bind\<close>: a parameter list, or the fields of the struct that is its only argument.  A
  single argument that is \<open>nil\<close> has no type, which \<open>Bind\<close> asks for: \<open>reflect\<close> panics with an error value.
\<close>

datatype bind_args =
    Params "(go_type \<times> param_val) option list"
  | Struct_fields "(go_type \<times> param_val) option list"

definition no_type :: my_err where
  "no_type = Text_Err ''reflect: call of reflect.Value.Type on zero Value''"

fun bind_from :: "nat \<Rightarrow> nat \<Rightarrow> (go_type \<times> param_val) option list \<Rightarrow> ('a my_conn_scheme, unit) pm" where
  "bind_from i ii [] = pret ()"
| "bind_from i ii (a # as) =
     (case bindValue a of
        Inl e \<Rightarrow> raise e
      | Inr v \<Rightarrow> pbind (upd_stmt i (\<lambda>st. st\<lparr>s_params := (s_params st)[ii := v]\<rparr>)) (\<lambda>_. bind_from i (Suc ii) as))"

definition Bind :: "nat \<Rightarrow> bind_args \<Rightarrow> ('a my_conn_scheme, unit) pm" where
  "Bind i args =
     pbind (upd_stmt i (\<lambda>st. st\<lparr>s_rebind := True\<rparr>)) (\<lambda>_.
     pbind (stmt_at i) (\<lambda>st.
       let vs = (case args of Params vs \<Rightarrow> vs | Struct_fields vs \<Rightarrow> vs) in
       if args = Params [None] then raise no_type
       else if length vs \<noteq> s_param_count st then raise ErrBindCount
       else pbind (bind_from i 0 vs) (\<lambda>_. upd_stmt i (\<lambda>st. st\<lparr>s_binded := True\<rparr>))))"

fun mark_nulls :: "nat \<Rightarrow> nat list \<Rightarrow> byte list \<Rightarrow> byte list" where
  "mark_nulls ii [] bm = bm"
| "mark_nulls ii (l # ls) bm =
     mark_nulls (Suc ii) ls
       (if l = 0 then bm[ii div 8 := or (bm ! (ii div 8)) (push_bit (ii - ii div 8 * 8) 1)] else bm)"

fun param_Lens :: "paramValue list \<Rightarrow> nat list go" where
  "param_Lens [] = Ret []"
| "param_Lens (p # ps) = go_bind (param_Len p) (\<lambda>l. go_bind (param_Lens ps) (\<lambda>ls. Ret (l # ls)))"

fun each :: "('b \<Rightarrow> ('s, unit) pm) \<Rightarrow> 'b list \<Rightarrow> ('s, unit) pm" where
  "each f [] = pret ()"
| "each f (x # xs) = pbind (f x) (\<lambda>_. each f xs)"

definition exec_body :: "Stmt \<Rightarrow> byte list \<Rightarrow> ('a pkt_io_scheme, unit) pm" where
  "exec_body st bm =
     pbind (writeByte COM_STMT_EXECUTE) (\<lambda>_. pbind (writeU32 (s_id st)) (\<lambda>_. pbind (writeByte 0) (\<lambda>_. pbind (writeU32 1) (\<lambda>_.
     pbind (pw_write bm) (\<lambda>_.
     pbind (if s_rebind st then pbind (writeByte 1) (\<lambda>_. each (\<lambda>p. writeU16 (p_typ p)) (s_params st)) else writeByte 0) (\<lambda>_.
       each writeValue (s_params st)))))))"

definition sendCmdExec :: "nat \<Rightarrow> ('a my_conn_scheme, unit) pm" where
  "sendCmdExec i =
     pbind (stmt_at i) (\<lambda>st. pbind (lift_go (param_Lens (s_params st))) (\<lambda>lens.
       let bm = mark_nulls 0 lens (replicate (length (s_null_bitmap st)) 0);
           pkt_len = 1 + 4 + 1 + 4 + 1 + length (s_null_bitmap st) + sum_list lens
             + (if s_rebind st then s_param_count st * 2 else 0)
       in
       pbind (upd_stmt i (\<lambda>st. st\<lparr>s_null_bitmap := bm\<rparr>)) (\<lambda>_.
       pbind reset_seq (\<lambda>_. pbind (newPktWriter pkt_len) (\<lambda>_.
       pbind (exec_body st bm) (\<lambda>_.
         upd_stmt i (\<lambda>st. st\<lparr>s_rebind := False\<rparr>)))))))"

definition Run :: "nat \<Rightarrow> bind_args \<Rightarrow> ('a my_conn_scheme, my_result) pm" where
  "Run i args =
     pbind (stmt_at i) (\<lambda>st.
       if \<not> s_my st then crash Nil_Deref
       else on_idle (
         pbind (if args \<noteq> Params [] then Bind i args
                else if s_param_count st \<noteq> 0 \<and> \<not> s_binded st then raise ErrBindCount else pret ()) (\<lambda>_.
         pbind (sendCmdExec i) (\<lambda>_. pbind getResponse (\<lambda>r. pret (r\<lparr>r_binary := True\<rparr>))))))"

definition Exec :: "nat \<Rightarrow> bind_args \<Rightarrow> ('a my_conn_scheme, my_val list list \<times> my_result option \<times> my_err option) pm" where
  "Exec i args = after_start GetRows [] (Run i args)"

definition ExecFirst :: "nat \<Rightarrow> bind_args \<Rightarrow> ('a my_conn_scheme, my_val list option \<times> my_result option \<times> my_err option) pm" where
  "ExecFirst i args = after_start GetFirstRow None (Run i args)"

definition ExecLast :: "nat \<Rightarrow> bind_args \<Rightarrow> ('a my_conn_scheme, my_val list option \<times> my_result option \<times> my_err option) pm" where
  "ExecLast i args = after_start GetLastRow None (Run i args)"

definition Delete :: "nat \<Rightarrow> ('a my_conn_scheme, unit) pm" where
  "Delete i =
     pbind (stmt_at i) (\<lambda>st.
       if \<not> s_my st then crash Nil_Deref
       else on_idle (pbind (attempt (sendCmdU32 COM_STMT_CLOSE (s_id st))) (\<lambda>r.
         pbind (modify (\<lambda>c. c\<lparr>stmt_map := AList.delete (s_id st) (stmt_map c), stmts := (stmts c)[i := no_stmt]\<rparr>)) (\<lambda>_.
           case r of Inl e \<Rightarrow> raise e | Inr _ \<Rightarrow> pret ()))))"

definition Reset :: "nat \<Rightarrow> ('a my_conn_scheme, unit) pm" where
  "Reset i =
     pbind (stmt_at i) (\<lambda>st.
       if \<not> s_my st then crash Nil_Deref
       else on_idle (pbind (upd_stmt i (\<lambda>st. st\<lparr>s_rebind := True\<rparr>)) (\<lambda>_.
         pbind (sendCmdU32 COM_STMT_RESET (s_id st)) (\<lambda>_. pbind (getResult None 0) (\<lambda>_. pret ())))))"

section \<open>Long data\<close>

definition ErrUnkDataType :: my_err where "ErrUnkDataType = ClientError ''unknown data source type''"

text \<open>A data source: a byte slice or a string, a reader with the chunks that its \<open>Read\<close> returns and the
  error after them, or a value of another type.\<close>

datatype data_source =
    From_bytes "byte list"
  | From_reader "byte list list" my_err
  | From_other

text \<open>With a chunk size of 0 an empty piece is sent and the same data remains: when one piece can be sent, so can
  every further one, and the loop does not end.\<close>

function send_pieces :: "32 word \<Rightarrow> 16 word \<Rightarrow> nat \<Rightarrow> byte list \<Rightarrow> ('a pkt_io_scheme, unit) pm" where
  "send_pieces sid pnum k dd =
     (if length dd \<le> k then sendLongData sid pnum dd
      else if k = 0 then pbind (sendLongData sid pnum []) (\<lambda>_ _. Hang)
      else pbind (sendLongData sid pnum (take k dd)) (\<lambda>_. send_pieces sid pnum k (drop k dd)))"
  by pat_completeness auto
termination by (relation "measure (\<lambda>(_, _, _, dd). length dd)") auto

declare send_pieces.simps [simp del]

definition send_reads :: "32 word \<Rightarrow> 16 word \<Rightarrow> byte list list \<Rightarrow> my_err \<Rightarrow> ('a pkt_io_scheme, unit) pm" where
  "send_reads sid pnum cs e =
     pbind (each (\<lambda>c. if c \<noteq> [] then sendLongData sid pnum c else pret ()) cs) (\<lambda>_.
       if e = IO_EOF then pret () else raise e)"

definition SendLongData :: "nat \<Rightarrow> int \<Rightarrow> data_source \<Rightarrow> int \<Rightarrow> ('a my_conn_scheme, unit) pm" where
  "SendLongData i pnum dat pkt_size =
     pbind (stmt_at i) (\<lambda>st.
       if \<not> s_my st then crash Nil_Deref
       else on_idle (
         if pnum < 0 \<or> int (s_param_count st) \<le> pnum then raise ErrWrongParamNum
         else if pkt_size - 6 < 0 then raise ErrSmallPktSize
         else case dat of
           From_reader cs e \<Rightarrow> send_reads (s_id st) (word_of_int pnum) cs e
         | From_bytes dd \<Rightarrow> send_pieces (s_id st) (word_of_int pnum) (nat (pkt_size - 6)) dd
         | From_other \<Rightarrow> raise ErrUnkDataType))"

section \<open>The packet that executes a statement\<close>

fun value_bytes :: "param_val \<Rightarrow> byte list" where
  "value_bytes P_nil = []"
| "value_bytes (P_string b) = lcs b"
| "value_bytes (P_bytes b) = lcs b"
| "value_bytes (P_bool x) = [if x then 1 else 0]"
| "value_bytes (P_int w) = EncodeU64 w"
| "value_bytes (P_int8 w8) = [w8]"
| "value_bytes (P_int16 w16) = EncodeU16 w16"
| "value_bytes (P_int32 w32) = EncodeU32 w32"
| "value_bytes (P_int64 w) = EncodeU64 w"
| "value_bytes (P_uint w) = EncodeU64 w"
| "value_bytes (P_uint8 w8) = [w8]"
| "value_bytes (P_uint16 w16) = EncodeU16 w16"
| "value_bytes (P_uint32 w32) = EncodeU32 w32"
| "value_bytes (P_uint64 w) = EncodeU64 w"
| "value_bytes (P_float32 w32) = EncodeU32 w32"
| "value_bytes (P_float64 w) = EncodeU64 w"
| "value_bytes (P_date da) = date_bytes da"
| "value_bytes (P_time t) = mtime_bytes t"
| "value_bytes (P_timestamp t) = mtime_bytes t"
| "value_bytes (P_duration d) = duration_bytes (if d < 0 then 1 else 0) \<bar>d\<bar>"

text \<open>Arguments that arrive as they are: all but durations, whose sign byte depends on what the writer's
  buffer holds, and raw values of a type whose length \<open>Len\<close> takes from the Go type that it does not have.\<close>

definition unraw_types :: "16 word list" where
  "unraw_types = map ucast [MYSQL_TYPE_STRING, MYSQL_TYPE_DATE, MYSQL_TYPE_TIMESTAMP, MYSQL_TYPE_DATETIME, MYSQL_TYPE_TIME, MYSQL_TYPE_TINY]"

fun sendable :: "(go_type \<times> param_val) option \<Rightarrow> bool" where
  "sendable None \<longleftrightarrow> True"
| "sendable (Some (ty, v)) \<longleftrightarrow>
     has_go_type v ty \<and> (\<forall>e. bindValue (Some (ty, v)) \<noteq> Inl e)
     \<and> (case v of P_duration d \<Rightarrow> False | P_time t \<Rightarrow> valid_time t | P_timestamp t \<Rightarrow> valid_time t
          | P_bytes b \<Rightarrow> (case ty of T_raw rt \<Rightarrow> rt \<notin> set unraw_types | _ \<Rightarrow> True) | _ \<Rightarrow> True)"

lemma length_date_bytes: "length (date_bytes d) = lenDate d"
  by (simp add: date_bytes_def lenDate_def)

lemma lcs_not_Nil: "lenBin b \<noteq> 0"
  by (simp add: lenBin_def lenLCB_def)

lemma lift_go_Ret [simp]: "lift_go (Ret x) = pret x"
  by (rule ext) (simp add: lift_go_def pret_def)

lemma pbind_pret_fun [simp]: "pbind (pret x) f = f x"
  by (rule ext) simp

lemma emits_nil: "emits (pret ()) []"
  by (rule emits_ret)

lemma bindValue_val: "bindValue (Some (ty, v)) = Inr p \<Longrightarrow> p_val p = v"
  by (cases ty) (auto simp: bound_def)

lemmas bind_defs = bound_def param_Len_def writeValue_def my_types MYSQL_UNSIGNED_MASK_def INT_TYPE_def SIZE_OF_INT_def
  unsigned_type_def v_String_def v_Bytes_def Let_def

lemmas writers_emit = writeBin_emits writeU_emits writeByte_emits writeTime_emits writeDate_emits

text \<open>The parameter is computed first, then its length and its writer.\<close>

lemma bound_bytes:
  assumes "sendable (Some (ty, P_bytes b))" "bindValue (Some (ty, P_bytes b)) = Inr p"
  shows "param_Len p = Ret (length (lcs b)) \<and> emits (writeValue p) (lcs b)"
proof -
  consider "ty = T_bytes" | "ty = T_blob" | rt where "ty = T_raw rt" "rt \<notin> set unraw_types"
    using assms(1) by auto
  then show ?thesis
  proof cases
    case 3
    then show ?thesis using assms(2)
      by clarsimp (simp add: param_Len_def writeValue_def v_Bytes_def unraw_types_def writeBin_emits Let_def)
  qed (use assms(2) in \<open>clarsimp simp: bound_def; simp add: bind_defs writers_emit\<close>)+
qed

lemma bound_value:
  "sendable (Some (ty, v)) \<Longrightarrow> bindValue (Some (ty, v)) = Inr p \<Longrightarrow> v \<noteq> P_nil \<Longrightarrow>
     param_Len p = Ret (length (value_bytes v)) \<and> emits (writeValue p) (value_bytes v)"
proof (induction v)
  case (P_bytes b)
  show ?case using bound_bytes [OF P_bytes(1,2)] by (simp only: value_bytes.simps)
qed (clarsimp simp: bound_def; simp add: bind_defs writers_emit length_date_bytes length_mtime_bytes)+

lemma lcs_Nil [simp]: "lcs b \<noteq> []"
proof
  assume "lcs b = []"
  then have "lenBin b = 0" by (simp only: length_lcs [symmetric] list.size)
  then show False using lcs_not_Nil by blast
qed

fun arg_val :: "(go_type \<times> param_val) option \<Rightarrow> param_val" where
  "arg_val None = P_nil"
| "arg_val (Some (ty, v)) = v"

lemma value_bytes_Nil: "sendable (Some (ty, v)) \<Longrightarrow> v \<noteq> P_nil \<Longrightarrow> value_bytes v \<noteq> []"
proof (induction v)
  case (P_date d)
  show ?case by (simp add: date_bytes_def)
next
  case (P_time t)
  show ?case by (simp add: mtime_bytes_def time_bytes_def)
next
  case (P_timestamp t)
  show ?case by (simp add: mtime_bytes_def time_bytes_def)
qed (simp_all add: EncodeU16_def EncodeU32_def EncodeU64_def)

lemma arg_bytes_Nil: "sendable a \<Longrightarrow> value_bytes (arg_val a) = [] \<longleftrightarrow> arg_val a = P_nil"
  using value_bytes_Nil by (cases a rule: arg_val.cases) auto

lemma bound_param:
  assumes "sendable a" "bindValue a = Inr p"
  shows "param_Len p = Ret (length (value_bytes (p_val p)))"
    and "emits (writeValue p) (value_bytes (p_val p))"
    and "length (value_bytes (p_val p)) = 0 \<longleftrightarrow> p_val p = P_nil"
proof -
  consider "p_val p = P_nil" | ty v where "a = Some (ty, v)" "p_val p = v" "v \<noteq> P_nil"
  proof (cases a)
    case None
    then show ?thesis using assms(2) that(1) by (auto simp: bound_def)
  next
    case (Some tv)
    then show ?thesis using assms(2) that bindValue_val [of "fst tv" "snd tv" p] by (metis prod.collapse)
  qed
  then have "param_Len p = Ret (length (value_bytes (p_val p))) \<and> emits (writeValue p) (value_bytes (p_val p))
      \<and> (length (value_bytes (p_val p)) = 0 \<longleftrightarrow> p_val p = P_nil)"
  proof cases
    case 1
    then show ?thesis by (simp add: param_Len_def writeValue_def emits_ret Let_def)
  next
    case 2
    then show ?thesis using bound_value [of ty v p] assms value_bytes_Nil [of ty v] by (metis length_0_conv)
  qed
  then show "param_Len p = Ret (length (value_bytes (p_val p)))" "emits (writeValue p) (value_bytes (p_val p))"
      "length (value_bytes (p_val p)) = 0 \<longleftrightarrow> p_val p = P_nil" by blast+
qed

lemma emits_each: "(\<And>x. x \<in> set xs \<Longrightarrow> emits (f x) (g x)) \<Longrightarrow> emits (each f xs) (concat (map g xs))"
  by (induction xs) (auto intro: emits_ret emits_bind)

lemma length_mark_nulls [simp]: "length (mark_nulls ii ls bm) = length bm"
  by (induction ii ls bm rule: mark_nulls.induct) simp_all

lemma bit_mark_null:
  assumes "ii < 8 * length bm" "j < 8 * length bm"
  shows "bit ((bm :: byte list)[ii div 8 := or (bm ! (ii div 8)) (push_bit (ii - ii div 8 * 8) 1)] ! (j div 8)) (j mod 8)
    \<longleftrightarrow> bit (bm ! (j div 8)) (j mod 8) \<or> j = ii"
proof -
  have m: "ii - ii div 8 * 8 = ii mod 8" by (simp add: minus_div_mult_eq_mod)
  have "j = ii \<longleftrightarrow> j div 8 = ii div 8 \<and> j mod 8 = ii mod 8" by (metis div_mult_mod_eq)
  moreover have "bit (push_bit (ii mod 8) 1 :: byte) (j mod 8) \<longleftrightarrow> j mod 8 = ii mod 8"
    by (auto simp: bit_exp_iff possible_bit_def)
  moreover have "ii div 8 < length bm" "j div 8 < length bm" using assms by simp_all
  ultimately show ?thesis unfolding m by (cases "j div 8 = ii div 8") (auto simp: bit_or_iff)
qed

lemma bit_mark_nulls:
  "ii + length ls \<le> 8 * length bm \<Longrightarrow> j < 8 * length bm \<Longrightarrow>
     bit (mark_nulls ii ls bm ! (j div 8)) (j mod 8)
     \<longleftrightarrow> bit (bm ! (j div 8)) (j mod 8) \<or> (ii \<le> j \<and> j < ii + length ls \<and> ls ! (j - ii) = 0)"
proof (induction ii ls bm rule: mark_nulls.induct)
  case (2 ii l ls bm)
  have "ii < 8 * length bm" using "2.prems"(1) by simp
  note b = bit_mark_null [OF this "2.prems"(2)]
  have e: "(ii \<le> j \<and> j < ii + length (l # ls) \<and> (l # ls) ! (j - ii) = 0)
      \<longleftrightarrow> (j = ii \<and> l = 0) \<or> (Suc ii \<le> j \<and> j < Suc ii + length ls \<and> ls ! (j - Suc ii) = 0)"
    by (cases "j = ii") (auto simp: nth_Cons' Suc_le_eq)
  show ?case
    using 2 b unfolding e by (cases "l = 0") auto
qed auto

lemma bindValue_arg: "bindValue a = Inr p \<Longrightarrow> p_val p = arg_val a"
  by (cases a rule: arg_val.cases) (auto simp: bound_def bindValue_val)

definition binds :: "(go_type \<times> param_val) option list \<Rightarrow> paramValue list \<Rightarrow> bool" where
  "binds args ps \<longleftrightarrow> list_all2 (\<lambda>a p. bindValue a = Inr p) args ps"

lemma sendable_bind: "sendable a \<Longrightarrow> \<exists>p. bindValue a = Inr p"
proof (cases a)
  case None
  then show ?thesis by (simp add: bound_def)
next
  case (Some tv)
  assume "sendable a"
  then have "bindValue (Some (fst tv, snd tv)) \<noteq> Inl e" for e
    using sendable.simps(2) [of "fst tv" "snd tv"] Some by simp
  then show ?thesis using Some by (cases "bindValue a") (simp_all del: bindValue.simps)
qed

lemma sendable_binds: "\<forall>a \<in> set args. sendable a \<Longrightarrow> \<exists>ps. binds args ps"
proof (induction args)
  case (Cons a args)
  obtain p ps where "bindValue a = Inr p" "binds args ps"
    using Cons sendable_bind [of a] by auto
  then have "binds (a # args) (p # ps)" by (simp add: binds_def)
  then show ?case by blast
qed (auto simp: binds_def intro: exI [of _ "[]"])

lemma binds_vals: "binds args ps \<Longrightarrow> map p_val ps = map arg_val args"
  unfolding binds_def by (induction rule: list_all2_induct) (simp_all add: bindValue_arg)

lemma binds_sendable:
  assumes "binds args ps" "\<forall>a \<in> set args. sendable a"
  shows "param_Lens ps = Ret (map (\<lambda>a. length (value_bytes (arg_val a))) args)"
    and "\<forall>p \<in> set ps. emits (writeValue p) (value_bytes (p_val p))"
  using assms unfolding binds_def
  by (induction rule: list_all2_induct) (auto simp: bound_param bindValue_arg simp flip: bindValue_arg)

lemma bind_from_ok:
  assumes "binds args ps" "i < length (stmts c)" "ii + length ps \<le> length (s_params (stmts c ! i))"
  shows "bind_from i ii args c = Ret (Inr (), c\<lparr>stmts := (stmts c)[i := (stmts c ! i)\<lparr>s_params :=
      take ii (s_params (stmts c ! i)) @ ps @ drop (ii + length ps) (s_params (stmts c ! i))\<rparr>]\<rparr>)"
  using assms
proof (induction args arbitrary: ps ii c)
  case Nil
  then show ?case by (simp add: binds_def pret_def)
next
  case (Cons a args)
  then obtain p ps' where p: "bindValue a = Inr p" "ps = p # ps'" "binds args ps'"
    by (auto simp: binds_def list_all2_Cons1)
  let ?c = "c\<lparr>stmts := (stmts c)[i := (stmts c ! i)\<lparr>s_params := (s_params (stmts c ! i))[ii := p]\<rparr>]\<rparr>"
  have "bind_from i (Suc ii) args ?c = Ret (Inr (), ?c\<lparr>stmts := (stmts ?c)[i := (stmts ?c ! i)\<lparr>s_params :=
      take (Suc ii) (s_params (stmts ?c ! i)) @ ps' @ drop (Suc ii + length ps') (s_params (stmts ?c ! i))\<rparr>]\<rparr>)"
    using Cons.prems(2,3) p by (intro Cons.IH) simp_all
  then show ?case
    using p(1,2) Cons.prems(2,3) by (simp add: upd_stmt_def take_Suc_conv_app_nth list_update_append)
qed

definition bind_state :: "Stmt \<Rightarrow> paramValue list \<Rightarrow> Stmt" where
  "bind_state st ps = st\<lparr>s_rebind := True, s_params := ps, s_binded := True\<rparr>"

lemma Bind_ok:
  assumes "binds args ps" "i < length (stmts c)" "args \<noteq> [None]" "length args = s_param_count (stmts c ! i)"
    "length (s_params (stmts c ! i)) = s_param_count (stmts c ! i)"
  shows "Bind i (Params args) c = Ret (Inr (), c\<lparr>stmts := (stmts c)[i := bind_state (stmts c ! i) ps]\<rparr>)"
proof -
  have "length ps = length args" using assms(1) by (simp add: binds_def list_all2_lengthD)
  then show ?thesis
    using assms bind_from_ok [OF assms(1), of i "c\<lparr>stmts := (stmts c)[i := (stmts c ! i)\<lparr>s_rebind := True\<rparr>]\<rparr>" 0]
    by (simp add: Bind_def upd_stmt_def stmt_at_def bind_state_def modify_def)
qed

definition null_bitmap :: "param_val list \<Rightarrow> byte list" where
  "null_bitmap vs = mark_nulls 0 (map (length \<circ> value_bytes) vs) (replicate ((length vs + 7) div 8) 0)"

definition exec_payload :: "32 word \<Rightarrow> (16 word \<times> param_val) list \<Rightarrow> byte list" where
  "exec_payload sid ps =
     [COM_STMT_EXECUTE] @ EncodeU32 sid @ [0] @ EncodeU32 1 @ null_bitmap (map snd ps) @ [1]
     @ concat (map (EncodeU16 \<circ> fst) ps) @ concat (map (value_bytes \<circ> snd) ps)"

lemma null_bitmap_bit:
  assumes "j < length vs"
  shows "bit (null_bitmap vs ! (j div 8)) (j mod 8) \<longleftrightarrow> value_bytes (vs ! j) = []"
proof -
  have "length vs \<le> 8 * ((length vs + 7) div 8)" by simp
  then show ?thesis
    using assms bit_mark_nulls [of 0 "map (length \<circ> value_bytes) vs" "replicate ((length vs + 7) div 8) 0" j]
    by (simp add: null_bitmap_def)
qed

lemma exec_body_emits:
  assumes "s_rebind st" "\<forall>p \<in> set (s_params st). emits (writeValue p :: ('a pkt_io_scheme, unit) pm) (value_bytes (p_val p))"
  shows "emits (exec_body st bm :: ('a pkt_io_scheme, unit) pm) ([COM_STMT_EXECUTE] @ EncodeU32 (s_id st) @ [0] @ EncodeU32 1 @ bm
    @ ([1] @ concat (map (EncodeU16 \<circ> p_typ) (s_params st))) @ concat (map (value_bytes \<circ> p_val) (s_params st)))"
proof -
  have t: "emits (if s_rebind st then pbind (writeByte 1) (\<lambda>_. each (\<lambda>p. writeU16 (p_typ p)) (s_params st)) else writeByte 0)
      ([1] @ concat (map (EncodeU16 \<circ> p_typ) (s_params st)))"
    unfolding if_P [OF assms(1)]
    by (intro emits_bind writeByte_emits emits_each) (simp add: writeU_emits)
  have v: "emits (each writeValue (s_params st) :: ('a pkt_io_scheme, unit) pm) (concat (map (value_bytes \<circ> p_val) (s_params st)))"
    using assms(2) by (intro emits_each) simp
  show ?thesis
    unfolding exec_body_def by (intro emits_bind writeByte_emits writeU_emits pw_write_emits t v)
qed

lemma my_idle_stmts [simp]: "my_idle (s\<lparr>stmts := x\<rparr>) = my_idle s" "my_idle (s\<lparr>stmt_map := y\<rparr>) = my_idle s"
  by (simp_all add: my_idle_def)

lemma send_from_idle:
  assumes "my_idle s" "emits m p" "p \<noteq> []"
  shows "\<exists>t. pbind reset_seq (\<lambda>_. pbind (newPktWriter (length p)) (\<lambda>_. m)) s = Ret (Inr (), t) \<and> moved_wr s t
    \<and> healthy (wr t) \<and> wbuf (wr t) = [] \<and> wire (wr t) = wire (wr s) @ frames 0 p \<and> pkt_seq t = of_nat (nframes p)"
proof -
  let ?s = "s\<lparr>pkt_seq := 0\<rparr>"
  have h: "healthy (wr ?s)" using assms(1) by (simp add: my_idle_def)
  obtain t where t: "pbind (newPktWriter (length p)) (\<lambda>_. m) ?s = Ret (Inr (), t)" "moved_wr ?s t" "healthy (wr t)"
      "wire (wr t) = sent (wr s) @ frames 0 p" "wbuf (wr t) = []" "pkt_seq t = of_nat (nframes p)"
    using emits_packet [OF assms(2,3) h] by auto
  moreover have "moved_wr s ?s"
    using moved_wrI [where s = s and w = "wr s" and q = 0 and m = "w_remain s" and k = "w_to_write s" and l = "w_last s" and b = "w_buf s"]
    by simp
  ultimately show ?thesis
    using assms(1) moved_wr_trans by (auto simp: reset_seq_def my_idle_def sent_def)
qed

lemma binds_payload:
  assumes "binds args ps"
  shows "[COM_STMT_EXECUTE] @ EncodeU32 sid @ [0] @ EncodeU32 1 @ null_bitmap (map arg_val args)
      @ ([1] @ concat (map (EncodeU16 \<circ> p_typ) ps)) @ concat (map (value_bytes \<circ> p_val) ps)
    = exec_payload sid (zip (map p_typ ps) (map arg_val args))"
    and "sum_list (map (\<lambda>a. length (value_bytes (arg_val a))) args) = length (concat (map (value_bytes \<circ> p_val) ps))"
proof -
  have v: "map p_val ps = map arg_val args" by (rule binds_vals [OF assms])
  have c: "map (value_bytes \<circ> p_val) ps = map value_bytes (map arg_val args)"
    by (simp only: v [symmetric] map_map)
  have l: "length ps = length args" using arg_cong [OF v, of length] by simp
  show "[COM_STMT_EXECUTE] @ EncodeU32 sid @ [0] @ EncodeU32 1 @ null_bitmap (map arg_val args)
      @ ([1] @ concat (map (EncodeU16 \<circ> p_typ) ps)) @ concat (map (value_bytes \<circ> p_val) ps)
    = exec_payload sid (zip (map p_typ ps) (map arg_val args))"
    unfolding exec_payload_def c by (simp add: l flip: map_map)
  show "sum_list (map (\<lambda>a. length (value_bytes (arg_val a))) args) = length (concat (map (value_bytes \<circ> p_val) ps))"
    unfolding c by (simp add: length_concat comp_def)
qed

lemma sendCmdExec_ok:
  assumes "my_idle s" "stmts s ! i = st" "s_params st = ps" "binds args ps" "\<forall>a \<in> set args. sendable a"
    and "s_rebind st" "s_param_count st = length ps" "length (s_null_bitmap st) = (length ps + 7) div 8"
  shows "\<exists>t. sendCmdExec i s = Ret (Inr (), t\<lparr>stmts := (stmts t)[i := (stmts t ! i)\<lparr>s_rebind := False\<rparr>]\<rparr>)
    \<and> stmts t = (stmts s)[i := st\<lparr>s_null_bitmap := null_bitmap (map arg_val args)\<rparr>] \<and> rd t = rd s \<and> wbuf (wr t) = []
    \<and> wire (wr t) = wire (wr s) @ frames 0 (exec_payload (s_id st) (zip (map p_typ ps) (map arg_val args)))"
proof -
  define lens where "lens = map (\<lambda>a. length (value_bytes (arg_val a))) args"
  have l: "length ps = length args" using assms(4) by (simp add: binds_def list_all2_lengthD)
  have lens: "param_Lens ps = Ret lens" using binds_sendable(1) [OF assms(4,5)] by (simp add: lens_def)
  have bm: "mark_nulls 0 lens (replicate (length (s_null_bitmap st)) 0) = null_bitmap (map arg_val args)"
    using assms(8) l by (simp add: null_bitmap_def lens_def comp_def)
  define s2 where "s2 = s\<lparr>stmts := (stmts s)[i := st\<lparr>s_null_bitmap := null_bitmap (map arg_val args)\<rparr>]\<rparr>"
  have s2: "my_idle s2" using assms(1) by (simp add: s2_def)
  define payload where "payload = exec_payload (s_id st) (zip (map p_typ ps) (map arg_val args))"
  note pay = binds_payload(1) [OF assms(4), of "s_id st", folded payload_def] binds_payload(2) [OF assms(4)]
  define body :: "('a my_conn_scheme, unit) pm" where "body = exec_body st (null_bitmap (map arg_val args))"
  have e: "emits body payload"
    using exec_body_emits [OF assms(6), of "null_bitmap (map arg_val args)"] binds_sendable(2) [OF assms(4,5)] assms(3) pay(1)
    unfolding body_def by simp
  have "length (concat (map (EncodeU16 \<circ> p_typ) ps)) = 2 * length ps" by (induction ps) simp_all
  then have pl: "1 + 4 + 1 + 4 + 1 + length (s_null_bitmap st) + sum_list lens + (if s_rebind st then s_param_count st * 2 else 0) = length payload"
    using assms(6-8) pay(2) l unfolding lens_def pay(1) [symmetric] by (simp add: null_bitmap_def del: length_concat)
  obtain t where t: "pbind reset_seq (\<lambda>_. pbind (newPktWriter (length payload)) (\<lambda>_. body)) s2 = Ret (Inr (), t)" "moved_wr s2 t"
      "wbuf (wr t) = []" "wire (wr t) = wire (wr s2) @ frames 0 payload"
    using send_from_idle [OF s2 e] by (auto simp: payload_def exec_payload_def)
  have k: "pbind reset_seq (\<lambda>_. pbind (newPktWriter (length payload)) (\<lambda>_. pbind body (\<lambda>_. k))) s2 = k t" for k :: "('a my_conn_scheme, unit) pm"
    using pbind_simps(1) [where m = "pbind reset_seq (\<lambda>_. pbind (newPktWriter (length payload)) (\<lambda>_. body))" and s = s2 and f = "\<lambda>_. k", OF t(1)] by (simp only: pbind_assoc)
  have "sendCmdExec i s = Ret (Inr (), t\<lparr>stmts := (stmts t)[i := (stmts t ! i)\<lparr>s_rebind := False\<rparr>]\<rparr>)"
    unfolding sendCmdExec_def stmt_at_def upd_stmt_def pbind_gets assms(2,3) lens lift_go_Ret pbind_pret Let_def pl bm pbind_modify
      body_def [symmetric] s2_def [symmetric] k
    by (simp add: modify_def)
  moreover have "stmts t = stmts s2" "rd t = rd s2" using t(2) by (auto simp: moved_wr_def)
  ultimately show ?thesis using t(3,4) by (intro exI [of _ t]) (simp add: s2_def payload_def)
qed


text \<open>Two parameters, an integer and NULL.\<close>

definition sample_stmt :: Stmt where
  "sample_stmt = no_stmt\<lparr>s_my := True, s_id := 7, s_params := [unbound, unbound], s_param_count := 2, s_null_bitmap := [0]\<rparr>"


section \<open>Preparing a statement\<close>

definition prep_ok_bytes :: "32 word \<Rightarrow> 16 word \<Rightarrow> 16 word \<Rightarrow> 16 word \<Rightarrow> byte list" where
  "prep_ok_bytes sid nf np wc = 0 # EncodeU32 sid @ EncodeU16 nf @ EncodeU16 np @ [0] @ EncodeU16 wc"

definition new_stmt :: "32 word \<Rightarrow> nat \<Rightarrow> nat \<Rightarrow> 16 word \<Rightarrow> Stmt" where
  "new_stmt sid nf np wc = no_stmt\<lparr>s_my := True, s_id := sid, s_n_fields := nf, s_params := replicate np unbound,
     s_null_bitmap := replicate ((np + 7) div 8) 0, s_warning_count := unat wc\<rparr>"

lemma getPrepareOkPacket_parses:
  "parses_eof getPrepareOkPacket (new_stmt sid (unat nf) (unat np) wc) (EncodeU32 sid @ EncodeU16 nf @ EncodeU16 np @ [0] @ EncodeU16 wc)"
proof -
  have skip: "parses (skipN 1) () [0]" using skipN_parses [of "[0]" 1] by simp
  have "parses_eof getPrepareOkPacket (new_stmt sid (unat nf) (unat np) wc) (EncodeU32 sid @ EncodeU16 nf @ EncodeU16 np @ [0] @ EncodeU16 wc @ [])"
    unfolding getPrepareOkPacket_def new_stmt_def
    by (rule parses_eof_bind [OF readU_parses(2)] parses_eof_bind [OF readU_parses(1)] parses_eof_check skip
        parses_eof_bind [OF skip])+
  then show ?thesis by simp
qed

lemma prepare_ok:
  assumes "next_packet s (prep_ok_bytes sid nf np wc) rest"
  obtains t where "getPrepareResult None s = Ret (Inr (new_stmt sid (unat nf) (unat np) wc), t)"
    "after_packet s (prep_ok_bytes sid nf np wc) rest t"
proof -
  obtain t v where t: "open_packet s = Ret (Inr 0, t)" "getPrepareOkPacket t = Ret (Inr (new_stmt sid (unat nf) (unat np) wc), v)"
      "after_packet s (prep_ok_bytes sid nf np wc) rest v"
    using handler_eof [OF assms [unfolded prep_ok_bytes_def] getPrepareOkPacket_parses] unfolding prep_ok_bytes_def by metis
  then have "getPrepareResult None s = Ret (Inr (new_stmt sid (unat nf) (unat np) wc), v)"
    by (subst getPrepareResult.simps) simp
  then show ?thesis using that t(3) by blast
qed

lemma prepare_eof:
  assumes "next_packet s (eof_bytes wc st) rest"
  obtains t where "getPrepareResult (Some stmt) s = Ret (Inr (stmt\<lparr>s_warning_count := unat wc, s_status := st\<rparr>), t\<lparr>status := st\<rparr>)"
    "after_packet s (eof_bytes wc st) rest t"
proof -
  obtain t v where t: "open_packet s = Ret (Inr 254, t)" "getEofPacket t = Ret (Inr (unat wc, st), v)"
      "after_packet s (eof_bytes wc st) rest v"
    using handler_eof [OF assms [unfolded eof_bytes_def] getEofPacket_parses] unfolding eof_bytes_def by metis
  then have "getPrepareResult (Some stmt) s = Ret (Inr (stmt\<lparr>s_warning_count := unat wc, s_status := st\<rparr>), v\<lparr>status := st\<rparr>)"
    by (subst getPrepareResult.simps) (simp add: pret_def Let_def)
  then show ?thesis using that t(3) by blast
qed

lemma prepare_param:
  assumes "next_packet s (b # p) rest" "0 < b" "b < 251" "s_param_count stmt < length (s_params stmt)"
  obtains t where "getPrepareResult (Some stmt) s = getPrepareResult (Some (stmt\<lparr>s_param_count := s_param_count stmt + 1\<rparr>)) t"
    "after_packet s (b # p) rest t"
proof -
  have "parses_eof skipAll () p"
    unfolding parses_eof_def using skipAll_reading by blast
  then obtain t v where t: "open_packet s = Ret (Inr b, t)" "skipAll t = Ret (Inr (), v)" "after_packet s (b # p) rest v"
    using handler_eof [OF assms(1)] by metis
  have "b \<noteq> 255" "b \<noteq> 254" using assms(3) by auto
  then have "getPrepareResult (Some stmt) s = getPrepareResult (Some (stmt\<lparr>s_param_count := s_param_count stmt + 1\<rparr>)) v"
    using t assms(2-4) by (subst getPrepareResult.simps) (simp add: Let_def)
  then show ?thesis using that t(3) by blast
qed

lemma prepare_field:
  assumes "next_packet s (fd_bytes d) rest" "fd_ok d" "s_param_count stmt = length (s_params stmt)" "length (s_fields stmt) < s_n_fields stmt"
  obtains t where "getPrepareResult (Some stmt) s =
      getPrepareResult (Some (stmt\<lparr>s_fields := s_fields stmt @ [shown_field (fullFieldInfo s) (fd_field d)]\<rparr>)) t"
    "after_packet s (fd_bytes d) rest t"
proof -
  obtain b t v where t: "open_packet s = Ret (Inr b, t)" "getFieldPacket t = Ret (Inr (shown_field (fullFieldInfo s) (fd_field d)), v)"
      "after_packet s (fd_bytes d) rest v" "0 < b" "b < 251"
    using getFieldPacket_next [OF assms(1) [unfolded fd_bytes_def]] assms(2) unfolding fd_ok_def fd_bytes_def by metis
  have "b \<noteq> 255" "b \<noteq> 254" using t(5) by auto
  then have "getPrepareResult (Some stmt) s =
      getPrepareResult (Some (stmt\<lparr>s_fields := s_fields stmt @ [shown_field (fullFieldInfo s) (fd_field d)]\<rparr>)) v"
    using t assms(3,4) by (subst getPrepareResult.simps) (simp add: Let_def)
  then show ?thesis using that t(3) by blast
qed

definition param_def :: "byte list \<Rightarrow> bool" where
  "param_def p \<longleftrightarrow> whole p \<and> p \<noteq> [] \<and> 0 < hd p \<and> hd p < 251"

lemma prepare_params:
  assumes "\<forall>p \<in> set pds. param_def p" "s_param_count stmt + length pds = length (s_params stmt)"
    and "coming s (pds @ eof_bytes wc st # ps) rest q"
  shows "\<exists>t. getPrepareResult (Some stmt) s = Ret (Inr (stmt\<lparr>s_param_count := s_param_count stmt + length pds, s_warning_count := unat wc,
      s_status := st\<rparr>), t\<lparr>status := st\<rparr>) \<and> coming t ps rest q \<and> moved_rd s t"
  using assms
proof (induction pds arbitrary: stmt s)
  case Nil
  then have c: "coming s (eof_bytes wc st # ps) rest q" by simp
  obtain t where "getPrepareResult (Some stmt) s = Ret (Inr (stmt\<lparr>s_warning_count := unat wc, s_status := st\<rparr>), t\<lparr>status := st\<rparr>)"
      "after_packet s (eof_bytes wc st) (stream (pkt_seq s + of_nat (nframes (eof_bytes wc st))) ps @ rest) t"
    using prepare_eof [OF coming_Cons [OF c whole_eof]] by blast
  then show ?case using coming_after [OF c] by auto
next
  case (Cons p pds)
  then have c: "coming s (p # (pds @ eof_bytes wc st # ps)) rest q" and w: "whole p" and "p \<noteq> []" and b: "0 < hd p" "hd p < 251"
    by (simp_all add: param_def_def)
  then have p: "hd p # tl p = p" by simp
  obtain t where t: "getPrepareResult (Some stmt) s = getPrepareResult (Some (stmt\<lparr>s_param_count := s_param_count stmt + 1\<rparr>)) t"
      "after_packet s p (stream (pkt_seq s + of_nat (nframes p)) (pds @ eof_bytes wc st # ps) @ rest) t"
    using prepare_param [of s "hd p" "tl p", unfolded p, OF coming_Cons [OF c w] b, of stmt] Cons.prems(2) by auto
  note ct = coming_after [OF c t(2)]
  obtain u where "getPrepareResult (Some (stmt\<lparr>s_param_count := s_param_count stmt + 1\<rparr>)) t =
      Ret (Inr (stmt\<lparr>s_param_count := s_param_count stmt + 1 + length pds, s_warning_count := unat wc, s_status := st\<rparr>), u\<lparr>status := st\<rparr>)"
      "coming u ps rest q" "moved_rd t u"
    using Cons.IH [of "stmt\<lparr>s_param_count := s_param_count stmt + 1\<rparr>" t] Cons.prems(1,2) ct by auto
  then show ?case using t(1) ct moved_rd_trans by auto
qed

lemma prepare_fields:
  assumes "\<forall>d \<in> set ds. fd_ok d" "s_param_count stmt = length (s_params stmt)" "length (s_fields stmt) + length ds = s_n_fields stmt"
    and "coming s (map fd_bytes ds @ eof_bytes wc st # ps) rest q"
  shows "\<exists>t. getPrepareResult (Some stmt) s = Ret (Inr (stmt\<lparr>s_fields := s_fields stmt @ map (shown_field (fullFieldInfo s) \<circ> fd_field) ds,
      s_warning_count := unat wc, s_status := st\<rparr>), t\<lparr>status := st\<rparr>) \<and> coming t ps rest q \<and> moved_rd s t"
  using assms
proof (induction ds arbitrary: stmt s)
  case Nil
  then have c: "coming s (eof_bytes wc st # ps) rest q" by simp
  obtain t where "getPrepareResult (Some stmt) s = Ret (Inr (stmt\<lparr>s_warning_count := unat wc, s_status := st\<rparr>), t\<lparr>status := st\<rparr>)"
      "after_packet s (eof_bytes wc st) (stream (pkt_seq s + of_nat (nframes (eof_bytes wc st))) ps @ rest) t"
    using prepare_eof [OF coming_Cons [OF c whole_eof]] by blast
  then show ?case using coming_after [OF c] by auto
next
  case (Cons d ds)
  then have c: "coming s (fd_bytes d # (map fd_bytes ds @ eof_bytes wc st # ps)) rest q" and d: "fd_ok d" by simp_all
  then have w: "whole (fd_bytes d)" by (simp add: fd_ok_def)
  let ?stmt = "stmt\<lparr>s_fields := s_fields stmt @ [shown_field (fullFieldInfo s) (fd_field d)]\<rparr>"
  obtain t where t: "getPrepareResult (Some stmt) s = getPrepareResult (Some ?stmt) t"
      "after_packet s (fd_bytes d) (stream (pkt_seq s + of_nat (nframes (fd_bytes d))) (map fd_bytes ds @ eof_bytes wc st # ps) @ rest) t"
    using prepare_field [OF coming_Cons [OF c w] d Cons.prems(2)] Cons.prems(3) by auto
  note ct = coming_after [OF c t(2)]
  have "fullFieldInfo t = fullFieldInfo s" using t(2) by (rule conjunct1 [OF after_packet_conn])
  then obtain u where "getPrepareResult (Some ?stmt) t = Ret (Inr (?stmt\<lparr>s_fields := s_fields ?stmt @
      map (shown_field (fullFieldInfo s) \<circ> fd_field) ds, s_warning_count := unat wc, s_status := st\<rparr>), u\<lparr>status := st\<rparr>)"
      "coming u ps rest q" "moved_rd t u"
    using Cons.IH [of ?stmt t] Cons.prems(1-3) ct by auto
  then show ?case using t(1) ct moved_rd_trans by auto
qed

definition prepare_reply :: "32 word \<Rightarrow> byte list list \<Rightarrow> field_def list \<Rightarrow> 16 word \<Rightarrow> 16 word \<Rightarrow> byte list list" where
  "prepare_reply sid pds ds wc st =
     prep_ok_bytes sid (of_nat (length ds)) (of_nat (length pds)) wc
     # (if pds = [] then [] else pds @ [eof_bytes wc st]) @ (if ds = [] then [] else map fd_bytes ds @ [eof_bytes wc st])"

lemma moved_rd_stmts: "moved_rd s t \<Longrightarrow> stmts t = stmts s \<and> stmt_map t = stmt_map s \<and> wr t = wr s
    \<and> connected t = connected s \<and> unreaded_reply t = unreaded_reply s \<and> fullFieldInfo t = fullFieldInfo s"
  by (auto simp: moved_rd_def)

lemma moved_wr_stmts: "moved_wr s t \<Longrightarrow> stmts t = stmts s \<and> stmt_map t = stmt_map s"
  by (auto simp: moved_wr_def)

text \<open>What stays of the connection while the reply to a preparation is read.\<close>

definition same_conn :: "'a my_conn_scheme \<Rightarrow> 'a my_conn_scheme \<Rightarrow> bool" where
  "same_conn s t \<longleftrightarrow> stmts t = stmts s \<and> stmt_map t = stmt_map s \<and> wr t = wr s \<and> connected t = connected s
     \<and> unreaded_reply t = unreaded_reply s \<and> fullFieldInfo t = fullFieldInfo s"

lemma same_conn_trans: "same_conn s t \<Longrightarrow> same_conn t u \<Longrightarrow> same_conn s u"
  and same_conn_status: "moved_rd s t \<Longrightarrow> same_conn s (t\<lparr>status := st\<rparr>)"
  and same_conn_rd: "moved_rd s t \<Longrightarrow> same_conn s t"
  using moved_rd_stmts [of s t] by (simp_all add: same_conn_def)

lemma prepare_reply_read:
  assumes "\<forall>p \<in> set pds. param_def p" "\<forall>d \<in> set ds. fd_ok d" "length pds < 65536" "length ds < 65536"
    and "coming s (prepare_reply sid pds ds wc st) rest q"
  shows "\<exists>stmt t. pbind (getPrepareResult None) (\<lambda>stmt.
       pbind (if s_params stmt \<noteq> [] then getPrepareResult (Some stmt) else pret stmt) (\<lambda>stmt.
         if 0 < s_n_fields stmt then getPrepareResult (Some stmt) else pret stmt)) s = Ret (Inr stmt, t)
    \<and> unreads (rd t) = rest \<and> same_conn s t \<and> s_my stmt \<and> s_id stmt = sid \<and> s_param_count stmt = length pds
    \<and> s_params stmt = replicate (length pds) unbound \<and> s_null_bitmap stmt = replicate ((length pds + 7) div 8) 0
    \<and> s_fields stmt = map (shown_field (fullFieldInfo s) \<circ> fd_field) ds \<and> \<not> s_binded stmt"
proof -
  define tailf where "tailf = (if ds = [] then [] else map fd_bytes ds @ [eof_bytes wc st])"
  define tailp where "tailp = (if pds = [] then [] else pds @ [eof_bytes wc st])"
  let ?ok = "prep_ok_bytes sid (of_nat (length ds)) (of_nat (length pds)) wc"
  have c: "coming s (?ok # (tailp @ tailf)) rest q" using assms(5) by (simp add: prepare_reply_def tailf_def tailp_def)
  have u: "unat (of_nat (length ds) :: 16 word) = length ds" "unat (of_nat (length pds) :: 16 word) = length pds"
    using assms(3,4) by (simp_all add: unsigned_of_nat take_bit_nat_eq_self)
  have w: "whole ?ok" by (simp add: whole_def prep_ok_bytes_def max_pkt_def)
  define s0 where "s0 = new_stmt sid (length ds) (length pds) wc"
  obtain t0 where t0: "getPrepareResult None s = Ret (Inr s0, t0)"
      "after_packet s ?ok (stream (pkt_seq s + of_nat (nframes ?ok)) (tailp @ tailf) @ rest) t0"
    using prepare_ok [OF coming_Cons [OF c w]] unfolding u s0_def by blast
  note c0 = coming_after [OF c t0(2)]
  have s0: "s_params s0 = replicate (length pds) unbound" "s_param_count s0 = 0" "s_n_fields s0 = length ds" "s_fields s0 = []"
    by (simp_all add: s0_def new_stmt_def no_stmt_def)
  obtain s1 t1 where t1: "(if s_params s0 \<noteq> [] then getPrepareResult (Some s0) else pret s0) t0 = Ret (Inr s1, t1)"
      "coming t1 tailf rest q" "same_conn t0 t1"
      "\<exists>a b. s1 = s0\<lparr>s_param_count := length pds, s_warning_count := a, s_status := b\<rparr>"
  proof (cases "pds = []")
    case True
    have "\<exists>a b. s0 = s0\<lparr>s_param_count := length pds, s_warning_count := a, s_status := b\<rparr>"
      using s0 True by (intro exI [of _ "s_warning_count s0"] exI [of _ "s_status s0"]) simp
    from that [OF _ _ _ this, of t0] show ?thesis using True c0 s0 by (simp add: tailp_def pret_def same_conn_def)
  next
    case False
    then have "coming t0 (pds @ eof_bytes wc st # tailf) rest q" using c0 by (simp add: tailp_def)
    then obtain t1 where "getPrepareResult (Some s0) t0 = Ret (Inr (s0\<lparr>s_param_count := length pds, s_warning_count := unat wc, s_status := st\<rparr>), t1\<lparr>status := st\<rparr>)"
        "coming t1 tailf rest q" "moved_rd t0 t1"
      using prepare_params [OF assms(1), of s0 t0 wc st tailf rest q] s0 by auto
    moreover have "s_params s0 \<noteq> []" using False s0 by simp
    ultimately show ?thesis
      using same_conn_status [of t0 t1 st] by (intro that [of _ "t1\<lparr>status := st\<rparr>"]) (auto simp: coming_status)
  qed
  then have s1: "s_params s1 = replicate (length pds) unbound" "s_param_count s1 = length pds" "s_n_fields s1 = length ds" "s_fields s1 = []"
      "s_my s1" "s_id s1 = sid" "s_null_bitmap s1 = replicate ((length pds + 7) div 8) 0" "\<not> s_binded s1"
    using s0 by (auto simp: s0_def new_stmt_def no_stmt_def)
  obtain s2 t2 where t2: "(if 0 < s_n_fields s1 then getPrepareResult (Some s1) else pret s1) t1 = Ret (Inr s2, t2)"
      "coming t2 [] rest q" "same_conn t1 t2"
      "\<exists>a b. s2 = s1\<lparr>s_fields := map (shown_field (fullFieldInfo t1) \<circ> fd_field) ds, s_warning_count := a, s_status := b\<rparr>"
  proof (cases "ds = []")
    case True
    have "\<exists>a b. s1 = s1\<lparr>s_fields := map (shown_field (fullFieldInfo t1) \<circ> fd_field) ds, s_warning_count := a, s_status := b\<rparr>"
      using s1 True by (intro exI [of _ "s_warning_count s1"] exI [of _ "s_status s1"]) simp
    from that [OF _ _ _ this, of t1] show ?thesis using True t1(2) s1 by (simp add: tailf_def pret_def same_conn_def)
  next
    case False
    then have "coming t1 (map fd_bytes ds @ eof_bytes wc st # []) rest q" using t1(2) by (simp add: tailf_def)
    then obtain t2 where "getPrepareResult (Some s1) t1 = Ret (Inr (s1\<lparr>s_fields := map (shown_field (fullFieldInfo t1) \<circ> fd_field) ds,
        s_warning_count := unat wc, s_status := st\<rparr>), t2\<lparr>status := st\<rparr>)" "coming t2 [] rest q" "moved_rd t1 t2"
      using prepare_fields [OF assms(2), of s1 t1 wc st "[]" rest q] s1 by auto
    moreover have "0 < s_n_fields s1" using False s1 by simp
    ultimately show ?thesis
      using same_conn_status [of t1 t2 st] by (intro that [of _ "t2\<lparr>status := st\<rparr>"]) (auto simp: coming_status)
  qed
  have "same_conn s t2" using same_conn_rd c0 t1(3) t2(3) same_conn_trans by blast
  moreover have "fullFieldInfo t1 = fullFieldInfo s" using same_conn_rd c0 t1(3) by (auto simp: same_conn_def)
  ultimately show ?thesis
    using t0(1) t1(1) t2 s1 by (intro exI [of _ s2] exI [of _ t2]) (auto simp: coming_def)
qed

text \<open>
  \<open>Prepare\<close> sends one command and, when the server answers with the statement's identifier and the
  definitions of its parameters and columns, returns a new statement with this identifier, as many
  unbound parameters as were announced, a bitmap of the right length and the columns' definitions.
  The statement is registered under its identifier, its text is kept for a later reconnect, the reply is consumed to its last
  byte and the connection can take the next command.
\<close>

lemma Prepare_returns_statement:
  assumes "my_idle s" "\<forall>p \<in> set pds. param_def p" "\<forall>d \<in> set ds. fd_ok d" "length pds < 65536" "length ds < 65536"
    and "unreads (rd s) = stream (of_nat (nframes (COM_STMT_PREPARE # sql))) (prepare_reply sid pds ds wc st) @ rest"
  shows "\<exists>t stmt. Prepare sql s = Ret (Inr (length (stmts s)), t) \<and> stmts t = stmts s @ [stmt]
    \<and> map_of (stmt_map t) sid = Some (length (stmts s)) \<and> s_sql stmt = sql \<and> s_id stmt = sid \<and> s_my stmt
    \<and> s_param_count stmt = length pds \<and> s_params stmt = replicate (length pds) unbound
    \<and> length (s_null_bitmap stmt) = (length pds + 7) div 8
    \<and> s_fields stmt = map (shown_field (fullFieldInfo s) \<circ> fd_field) ds
    \<and> wire (wr t) = wire (wr s) @ frames 0 (COM_STMT_PREPARE # sql) \<and> unreads (rd t) = rest \<and> my_idle t"
proof -
  obtain s1 where s1: "sendCmdStr COM_STMT_PREPARE sql s = Ret (Inr (), s1)" "moved_wr s s1" "healthy (wr s1)" "wbuf (wr s1) = []"
      "wire (wr s1) = wire (wr s) @ frames 0 (COM_STMT_PREPARE # sql)" "pkt_seq s1 = of_nat (nframes (COM_STMT_PREPARE # sql))"
    using sendCmdStr_ok [OF assms(1)] by blast
  note m1 = moved_wr_conn [OF s1(2)] moved_wr_stmts [OF s1(2)]
  have "coming s1 (prepare_reply sid pds ds wc st) rest (seq_after (pkt_seq s1) (prepare_reply sid pds ds wc st))"
    using assms(6) s1(6) m1 by (simp add: coming_def)
  from prepare_reply_read [OF assms(2-5) this] obtain stmt t where t: "pbind (getPrepareResult None) (\<lambda>stmt.
       pbind (if s_params stmt \<noteq> [] then getPrepareResult (Some stmt) else pret stmt) (\<lambda>stmt.
         if 0 < s_n_fields stmt then getPrepareResult (Some stmt) else pret stmt)) s1 = Ret (Inr stmt, t)"
      "unreads (rd t) = rest" "same_conn s1 t" "s_my stmt" "s_id stmt = sid" "s_param_count stmt = length pds"
      "s_params stmt = replicate (length pds) unbound" "s_null_bitmap stmt = replicate ((length pds + 7) div 8) 0"
      "s_fields stmt = map (shown_field (fullFieldInfo s1) \<circ> fd_field) ds"
    by blast
  have "prepare sql s = Ret (Inr stmt, t)"
    using s1(1) t(1) by (simp add: prepare_def catchError_eq_Inr)
  then have "Prepare sql s = Ret (Inr (length (stmts s)), t\<lparr>stmts := stmts t @ [stmt\<lparr>s_sql := sql\<rparr>],
      stmt_map := AList.update (s_id stmt) (length (stmts s)) (stmt_map t)\<rparr>)"
    using assms(1) t(3) m1 by (simp add: Prepare_def stmt_ready_def my_idle_def pret_def same_conn_def)
  then show ?thesis
    using t m1 s1 assms(1)
    by (intro exI [of _ "t\<lparr>stmts := stmts t @ [stmt\<lparr>s_sql := sql\<rparr>], stmt_map := AList.update (s_id stmt) (length (stmts s)) (stmt_map t)\<rparr>"]
        exI [of _ "stmt\<lparr>s_sql := sql\<rparr>"]) (simp add: same_conn_def my_idle_def update_conv)
qed

section \<open>Long data in pieces\<close>

function pieces_of :: "nat \<Rightarrow> byte list \<Rightarrow> byte list list" where
  "pieces_of k dd = (if length dd \<le> k \<or> k = 0 then [dd] else take k dd # pieces_of k (drop k dd))"
  by pat_completeness auto
termination by (relation "measure (\<lambda>(_, dd). length dd)") auto

declare pieces_of.simps [simp del]

definition long_data_payload :: "32 word \<Rightarrow> 16 word \<Rightarrow> byte list \<Rightarrow> byte list" where
  "long_data_payload sid pnum c = [COM_STMT_SEND_LONG_DATA] @ EncodeU32 sid @ EncodeU16 pnum @ c"

lemma concat_pieces: "concat (pieces_of k dd) = dd"
proof (induction k dd rule: pieces_of.induct)
  case (1 k dd)
  then show ?case by (subst pieces_of.simps) simp
qed

lemma pieces_length: "0 < k \<Longrightarrow> \<forall>c \<in> set (pieces_of k dd). length c \<le> k"
proof (induction k dd rule: pieces_of.induct)
  case (1 k dd)
  then show ?case by (subst pieces_of.simps) auto
qed

lemma sendLongData_ok:
  assumes "my_idle s"
  shows "\<exists>t. sendLongData sid pnum c s = Ret (Inr (), t) \<and> moved_wr s t \<and> my_idle t
    \<and> wire (wr t) = wire (wr s) @ frames 0 (long_data_payload sid pnum c)"
proof -
  have e: "emits (pbind (writeByte COM_STMT_SEND_LONG_DATA) (\<lambda>_. pbind (writeU32 sid) (\<lambda>_. pbind (writeU16 pnum) (\<lambda>_. pw_write c))))
      (long_data_payload sid pnum c)"
    unfolding long_data_payload_def by (intro emits_bind writeByte_emits writeU_emits pw_write_emits)
  have "length (long_data_payload sid pnum c) = 1 + 4 + 2 + length c" by (simp add: long_data_payload_def)
  moreover obtain t where "pbind reset_seq (\<lambda>_. pbind (newPktWriter (length (long_data_payload sid pnum c))) (\<lambda>_.
      pbind (writeByte COM_STMT_SEND_LONG_DATA) (\<lambda>_. pbind (writeU32 sid) (\<lambda>_. pbind (writeU16 pnum) (\<lambda>_. pw_write c))))) s = Ret (Inr (), t)"
      "moved_wr s t" "healthy (wr t)" "wbuf (wr t) = []" "wire (wr t) = wire (wr s) @ frames 0 (long_data_payload sid pnum c)"
    using send_from_idle [OF assms e] by (auto simp: long_data_payload_def)
  moreover from this have "my_idle t" using assms moved_wr_conn [of s t] by (simp add: my_idle_def)
  ultimately show ?thesis unfolding sendLongData_def by auto
qed

lemma send_pieces_ok:
  assumes "0 < k" "my_idle s"
  shows "\<exists>t. send_pieces sid pnum k dd s = Ret (Inr (), t) \<and> moved_wr s t \<and> my_idle t
    \<and> wire (wr t) = wire (wr s) @ concat (map (\<lambda>c. frames 0 (long_data_payload sid pnum c)) (pieces_of k dd))"
  using assms
proof (induction k dd arbitrary: s rule: pieces_of.induct)
  case (1 k dd)
  show ?case
  proof (cases "length dd \<le> k")
    case True
    then show ?thesis
      using sendLongData_ok [OF "1.prems"(2), of sid pnum dd] by (auto simp: send_pieces.simps pieces_of.simps)
  next
    case False
    obtain t where t: "sendLongData sid pnum (take k dd) s = Ret (Inr (), t)" "moved_wr s t" "my_idle t"
        "wire (wr t) = wire (wr s) @ frames 0 (long_data_payload sid pnum (take k dd))"
      using sendLongData_ok [OF "1.prems"(2)] by blast
    obtain u where "send_pieces sid pnum k (drop k dd) t = Ret (Inr (), u)" "moved_wr t u" "my_idle u"
        "wire (wr u) = wire (wr t) @ concat (map (\<lambda>c. frames 0 (long_data_payload sid pnum c)) (pieces_of k (drop k dd)))"
      using "1.IH" [of t] False "1.prems"(1) t(3) by auto
    moreover have "pieces_of k dd = take k dd # pieces_of k (drop k dd)"
      using False "1.prems"(1) by (subst pieces_of.simps) simp
    ultimately show ?thesis
      using t False "1.prems"(1) moved_wr_trans by (subst send_pieces.simps) auto
  qed
qed

text \<open>
  \<open>SendLongData\<close> of a byte slice or string with a packet size above 6 sends it in pieces whose
  concatenation is the data, one packet per piece behind the statement's identifier and the parameter's
  number, and leaves the connection ready.  A packet has up to one byte more than \<open>pkt_size\<close>, since the command
  takes 7 bytes where 6 are deducted.  The size 6, which the code accepts, never ends unless the data is empty.
\<close>

lemma SendLongData_pieces:
  assumes "my_idle s" "s_my (stmts s ! i)" "0 \<le> pnum" "pnum < int (s_param_count (stmts s ! i))"
  shows "(6 < pkt_size \<longrightarrow> (\<exists>cs t. SendLongData i pnum (From_bytes dd) pkt_size s = Ret (Inr (), t) \<and> concat cs = dd \<and> my_idle t
      \<and> wire (wr t) = wire (wr s) @ concat (map (\<lambda>c. frames 0 (long_data_payload (s_id (stmts s ! i)) (word_of_int pnum) c)) cs)
      \<and> (\<forall>c \<in> set cs. int (length (long_data_payload (s_id (stmts s ! i)) (word_of_int pnum) c)) \<le> pkt_size + 1)))
    \<and> (pkt_size = 6 \<longrightarrow> dd \<noteq> [] \<longrightarrow> SendLongData i pnum (From_bytes dd) pkt_size s = Hang)"
proof (intro conjI impI)
  have idle: "SendLongData i pnum (From_bytes dd) pkt_size s =
      catchError (send_pieces (s_id (stmts s ! i)) (word_of_int pnum) (nat (pkt_size - 6)) dd) s" if "6 \<le> pkt_size"
    using assms that by (simp add: SendLongData_def stmt_at_def on_idle_def my_idle_def catchError_def)
  {
    assume p: "6 < pkt_size"
    then have k: "0 < nat (pkt_size - 6)" by simp
    obtain t where t: "send_pieces (s_id (stmts s ! i)) (word_of_int pnum) (nat (pkt_size - 6)) dd s = Ret (Inr (), t)" "my_idle t"
        "wire (wr t) = wire (wr s) @ concat (map (\<lambda>c. frames 0 (long_data_payload (s_id (stmts s ! i)) (word_of_int pnum) c))
          (pieces_of (nat (pkt_size - 6)) dd))"
      using send_pieces_ok [OF k assms(1)] by blast
    have "int (length (long_data_payload (s_id (stmts s ! i)) (word_of_int pnum) c)) \<le> pkt_size + 1"
      if "c \<in> set (pieces_of (nat (pkt_size - 6)) dd)" for c
      using pieces_length [OF k, of dd] that p by (fastforce simp: long_data_payload_def)
    then show "\<exists>cs t. SendLongData i pnum (From_bytes dd) pkt_size s = Ret (Inr (), t) \<and> concat cs = dd \<and> my_idle t
      \<and> wire (wr t) = wire (wr s) @ concat (map (\<lambda>c. frames 0 (long_data_payload (s_id (stmts s ! i)) (word_of_int pnum) c)) cs)
      \<and> (\<forall>c \<in> set cs. int (length (long_data_payload (s_id (stmts s ! i)) (word_of_int pnum) c)) \<le> pkt_size + 1)"
      using t p concat_pieces [of "nat (pkt_size - 6)" dd] unfolding idle [OF less_imp_le [OF p]] by (auto simp: catchError_eq_Inr)
  next
    assume p: "pkt_size = 6" "dd \<noteq> []"
    obtain t where t: "sendLongData (s_id (stmts s ! i)) (word_of_int pnum) [] s = Ret (Inr (), t)"
      using sendLongData_ok [OF assms(1)] by blast
    have "send_pieces (s_id (stmts s ! i)) (word_of_int pnum) 0 dd s = Hang"
      using p t by (subst send_pieces.simps) simp
    then show "SendLongData i pnum (From_bytes dd) pkt_size s = Hang"
      unfolding idle [OF eq_refl [OF p(1) [symmetric]]] using p by (simp add: catchError_def)
  }
qed

end
