(* ===== verification/My_Passwd.thy ===== *)
theory My_Passwd
  imports Go_Crypto
begin

text \<open>
  The passwords of the MySQL driver (\<open>native/passwd.go\<close>): the reply to the server's scramble, with
  SHA-1 and in the form of servers before 4.1, and the check the server makes of the former.
\<close>

section \<open>The reply with SHA-1\<close>

text \<open>The scramble of the driver is an array of 20 bytes; a longer one would index the hash out of
  bounds.\<close>

definition encryptedPasswd :: "byte list \<Rightarrow> byte list \<Rightarrow> byte list go" where
  "encryptedPasswd password scramble =
     (if password = [] then Ret []
      else let stg1Hash = sha1 password; stg2Hash = sha1 stg1Hash; stg3Hash = sha1 (scramble @ stg2Hash) in
        if 20 < length scramble then Panic Index_Out_Of_Range
        else Ret (map2 xor (take (length scramble) stg3Hash) (take (length scramble) stg1Hash)))"

text \<open>The server stores the hash of the hash of the password.  It finds the first hash by removing from
  the reply what it can compute itself, and compares.\<close>

definition native_stored :: "byte list \<Rightarrow> byte list" where
  "native_stored password = sha1 (sha1 password)"

definition native_check :: "byte list \<Rightarrow> byte list \<Rightarrow> byte list \<Rightarrow> bool" where
  "native_check stored scramble reply \<longleftrightarrow>
     length reply = 20 \<and> sha1 (map2 xor reply (sha1 (scramble @ stored))) = stored"

lemma map2_xor_cancel: "length xs = length ys \<Longrightarrow> map2 xor (map2 xor xs ys) xs = (ys :: byte list)"
proof (induction xs ys rule: list_induct2)
  case (Cons x xs y ys)
  have "xor (xor x y) x = y" by (simp add: xor.commute xor.left_commute)
  then show ?case using Cons by simp
qed simp

section \<open>The reply to old servers\<close>

record myRnd =
  seed1 :: "32 word"
  seed2 :: "32 word"

definition myRndMaxVal :: "32 word" where "myRndMaxVal = 0x3FFFFFFF"

definition newMyRnd :: "32 word \<Rightarrow> 32 word \<Rightarrow> myRnd" where
  "newMyRnd s1 s2 = \<lparr>seed1 = s1 mod myRndMaxVal, seed2 = s2 mod myRndMaxVal\<rparr>"

text \<open>
  \<open>Float64\<close> yields \<open>seed1 / myRndMaxVal\<close> after a step of the generator; its callers take the integer
  part of 31 times that.  The division is exact here.  Rounding to 53 bits moves a value by less than \<open>2 ^ -47\<close>,
  while a product that is not an integer is at least \<open>2 ^ -30\<close> away from one, and the products that are integers
  (the quotients \<open>k / 31\<close>) come out exact in floating point, so that the integer part is the same.
\<close>

definition rnd_step :: "myRnd \<Rightarrow> myRnd" where
  "rnd_step r =
     (let s1 = (seed1 r * 3 + seed2 r) mod myRndMaxVal
      in \<lparr>seed1 = s1, seed2 = (s1 + seed2 r + 33) mod myRndMaxVal\<rparr>)"

definition floor_Float64_31 :: "myRnd \<Rightarrow> int \<times> myRnd" where
  "floor_Float64_31 r = (let r' = rnd_step r in (uint (seed1 r') * 31 div uint myRndMaxVal, r'))"

fun pw_step :: "32 word \<times> 32 word \<times> 32 word \<Rightarrow> byte \<Rightarrow> 32 word \<times> 32 word \<times> 32 word" where
  "pw_step (nr, add, nr2) c =
     (if c = 32 \<or> c = 9 then (nr, add, nr2)
      else let tmp = ucast c;
               nr' = xor nr (((and nr 63 + add) * tmp) + push_bit 8 nr);
               nr2' = nr2 + xor (push_bit 8 nr2) nr'
           in (nr', add + tmp, nr2'))"

definition pwHash :: "byte list \<Rightarrow> 32 word \<times> 32 word" where
  "pwHash password =
     (case foldl pw_step (1345345333, 7, 0x12345671) password of
        (nr, _, nr2) \<Rightarrow> (and nr 0x7FFFFFFF, and nr2 0x7FFFFFFF))"

text \<open>The generated bytes are a byte of 64 and up each, from the next \<open>n\<close> random numbers.\<close>

fun old_bytes :: "nat \<Rightarrow> myRnd \<Rightarrow> byte list \<times> myRnd" where
  "old_bytes 0 r = ([], r)"
| "old_bytes (Suc n) r =
     (let (x, r1) = floor_Float64_31 r; (bs, r2) = old_bytes n r1
      in (word_of_int (x + 64) # bs, r2))"

definition encryptedOldPassword :: "byte list \<Rightarrow> byte list \<Rightarrow> byte list go" where
  "encryptedOldPassword password scramble =
     (if password = [] then Ret []
      else if length scramble < 8 then Panic Index_Out_Of_Range
      else
        let hashPw = pwHash password; hashSc = pwHash (take 8 scramble);
            r = newMyRnd (xor (fst hashPw) (fst hashSc)) (xor (snd hashPw) (snd hashSc));
            (out, r') = old_bytes 8 r;
            extra = word_of_int (fst (floor_Float64_31 r'))
        in Ret (map (\<lambda>b. xor b extra) out))"

section \<open>What the server accepts\<close>

text \<open>
  The reply to a scramble of 20 bytes proves the password: the server, which knows the hash of its
  hash only, accepts it.  An empty password has an empty reply.
\<close>

lemma encryptedPasswd_checks:
  assumes "length scramble = 20"
  shows "\<exists>reply. encryptedPasswd password scramble = Ret reply
    \<and> (if password = [] then reply = [] else native_check (native_stored password) scramble reply)"
proof (cases "password = []")
  case True
  then show ?thesis by (simp add: encryptedPasswd_def)
next
  case False
  define reply where "reply = map2 xor (sha1 (scramble @ sha1 (sha1 password))) (sha1 password)"
  have "encryptedPasswd password scramble = Ret reply"
    using False assms by (simp add: encryptedPasswd_def reply_def Let_def)
  moreover have "native_check (native_stored password) scramble reply"
    by (simp add: native_check_def native_stored_def reply_def map2_xor_cancel)
  ultimately show ?thesis using False by simp
qed

lemma floor_range: "0 \<le> fst (floor_Float64_31 r) \<and> fst (floor_Float64_31 r) \<le> 30"
proof -
  define u where "u = uint (seed1 (rnd_step r))"
  have "seed1 (rnd_step r) < myRndMaxVal"
    by (simp add: rnd_step_def Let_def word_less_nat_alt unat_mod myRndMaxVal_def)
  then have u: "0 \<le> u" "u < 1073741823" by (simp_all add: u_def word_less_def myRndMaxVal_def)
  have "fst (floor_Float64_31 r) = u * 31 div 1073741823"
    by (simp add: floor_Float64_31_def Let_def u_def myRndMaxVal_def)
  moreover have "u * 31 div 1073741823 \<le> 30"
    using u zdiv_mono1 [of "u * 31" "31 * 1073741823 - 1" 1073741823] by simp
  ultimately show ?thesis using u by (simp add: pos_imp_zdiv_nonneg_iff)
qed

lemma word_of_range:
  assumes "int l \<le> k" "k \<le> int h" "h < 256"
  shows "of_nat l \<le> (word_of_int k :: byte) \<and> (word_of_int k :: byte) \<le> of_nat h"
proof -
  have u: "uint (word_of_int i :: byte) = i" if "0 \<le> i" "i < 256" for i
    using that by (simp add: uint_word_of_int)
  have "uint (of_nat l :: byte) = int l" "uint (of_nat h :: byte) = int h" "uint (word_of_int k :: byte) = k"
    using u [of "int l"] u [of "int h"] u [of k] assms by simp_all
  then show ?thesis
    using assms(1,2) unfolding Word.word_le_def by simp
qed

lemma old_bytes_range: "\<forall>b \<in> set (fst (old_bytes n r)). 64 \<le> b \<and> b \<le> 94"
proof (induction n arbitrary: r)
  case (Suc n)
  have "64 \<le> (word_of_int (fst (floor_Float64_31 r) + 64) :: byte) \<and> (word_of_int (fst (floor_Float64_31 r) + 64) :: byte) \<le> 94"
    using word_of_range [of 64 "fst (floor_Float64_31 r) + 64" 94] floor_range [of r] by auto
  then show ?case using Suc [of "snd (floor_Float64_31 r)"] by (auto split: prod.splits simp: Let_def)
qed simp

lemma length_old_bytes: "length (fst (old_bytes n r)) = n"
  by (induction n arbitrary: r) (auto split: prod.splits simp: Let_def, metis fst_conv)

lemma xor_stays:
  fixes b e :: byte
  assumes "64 \<le> b" "b \<le> 94" "e \<le> 30"
  shows "64 \<le> xor b e \<and> xor b e \<le> 95"
proof -
  have unat_of_nat_2: "unat (2 :: byte) = 2" by simp
  have unat_drop: "unat (drop_bit 5 w) = unat w div 32" for w :: byte by (simp add: drop_bit_eq_div unat_div)
  have "unat (drop_bit 5 b) = 2" using assms(1,2) unfolding unat_drop by (simp add: word_le_nat_alt)
  then have "drop_bit 5 b = 2" by (metis unat_of_nat_2 word_unat_eq_iff)
  moreover have "unat (drop_bit 5 e) = 0" using assms(3) unfolding unat_drop by (simp add: word_le_nat_alt)
  then have "drop_bit 5 e = 0" by (simp add: unat_eq_0)
  ultimately have "drop_bit 5 (xor b e) = 2" by simp
  then have "unat (xor b e) div 32 = 2"
    using unat_drop [of "xor b e"] by simp
  then have "64 \<le> unat (xor b e) \<and> unat (xor b e) \<le> 95" by linarith
  then show ?thesis by (simp add: word_le_nat_alt)
qed

text \<open>
  The old reply is eight bytes between 64 and 95: none of them is the zero byte that ends it in its
  packet.
\<close>

lemma old_password_printable:
  assumes "password \<noteq> []" "8 \<le> length scramble"
  shows "\<exists>reply. encryptedOldPassword password scramble = Ret reply \<and> length reply = 8
    \<and> (\<forall>b \<in> set reply. 64 \<le> b \<and> b \<le> 95)"
proof -
  define r where "r = newMyRnd (xor (fst (pwHash password)) (fst (pwHash (take 8 scramble))))
      (xor (snd (pwHash password)) (snd (pwHash (take 8 scramble))))"
  define r' where "r' = snd (old_bytes 8 r)"
  define extra :: byte where "extra = word_of_int (fst (floor_Float64_31 r'))"
  have e: "extra \<le> 30"
    using word_of_range [of 0 "fst (floor_Float64_31 r')" 30] floor_range [of r'] by (simp add: extra_def)
  have "encryptedOldPassword password scramble = Ret (map (\<lambda>b. xor b extra) (fst (old_bytes 8 r)))"
    using assms by (simp add: encryptedOldPassword_def Let_def r_def [symmetric] extra_def r'_def split: prod.splits)
  moreover have "\<forall>b \<in> set (map (\<lambda>b. xor b extra) (fst (old_bytes 8 r))). 64 \<le> b \<and> b \<le> 95"
    using old_bytes_range [of 8 r] xor_stays e by auto
  ultimately show ?thesis by (simp add: length_old_bytes)
qed

end
