(* ===== verification/My_Connect.thy ===== *)
theory My_Connect
  imports My_Stmt My_Passwd
begin

text \<open>
  Connecting to a MySQL server: the handshake (\<open>native/init.go\<close>), \<open>New\<close>, \<open>Connect\<close>, \<open>Reconnect\<close>,
  registered commands and transactions (\<open>native/mysql.go\<close>).

  A socket is what a dialer yields: the pieces in which the server's bytes will come, the error
  after them, and whether writes fail.
\<close>

section \<open>New connections\<close>

record socket =
  sk_pieces :: "byte list list"
  sk_err :: my_err
  sk_fail :: "my_err option"

definition no_info :: serverInfo where
  "no_info = \<lparr>prot_ver = 0, serv_ver = [], thr_id = 0, scramble = replicate 20 0, caps = 0, lang = 0\<rparr>"

definition unplugged_rd :: bufio_rd where
  "unplugged_rd = \<lparr>pieces = [], rd_err = Net_Err [], last_byte = None\<rparr>"

definition unplugged_wr :: bufio_wr where
  "unplugged_wr = \<lparr>wbuf = [], wire = [], wr_err = None, net_fail = None\<rparr>"

text \<open>The address and the timeout matter to the dialer only, whose outcome is a parameter of \<open>connect\<close>.\<close>

definition New :: "byte list \<Rightarrow> byte list \<Rightarrow> byte list list \<Rightarrow> my_conn go" where
  "New us pw db =
     (if 1 < length db then Panic (Explicit_Panic ''mymy.New: too many arguments'')
      else Ret \<lparr>rd = unplugged_rd, wr = unplugged_wr, pkt_seq = 0, remain = 0, last_pkt = False, w_remain = 0, w_to_write = 0,
        w_last = False, w_buf = [], connected = False, user = us, passwd = pw, dbname = concat db, info = no_info,
        unreaded_reply = False, init_cmds = [], stmts = [], stmt_map = [], status = 0, max_pkt_size = 16 * 1024 * 1024 - 1,
        narrowTypeSet = False, fullFieldInfo = True\<rparr>)"

definition Clone :: "my_conn \<Rightarrow> my_conn go" where
  "Clone c = go_bind (New (user c) (passwd c) (if dbname c = [] then [] else [dbname c])) (\<lambda>d. Ret (d\<lparr>max_pkt_size := max_pkt_size c\<rparr>))"

definition SetMaxPktSize :: "int \<Rightarrow> ('a my_conn_scheme, int) pm" where
  "SetMaxPktSize new_size =
     pbind (gets max_pkt_size) (\<lambda>old. pbind (if 0 < new_size then modify (\<lambda>c. c\<lparr>max_pkt_size := new_size\<rparr>) else pret ()) (\<lambda>_. pret old))"

definition Register :: "byte list \<Rightarrow> ('a my_conn_scheme, unit) pm" where
  "Register sql = modify (\<lambda>c. c\<lparr>init_cmds := init_cmds c @ [sql]\<rparr>)"

definition NarrowTypeSet :: "bool \<Rightarrow> ('a my_conn_scheme, unit) pm" where
  "NarrowTypeSet narrow = modify (\<lambda>c. c\<lparr>narrowTypeSet := narrow\<rparr>)"

definition FullFieldInfo :: "bool \<Rightarrow> ('a my_conn_scheme, unit) pm" where
  "FullFieldInfo full = modify (\<lambda>c. c\<lparr>fullFieldInfo := full\<rparr>)"

section \<open>The handshake\<close>

definition CLIENT_LONG_PASSWORD :: "32 word" where "CLIENT_LONG_PASSWORD = push_bit 0 1"
definition CLIENT_LONG_FLAG :: "32 word" where "CLIENT_LONG_FLAG = push_bit 2 1"
definition CLIENT_CONNECT_WITH_DB :: "32 word" where "CLIENT_CONNECT_WITH_DB = push_bit 3 1"
definition CLIENT_LOCAL_FILES :: "32 word" where "CLIENT_LOCAL_FILES = push_bit 7 1"
definition CLIENT_PROTOCOL_41 :: "32 word" where "CLIENT_PROTOCOL_41 = push_bit 9 1"
definition CLIENT_TRANSACTIONS :: "32 word" where "CLIENT_TRANSACTIONS = push_bit 13 1"
definition CLIENT_SECURE_CONN :: "32 word" where "CLIENT_SECURE_CONN = push_bit 15 1"
definition CLIENT_MULTI_STATEMENTS :: "32 word" where "CLIENT_MULTI_STATEMENTS = push_bit 16 1"
definition CLIENT_MULTI_RESULTS :: "32 word" where "CLIENT_MULTI_RESULTS = push_bit 17 1"

definition set_info :: "(serverInfo \<Rightarrow> serverInfo) \<Rightarrow> ('a my_conn_scheme, unit) pm" where
  "set_info f = modify (\<lambda>c. c\<lparr>info := f (info c)\<rparr>)"

definition has_41 :: "'a my_conn_scheme \<Rightarrow> bool" where
  "has_41 c \<longleftrightarrow> and (ucast (caps (info c))) CLIENT_PROTOCOL_41 \<noteq> 0"

text \<open>A part of the scramble that cannot be read completely is not stored here; nothing reads it, since
  the next handshake writes it again or fails.\<close>

definition conn_init :: "('a my_conn_scheme, unit) pm" where
  "conn_init =
     pbind reset_seq (\<lambda>_. pbind newPktReader (\<lambda>_.
     pbind readByte (\<lambda>b. pbind (set_info (\<lambda>i. i\<lparr>prot_ver := b\<rparr>)) (\<lambda>_.
     pbind readNTB (\<lambda>v. pbind (set_info (\<lambda>i. i\<lparr>serv_ver := v\<rparr>)) (\<lambda>_.
     pbind readU32 (\<lambda>n. pbind (set_info (\<lambda>i. i\<lparr>thr_id := n\<rparr>)) (\<lambda>_.
     pbind (readFull 8) (\<lambda>s8. pbind (set_info (\<lambda>i. i\<lparr>scramble := s8 @ drop 8 (scramble i)\<rparr>)) (\<lambda>_.
     pbind (skipN 1) (\<lambda>_.
     pbind readU16 (\<lambda>w. pbind (set_info (\<lambda>i. i\<lparr>caps := w\<rparr>)) (\<lambda>_.
     pbind readByte (\<lambda>l. pbind (set_info (\<lambda>i. i\<lparr>lang := l\<rparr>)) (\<lambda>_.
     pbind readU16 (\<lambda>st. pbind (modify (\<lambda>c. c\<lparr>status := st\<rparr>)) (\<lambda>_.
     pbind (skipN 13) (\<lambda>_.
     pbind (gets has_41) (\<lambda>p41.
     pbind (if p41 then pbind (readFull 12) (\<lambda>s12. set_info (\<lambda>i. i\<lparr>scramble := take 8 (scramble i) @ s12\<rparr>)) else pret ()) (\<lambda>_.
     pbind skipAll (\<lambda>_.
       if p41 then pret () else raise ErrOldProtocol)))))))))))))))))))))"

definition auth_flags :: "16 word \<Rightarrow> bool \<Rightarrow> 32 word" where
  "auth_flags srv with_db =
     (let flags = and (or CLIENT_PROTOCOL_41 (or CLIENT_LONG_PASSWORD (or CLIENT_LONG_FLAG (or CLIENT_TRANSACTIONS
            (or CLIENT_SECURE_CONN (or CLIENT_LOCAL_FILES (or CLIENT_MULTI_STATEMENTS CLIENT_MULTI_RESULTS)))))))
            (or (ucast srv) 0xffff0000)
      in if with_db then or flags CLIENT_CONNECT_WITH_DB else flags)"

definition auth :: "('a my_conn_scheme, unit) pm" where
  "auth =
     pbind (gets id) (\<lambda>c.
     pbind (lift_go (encryptedPasswd (passwd c) (scramble (info c)))) (\<lambda>scrPasswd.
       let db = dbname c;
           pay_len = 4 + 4 + 1 + 23 + length (user c) + 1 + 1 + length scrPasswd + (if 0 < length db then length db + 1 else 0)
       in
       pbind (newPktWriter pay_len) (\<lambda>_.
       pbind (writeU32 (auth_flags (caps (info c)) (0 < length db))) (\<lambda>_.
       pbind (writeU32 (word_of_int (max_pkt_size c))) (\<lambda>_.
       pbind (writeByte (lang (info c))) (\<lambda>_.
       pbind (writeZeros 23) (\<lambda>_.
       pbind (writeNTB (user c)) (\<lambda>_.
       pbind (writeBin scrPasswd) (\<lambda>_.
         if 0 < length db then writeNTB db else pret ())))))))))"

definition oldPasswd :: "('a my_conn_scheme, unit) pm" where
  "oldPasswd =
     pbind (gets id) (\<lambda>c. pbind (lift_go (encryptedOldPassword (passwd c) (scramble (info c)))) (\<lambda>scrPasswd.
       pbind (newPktWriter (length scrPasswd + 1)) (\<lambda>_. pbind (pw_write scrPasswd) (\<lambda>_. writeByte 0))))"

definition is_nil :: "got \<Rightarrow> bool" where
  "is_nil g = (case g of Got_result res \<Rightarrow> False | _ \<Rightarrow> True)"

text \<open>Reading the rest of one result set of a registered command into a row of \<open>n\<close> columns.\<close>

lemma getRow_less: "getRow res n s = Ret (Inr g, t) \<Longrightarrow> in_left t < in_left s"
  by (auto simp: getRow_def catchError_eq_Inr dest: getResult_less)

function skip_rows :: "nat \<Rightarrow> my_result \<Rightarrow> ('a my_conn_scheme, my_result) pm" where
  "skip_rows n res s =
     pbind (getRow res n) (\<lambda>g s1. case g of Got_result res' \<Rightarrow> pret res' s1 | _ \<Rightarrow> skip_rows n res s1) s"
  by pat_completeness auto
termination
  by (relation "measure (in_left \<circ> snd \<circ> snd)") (auto dest: getRow_less)

declare skip_rows.simps [simp del]

lemma skip_rows_in_left: "skip_rows n res s = Ret (Inr res', t) \<Longrightarrow> in_left t \<le> in_left s"
proof (induction n res s arbitrary: res' t rule: skip_rows.induct)
  case (1 n res s)
  then obtain g u where g: "getRow res n s = Ret (Inr g, u)"
      and k: "(case g of Got_result res' \<Rightarrow> pret res' u | _ \<Rightarrow> skip_rows n res u) = Ret (Inr res', t)"
    using trans [OF skip_rows.simps [symmetric] "1.prems"] by (auto simp: pbind_eq_Inr)
  note l = getRow_less [OF g]
  show ?case
    using k l "1.IH" [OF g] by (cases g) (fastforce simp: pret_def)+
qed

lemma getResponse_less:
  assumes "getResponse s = Ret (Inr r, t)"
  shows "in_left t < in_left s"
proof -
  obtain g u where g: "getResult None 0 s = Ret (Inr g, u)"
      and k: "(case g of Got_result res \<Rightarrow> pbind (modify (\<lambda>c. c\<lparr>unreaded_reply := \<not> status_only res\<rparr>)) (\<lambda>_. pret res)
        | _ \<Rightarrow> raise ErrBadResult) u = Ret (Inr r, t)"
    using assms by (auto simp: getResponse_def pbind_eq_Inr)
  have "in_left t = in_left u" using k by (cases g) (auto simp: pret_def raise_def in_left_def)
  then show ?thesis using getResult_less [OF g] by simp
qed

text \<open>The rows of every result of a registered command are read into a row made for the first one.\<close>

function run_results :: "nat \<Rightarrow> my_result \<Rightarrow> ('a my_conn_scheme, unit) pm" where
  "run_results n res s =
     pbind (if status_only res then pret res else skip_rows n res) (\<lambda>res'.
     pbind (nextResult res') (\<lambda>nr s1. case nr of None \<Rightarrow> pret () s1 | Some r \<Rightarrow> run_results n r s1)) s"
  by pat_completeness auto
termination
proof (relation "measure (in_left \<circ> snd \<circ> snd)", goal_cases)
  case (2 n res s res' t nr u r)
  have "in_left t \<le> in_left s"
    using 2(1) skip_rows_in_left by (cases "status_only res") (auto simp: pret_def)
  moreover have "getResponse t = Ret (Inr r, u)"
    using 2(2,3) by (auto simp: nextResult_def catchError_eq_Inr pmap_def pbind_eq_Inr pret_def split: if_splits)
  ultimately show ?case using getResponse_less by fastforce
qed simp

declare run_results.simps [simp del]

fun init_commands :: "byte list list \<Rightarrow> ('a my_conn_scheme, unit) pm" where
  "init_commands [] = pret ()"
| "init_commands (cmd # cmds) =
     pbind (sendCmdStr COM_QUERY cmd) (\<lambda>_. pbind getResponse (\<lambda>res.
     pbind (run_results (field_count res) res) (\<lambda>_. init_commands cmds)))"

definition handshake :: "('a my_conn_scheme, unit) pm" where
  "handshake =
     pbind conn_init (\<lambda>_. pbind auth (\<lambda>_. pbind (getResult None 0) (\<lambda>g.
     pbind (if is_nil g then pbind oldPasswd (\<lambda>_. pbind (getResult None 0) (\<lambda>g'. if is_nil g' then raise ErrAuthentication else pret ()))
            else pret ()) (\<lambda>_.
     pbind (gets init_cmds) init_commands))))"

text \<open>The outcome of dialing: \<open>dialer\<close> is what the user's dialer answers, if there is one, and \<open>dflt\<close> what
  \<open>DefaultDialer\<close> does.\<close>

definition dialed :: "(my_err + socket option) option \<Rightarrow> my_err + socket \<Rightarrow> my_err + socket" where
  "dialed dialer dflt =
     (case dialer of Some (Inl e) \<Rightarrow> Inl e | Some (Inr (Some k)) \<Rightarrow> Inr k | _ \<Rightarrow> dflt)"

definition plug :: "socket \<Rightarrow> 'a my_conn_scheme \<Rightarrow> 'a my_conn_scheme" where
  "plug k c = c\<lparr>connected := True, rd := \<lparr>pieces = sk_pieces k, rd_err = sk_err k, last_byte = None\<rparr>,
     wr := \<lparr>wbuf = [], wire = [], wr_err = None, net_fail = sk_fail k\<rparr>\<rparr>"

definition connect :: "(my_err + socket option) option \<Rightarrow> my_err + socket \<Rightarrow> ('a my_conn_scheme, unit) pm" where
  "connect dialer dflt c =
     (case dialed dialer dflt of
        Inl e \<Rightarrow> raise e (c\<lparr>connected := False\<rparr>)
      | Inr k \<Rightarrow> catchError handshake (plug k c))"

definition Connect :: "(my_err + socket option) option \<Rightarrow> my_err + socket \<Rightarrow> ('a my_conn_scheme, unit) pm" where
  "Connect dialer dflt c = (if connected c then raise ErrAlredyConn c else connect dialer dflt c)"

section \<open>Reconnecting\<close>

fun reprepare :: "(32 word \<times> nat) list \<Rightarrow> (32 word \<times> nat) list \<Rightarrow> ('a my_conn_scheme, (32 word \<times> nat) list) pm" where
  "reprepare [] new_map = pret new_map"
| "reprepare ((k, i) # es) new_map =
     pbind (stmt_at i) (\<lambda>st. pbind (prepare (s_sql st)) (\<lambda>new_stmt.
     pbind (upd_stmt i (\<lambda>st. st\<lparr>s_id := s_id new_stmt, s_rebind := True\<rparr>)) (\<lambda>_.
       reprepare es (AList.update (s_id new_stmt) i new_map))))"

text \<open>\<open>order\<close> is the order in which Go iterates over the map of statements.\<close>

definition Reconnect :: "my_err option \<Rightarrow> (my_err + socket option) option \<Rightarrow> my_err + socket \<Rightarrow>
    ((32 word \<times> nat) list \<Rightarrow> (32 word \<times> nat) list) \<Rightarrow> ('a my_conn_scheme, unit) pm" where
  "Reconnect close_err dialer dflt order =
     pbind (gets connected) (\<lambda>is. pbind (if is then pmap (\<lambda>_. ()) (attempt (closeConn close_err)) else pret ()) (\<lambda>_.
     pbind (connect dialer dflt) (\<lambda>_.
     pbind (gets stmt_map) (\<lambda>m. pbind (reprepare (order m) []) (\<lambda>new_map. modify (\<lambda>c. c\<lparr>stmt_map := new_map\<rparr>))))))"

section \<open>Transactions\<close>

text \<open>A transaction is the connection it was begun on, or, once it has been ended, none.\<close>

definition Begin :: "('a my_conn_scheme, my_err option) pm" where
  "Begin = pbind (attempt (Start (bytes_of_string ''START TRANSACTION''))) (\<lambda>r. pret (case r of Inl e \<Rightarrow> Some e | Inr _ \<Rightarrow> None))"

definition end_transaction :: "string \<Rightarrow> bool \<Rightarrow> ('a my_conn_scheme, bool \<times> my_err option) pm" where
  "end_transaction sql valid =
     (if \<not> valid then crash Nil_Deref
      else pbind (attempt (Start (bytes_of_string sql))) (\<lambda>r. pret (valid, case r of Inl e \<Rightarrow> Some e | Inr _ \<Rightarrow> None)))"

definition Commit :: "bool \<Rightarrow> ('a my_conn_scheme, bool \<times> my_err option) pm" where
  "Commit = end_transaction ''COMMIT''"

definition Rollback :: "bool \<Rightarrow> ('a my_conn_scheme, bool \<times> my_err option) pm" where
  "Rollback = end_transaction ''ROLLBACK''"

end
