(* ===== verification/My_Login.thy ===== *)
theory My_Login
  imports My_Connect
begin

text \<open>
  What connecting to a MySQL server does and what it leaves behind: a login against a server that
  follows the protocol, and the states in which failed logins, unread replies and reconnections leave
  the connection (\<open>native/init.go\<close>, \<open>native/mysql.go\<close>).
\<close>

section \<open>Logging in\<close>

text \<open>The server's greeting, and the client's answer.\<close>

record greeting =
  g_prot :: byte
  g_version :: "byte list"
  g_thread :: "32 word"
  g_scramble :: "byte list"
  g_caps :: "16 word"
  g_lang :: byte
  g_status :: "16 word"
  g_filler :: "byte list"
  g_more :: "byte list"

definition greeting_bytes :: "greeting \<Rightarrow> byte list" where
  "greeting_bytes g = [g_prot g] @ (g_version g @ [0]) @ EncodeU32 (g_thread g) @ take 8 (g_scramble g) @ [0] @
     EncodeU16 (g_caps g) @ [g_lang g] @ EncodeU16 (g_status g) @ g_filler g @ drop 8 (g_scramble g) @ g_more g"

definition greeting_ok :: "greeting \<Rightarrow> bool" where
  "greeting_ok g \<longleftrightarrow> 0 \<notin> set (g_version g) \<and> length (g_scramble g) = 20 \<and> length (g_filler g) = 13
     \<and> and (ucast (g_caps g)) CLIENT_PROTOCOL_41 \<noteq> 0"

definition info_of :: "greeting \<Rightarrow> serverInfo" where
  "info_of g = \<lparr>prot_ver = g_prot g, serv_ver = g_version g, thr_id = g_thread g, scramble = g_scramble g, caps = g_caps g, lang = g_lang g\<rparr>"

definition auth_payload :: "'a my_conn_scheme \<Rightarrow> byte list \<Rightarrow> byte list" where
  "auth_payload c reply =
     EncodeU32 (auth_flags (caps (info c)) (0 < length (dbname c))) @ EncodeU32 (word_of_int (max_pkt_size c)) @ [lang (info c)] @
     replicate 23 0 @ (user c @ [0]) @ lcs reply @ (if 0 < length (dbname c) then dbname c @ [0] else [])"

definition moved_init :: "'a my_conn_scheme \<Rightarrow> 'a my_conn_scheme \<Rightarrow> bool" where
  "moved_init s t \<longleftrightarrow> (\<exists>r q m l i st. t = s\<lparr>rd := r, pkt_seq := q, remain := m, last_pkt := l, info := i, status := st\<rparr>)"

lemma moved_init_trans [trans]: "moved_init s t \<Longrightarrow> moved_init t u \<Longrightarrow> moved_init s u"
  unfolding moved_init_def by fastforce

lemma moved_initI: "moved_init s (s\<lparr>rd := r, pkt_seq := q, remain := m, last_pkt := l, info := i, status := st\<rparr>)"
  unfolding moved_init_def by blast

lemma moved_init_upd: "moved_init s t \<Longrightarrow> moved_init s (t\<lparr>info := i\<rparr>)" "moved_init s t \<Longrightarrow> moved_init s (t\<lparr>status := st\<rparr>)"
proof -
  assume "moved_init s t"
  then obtain r q m l j u where "t = s\<lparr>rd := r, pkt_seq := q, remain := m, last_pkt := l, info := j, status := u\<rparr>"
    by (auto simp: moved_init_def)
  then show "moved_init s (t\<lparr>info := i\<rparr>)" "moved_init s (t\<lparr>status := st\<rparr>)"
    using moved_initI [where s = s and r = r and q = q and m = m and l = l and i = i and st = u]
      moved_initI [where s = s and r = r and q = q and m = m and l = l and i = j and st = st]
    by (auto elim!: back_subst [where P = "moved_init s"] intro!: my_conn.equality)
qed

lemma moved_init_rd: "moved_rd s t \<Longrightarrow> moved_init s t"
proof -
  assume "moved_rd s t"
  then obtain r q m l where "t = s\<lparr>rd := r, pkt_seq := q, remain := m, last_pkt := l\<rparr>" by (auto simp: moved_rd_def)
  then show ?thesis
    using moved_initI [where s = s and r = r and q = q and m = m and l = l and i = "info s" and st = "status s"] by simp
qed

lemma moved_init_seq: "moved_init s (s\<lparr>pkt_seq := q\<rparr>)"
  using moved_initI [where s = s and r = "rd s" and q = q and m = "remain s" and l = "last_pkt s" and i = "info s" and st = "status s"]
  by simp

lemma moved_rd_info: "moved_rd s t \<Longrightarrow> info t = info s \<and> status t = status s" for s t :: "'a my_conn_scheme"
  by (auto simp: moved_rd_def)

lemma reading_info [simp]: "reading (s\<lparr>info := i\<rparr>) p rest q e = reading s p rest q e"
  by (simp add: reading_def)

text \<open>One field of the greeting, read and stored.\<close>

lemma read_into:
  assumes "parses m x p" and "reading s (p @ p') rest q e"
  obtains t where "\<And>k. pbind m (\<lambda>v. pbind (set_info (f v)) (\<lambda>_. k)) s = k t" "reading t p' rest q e" "moved_init s t"
    "info t = f x (info s)" "status t = status s"
proof -
  obtain t where t: "m s = Ret (Inr x, t)" "reading t p' rest q e" "moved_rd s t" using parsesD [OF assms] by blast
  show thesis
    using that [of "t\<lparr>info := f x (info t)\<rparr>"] t moved_init_upd(1) [OF moved_init_rd [OF t(3)]] moved_rd_info [OF t(3)]
    by (simp add: set_info_def)
qed

lemma read_past:
  assumes "parses m x p" and "reading s (p @ p') rest q e"
  obtains t where "\<And>k. pbind m k s = k x t" "reading t p' rest q e" "moved_init s t" "info t = info s" "status t = status s"
proof -
  obtain t where t: "m s = Ret (Inr x, t)" "reading t p' rest q e" "moved_rd s t" using parsesD [OF assms] by blast
  show thesis
    using that [of t] t moved_init_rd [OF t(3)] moved_rd_info [OF t(3)] by simp
qed

lemma conn_init_greeting:
  fixes s :: "'a my_conn_scheme"
  assumes "greeting_ok g" and "unreads (rd s) = frames 0 (greeting_bytes g) @ rest"
  obtains t where "conn_init s = Ret (Inr (), t)" "moved_init s t" "info t = info_of g" "status t = g_status g"
    "unreads (rd t) = rest" "pkt_seq t = of_nat (nframes (greeting_bytes g))"
proof -
  define q where "q = (of_nat (nframes (greeting_bytes g)) :: byte)"
  define e where "e \<longleftrightarrow> length (greeting_bytes g) mod max_pkt \<noteq> 0"
  have g: "0 \<notin> set (g_version g)" "length (g_scramble g) = 20" "length (g_filler g) = 13" "and (ucast (g_caps g)) CLIENT_PROTOCOL_41 \<noteq> 0"
    using assms(1) by (simp_all add: greeting_ok_def)
  obtain s0 where s0: "newPktReader (s\<lparr>pkt_seq := 0\<rparr>) = Ret (Inr (), s0)" "moved_rd (s\<lparr>pkt_seq := 0\<rparr>) s0"
      "reading s0 (greeting_bytes g) rest q e"
    using newPktReader_reading [of "s\<lparr>pkt_seq := 0\<rparr>" "greeting_bytes g" rest] assms(2) by (auto simp: q_def e_def)
  have m0: "moved_init s s0" using moved_init_trans [OF moved_init_seq moved_init_rd [OF s0(2)]] .
  obtain s1 where s1: "\<And>k :: ('a my_conn_scheme, unit) pm. pbind readByte (\<lambda>v. pbind (set_info (\<lambda>i. i\<lparr>prot_ver := v\<rparr>)) (\<lambda>_. k)) s0 = k s1"
      "reading s1 ((g_version g @ [0]) @ EncodeU32 (g_thread g) @ take 8 (g_scramble g) @ [0] @
     EncodeU16 (g_caps g) @ [g_lang g] @ EncodeU16 (g_status g) @ g_filler g @ drop 8 (g_scramble g) @ g_more g) rest q e"
      "moved_init s0 s1" "info s1 = (info s0)\<lparr>prot_ver := g_prot g\<rparr>"
    by (rule read_into [where f = "\<lambda>v. \<lambda>i. i\<lparr>prot_ver := v\<rparr>", OF readByte_parses s0(3) [unfolded greeting_bytes_def]]) (rule that)
  obtain s2 where s2: "\<And>k :: ('a my_conn_scheme, unit) pm. pbind readNTB (\<lambda>v. pbind (set_info (\<lambda>i. i\<lparr>serv_ver := v\<rparr>)) (\<lambda>_. k)) s1 = k s2"
      "reading s2 (EncodeU32 (g_thread g) @ take 8 (g_scramble g) @ [0] @
     EncodeU16 (g_caps g) @ [g_lang g] @ EncodeU16 (g_status g) @ g_filler g @ drop 8 (g_scramble g) @ g_more g) rest q e"
      "moved_init s1 s2" "info s2 = (info s1)\<lparr>serv_ver := g_version g\<rparr>"
    by (rule read_into [where f = "\<lambda>v. \<lambda>i. i\<lparr>serv_ver := v\<rparr>", OF readNTB_parses [OF g(1)] s1(2)]) (rule that)
  obtain s3 where s3: "\<And>k :: ('a my_conn_scheme, unit) pm. pbind readU32 (\<lambda>v. pbind (set_info (\<lambda>i. i\<lparr>thr_id := v\<rparr>)) (\<lambda>_. k)) s2 = k s3"
      "reading s3 (take 8 (g_scramble g) @ [0] @
     EncodeU16 (g_caps g) @ [g_lang g] @ EncodeU16 (g_status g) @ g_filler g @ drop 8 (g_scramble g) @ g_more g) rest q e"
      "moved_init s2 s3" "info s3 = (info s2)\<lparr>thr_id := g_thread g\<rparr>"
    by (rule read_into [where f = "\<lambda>v. \<lambda>i. i\<lparr>thr_id := v\<rparr>", OF readU_parses(2) s2(2)]) (rule that)
  have l8: "length (take 8 (g_scramble g)) = 8" "length [0 :: byte] = 1" "length (drop 8 (g_scramble g)) = 12" using g(2) by simp_all
  obtain s4 where s4: "\<And>k :: ('a my_conn_scheme, unit) pm. pbind (readFull 8) (\<lambda>v. pbind (set_info (\<lambda>i. i\<lparr>scramble := v @ drop 8 (scramble i)\<rparr>)) (\<lambda>_. k)) s3 = k s4"
      "reading s4 ([0] @ EncodeU16 (g_caps g) @ [g_lang g] @ EncodeU16 (g_status g) @ g_filler g @ drop 8 (g_scramble g) @ g_more g) rest q e"
      "moved_init s3 s4" "info s4 = (info s3)\<lparr>scramble := take 8 (g_scramble g) @ drop 8 (scramble (info s3))\<rparr>"
    by (rule read_into [where f = "\<lambda>v. \<lambda>i. i\<lparr>scramble := v @ drop 8 (scramble i)\<rparr>", OF readFull_parses [OF l8(1)] s3(2)]) (rule that)
  obtain s5 where s5: "\<And>k :: _ \<Rightarrow> ('a my_conn_scheme, unit) pm. pbind (skipN (int 1)) k s4 = k () s5"
      "reading s5 (EncodeU16 (g_caps g) @ [g_lang g] @ EncodeU16 (g_status g) @ g_filler g @ drop 8 (g_scramble g) @ g_more g) rest q e"
      "moved_init s4 s5" "info s5 = info s4"
    by (rule read_past [OF skipN_parses [OF l8(2)] s4(2)]) (rule that)
  obtain s6 where s6: "\<And>k :: ('a my_conn_scheme, unit) pm. pbind readU16 (\<lambda>v. pbind (set_info (\<lambda>i. i\<lparr>caps := v\<rparr>)) (\<lambda>_. k)) s5 = k s6"
      "reading s6 ([g_lang g] @ EncodeU16 (g_status g) @ g_filler g @ drop 8 (g_scramble g) @ g_more g) rest q e"
      "moved_init s5 s6" "info s6 = (info s5)\<lparr>caps := g_caps g\<rparr>"
    by (rule read_into [where f = "\<lambda>v. \<lambda>i. i\<lparr>caps := v\<rparr>", OF readU_parses(1) s5(2)]) (rule that)
  obtain s7 where s7: "\<And>k :: ('a my_conn_scheme, unit) pm. pbind readByte (\<lambda>v. pbind (set_info (\<lambda>i. i\<lparr>lang := v\<rparr>)) (\<lambda>_. k)) s6 = k s7"
      "reading s7 (EncodeU16 (g_status g) @ g_filler g @ drop 8 (g_scramble g) @ g_more g) rest q e"
      "moved_init s6 s7" "info s7 = (info s6)\<lparr>lang := g_lang g\<rparr>"
    by (rule read_into [where f = "\<lambda>v. \<lambda>i. i\<lparr>lang := v\<rparr>", OF readByte_parses s6(2)]) (rule that)
  obtain s8 where s8: "\<And>k :: _ \<Rightarrow> ('a my_conn_scheme, unit) pm. pbind readU16 k s7 = k (g_status g) s8"
      "reading s8 (g_filler g @ drop 8 (g_scramble g) @ g_more g) rest q e" "moved_init s7 s8" "info s8 = info s7"
    by (rule read_past [OF readU_parses(1) s7(2)]) (rule that)
  define s9 where "s9 = s8\<lparr>status := g_status g\<rparr>"
  have r9: "reading s9 (g_filler g @ drop 8 (g_scramble g) @ g_more g) rest q e" using s8(2) reading_status by (simp add: s9_def)
  obtain s10 where s10: "\<And>k :: _ \<Rightarrow> ('a my_conn_scheme, unit) pm. pbind (skipN (int 13)) k s9 = k () s10" "reading s10 (drop 8 (g_scramble g) @ g_more g) rest q e"
      "moved_init s9 s10" "info s10 = info s9" "status s10 = status s9"
    by (rule read_past [OF skipN_parses [OF g(3)] r9]) (rule that)
  obtain s11 where s11: "\<And>k :: ('a my_conn_scheme, unit) pm. pbind (readFull 12) (\<lambda>v. pbind (set_info (\<lambda>i. i\<lparr>scramble := take 8 (scramble i) @ v\<rparr>)) (\<lambda>_. k)) s10 = k s11"
      "reading s11 (g_more g) rest q e"
      "moved_init s10 s11" "info s11 = (info s10)\<lparr>scramble := take 8 (scramble (info s10)) @ drop 8 (g_scramble g)\<rparr>" "status s11 = status s10"
    by (rule read_into [where f = "\<lambda>v. \<lambda>i. i\<lparr>scramble := take 8 (scramble i) @ v\<rparr>", OF readFull_parses [OF l8(3)] s10(2)]) (rule that)
  obtain t where t: "skipAll s11 = Ret (Inr (), t)" "finished t rest q" "moved_rd s11 t"
    using skipAll_reading [OF s11(2)] by blast
  have i10: "info s10 = (info s0)\<lparr>prot_ver := g_prot g, serv_ver := g_version g, thr_id := g_thread g,
      scramble := take 8 (g_scramble g) @ drop 8 (scramble (info s0)), caps := g_caps g, lang := g_lang g\<rparr>"
    using s1(4) s2(4) s3(4) s4(4) s5(4) s6(4) s7(4) s8(4) s10(4) by (simp add: s9_def)
  have p41: "has_41 s10" using g(4) i10 by (simp add: has_41_def)
  have it: "info t = info_of g"
    using moved_rd_info [OF t(3)] s11(4) i10 g(2) by (simp add: info_of_def)
  have st: "status t = g_status g" using moved_rd_info [OF t(3)] s11(5) s10(5) by (simp add: s9_def)
  have m9: "moved_init s7 s9" using moved_init_upd(2) [OF s8(3)] by (simp add: s9_def)
  note m = moved_init_trans
  have "moved_init s s4" using m [OF m0 m [OF s1(3) m [OF s2(3) m [OF s3(3) s4(3)]]]] .
  also have "moved_init s4 s9" using m [OF s5(3) m [OF s6(3) m [OF s7(3) m9]]] .
  also have "moved_init s9 t" using m [OF s10(3) m [OF s11(3) moved_init_rd [OF t(3)]]] .
  finally have "moved_init s t" .
  moreover have "conn_init s = Ret (Inr (), t)"
    using s0(1) s1(1) s2(1) s3(1) s4(1) s5(1) s6(1) s7(1) s8(1) s10(1) s11(1) t(1) p41
    by (simp add: conn_init_def reset_seq_def pbind_assoc pret_def flip: s9_def)
  ultimately show thesis using that t(2) it st by (simp add: finished_def q_def)
qed


lemma length_encryptedPasswd: "encryptedPasswd pw scr = Ret reply \<Longrightarrow> length reply \<le> 20"
  by (auto simp: encryptedPasswd_def Let_def split: if_splits)

lemma auth_sends:
  assumes "encryptedPasswd (passwd s) (scramble (info s)) = Ret reply" and "healthy (wr s)"
  obtains t where "auth s = Ret (Inr (), t)" "moved_wr s t" "healthy (wr t)" "wbuf (wr t) = []"
    "wire (wr t) = sent (wr s) @ frames (pkt_seq s) (auth_payload s reply)"
    "pkt_seq t = pkt_seq s + of_nat (nframes (auth_payload s reply))"
proof -
  define db where "db = dbname s"
  define m :: "('a my_conn_scheme, unit) pm" where "m =
     pbind (writeU32 (auth_flags (caps (info s)) (0 < length db))) (\<lambda>_.
       pbind (writeU32 (word_of_int (max_pkt_size s))) (\<lambda>_.
       pbind (writeByte (lang (info s))) (\<lambda>_.
       pbind (writeZeros 23) (\<lambda>_.
       pbind (writeNTB (user s)) (\<lambda>_.
       pbind (writeBin reply) (\<lambda>_.
         if 0 < length db then writeNTB db else pret ()))))))"
  have "emits (if 0 < length db then writeNTB db else pret () :: ('a my_conn_scheme, unit) pm) (if 0 < length db then db @ [0] else [])"
    by (simp add: writeNTB_emits emits_ret)
  then have e: "emits m (auth_payload s reply)"
    unfolding m_def auth_payload_def db_def by (intro emits_bind writeU_emits writeByte_emits writeZeros_emits writeNTB_emits writeBin_emits) simp_all
  have l: "4 + 4 + 1 + 23 + length (user s) + 1 + 1 + length reply + (if 0 < length db then length db + 1 else 0)
      = length (auth_payload s reply)"
    using length_encryptedPasswd [OF assms(1)]
    by (simp add: auth_payload_def db_def lenBin_def lenLCB_def word_le_nat_alt unat_of_nat take_bit_nat_eq_self)
  have "auth s = pbind (newPktWriter (length (auth_payload s reply))) (\<lambda>_. m) s"
    using assms(1) by (simp add: auth_def lift_go_def Let_def m_def flip: db_def l)
  moreover have "auth_payload s reply \<noteq> []" by (simp add: auth_payload_def)
  ultimately show thesis using emits_packet [OF e _ assms(2)] that by metis
qed


text \<open>A connection that is not connected and has nothing left of an earlier one, and a socket on which the
  server greets, accepts, and goes on with \<open>rest\<close>.\<close>

definition fresh :: "'a my_conn_scheme \<Rightarrow> bool" where
  "fresh c \<longleftrightarrow> \<not> connected c \<and> \<not> unreaded_reply c \<and> init_cmds c = []"

definition server_accepts :: "socket \<Rightarrow> greeting \<Rightarrow> byte list \<Rightarrow> byte list \<Rightarrow> byte list \<Rightarrow> bool" where
  "server_accepts k g auth_pl ok rest \<longleftrightarrow> sk_fail k = None \<and> greeting_ok g
     \<and> concat (sk_pieces k) = frames 0 (greeting_bytes g) @
         frames (of_nat (nframes (greeting_bytes g)) + of_nat (nframes auth_pl)) ok @ rest"

lemma plug_simps [simp]:
  "connected (plug k c)" "unreads (rd (plug k c)) = concat (sk_pieces k)" "unreaded_reply (plug k c) = unreaded_reply c"
  "init_cmds (plug k c) = init_cmds c" "passwd (plug k c) = passwd c" "user (plug k c) = user c" "dbname (plug k c) = dbname c"
  "max_pkt_size (plug k c) = max_pkt_size c" "sent (wr (plug k c)) = []" "wire (wr (plug k c)) = []" "wbuf (wr (plug k c)) = []"
  "sk_fail k = None \<Longrightarrow> healthy (wr (plug k c))"
  by (simp_all add: plug_def unreads_def sent_def healthy_def)

lemma moved_init_conn:
  "moved_init s t \<Longrightarrow> wr t = wr s \<and> connected t = connected s \<and> unreaded_reply t = unreaded_reply s \<and> init_cmds t = init_cmds s
    \<and> passwd t = passwd s \<and> user t = user s \<and> dbname t = dbname s \<and> max_pkt_size t = max_pkt_size s"
  by (auto simp: moved_init_def)

lemma moved_wr_info: "moved_wr s t \<Longrightarrow> info t = info s \<and> init_cmds t = init_cmds s" for s t :: "'a my_conn_scheme"
  by (auto simp: moved_wr_def)

lemma handshake_ok:
  assumes "init_cmds c = []" and "encryptedPasswd (passwd c) (g_scramble g) = Ret reply"
    and "server_accepts k g (auth_payload (c\<lparr>info := info_of g\<rparr>) reply) (ok_bytes ar ii st wc msg) rest"
    and "length (ok_bytes ar ii st wc msg) mod max_pkt \<noteq> 0"
  obtains t where "handshake (plug k c) = Ret (Inr (), t)" "connected t" "unreaded_reply t = unreaded_reply c"
    "healthy (wr t)" "wbuf (wr t) = []" "stmt_map t = stmt_map c" "info t = info_of g" "status t = st" "unreads (rd t) = rest"
    "wire (wr t) = frames (of_nat (nframes (greeting_bytes g))) (auth_payload (c\<lparr>info := info_of g\<rparr>) reply)"
proof -
  define pl where "pl = auth_payload (c\<lparr>info := info_of g\<rparr>) reply"
  define ok where "ok = ok_bytes ar ii st wc msg"
  have k: "sk_fail k = None" "greeting_ok g" "concat (sk_pieces k) = frames 0 (greeting_bytes g) @
      frames (of_nat (nframes (greeting_bytes g)) + of_nat (nframes pl)) ok @ rest"
    using assms(3) by (simp_all add: server_accepts_def pl_def ok_def)
  obtain u where u: "conn_init (plug k c) = Ret (Inr (), u)" "moved_init (plug k c) u" "info u = info_of g" "status u = g_status g"
      "unreads (rd u) = frames (of_nat (nframes (greeting_bytes g)) + of_nat (nframes pl)) ok @ rest"
      "pkt_seq u = of_nat (nframes (greeting_bytes g))"
    using conn_init_greeting [OF k(2), of "plug k c"] k(3) by auto
  note mu = moved_init_conn [OF u(2)]
  have p: "encryptedPasswd (passwd u) (scramble (info u)) = Ret reply" using assms(2) mu u(3) by (simp add: info_of_def)
  have h: "healthy (wr u)" using mu k(1) by simp
  obtain v where v: "auth u = Ret (Inr (), v)" "moved_wr u v" "healthy (wr v)" "wbuf (wr v) = []"
      "wire (wr v) = sent (wr u) @ frames (pkt_seq u) (auth_payload u reply)"
      "pkt_seq v = pkt_seq u + of_nat (nframes (auth_payload u reply))"
    using auth_sends [OF p h] by blast
  have pl: "auth_payload u reply = pl" using mu u(3) by (simp add: auth_payload_def pl_def)
  have "next_packet v ok rest"
    using moved_wr_conn [OF v(2)] v(6) u(5,6) pl assms(4) by (simp add: next_packet_def ok_def)
  then obtain t res where t: "getResult None 0 v = Ret (Inr (Got_result res), t\<lparr>status := st\<rparr>)" "after_packet v ok rest t"
    unfolding ok_def by (rule getResult_ok) blast
  have m: "moved_rd v t" "unreads (rd t) = rest" using t(2) by (simp_all add: after_packet_def)
  have it: "init_cmds t = init_cmds c" "info t = info_of g"
    using moved_wr_info [OF v(2)] mu m(1) u(3) by (auto simp: moved_rd_def)
  have "handshake (plug k c) = Ret (Inr (), t\<lparr>status := st\<rparr>)"
    using u(1) v(1) t(1) it(1) assms(1) by (simp add: handshake_def is_nil_def pret_def)
  moreover have "connected t" "unreaded_reply t = unreaded_reply c" "healthy (wr t)" "wbuf (wr t) = []"
    using moved_rd_conn [OF m(1)] moved_wr_conn [OF v(2)] mu v(3,4) by simp_all
  moreover have "stmt_map t = stmt_map c"
    using m(1) v(2) u(2) by (auto simp: moved_rd_def moved_wr_def moved_init_def plug_def)
  moreover have "wire (wr t) = frames (of_nat (nframes (greeting_bytes g))) pl"
    using moved_rd_conn [OF m(1)] v(5) pl mu u(6) by simp
  ultimately show thesis
    using that [of "t\<lparr>status := st\<rparr>"] m(2) it(2) by (simp add: pl_def)
qed

text \<open>
  C9. A fresh connection logs in: when the server greets in protocol 4.1 and accepts the answer, \<open>Connect\<close> has
  sent exactly one packet, which holds the reduced flags, the user, the database and a reply to the
  scramble that proves the password, and the connection is ready for a command, with the server's
  description and status.
\<close>

theorem Connect_logs_in:
  assumes "fresh c" and "dialed dialer dflt = Inr k" and "length (g_scramble g) = 20"
    and "\<forall>reply. encryptedPasswd (passwd c) (g_scramble g) = Ret reply \<longrightarrow>
       server_accepts k g (auth_payload (c\<lparr>info := info_of g\<rparr>) reply) (ok_bytes ar ii st wc msg) rest"
    and "length (ok_bytes ar ii st wc msg) mod max_pkt \<noteq> 0"
  shows "\<exists>reply t. Connect dialer dflt c = Ret (Inr (), t) \<and> my_idle t \<and> info t = info_of g \<and> status t = st \<and> unreads (rd t) = rest
    \<and> wire (wr t) = frames (of_nat (nframes (greeting_bytes g))) (auth_payload (c\<lparr>info := info_of g\<rparr>) reply)
    \<and> (if passwd c = [] then reply = [] else native_check (native_stored (passwd c)) (g_scramble g) reply)"
proof -
  obtain reply where r: "encryptedPasswd (passwd c) (g_scramble g) = Ret reply"
      "if passwd c = [] then reply = [] else native_check (native_stored (passwd c)) (g_scramble g) reply"
    using encryptedPasswd_checks [OF assms(3)] by blast
  have c: "init_cmds c = []" "\<not> unreaded_reply c" using assms(1) by (simp_all add: fresh_def)
  obtain t where t: "handshake (plug k c) = Ret (Inr (), t)" "info t = info_of g" "status t = st" "unreads (rd t) = rest"
      "wire (wr t) = frames (of_nat (nframes (greeting_bytes g))) (auth_payload (c\<lparr>info := info_of g\<rparr>) reply)"
      "connected t" "unreaded_reply t = unreaded_reply c" "healthy (wr t)" "wbuf (wr t) = []"
    using handshake_ok [OF c(1) r(1)] assms(4,5) r(1) by blast
  have "my_idle t" using t(6-9) c(2) by (simp add: my_idle_def)
  moreover have "Connect dialer dflt c = Ret (Inr (), t)"
    using t(1) assms(1,2) by (simp add: Connect_def connect_def fresh_def catchError_eq_Inr)
  ultimately show ?thesis using r(2) t(2-5) by blast
qed


definition sample_greeting :: greeting where
  "sample_greeting = \<lparr>g_prot = 10, g_version = [53, 46, 55], g_thread = 7, g_scramble = replicate 20 65, g_caps = 0xffff, g_lang = 33,
     g_status = 2, g_filler = replicate 13 0, g_more = [0]\<rparr>"

definition sample_ok :: "byte list" where
  "sample_ok = ok_bytes 0 0 2 0 []"

definition sample_socket :: socket where
  "sample_socket = \<lparr>sk_pieces = [frames 0 (greeting_bytes sample_greeting), frames 2 sample_ok], sk_err = IO_EOF, sk_fail = None\<rparr>"

definition sample_client :: my_conn where
  "sample_client = (conn_with [])\<lparr>connected := False, user := [114, 111, 111, 116], passwd := [112, 119]\<rparr>"

lemma sample_accepts:
  assumes "dbname c = []" and "user c = [114, 111, 111, 116]" and "length reply \<le> 20"
  shows "server_accepts sample_socket sample_greeting (auth_payload c reply) (ok_bytes 0 0 2 0 []) []"
proof -
  have "nframes (auth_payload c reply) = 1"
    using assms by (simp add: auth_payload_def nframes_def max_pkt_def lenBin_def lenLCB_def)
  moreover have "greeting_ok sample_greeting" "nframes (greeting_bytes sample_greeting) = 1"
    by (simp_all add: greeting_ok_def sample_greeting_def CLIENT_PROTOCOL_41_def greeting_bytes_def nframes_def max_pkt_def)
  ultimately show ?thesis by (simp add: server_accepts_def sample_socket_def sample_ok_def)
qed

lemma sample_facts:
  "fresh sample_client" "passwd sample_client = [112, 119]" "dbname sample_client = []" "user sample_client = [114, 111, 111, 116]"
  "init_cmds sample_client = []" "stmt_map sample_client = []" "\<not> connected sample_client"
  "length (g_scramble sample_greeting) = 20" "length (ok_bytes 0 0 2 0 []) mod max_pkt \<noteq> 0"
  by (simp_all add: sample_client_def fresh_def conn_with_def sample_greeting_def ok_bytes_def max_pkt_def lenLCB_def)

theorem Connect_logs_in_witness:
  "\<exists>reply t. Connect None (Inr sample_socket) sample_client = Ret (Inr (), t) \<and> my_idle t \<and> status t = 2
    \<and> native_check (native_stored [112, 119]) (g_scramble sample_greeting) reply"
proof -
  let ?g = sample_greeting and ?c = sample_client
  have "\<forall>reply. encryptedPasswd (passwd ?c) (g_scramble ?g) = Ret reply \<longrightarrow>
      server_accepts sample_socket ?g (auth_payload (?c\<lparr>info := info_of ?g\<rparr>) reply) (ok_bytes 0 0 2 0 []) []"
    using sample_facts(3,4) by (intro allI impI sample_accepts length_encryptedPasswd) simp_all
  moreover have "dialed None (Inr sample_socket) = Inr sample_socket" by (simp add: dialed_def)
  ultimately show ?thesis
    using Connect_logs_in [of ?c None "Inr sample_socket" sample_socket ?g 0 0 2 0 "[]" "[]"] sample_facts by auto
qed

section \<open>What connecting leaves alone\<close>

definition keeping :: "('a my_conn_scheme \<Rightarrow> 'v) \<Rightarrow> ('a my_conn_scheme, 'b) pm \<Rightarrow> bool" where
  "keeping f m \<longleftrightarrow> (\<forall>s r t. m s = Ret (r, t) \<longrightarrow> f t = f s)"

named_theorems keeping_rules \<open>computations that leave a part of the connection alone\<close>

lemma keepingD: "keeping f m \<Longrightarrow> m s = Ret (r, t) \<Longrightarrow> f t = f s"
  unfolding keeping_def by blast

lemma keeping_held: "holding m \<Longrightarrow> keeping connected m" "holding m \<Longrightarrow> keeping unreaded_reply m" "holding m \<Longrightarrow> keeping init_cmds m"
  "holding m \<Longrightarrow> keeping my_conn.more m"
  by (auto simp: holding_def keeping_def held_def)

lemma keeping_bind [keeping_rules]: "keeping f m \<Longrightarrow> (\<And>x. keeping f (g x)) \<Longrightarrow> keeping f (pbind m g)"
  unfolding keeping_def pbind_eq_Ret by metis

lemma keeping_catch [keeping_rules]: "keeping f m \<Longrightarrow> keeping f (catchError m)" "keeping f m \<Longrightarrow> keeping f (attempt m)"
  by (auto simp: keeping_def catchError_def attempt_def)

lemma keeping_if [keeping_rules]: "keeping f m \<Longrightarrow> keeping f m' \<Longrightarrow> keeping f (if b then m else m')"
  by simp

lemma keeping_basic [keeping_rules]: "keeping f (pret x)" "keeping f (raise e)" "keeping f (gets h)"
  by (auto simp: keeping_def pret_def raise_def gets_def)

lemma holding_writers: "holding (newPktWriter n)" "holding (on_wr h)" "holding (writeHeader l)" "holding start_fragment"
proof -
  show "holding (newPktWriter n)" by (simp add: newPktWriter_def holding_def modify_def)
  show w: "holding (on_wr h)" for h by (auto simp: holding_def on_wr_def Let_def split: option.splits)
  show h: "holding (writeHeader l)" for l
    unfolding writeHeader_def by (intro holding_rules w) (auto simp: holding_def modify_def)
  show "holding start_fragment"
    using holdingD [OF h] by (auto simp: holding_def start_fragment_def pret_def Let_def split: if_splits) fastforce+
qed

lemma holding_write_loop': "write_loop b s = Ret (r, t) \<Longrightarrow> held t = held s"
proof (induction b s arbitrary: r t rule: write_loop.induct)
  case (1 b s)
  show ?case
  proof (cases "b = []")
    case True
    then show ?thesis using "1.prems" by (simp add: write_loop.simps pret_def)
  next
    case False
    from trans [OF write_loop.simps [symmetric] "1.prems"] False
    consider (e) e where "start_fragment s = Ret (Inl e, t)"
      | (f) u e where "start_fragment s = Ret (Inr (), u)" "on_wr (wr_Write (take (w_remain u) b)) u = Ret (Inl e, t)"
      | (g) u v where "start_fragment s = Ret (Inr (), u)" "on_wr (wr_Write (take (w_remain u) b)) u = Ret (Inr (), v)"
          "write_loop (drop (w_remain u) b) (v\<lparr>w_remain := w_remain v - length (take (w_remain u) b)\<rparr>) = Ret (r, t)"
      by (auto simp: pbind_eq_Ret)
    then show ?thesis
    proof cases
      case e
      then show ?thesis using holdingD [OF holding_writers(4)] by blast
    next
      case f
      then show ?thesis using holdingD [OF holding_writers(4)] holdingD [OF holding_writers(2)] by metis
    next
      case g
      then show ?thesis
        using "1.IH" [OF False g(1,2,3)] holdingD [OF holding_writers(4) g(1)] holdingD [OF holding_writers(2) g(2)] by simp
    qed
  qed
qed


lemma holding_pw_write: "holding (pw_write b)"
proof -
  have l: "holding (write_loop b)" unfolding holding_def using holding_write_loop' by blast
  have "holding (\<lambda>s :: 'a my_conn_scheme. if w_remain s + w_to_write s = 0
      then pbind (if w_last s then pret () else writeHeader 0) (\<lambda>_. on_wr wr_Flush) s else pret () s)"
    unfolding holding_def
  proof (intro allI impI)
    fix s t :: "'a my_conn_scheme" and r
    have k: "holding (pbind (if w_last s then pret () else writeHeader 0) (\<lambda>_. on_wr wr_Flush))"
      by (intro holding_rules holding_writers)
    assume "(if w_remain s + w_to_write s = 0
      then pbind (if w_last s then pret () else writeHeader 0) (\<lambda>_. on_wr wr_Flush) s else pret () s) = Ret (r, t)"
    then show "held t = held s" using holdingD [OF k] by (auto simp: pret_def split: if_splits)
  qed
  then show ?thesis unfolding pw_write_def by (intro holding_rules l)
qed

lemma holding_writes: "holding (write_small b)" "holding (writeByte x)" "holding (writeZeros n)" "holding (writeU16 u)" "holding (writeU32 v)"
  "holding (writeU64 w)" "holding (writeLCB w)" "holding (writeBin b)" "holding (writeNTB b)"
proof -
  show s: "holding (write_small b)" for b
    unfolding write_small_def put_buf_def by (intro holding_rules holding_pw_write) (auto simp: holding_def modify_def)
  show b: "holding (writeByte x)" for x by (simp add: writeByte_def s)
  show "holding (writeZeros n)" by (simp add: writeZeros_def s holding_basic)
  show "holding (writeU16 u)" "holding (writeU32 v)" "holding (writeU64 w)" for u v w by (simp_all add: writeU16_def writeU32_def writeU64_def s)
  then show l: "holding (writeLCB w)" for w
    unfolding writeLCB_def by (intro holding_rules b) (simp_all add: writeU24_def s)
  show "holding (writeBin b)" unfolding writeBin_def by (intro holding_rules l holding_pw_write)
  show "holding (writeNTB b)" unfolding writeNTB_def by (intro holding_rules b holding_pw_write)
qed

lemma holding_reset_seq: "holding reset_seq"
  by (auto simp: reset_seq_def holding_def modify_def)

lemma holding_commands: "holding (sendCmd c)" "holding (sendCmdStr c b)" "holding (sendCmdU32 c u)"
  unfolding sendCmd_def sendCmdStr_def sendCmdU32_def
  by (intro holding_rules holding_reset_seq holding_writers holding_writes holding_pw_write)+

lemma holding_getResult: "holding (getResult ro n)"
  unfolding holding_def using holding_getResult' by blast

lemma holding_skipAll': "skipAll s = Ret (r, t) \<Longrightarrow> held t = held s"
proof (induction s arbitrary: r t rule: skipAll.induct)
  case (1 s)
  show ?case
  proof (cases "remain s = 0 \<and> last_pkt s")
    case True
    then show ?thesis using "1.prems" by (simp add: skipAll.simps pret_def)
  next
    case False
    from trans [OF skipAll.simps [symmetric] "1.prems"] False
    consider (e) e where "next_header s = Ret (Inl e, t)"
      | (f) u e where "next_header s = Ret (Inr (), u)" "on_rd (rd_Discard (nat (remain u))) u = Ret (Inl e, t)"
      | (g) u v where "next_header s = Ret (Inr (), u)" "\<not> remain u < 0" "on_rd (rd_Discard (nat (remain u))) u = Ret (Inr (), v)"
          "skipAll (v\<lparr>remain := 0\<rparr>) = Ret (r, t)"
      by (auto simp: pbind_eq_Ret split: if_splits)
    then show ?thesis
    proof cases
      case e
      then show ?thesis using holdingD [OF holding_header(3)] by blast
    next
      case f
      then show ?thesis using holdingD [OF holding_header(3)] holdingD [OF holding_basic(6)] by metis
    next
      case g
      then show ?thesis
        using "1.IH" [OF False g] holdingD [OF holding_header(3) g(1)] holdingD [OF holding_basic(6) g(3)] by simp
    qed
  qed
qed

lemma holding_readNTB': "readNTB s = Ret (r, t) \<Longrightarrow> held t = held s"
proof (induction s arbitrary: r t rule: readNTB.induct)
  case (1 s)
  from trans [OF readNTB.simps [symmetric] "1.prems"]
  consider (e) e where "readByte s = Ret (Inl e, t)" | (z) u where "readByte s = Ret (Inr 0, t)"
    | (g) ch u r' where "readByte s = Ret (Inr ch, u)" "ch \<noteq> 0" "readNTB u = Ret (r', t)"
    by (auto simp: pbind_eq_Ret pret_def split: if_splits)
  then show ?case
  proof cases
    case g
    then show ?thesis using "1.IH" holdingD [OF holding_bytes(1)] by metis
  qed (use holdingD [OF holding_bytes(1)] in blast)+
qed

lemma holding_scans: "holding skipAll" "holding readNTB"
  unfolding holding_def using holding_skipAll' holding_readNTB' by blast+

lemma holding_init: "holding conn_init" "holding auth" "holding oldPasswd"
proof -
  have i: "holding (set_info f)" "holding (modify (\<lambda>c. c\<lparr>status := st\<rparr>))" for f st
    by (auto simp: set_info_def holding_def modify_def)
  have l: "holding (lift_go x)" for x :: "byte list go" by (cases x) (auto simp: lift_go_def holding_def pret_def)
  show "holding conn_init"
    unfolding conn_init_def by (intro holding_rules holding_reset_seq holding_scans i)
  show "holding auth" "holding oldPasswd"
    unfolding auth_def oldPasswd_def Let_def by (intro holding_rules holding_writers holding_writes holding_pw_write l)+
qed


lemma keeping_getResponse: "keeping connected getResponse"
proof -
  have "keeping connected (modify (\<lambda>c. c\<lparr>unreaded_reply := b\<rparr>))" for b by (simp add: keeping_def modify_def)
  then show ?thesis
    unfolding getResponse_def
    by (intro keeping_rules holding_getResult [THEN keeping_held(1)]) (auto split: got.split intro!: keeping_rules)
qed

lemma keeping_skip_rows': "skip_rows n res s = Ret (r, t) \<Longrightarrow> held t = held s"
proof (induction n res s arbitrary: r t rule: skip_rows.induct)
  case (1 n res s)
  show ?case
  proof (cases "\<exists>e. getRow res n s = Ret (Inl e, t)")
    case True
    then show ?thesis using holdingD [OF holding_getRow] by blast
  next
    case False
    then obtain g u where g: "getRow res n s = Ret (Inr g, u)"
        and k: "(case g of Got_result res' \<Rightarrow> pret res' u | _ \<Rightarrow> skip_rows n res u) = Ret (r, t)"
      using trans [OF skip_rows.simps [symmetric] "1.prems"] by (auto simp: pbind_eq_Ret)
    show ?thesis
      using k holdingD [OF holding_getRow g] "1.IH" [OF g] by (cases g) (auto simp: pret_def)
  qed
qed

lemma holding_skip_rows: "holding (skip_rows n res)"
  unfolding holding_def using keeping_skip_rows' by blast

lemma keeping_nextResult: "keeping connected (nextResult res)"
  unfolding nextResult_def pmap_def by (auto intro!: keeping_rules keeping_getResponse)

lemma keeping_run_results': "run_results n res s = Ret (r, t) \<Longrightarrow> connected t = connected s"
proof (induction n res s arbitrary: r t rule: run_results.induct)
  case (1 n res s)
  let ?m = "if status_only res then pret res else skip_rows n res"
  have k: "keeping connected ?m" by (simp add: keeping_basic keeping_held(1) holding_skip_rows)
  show ?case
  proof (cases "\<exists>e. ?m s = Ret (Inl e, t)")
    case True
    then show ?thesis using keepingD [OF k] by blast
  next
    case False
    then obtain res' u where u: "?m s = Ret (Inr res', u)"
        and n: "pbind (nextResult res') (\<lambda>nr s1. case nr of None \<Rightarrow> pret () s1 | Some r \<Rightarrow> run_results n r s1) u = Ret (r, t)"
      using trans [OF run_results.simps [symmetric] "1.prems"] unfolding pbind_eq_Ret by auto
    note c = keepingD [OF k u]
    show ?thesis
    proof (cases "\<exists>e. nextResult res' u = Ret (Inl e, t)")
      case True
      then show ?thesis using keepingD [OF keeping_nextResult] c by metis
    next
      case False
      then obtain nr v where v: "nextResult res' u = Ret (Inr nr, v)"
          and k: "(case nr of None \<Rightarrow> pret () v | Some r \<Rightarrow> run_results n r v) = Ret (r, t)"
        using n by (auto simp: pbind_eq_Ret)
      show ?thesis
        using k c keepingD [OF keeping_nextResult v] "1.IH" [OF u v] by (cases nr) (auto simp: pret_def)
    qed
  qed
qed

lemma keeping_init_commands: "keeping connected (init_commands cmds)"
proof (induction cmds)
  case (Cons cmd cmds)
  have "keeping connected (run_results n res)" for n res unfolding keeping_def using keeping_run_results' by blast
  then show ?case
    unfolding init_commands.simps
    by (intro keeping_rules holding_commands [THEN keeping_held(1)] keeping_getResponse Cons)
qed (simp add: keeping_basic)

lemma keeping_handshake: "keeping connected handshake"
  unfolding handshake_def
  by (intro keeping_rules holding_init [THEN keeping_held(1)] holding_getResult [THEN keeping_held(1)] keeping_init_commands)

text \<open>Without registered commands the handshake does not touch the mark of an unread reply either.\<close>

lemma handshake_holding:
  assumes "handshake s = Ret (r, t)" and "init_cmds s = []"
  shows "unreaded_reply t = unreaded_reply s \<and> init_cmds t = init_cmds s"
proof -
  define old :: "got \<Rightarrow> ('a my_conn_scheme, unit) pm" where "old = (\<lambda>g. if is_nil g
      then pbind oldPasswd (\<lambda>_. pbind (getResult None 0) (\<lambda>g'. if is_nil g' then raise ErrAuthentication else pret ())) else pret ())"
  define h :: "('a my_conn_scheme, unit) pm" where "h = pbind conn_init (\<lambda>_. pbind auth (\<lambda>_. pbind (getResult None 0) old))"
  have "holding (old g)" for g unfolding old_def by (intro holding_rules holding_init holding_getResult)
  then have h: "holding h" unfolding h_def by (intro holding_rules holding_init holding_getResult)
  have "handshake s = pbind h (\<lambda>_. pbind (gets init_cmds) init_commands) s"
    by (simp add: handshake_def h_def old_def pbind_assoc)
  with assms(1) consider e where "h s = Ret (Inl e, t)" | u where "h s = Ret (Inr (), u)" "init_commands (init_cmds u) u = Ret (r, t)"
    by (auto simp: pbind_eq_Ret gets_def)
  then show ?thesis
  proof cases
    case 2
    then show ?thesis using holdingD [OF h 2(1)] assms(2) by (simp add: held_def pret_def)
  qed (use holdingD [OF h] in \<open>auto simp: held_def\<close>)
qed


section \<open>What a failure leaves behind\<close>

text \<open>
  A login that fails after the socket was opened (no greeting, an error packet, a refused password, a
  failing registered command) leaves the connection marked as connected: every further \<open>Connect\<close> is refused.
\<close>

lemma failed_login_stays_connected:
  assumes "\<not> connected c" and "dialed dialer dflt = Inr k" and "Connect dialer dflt c = Ret (Inl e, t)"
  shows "connected t \<and> Connect dialer' dflt' t = Ret (Inl ErrAlredyConn, t)"
proof -
  obtain r where "handshake (plug k c) = Ret (r, t)"
    using assms by (cases "handshake (plug k c)") (auto simp: Connect_def connect_def catchError_def)
  then have "connected t" using keepingD [OF keeping_handshake] by fastforce
  then show ?thesis by (simp add: Connect_def raise_def)
qed

lemma holding_getPrepareResult': "getPrepareResult so s = Ret (r, t) \<Longrightarrow> held t = held s"
proof (induction so s arbitrary: r t rule: getPrepareResult.induct)
  case (1 so s)
  show ?case
  proof (cases "\<exists>e. open_packet s = Ret (Inl e, t)")
    case True
    then show ?thesis using holdingD [OF holding_bytes(3)] by blast
  next
    case False
    then obtain b u where b: "open_packet s = Ret (Inr b, u)"
      using trans [OF getPrepareResult.simps [symmetric] "1.prems"] by (auto simp: pbind_eq_Ret)
    note u = holdingD [OF holding_bytes(3) b]
    have p: "getPrepareResult so s = Ret (r, t)" by (rule "1.prems")
    have ok: "holding getPrepareOkPacket"
      unfolding getPrepareOkPacket_def by (intro holding_rules)
    show ?thesis
    proof (cases "b = 255")
      case True
      then have "getErrorPacket u = Ret (r, t)" using p b by (subst (asm) getPrepareResult.simps) simp
      then show ?thesis using u holdingD [OF holding_packets(1)] by metis
    next
      case ne: False
      show ?thesis
      proof (cases so)
        case None
        then have "(if b = 0 then getPrepareOkPacket else raise ErrUnkResultPkt) u = Ret (r, t)"
          using p b ne by (subst (asm) getPrepareResult.simps) (simp split: if_splits)
        moreover have "holding (if b = 0 then getPrepareOkPacket else raise ErrUnkResultPkt)" by (intro holding_rules ok)
        ultimately show ?thesis using u holdingD by metis
      next
        case (Some st)
        let ?un = "s_param_count st < length (s_params st)" and ?more = "length (s_fields st) < s_n_fields st"
        consider (eof) "b = 254" | (param) "b \<noteq> 254" "0 < b \<and> b < 251 \<and> (?more \<or> ?un)" ?un
          | (field) "b \<noteq> 254" "0 < b \<and> b < 251 \<and> (?more \<or> ?un)" "\<not> ?un"
          | (other) "b \<noteq> 254" "\<not> (0 < b \<and> b < 251 \<and> (?more \<or> ?un))" by blast
        then show ?thesis
        proof cases
          case eof
          define m where "m = pbind getEofPacket (\<lambda>(wc, stat). pbind (modify (\<lambda>c :: 'a my_conn_scheme. c\<lparr>status := stat\<rparr>)) (\<lambda>_.
               pret (st\<lparr>s_warning_count := wc, s_status := stat\<rparr>)))"
          have "holding m" unfolding m_def by (intro holding_rules) (auto simp: holding_def modify_def)
          moreover have "m u = Ret (r, t)"
            using p b ne Some eof by (subst (asm) getPrepareResult.simps) (simp add: m_def Let_def)
          ultimately show ?thesis using u holdingD by metis
        next
          case param
          then have "pbind skipAll (\<lambda>_. getPrepareResult (Some (st\<lparr>s_param_count := s_param_count st + 1\<rparr>))) u = Ret (r, t)"
            using p b ne Some by (subst (asm) getPrepareResult.simps) (simp add: Let_def)
          then show ?thesis
            using "1.IH"(1) [OF b ne Some refl param] holdingD [OF holding_scans(1)] u unfolding pbind_eq_Ret by metis
        next
          case field
          then have "pbind getFieldPacket (\<lambda>f. getPrepareResult (Some (st\<lparr>s_fields := s_fields st @ [f]\<rparr>))) u = Ret (r, t)"
            using p b ne Some by (subst (asm) getPrepareResult.simps) (simp add: Let_def)
          then show ?thesis
            using "1.IH"(2) [OF b ne Some refl field] holdingD [OF holding_packets(4)] u unfolding pbind_eq_Ret by metis
        next
          case other
          then have "r = Inl ErrUnkResultPkt" "t = u"
            using p b ne Some by (subst (asm) getPrepareResult.simps, auto simp: Let_def raise_def split: if_splits)+
          then show ?thesis using u by simp
        qed
      qed
    qed
  qed
qed

lemma holding_prepare: "holding (prepare sql)"
proof -
  have g: "holding (getPrepareResult so)" for so unfolding holding_def using holding_getPrepareResult' by blast
  define m :: "('a my_conn_scheme, Stmt) pm" where "m = pbind (sendCmdStr COM_STMT_PREPARE sql) (\<lambda>_.
       pbind (getPrepareResult None) (\<lambda>stmt.
       pbind (if s_params stmt \<noteq> [] then getPrepareResult (Some stmt) else pret stmt) (\<lambda>stmt.
         if 0 < s_n_fields stmt then getPrepareResult (Some stmt) else pret stmt)))"
  have "holding m" unfolding m_def by (intro holding_rules holding_commands g)
  then show ?thesis by (auto simp: prepare_def holding_def catchError_def simp flip: m_def)
qed


lemma closeConn_keeps:
  assumes "closeConn ce s = Ret (r, t)"
  shows "unreaded_reply t = unreaded_reply s \<and> init_cmds t = init_cmds s \<and> \<not> connected t"
proof -
  obtain x u where u: "sendCmd COM_QUIT s = Ret (x, u)"
    using assms by (cases "sendCmd COM_QUIT s") (auto simp: closeConn_def attempt_def catchError_def pbind_def)
  then have "t = u\<lparr>connected := False\<rparr>"
    using assms by (cases x; cases ce) (auto simp: closeConn_def attempt_def catchError_def pbind_def modify_def raise_def pret_def)
  then show ?thesis using holdingD [OF holding_commands(1) u] by (simp add: held_def)
qed

lemma reprepare_keeps:
  "reprepare es m s = Ret (r, t) \<Longrightarrow> unreaded_reply t = unreaded_reply s \<and> connected t = connected s"
proof (induction es arbitrary: m s)
  case (Cons e es)
  obtain k i where e: "e = (k, i)" by (cases e)
  obtain x u where u: "prepare (s_sql (stmts s ! i)) s = Ret (x, u)"
    using Cons.prems e by (cases "prepare (s_sql (stmts s ! i)) s") (auto simp: stmt_at_def pbind_def gets_def)
  note h = holdingD [OF holding_prepare u]
  show ?case
  proof (cases x)
    case (Inl y)
    then have "t = u" using Cons.prems e u by (simp add: stmt_at_def)
    then show ?thesis using h by (simp add: held_def)
  next
    case (Inr st)
    then have "reprepare es (AList.update (s_id st) i m) (u\<lparr>stmts := (stmts u)[i := (stmts u ! i)\<lparr>s_id := s_id st, s_rebind := True\<rparr>]\<rparr>)
        = Ret (r, t)"
      using Cons.prems e u by (simp add: stmt_at_def upd_stmt_def)
    from Cons.IH [OF this] show ?thesis using h by (simp add: held_def)
  qed
qed (auto simp: pret_def)

lemma connect_keeps:
  assumes "connect dialer dflt s = Ret (r, t)" and "init_cmds s = []"
  shows "unreaded_reply t = unreaded_reply s \<and> (r = Inr () \<longrightarrow> connected t)"
proof (cases "dialed dialer dflt")
  case (Inl e)
  then show ?thesis using assms(1) by (auto simp: connect_def raise_def)
next
  case (Inr k)
  then obtain r' where r': "handshake (plug k s) = Ret (r', t)"
    using assms(1) by (cases "handshake (plug k s)") (auto simp: connect_def catchError_def)
  then show ?thesis
    using handshake_holding [OF r'] assms(2) keepingD [OF keeping_handshake r'] by simp
qed

text \<open>The mark of an unread reply survives \<open>Reconnect\<close>: the new connection refuses every command, unless the reply
  to a registered command resets the mark.\<close>

lemma Reconnect_unread:
  assumes "unreaded_reply s" and "init_cmds s = []" and "Reconnect ce dialer dflt order s = Ret (Inr (), t)"
  shows "unreaded_reply t \<and> connected t"
proof -
  obtain u v w m where u: "unreaded_reply u" "init_cmds u = []" and v: "connect dialer dflt u = Ret (Inr (), v)"
      and w: "reprepare (order (stmt_map v)) [] v = Ret (Inr m, w)" and t: "t = w\<lparr>stmt_map := m\<rparr>"
  proof -
    from assms(3) obtain u v w m where
        u: "(if connected s then pmap (\<lambda>_. ()) (attempt (closeConn ce)) else pret ()) s = Ret (Inr (), u)"
        and rest: "connect dialer dflt u = Ret (Inr (), v)" "reprepare (order (stmt_map v)) [] v = Ret (Inr m, w)" "t = w\<lparr>stmt_map := m\<rparr>"
      by (auto simp: Reconnect_def pbind_eq_Inr gets_def modify_def)
    have "unreaded_reply u = unreaded_reply s \<and> init_cmds u = init_cmds s"
    proof (cases "connected s")
      case True
      then obtain r where "closeConn ce s = Ret (r, u)"
        using u by (auto simp: pmap_def pbind_eq_Inr attempt_def go_bind_eq_Ret pret_def)
      then show ?thesis using closeConn_keeps by blast
    qed (use u in \<open>auto simp: pret_def\<close>)
    then show thesis using that [OF _ _ rest] assms(1,2) by simp
  qed
  show ?thesis using connect_keeps [OF v u(2)] reprepare_keeps [OF w] u(1) t by simp
qed

section \<open>Transactions end only in a copy\<close>

text \<open>\<open>Commit\<close> and \<open>Rollback\<close> invalidate their receiver, which is a copy: the caller's transaction stays valid
  and takes the next call to the connection.\<close>

lemma Commit_leaves_valid: "Commit True s = Ret (Inr (v, e), t) \<Longrightarrow> v" "Rollback True s = Ret (Inr (v, e), t) \<Longrightarrow> v"
  by (auto simp: Commit_def Rollback_def end_transaction_def pbind_eq_Inr pret_def)


section \<open>A server that refuses\<close>

lemma readNTB_end:
  "reading s p rest q True \<Longrightarrow> 0 \<notin> set p \<Longrightarrow> \<exists>t. readNTB s = Ret (Inl IO_EOF, t)"
proof (induction p arbitrary: s)
  case Nil
  then have "next_header s = Ret (Inl IO_EOF, s)"
    unfolding reading_finished by (simp add: finished_def pr_eof_def next_header_def raise_def)
  then show ?case by (subst readNTB.simps) (simp add: readByte_def)
next
  case (Cons b p)
  obtain t where t: "readByte s = Ret (Inr b, t)" "reading t p rest q True"
    using readByte_reading [OF Cons.prems(1)] by blast
  then show ?case using Cons.IH [OF t(2)] Cons.prems(2) by (subst readNTB.simps) auto
qed

text \<open>An error packet in place of the greeting (too many connections, a blocked host) is read as one: its
  message is taken for the server's version, and the caller sees the end of the packet.\<close>

lemma init_error_packet:
  assumes "\<not> connected c" and "dialed dialer dflt = Inr k" and "concat (sk_pieces k) = frames 0 (255 # EncodeU16 code @ msg) @ rest"
    and "0 \<notin> set (EncodeU16 code @ msg)" and "length (255 # EncodeU16 code @ msg) < max_pkt"
  shows "\<exists>t. Connect dialer dflt c = Ret (Inl Unexpected_EOF, t)"
proof -
  let ?p = "255 # EncodeU16 code @ msg"
  let ?s = "(plug k c)\<lparr>pkt_seq := 0\<rparr>"
  obtain s0 where s0: "newPktReader ?s = Ret (Inr (), s0)" "reading s0 ?p rest (of_nat (nframes ?p)) True"
    using newPktReader_reading [of ?s ?p rest] assms(3,5) by (auto simp: max_pkt_def)
  obtain s1 where s1: "readByte s0 = Ret (Inr 255, s1)" "reading s1 (EncodeU16 code @ msg) rest (of_nat (nframes ?p)) True"
    using readByte_reading [OF s0(2)] by blast
  define s2 where "s2 = s1\<lparr>info := (info s1)\<lparr>prot_ver := 255\<rparr>\<rparr>"
  have "reading s2 (EncodeU16 code @ msg) rest (of_nat (nframes ?p)) True" using s1(2) by (simp add: s2_def)
  then obtain t where "readNTB s2 = Ret (Inl IO_EOF, t)" using readNTB_end assms(4) by blast
  then have "conn_init (plug k c) = Ret (Inl IO_EOF, t)"
    using s0(1) s1(1) by (simp add: conn_init_def reset_seq_def set_info_def s2_def)
  then show ?thesis
    using assms(1,2) by (simp add: Connect_def connect_def handshake_def catchError_def caught_def)
qed

end
