(* ===== verification/My_Autorc.thy ===== *)
theory My_Autorc
  imports My_Login
begin

text \<open>
  Automatic reconnection (\<open>autorc/autorecon.go\<close>): every operation of the native connection is repeated
  after a network error, on a new connection.
\<close>

section \<open>Connections that come back\<close>

text \<open>
  \<open>Conn\<close> is a native connection with a limit, which is part of the argument \<open>a\<close> below, together with the outside
  world: what the \<open>n\<close>-th attempt to open a socket yields, what closing the old one reports, and the order in which
  its statements are prepared again.  The state counts the attempts and lists the seconds slept.
\<close>

record auto_conn = my_conn +
  tries :: nat
  sleeps :: "int list"

record autorc =
  MaxRetries :: int
  dials :: "nat \<Rightarrow> my_err + socket"
  close_errs :: "nat \<Rightarrow> my_err option"
  orders :: "nat \<Rightarrow> (32 word \<times> nat) list \<Rightarrow> (32 word \<times> nat) list"

definition auto_New :: "byte list \<Rightarrow> byte list \<Rightarrow> byte list list \<Rightarrow> (my_conn \<times> int) go" where
  "auto_New us pw db = go_bind (New us pw db) (\<lambda>raw. Ret (raw, 7))"

definition auto_Clone :: "my_conn \<Rightarrow> int \<Rightarrow> (my_conn \<times> int) go" where
  "auto_Clone raw max_retries = go_bind (Clone raw) (\<lambda>d. Ret (d, max_retries))"

text \<open>The driver's error values for packets of the server are pointers, \<open>*mysql.Error\<close>; none of its errors is the
  value type \<open>mysql.Error\<close> that is asked for here.\<close>

definition error_value :: "my_err \<Rightarrow> 16 word option" where
  "error_value e = None"

definition IsNetErr :: "my_err \<Rightarrow> bool" where
  "IsNetErr e \<longleftrightarrow>
     (if e = Unexpected_EOF then True
      else case e of
        Net_Err _ \<Rightarrow> True
      | _ \<Rightarrow> (case error_value e of Some code \<Rightarrow> code \<in> {1317, 1158, 1159, 1160, 1161} | None \<Rightarrow> False))"

definition err_of :: "my_err + 'b \<Rightarrow> my_err option" where
  "err_of r = (case r of Inl e \<Rightarrow> Some e | Inr _ \<Rightarrow> None)"

definition raw_Reconnect :: "autorc \<Rightarrow> ('a auto_conn_scheme, my_err option) pm" where
  "raw_Reconnect a =
     pbind (gets tries) (\<lambda>n. pbind (modify (\<lambda>c. c\<lparr>tries := Suc n\<rparr>)) (\<lambda>_.
       pmap err_of (attempt (Reconnect (close_errs a n) None (dials a n) (orders a n)))))"

definition raw_Connect :: "autorc \<Rightarrow> ('a auto_conn_scheme, my_err option) pm" where
  "raw_Connect a =
     pbind (gets tries) (\<lambda>n. pbind (modify (\<lambda>c. c\<lparr>tries := Suc n\<rparr>)) (\<lambda>_. pmap err_of (attempt (Connect None (dials a n)))))"

definition go_sleep :: "int \<Rightarrow> ('a auto_conn_scheme, unit) pm" where
  "go_sleep nn = modify (\<lambda>c. c\<lparr>sleeps := sleeps c @ [nn]\<rparr>)"

text \<open>\<open>nn\<close> and the error are both changed through pointers; they are returned.\<close>

function reconnectIfNetErr :: "autorc \<Rightarrow> int \<Rightarrow> my_err option \<Rightarrow> ('a auto_conn_scheme, int \<times> my_err option) pm" where
  "reconnectIfNetErr a nn err s =
     (case err of
        None \<Rightarrow> pret (nn, None) s
      | Some e \<Rightarrow>
          if IsNetErr e \<and> nn \<le> MaxRetries a then
            pbind (go_sleep nn) (\<lambda>_. pbind (raw_Reconnect a) (\<lambda>err'. reconnectIfNetErr a (nn + 1) err')) s
          else pret (nn, Some e) s)"
  by pat_completeness auto
termination
  by (relation "measure (\<lambda>(a, nn, err, s). nat (MaxRetries a + 1 - nn))") auto

declare reconnectIfNetErr.simps [simp del]

lemma reconnectIfNetErr_None [simp]: "reconnectIfNetErr a nn None s = Ret (Inr (nn, None), s)"
  by (simp add: reconnectIfNetErr.simps pret_def)

lemma reconnectIfNetErr_counts:
  "reconnectIfNetErr a nn err s = Ret (Inr (nn', err'), t) \<Longrightarrow> nn \<le> nn' \<and> (err \<noteq> None \<longrightarrow> err' = None \<longrightarrow> nn < nn' \<and> nn \<le> MaxRetries a)"
proof (induction a nn err s arbitrary: nn' err' t rule: reconnectIfNetErr.induct)
  case (1 a nn err s)
  show ?case
  proof (cases err)
    case None
    then show ?thesis using "1.prems" by (simp add: reconnectIfNetErr.simps pret_def)
  next
    case (Some e)
    show ?thesis
    proof (cases "IsNetErr e \<and> nn \<le> MaxRetries a")
      case True
      obtain u err1 v where u: "go_sleep nn s = Ret (Inr (), u)" "raw_Reconnect a u = Ret (Inr err1, v)"
          "reconnectIfNetErr a (nn + 1) err1 v = Ret (Inr (nn', err'), t)"
        using trans [OF reconnectIfNetErr.simps [symmetric] "1.prems"] True Some by (auto simp: pbind_eq_Inr)
      then show ?thesis using "1.IH" [OF Some True u] True by auto
    next
      case False
      then show ?thesis using "1.prems" Some by (auto simp: reconnectIfNetErr.simps pret_def)
    qed
  qed
qed

definition connectIfNotConnected :: "autorc \<Rightarrow> ('a auto_conn_scheme, my_err option) pm" where
  "connectIfNotConnected a =
     pbind (gets connected) (\<lambda>is.
       if is then pret None
       else pbind (raw_Connect a) (\<lambda>err. pbind (reconnectIfNetErr a 0 err) (\<lambda>(_, err'). pret err')))"

definition auto_Reconnect :: "autorc \<Rightarrow> ('a auto_conn_scheme, my_err option) pm" where
  "auto_Reconnect a =
     pbind (raw_Reconnect a) (\<lambda>err. pbind (reconnectIfNetErr a 0 err) (\<lambda>(_, err'). pret err'))"

text \<open>The loop of all operations on the connection: \<open>op\<close> returns its results and its error.\<close>

function retry :: "autorc \<Rightarrow> ('a auto_conn_scheme, 'r \<times> my_err option) pm \<Rightarrow> int \<Rightarrow> ('a auto_conn_scheme, 'r \<times> my_err option) pm" where
  "retry a op nn s =
     pbind op (\<lambda>x s1. case x of (r, err) \<Rightarrow>
       if err = None then pret (r, None) s1
       else pbind (reconnectIfNetErr a nn err) (\<lambda>y s2. case y of (nn', err') \<Rightarrow>
         if err' \<noteq> None then pret (r, err') s2 else retry a op nn' s2) s1) s"
  by pat_completeness auto
termination
proof (relation "measure (\<lambda>(a, op, nn, s). nat (MaxRetries a + 1 - nn))", goal_cases)
  case (2 a op nn s x t r err y u nn' err')
  then show ?case using reconnectIfNetErr_counts [of a nn err t nn' err' u] by auto
qed simp

declare retry.simps [simp del]

definition repeated :: "autorc \<Rightarrow> 'r \<Rightarrow> ('a auto_conn_scheme, 'r \<times> my_err option) pm \<Rightarrow> ('a auto_conn_scheme, 'r \<times> my_err option) pm" where
  "repeated a none op =
     pbind (connectIfNotConnected a) (\<lambda>err. if err \<noteq> None then pret (none, err) else retry a op 0)"

definition auto_Use :: "autorc \<Rightarrow> byte list \<Rightarrow> ('a auto_conn_scheme, unit \<times> my_err option) pm" where
  "auto_Use a db = repeated a () (pmap (\<lambda>r. ((), err_of r)) (attempt (Use db)))"

definition op_results :: "'r \<times> my_result option \<times> my_err option \<Rightarrow> ('r \<times> my_result option) \<times> my_err option" where
  "op_results x = (case x of (rows, res, err) \<Rightarrow> ((rows, res), err))"

definition auto_Query :: "autorc \<Rightarrow> byte list \<Rightarrow> ('a auto_conn_scheme, (my_val list list \<times> my_result option) \<times> my_err option) pm" where
  "auto_Query a sql = repeated a ([], None) (pmap op_results (Query sql))"

definition auto_QueryFirst ::
    "autorc \<Rightarrow> byte list \<Rightarrow> ('a auto_conn_scheme, (my_val list option \<times> my_result option) \<times> my_err option) pm" where
  "auto_QueryFirst a sql = repeated a (None, None) (pmap op_results (QueryFirst sql))"

definition auto_QueryLast ::
    "autorc \<Rightarrow> byte list \<Rightarrow> ('a auto_conn_scheme, (my_val list option \<times> my_result option) \<times> my_err option) pm" where
  "auto_QueryLast a sql = repeated a (None, None) (pmap op_results (QueryLast sql))"

section \<open>Statements that are prepared again\<close>

record auto_stmt =
  Raw :: "nat option"
  a_sql :: "byte list"

text \<open>The new handle of the statement, and the error.\<close>

definition PrepareOnce :: "autorc \<Rightarrow> auto_stmt \<Rightarrow> byte list \<Rightarrow> ('a auto_conn_scheme, auto_stmt \<times> my_err option) pm" where
  "PrepareOnce a st sql =
     (if Raw st \<noteq> None then pret (st, None)
      else pmap (\<lambda>(raw, err). (st\<lparr>Raw := raw\<rparr>, err))
        (repeated a None (pmap (\<lambda>r. (case r of Inl _ \<Rightarrow> None | Inr i \<Rightarrow> Some i, err_of r)) (attempt (Prepare sql)))))"

definition auto_Prepare :: "autorc \<Rightarrow> byte list \<Rightarrow> ('a auto_conn_scheme, auto_stmt option \<times> my_err option) pm" where
  "auto_Prepare a sql =
     pbind (PrepareOnce a \<lparr>Raw = None, a_sql = sql\<rparr> sql) (\<lambda>(st, err). pret (if err = None then Some st else None, err))"

definition auto_reprepare :: "autorc \<Rightarrow> auto_stmt \<Rightarrow> ('a auto_conn_scheme, auto_stmt \<times> my_err option) pm" where
  "auto_reprepare a st = PrepareOnce a (st\<lparr>Raw := None\<rparr>) (a_sql st)"

text \<open>\<open>f\<close> is the program's transaction: what it does with the connection, and its error.\<close>

definition auto_Begin :: "autorc \<Rightarrow> ('a auto_conn_scheme, my_err option) pm \<Rightarrow> ('a auto_conn_scheme, my_err option) pm" where
  "auto_Begin a f =
     pbind (connectIfNotConnected a) (\<lambda>err.
       if err \<noteq> None then pret err
       else pbind (retry a (pbind Begin (\<lambda>err. if err = None then pmap (\<lambda>e. ((), e)) f else pret ((), err))) 0) (\<lambda>(_, err).
         case err of
           Some (Server_Error code msg) \<Rightarrow> pbind (Rollback True) (\<lambda>_. pret err)
         | _ \<Rightarrow> pret err))"

definition auto_Bind :: "auto_stmt \<Rightarrow> bind_args \<Rightarrow> ('a auto_conn_scheme, unit) pm" where
  "auto_Bind st args = (case Raw st of None \<Rightarrow> crash Nil_Deref | Some i \<Rightarrow> Bind i args)"

definition needsRepreparing :: "my_err \<Rightarrow> bool" where
  "needsRepreparing e = (case e of Server_Error code _ \<Rightarrow> code = 1243 | _ \<Rightarrow> False)"

text \<open>Executing a statement: the loop does not count how often it prepares again, and may not end.\<close>

partial_function (option) exec_loop ::
    "autorc \<Rightarrow> (nat \<Rightarrow> ('a auto_conn_scheme, 'r \<times> my_err option) pm) \<Rightarrow> auto_stmt \<Rightarrow> int \<Rightarrow> 'a auto_conn_scheme \<Rightarrow>
     ((my_err + auto_stmt \<times> 'r \<times> my_err option) \<times> 'a auto_conn_scheme) go option" where
  "exec_loop a op st nn s =
     (case (case Raw st of None \<Rightarrow> crash Nil_Deref s | Some i \<Rightarrow> op i s) of
        Panic p \<Rightarrow> Some (Panic p) | Hang \<Rightarrow> Some Hang
      | Ret x \<Rightarrow> (case x of
          (Inl e, s1) \<Rightarrow> Some (Ret (Inl e, s1))
        | (Inr (r, None), s1) \<Rightarrow> Some (Ret (Inr (st, r, None), s1))
        | (Inr (r, Some e), s1) \<Rightarrow>
            if needsRepreparing e then
              (case auto_reprepare a st s1 of
                 Panic p \<Rightarrow> Some (Panic p) | Hang \<Rightarrow> Some Hang
               | Ret y \<Rightarrow> (case y of
                   (Inl e', s2) \<Rightarrow> Some (Ret (Inl e', s2))
                 | (Inr (st', Some _), s2) \<Rightarrow> Some (Ret (Inr (st', r, Some e), s2))
                 | (Inr (st', None), s2) \<Rightarrow> exec_loop a op st' nn s2))
            else
              (case reconnectIfNetErr a nn (Some e) s1 of
                 Panic p \<Rightarrow> Some (Panic p) | Hang \<Rightarrow> Some Hang
               | Ret y \<Rightarrow> (case y of
                   (Inl e', s2) \<Rightarrow> Some (Ret (Inl e', s2))
                 | (Inr (nn', Some e'), s2) \<Rightarrow> Some (Ret (Inr (st, r, Some e'), s2))
                 | (Inr (nn', None), s2) \<Rightarrow> exec_loop a op st nn' s2))))"


definition executed ::
    "autorc \<Rightarrow> 'r \<Rightarrow> (nat \<Rightarrow> ('a auto_conn_scheme, 'r \<times> my_err option) pm) \<Rightarrow> auto_stmt \<Rightarrow> 'a auto_conn_scheme \<Rightarrow>
     ((my_err + auto_stmt \<times> 'r \<times> my_err option) \<times> 'a auto_conn_scheme) go option" where
  "executed a none op st s =
     (case connectIfNotConnected a s of
        Panic p \<Rightarrow> Some (Panic p) | Hang \<Rightarrow> Some Hang
      | Ret x \<Rightarrow> (case x of
          (Inl e, s1) \<Rightarrow> Some (Ret (Inl e, s1))
        | (Inr (Some e), s1) \<Rightarrow> Some (Ret (Inr (st, none, Some e), s1))
        | (Inr None, s1) \<Rightarrow> exec_loop a op st 0 s1))"

definition auto_Exec :: "autorc \<Rightarrow> auto_stmt \<Rightarrow> bind_args \<Rightarrow> 'a auto_conn_scheme \<Rightarrow>
    ((my_err + auto_stmt \<times> (my_val list list \<times> my_result option) \<times> my_err option) \<times> 'a auto_conn_scheme) go option" where
  "auto_Exec a st args = executed a ([], None) (\<lambda>i. pmap op_results (Exec i args)) st"

definition auto_ExecFirst :: "autorc \<Rightarrow> auto_stmt \<Rightarrow> bind_args \<Rightarrow> 'a auto_conn_scheme \<Rightarrow>
    ((my_err + auto_stmt \<times> (my_val list option \<times> my_result option) \<times> my_err option) \<times> 'a auto_conn_scheme) go option" where
  "auto_ExecFirst a st args = executed a (None, None) (\<lambda>i. pmap op_results (ExecFirst i args)) st"

definition auto_ExecLast :: "autorc \<Rightarrow> auto_stmt \<Rightarrow> bind_args \<Rightarrow> 'a auto_conn_scheme \<Rightarrow>
    ((my_err + auto_stmt \<times> (my_val list option \<times> my_result option) \<times> my_err option) \<times> 'a auto_conn_scheme) go option" where
  "auto_ExecLast a st args = executed a (None, None) (\<lambda>i. pmap op_results (ExecLast i args)) st"

section \<open>Giving up\<close>

lemma raw_Reconnect_fails:
  assumes "\<not> connected s" and "dials a (tries s) = Inl e"
  obtains t where "raw_Reconnect a s = Ret (Inr (Some e), t)" "tries t = Suc (tries s)" "sleeps t = sleeps s" "\<not> connected t"
proof -
  define t where "t = s\<lparr>tries := Suc (tries s), connected := False\<rparr>"
  have "Reconnect (close_errs a (tries s)) None (dials a (tries s)) (orders a (tries s)) (s\<lparr>tries := Suc (tries s)\<rparr>) = Ret (Inl e, t)"
    using assms by (simp add: Reconnect_def connect_def dialed_def raise_def pret_def gets_def t_def)
  then have "raw_Reconnect a s = Ret (Inr (Some e), t)"
    by (simp add: raw_Reconnect_def pmap_def attempt_def err_of_def pret_def)
  then show thesis by (rule that) (simp_all add: t_def)
qed

lemma IsNetErr_Net [simp]: "IsNetErr (Net_Err x)"
  by (simp add: IsNetErr_def)

lemma reconnect_all_fail:
  assumes "\<forall>n. \<exists>x. dials a n = Inl (Net_Err x)" and "\<not> connected s" and "nn \<le> MaxRetries a + 1"
  shows "\<exists>nn' x' t. reconnectIfNetErr a nn (Some (Net_Err x)) s = Ret (Inr (nn', Some (Net_Err x')), t)
    \<and> tries t = tries s + nat (MaxRetries a + 1 - nn) \<and> sleeps t = sleeps s @ [nn..MaxRetries a] \<and> \<not> connected t"
  using assms(2,3)
proof (induction "nat (MaxRetries a + 1 - nn)" arbitrary: nn x s)
  case 0
  then show ?case by (simp add: reconnectIfNetErr.simps [of a nn] pret_def)
next
  case (Suc k)
  define u where "u = s\<lparr>sleeps := sleeps s @ [nn]\<rparr>"
  obtain y where y: "dials a (tries u) = Inl (Net_Err y)" using assms(1) by blast
  obtain v where v: "raw_Reconnect a u = Ret (Inr (Some (Net_Err y)), v)" "tries v = Suc (tries s)" "sleeps v = sleeps s @ [nn]" "\<not> connected v"
    using raw_Reconnect_fails [OF _ y] Suc.prems(1) by (auto simp: u_def)
  have le: "nn \<le> MaxRetries a" using Suc.hyps(2) by simp
  then have r: "reconnectIfNetErr a nn (Some (Net_Err x)) s = reconnectIfNetErr a (nn + 1) (Some (Net_Err y)) v"
    using v(1) by (subst reconnectIfNetErr.simps) (simp add: go_sleep_def u_def)
  have "[nn..MaxRetries a] = nn # [nn + 1..MaxRetries a]" using le by (simp add: upto_rec1)
  moreover have k: "k = nat (MaxRetries a + 1 - (nn + 1))" "nat (MaxRetries a + 1 - nn) = Suc k" using Suc.hyps(2) by linarith+
  moreover have "nn + 1 \<le> MaxRetries a + 1" using le by simp
  ultimately show ?case
    using Suc.hyps(1) [of "nn + 1" v y] v(2-4) r by auto
qed

text \<open>
  C26. Reconnecting to a server that cannot be reached ends: after the first attempt it tries \<open>MaxRetries + 1\<close>
  more times, one more than the limit, having slept 0, 1, 2, ... and \<open>MaxRetries\<close> seconds, and then reports the
  network's error; the connection stays closed.
\<close>

theorem Reconnect_gives_up:
  assumes "\<not> connected s" and "0 \<le> MaxRetries a" and "\<forall>n. \<exists>x. dials a n = Inl (Net_Err x)"
  shows "\<exists>x t. auto_Reconnect a s = Ret (Inr (Some (Net_Err x)), t) \<and> tries t = tries s + nat (MaxRetries a) + 2
    \<and> sleeps t = sleeps s @ [0..MaxRetries a] \<and> \<not> connected t"
proof -
  obtain y where "dials a (tries s) = Inl (Net_Err y)" using assms(3) by blast
  then obtain u where u: "raw_Reconnect a s = Ret (Inr (Some (Net_Err y)), u)" "tries u = Suc (tries s)" "sleeps u = sleeps s" "\<not> connected u"
    using raw_Reconnect_fails assms(1) by blast
  obtain nn' x t where "reconnectIfNetErr a 0 (Some (Net_Err y)) u = Ret (Inr (nn', Some (Net_Err x)), t)"
      "tries t = tries u + nat (MaxRetries a + 1)" "sleeps t = sleeps u @ [0..MaxRetries a]" "\<not> connected t"
    using reconnect_all_fail [OF assms(3) u(4), of 0 y] assms(2) by auto
  then show ?thesis using u assms(2) by (auto simp: auto_Reconnect_def pret_def)
qed

definition on_auto :: "my_conn \<Rightarrow> auto_conn" where
  "on_auto c = my_conn.extend c (auto_conn.fields 0 [])"

lemma on_auto_simps [simp]:
  "connected (on_auto c) = connected c" "tries (on_auto c) = 0" "sleeps (on_auto c) = []" "my_idle (on_auto c) = my_idle c"
  "rd (on_auto c) = rd c" "wr (on_auto c) = wr c" "unreaded_reply (on_auto c) = unreaded_reply c" "init_cmds (on_auto c) = init_cmds c" "stmt_map (on_auto c) = stmt_map c" "dbname (on_auto c) = dbname c"
  "user (on_auto c) = user c" "passwd (on_auto c) = passwd c"
  by (simp_all add: on_auto_def my_conn.defs auto_conn.defs my_idle_def)

definition sample_auto :: "(my_err + socket) \<Rightarrow> autorc" where
  "sample_auto d = \<lparr>MaxRetries = 7, dials = \<lambda>_. d, close_errs = \<lambda>_. None, orders = \<lambda>_. id\<rparr>"

theorem Reconnect_gives_up_witness:
  "\<exists>x t. auto_Reconnect (sample_auto (Inl (Net_Err ''refused''))) (on_auto sample_client) = Ret (Inr (Some (Net_Err x)), t)
    \<and> tries t = 9 \<and> sum_list (sleeps t) = 28"
proof -
  have "[0..7 :: int] = [0, 1, 2, 3, 4, 5, 6, 7]" by (simp add: upto_rec1)
  then show ?thesis
    using Reconnect_gives_up [of "on_auto sample_client" "sample_auto (Inl (Net_Err ''refused''))"] sample_facts(7)
    by (fastforce simp: sample_auto_def)
qed

section \<open>What repeating a query cannot repair\<close>

lemma Query_unread:
  "connected s \<Longrightarrow> unreaded_reply s \<Longrightarrow> Query sql s = Ret (Inr ([], None, Some ErrUnreadedReply), s)"
  by (simp add: Query_def after_start_def attempt_def Start_def on_idle_unread pret_def)

text \<open>
  C25. A query that loses its connection while it reads rows is not repeated.  The connection is made again, but the
  mark of the unread reply survives, so the second attempt is refused, and the caller gets \<open>ErrUnreadedReply\<close>
  in place of the rows or the network's error (without registered commands).
\<close>

theorem lost_rows_not_repeated:
  assumes "connected s" and "Query sql s = Ret (Inr (rows, res, Some e), t)" and "unreaded_reply t" and "init_cmds t = []"
    and "IsNetErr e" and "0 \<le> MaxRetries a"
    and "raw_Reconnect a (t\<lparr>sleeps := sleeps t @ [0]\<rparr>) = Ret (Inr None, u)"
  shows "auto_Query a sql s = Ret (Inr (([], None), Some ErrUnreadedReply), u) \<and> connected u"
proof -
  let ?op = "pmap op_results (Query sql)"
  have r: "Reconnect (close_errs a (tries t)) None (dials a (tries t)) (orders a (tries t))
      (t\<lparr>sleeps := sleeps t @ [0], tries := Suc (tries t)\<rparr>) = Ret (Inr (), u)"
  proof -
    obtain x where "Reconnect (close_errs a (tries t)) None (dials a (tries t)) (orders a (tries t))
        (t\<lparr>sleeps := sleeps t @ [0], tries := Suc (tries t)\<rparr>) = Ret (x, u)" "err_of x = None"
      using assms(7) by (auto simp: raw_Reconnect_def pmap_def pbind_eq_Inr attempt_def go_bind_eq_Ret pret_def)
    then show ?thesis by (cases x) (simp_all add: err_of_def)
  qed
  have u: "unreaded_reply u" "connected u"
    using Reconnect_unread [OF _ _ r] assms(3,4) by simp_all
  have "IsNetErr ErrUnreadedReply \<longleftrightarrow> False" by (simp add: IsNetErr_def ErrUnreadedReply_def error_value_def)
  then have second: "retry a ?op 1 u = Ret (Inr (([], None), Some ErrUnreadedReply), u)"
    using Query_unread [OF u(2,1)]
    by (simp add: retry.simps [of _ _ _ u] pmap_def op_results_def pret_def reconnectIfNetErr.simps [of _ _ "Some ErrUnreadedReply"])
  have "reconnectIfNetErr a 0 (Some e) t = Ret (Inr (1, None), u)"
    using assms(5-7) by (subst reconnectIfNetErr.simps) (simp add: go_sleep_def)
  then have "retry a ?op 0 s = retry a ?op 1 u"
    using assms(2) by (simp add: retry.simps [of _ _ _ s] pmap_def op_results_def pret_def)
  then show ?thesis
    using second assms(1) u(2) by (simp add: auto_Query_def repeated_def connectIfNotConnected_def pret_def)
qed


text \<open>A server that sends the description of a table and closes.\<close>

definition same_login :: "'a my_conn_scheme \<Rightarrow> 'a my_conn_scheme \<Rightarrow> bool" where
  "same_login s t \<longleftrightarrow> user t = user s \<and> passwd t = passwd s \<and> dbname t = dbname s \<and> init_cmds t = init_cmds s
     \<and> stmt_map t = stmt_map s \<and> my_conn.more t = my_conn.more s"

lemma same_login_moved: "moved_rd s t \<Longrightarrow> same_login s t" "moved_wr s t \<Longrightarrow> same_login s t"
  by (auto simp: moved_rd_def moved_wr_def same_login_def)

lemma GetRows_lost:
  assumes "unreads (rd s) = []" and "rd_err (rd s) = IO_EOF" and "\<not> status_only r" and "\<not> eor_returned r"
  shows "\<exists>t. GetRows r s = Ret (Inr ([], Some Unexpected_EOF, r), t) \<and> moved_rd s t"
proof -
  define b where "b = (rd s)\<lparr>pieces := []\<rparr>"
  define t where "t = s\<lparr>remain := 0, last_pkt := False, rd := b\<rparr>"
  have "avail (rd s) = []" using assms(1) by (simp add: unreads_def avail_def dropWhile_eq_Nil_conv)
  then have "rd_Read 3 (rd s) = (Inl IO_EOF, b)" by (simp add: rd_Read_def assms(2) b_def)
  then have "open_packet s = Ret (Inl IO_EOF, t)"
    by (simp add: open_packet_def newPktReader_def readByte_def next_header_def readHeader_def header_loop.simps on_rd_def t_def)
  then have "getResult (Some r) n s = Ret (Inl IO_EOF, t)" for n by (simp add: getResult.simps)
  then have "GetRow r s = Ret (Inl Unexpected_EOF, t)"
    using assms(3,4) by (simp add: GetRow_def ScanRow_def getRow_def catchError_def caught_def)
  then have "GetRows r s = Ret (Inr ([], Some Unexpected_EOF, r), t)"
    by (simp add: GetRows.simps attempt_def pret_def)
  moreover have "t = s\<lparr>rd := b, pkt_seq := pkt_seq s, remain := 0, last_pkt := False\<rparr>"
    by (rule my_conn.equality) (simp_all add: t_def)
  then have "moved_rd s t"
    using moved_rdI [where s = s and r = b and q = "pkt_seq s" and m = 0 and l = False] by (simp add: b_def)
  ultimately show ?thesis by blast
qed


lemma Query_lost:
  assumes "my_idle s" and "\<forall>d \<in> set ds. fd_ok d" and "1 \<le> length ds" and "length ds \<le> 250" and "rd_err (rd s) = IO_EOF"
    and "unreads (rd s) = stream (of_nat (nframes (COM_QUERY # sql))) (head_bytes (length ds) # map fd_bytes ds @ [eof_bytes wc st])"
  obtains res t where "Query sql s = Ret (Inr ([], Some res, Some Unexpected_EOF), t)" "unreaded_reply t" "connected t"
    "healthy (wr t)" "same_login s t"
proof -
  obtain s1 where s1: "sendCmdStr COM_QUERY sql s = Ret (Inr (), s1)" "moved_wr s s1" "healthy (wr s1)"
      "pkt_seq s1 = of_nat (nframes (COM_QUERY # sql))"
    using sendCmdStr_ok [OF assms(1)] by blast
  note m1 = moved_wr_conn [OF s1(2)]
  define r where "r = with_eof (add_fields (fullFieldInfo s1) (new_result\<lparr>n_fields := length ds\<rparr>) (map fd_field ds)) wc st"
  have "coming s1 (head_bytes (length ds) # map fd_bytes ds @ eof_bytes wc st # []) [] (seq_after (pkt_seq s1)
      (head_bytes (length ds) # map fd_bytes ds @ eof_bytes wc st # []))"
    using assms(6) s1(4) m1 by (simp add: coming_def)
  from getResponse_head [OF assms(2-4) this] obtain t1 where
      t1: "getResponse s1 = Ret (Inr r, t1\<lparr>status := st, unreaded_reply := True\<rparr>)" "unreads (rd t1) = []" "moved_rd s1 t1"
    unfolding r_def by (auto simp: coming_def)
  define t2 where "t2 = t1\<lparr>status := st, unreaded_reply := True\<rparr>"
  have r: "\<not> status_only r" "\<not> eor_returned r" by (simp_all add: r_def with_eof_def new_result_def)
  have e: "rd_err (rd t2) = IO_EOF" "unreads (rd t2) = []"
    using t1(2,3) m1 assms(5) by (auto simp: t2_def moved_rd_def)
  obtain t where t: "GetRows r t2 = Ret (Inr ([], Some Unexpected_EOF, r), t)" "moved_rd t2 t"
    using GetRows_lost [OF e(2,1) r] by blast
  have "Start sql s = Ret (Inr r, t2)"
    using assms(1) s1(1) t1(1) by (simp add: Start_def on_idle_def catchError_eq_Inr my_idle_def t2_def)
  then have "Query sql s = Ret (Inr ([], Some r, Some Unexpected_EOF), t)"
    using t(1) by (simp add: Query_def after_start_def attempt_def pret_def)
  moreover have "unreaded_reply t" "connected t" "healthy (wr t)"
    using moved_rd_conn [OF t(2)] moved_rd_conn [OF t1(3)] m1 s1(3) assms(1) by (auto simp: t2_def my_idle_def)
  moreover have "same_login s t"
    using same_login_moved(1) [OF t(2)] same_login_moved(1) [OF t1(3)] same_login_moved(2) [OF s1(2)]
    by (simp add: same_login_def t2_def)
  ultimately show thesis using that by blast
qed

lemma closeConn_ok:
  assumes "healthy (wr s)"
  obtains t where "closeConn None s = Ret (Inr (), t)" "same_login s t" "unreaded_reply t = unreaded_reply s"
proof -
  have h: "healthy (wr (s\<lparr>pkt_seq := 0\<rparr>))" using assms by simp
  obtain u where u: "pbind (newPktWriter 1) (\<lambda>_. writeByte COM_QUIT) (s\<lparr>pkt_seq := 0\<rparr>) = Ret (Inr (), u)" "moved_wr (s\<lparr>pkt_seq := 0\<rparr>) u"
    using emits_packet [OF writeByte_emits _ h] by fastforce
  then have "sendCmd COM_QUIT s = Ret (Inr (), u)" by (simp add: sendCmd_def reset_seq_def)
  then have "closeConn None s = Ret (Inr (), u\<lparr>connected := False\<rparr>)"
    by (simp add: closeConn_def attempt_def catchError_def modify_def pret_def)
  moreover have "same_login s (u\<lparr>connected := False\<rparr>)" "unreaded_reply (u\<lparr>connected := False\<rparr>) = unreaded_reply s"
    using same_login_moved(2) [OF u(2)] moved_wr_conn [OF u(2)] by (simp_all add: same_login_def)
  ultimately show thesis using that by blast
qed


definition sample_lost :: auto_conn where
  "sample_lost = on_auto ((conn_with [stream 1 (head_bytes 1 # map fd_bytes [sample_field] @ [eof_bytes 0 2])])
     \<lparr>user := [114, 111, 111, 116], passwd := [112, 119]\<rparr>)"

theorem lost_rows_not_repeated_witness:
  "\<exists>t u. Query [83] sample_lost = Ret (Inr t, u) \<and> snd (snd t) = Some Unexpected_EOF
    \<and> (\<exists>v. auto_Query (sample_auto (Inr sample_socket)) [83] sample_lost = Ret (Inr (([], None), Some ErrUnreadedReply), v))"
proof -
  let ?a = "sample_auto (Inr sample_socket)" and ?g = sample_greeting
  have s: "my_idle sample_lost" "rd_err (rd sample_lost) = IO_EOF" "user sample_lost = [114, 111, 111, 116]" "dbname sample_lost = []"
      "init_cmds sample_lost = []" "stmt_map sample_lost = []" "connected sample_lost" "sleeps sample_lost = []" "tries sample_lost = 0"
    by (simp_all add: sample_lost_def my_idle_def conn_with_def healthy_def)
  have "nframes [COM_QUERY, 83] = 1" by (simp add: nframes_def max_pkt_def)
  then have u: "unreads (rd sample_lost) = stream (of_nat (nframes (COM_QUERY # [83])))
      (head_bytes (length [sample_field]) # map fd_bytes [sample_field] @ [eof_bytes 0 2])"
    by (simp add: sample_lost_def conn_with_def unreads_def)
  have d: "\<forall>d \<in> set [sample_field]. fd_ok d" "1 \<le> length [sample_field]" "length [sample_field] \<le> 250"
    using sample_field_ok by simp_all
  obtain res t where t: "Query [83] sample_lost = Ret (Inr ([], Some res, Some Unexpected_EOF), t)" "unreaded_reply t" "connected t"
      "healthy (wr t)" "same_login sample_lost t"
    by (rule Query_lost [OF s(1) d s(2) u])
  define t0 where "t0 = t\<lparr>sleeps := sleeps t @ [0], tries := Suc (tries t)\<rparr>"
  have t0: "healthy (wr t0)" "connected t0" "unreaded_reply t0" using t(2-4) by (simp_all add: t0_def)
  obtain c where c: "closeConn None t0 = Ret (Inr (), c)" "same_login t0 c" "unreaded_reply c"
    using closeConn_ok [OF t0(1)] t0(3) by metis
  have l: "user c = [114, 111, 111, 116]" "dbname c = []" "init_cmds c = []" "stmt_map c = []"
    using c(2) t(5) s by (simp_all add: same_login_def t0_def)
  obtain reply where r: "encryptedPasswd (passwd c) (g_scramble ?g) = Ret reply"
    using encryptedPasswd_checks [OF sample_facts(8)] by blast
  have "server_accepts sample_socket ?g (auth_payload (c\<lparr>info := info_of ?g\<rparr>) reply) (ok_bytes 0 0 2 0 []) []"
    using l(1,2) by (intro sample_accepts length_encryptedPasswd [OF r]) simp_all
  from handshake_ok [OF l(3) r this sample_facts(9)] obtain h where
      h: "handshake (plug sample_socket c) = Ret (Inr (), h)" "stmt_map h = stmt_map c" by blast
  have "Reconnect None None (Inr sample_socket) id t0 = Ret (Inr (), h\<lparr>stmt_map := []\<rparr>)"
    using t0(2) c(1) h l(4) by (simp add: Reconnect_def pmap_def attempt_def connect_def dialed_def catchError_def pret_def modify_def)
  then have "raw_Reconnect ?a (t\<lparr>sleeps := sleeps t @ [0]\<rparr>) = Ret (Inr None, h\<lparr>stmt_map := []\<rparr>)"
    by (simp add: raw_Reconnect_def sample_auto_def pmap_def attempt_def err_of_def pret_def t0_def)
  from lost_rows_not_repeated [OF s(7) t(1,2) _ _ _ this]
  have "auto_Query ?a [83] sample_lost = Ret (Inr (([], None), Some ErrUnreadedReply), h\<lparr>stmt_map := []\<rparr>)"
    using t(5) s(5) by (simp add: same_login_def IsNetErr_def sample_auto_def)
  then show ?thesis using t(1) by fastforce
qed

end
