(* ===== verification/My_Escape.thy ===== *)
theory My_Escape
  imports My_Result
begin

text \<open>
  Quoting text for a query: \<open>escapeString\<close>, \<open>escapeQuotes\<close> and \<open>Escape\<close> of \<open>mysql/utils.go\<close>, and what the
  server reads back from a literal that is made with them.
\<close>

section \<open>Runes of a string\<close>

text \<open>\<open>range\<close> over a string yields the index and the rune of every character; a byte that begins no
  well-formed UTF-8 sequence counts as the rune U+FFFD of length 1.\<close>

definition rune_error :: "int \<times> nat" where
  "rune_error = (0xFFFD, 1)"

definition second_low :: "int \<Rightarrow> int" where
  "second_low b0 = (if b0 = 0xE0 then 0xA0 else if b0 = 0xF0 then 0x90 else 0x80)"

definition second_high :: "int \<Rightarrow> int" where
  "second_high b0 = (if b0 = 0xED then 0x9F else if b0 = 0xF4 then 0x8F else 0xBF)"

definition continues :: "int \<Rightarrow> bool" where
  "continues b \<longleftrightarrow> 0x80 \<le> b \<and> b \<le> 0xBF"

fun decode_ints :: "int list \<Rightarrow> int \<times> nat" where
  "decode_ints [] = (0xFFFD, 0)"
| "decode_ints [b0] = (if b0 < 0x80 then (b0, 1) else rune_error)"
| "decode_ints (b0 # b1 # bs) =
     (if b0 < 0x80 then (b0, 1)
      else if b0 < 0xC2 \<or> 0xF4 < b0 \<or> b1 < second_low b0 \<or> second_high b0 < b1 then rune_error
      else if b0 < 0xE0 then ((b0 - 0xC0) * 64 + (b1 - 0x80), 2)
      else (case bs of
          [] \<Rightarrow> rune_error
        | b2 # cs \<Rightarrow>
            if \<not> continues b2 then rune_error
            else if b0 < 0xF0 then ((b0 - 0xE0) * 4096 + (b1 - 0x80) * 64 + (b2 - 0x80), 3)
            else (case cs of
                [] \<Rightarrow> rune_error
              | b3 # _ \<Rightarrow>
                  if \<not> continues b3 then rune_error
                  else ((b0 - 0xF0) * 262144 + (b1 - 0x80) * 4096 + (b2 - 0x80) * 64 + (b3 - 0x80), 4))))"

definition decode_rune :: "byte list \<Rightarrow> int \<times> nat" where
  "decode_rune bs = decode_ints (map uint bs)"

lemma decode_ints_ascii: "b < 0x80 \<Longrightarrow> decode_ints (b # bs) = (b, 1)"
  by (cases bs) auto

lemma decode_ints_wide:
  assumes "0x80 \<le> b" and "decode_ints (b # bs) = (r, n)"
  shows "0x80 \<le> r \<and> 1 \<le> n \<and> n \<le> Suc (length bs) \<and> (\<forall>x \<in> set (take n (b # bs)). 0x80 \<le> x)"
  using assms
  by (cases bs)
    (auto simp: rune_error_def second_low_def second_high_def continues_def split: if_splits list.splits)

function range_runes :: "nat \<Rightarrow> byte list \<Rightarrow> (nat \<times> int) list" where
  "range_runes ii tx =
     (if tx = [] then []
      else let (bb, n) = decode_rune tx in (ii, bb) # range_runes (ii + max 1 n) (drop (max 1 n) tx))"
  by pat_completeness auto
termination
  by (relation "measure (length \<circ> snd)") (auto simp: max_def split: if_splits)

declare range_runes.simps [simp del]

section \<open>Escaping\<close>

definition esc_string :: "int \<Rightarrow> byte list option" where
  "esc_string bb =
     (if bb = 0 then Some [92, 48]
      else if bb = 10 then Some [92, 110]
      else if bb = 13 then Some [92, 114]
      else if bb = 92 then Some [92, 92]
      else if bb = 39 then Some [92, 39]
      else if bb = 34 then Some [92, 34]
      else if bb = 26 then Some [92, 90]
      else None)"

definition esc_quotes :: "int \<Rightarrow> byte list option" where
  "esc_quotes bb = (if bb = 39 then Some [39, 39] else None)"

text \<open>The loop of both functions: \<open>last\<close> is the index behind the last character that was replaced.\<close>

fun esc_loop :: "(int \<Rightarrow> byte list option) \<Rightarrow> byte list \<Rightarrow> (nat \<times> int) list \<Rightarrow> nat \<Rightarrow> byte list \<Rightarrow> byte list" where
  "esc_loop esc tx [] lst buf = buf @ drop lst tx"
| "esc_loop esc tx ((ii, bb) # rs) lst buf =
     (case esc bb of
        None \<Rightarrow> esc_loop esc tx rs lst buf
      | Some e \<Rightarrow> esc_loop esc tx rs (ii + 1) (buf @ drop lst (take ii tx) @ e))"

definition escapeString :: "byte list \<Rightarrow> byte list" where
  "escapeString tx = esc_loop esc_string tx (range_runes 0 tx) 0 []"

definition escapeQuotes :: "byte list \<Rightarrow> byte list" where
  "escapeQuotes tx = esc_loop esc_quotes tx (range_runes 0 tx) 0 []"

definition Escape :: "16 word \<Rightarrow> byte list \<Rightarrow> byte list" where
  "Escape st tx = (if and st SERVER_STATUS_NO_BACKSLASH_ESCAPES \<noteq> 0 then escapeQuotes tx else escapeString tx)"

text \<open>Only ASCII characters are replaced, and these are bytes of their own, so the loop works bytewise.\<close>

definition ascii_only :: "(int \<Rightarrow> byte list option) \<Rightarrow> bool" where
  "ascii_only esc \<longleftrightarrow> (\<forall>bb. 0x80 \<le> bb \<longrightarrow> esc bb = None)"

definition esc_byte :: "(int \<Rightarrow> byte list option) \<Rightarrow> byte \<Rightarrow> byte list" where
  "esc_byte esc b = (case esc (uint b) of None \<Rightarrow> [b] | Some e \<Rightarrow> e)"

lemma esc_byte_wide:
  assumes "ascii_only esc" and "\<forall>b \<in> set bs. 0x80 \<le> uint b"
  shows "concat (map (esc_byte esc) bs) = bs"
  using assms by (induction bs) (auto simp: ascii_only_def esc_byte_def)

lemma esc_loop_bytes:
  assumes "ascii_only esc" and "lst \<le> length pre"
  shows "esc_loop esc (pre @ tx) (range_runes (length pre) tx) lst buf = buf @ drop lst pre @ concat (map (esc_byte esc) tx)"
  using assms(2)
proof (induction "length pre" tx arbitrary: pre lst buf rule: range_runes.induct)
  case (1 tx)
  show ?case
  proof (cases tx)
    case Nil
    then show ?thesis by (simp add: range_runes.simps)
  next
    case (Cons b bs)
    obtain bb n where d: "decode_rune tx = (bb, n)" by (cases "decode_rune tx")
    define k where "k = max 1 n"
    have r: "range_runes (length pre) tx = (length pre, bb) # range_runes (length pre + k) (drop k tx)"
      using Cons d by (subst range_runes.simps) (simp add: k_def)
    have IH: "esc_loop esc (pre @ tx) (range_runes (length pre + k) (drop k tx)) l c =
        c @ drop l (pre @ take k tx) @ concat (map (esc_byte esc) (drop k tx))"
      if "l \<le> length pre + k" "k \<le> length tx" for l c
      using "1.hyps" [of "(bb, n)" bb n "pre @ take k tx" l c] that Cons d by (simp add: k_def)
    show ?thesis
    proof (cases "uint b < 0x80")
      case True
      then have k: "bb = uint b" "k = 1" using d Cons by (simp_all add: decode_rune_def decode_ints_ascii k_def)
      show ?thesis
      proof (cases "esc (uint b)")
        case None
        then show ?thesis using IH [of lst buf] 1(2) k r Cons by (simp add: esc_byte_def)
      next
        case (Some e)
        then show ?thesis using IH [of "length pre + 1"] 1(2) k r Cons by (simp add: esc_byte_def)
      qed
    next
      case False
      have "0x80 \<le> bb \<and> 1 \<le> n \<and> n \<le> length tx \<and> (\<forall>x \<in> uint ` set (take n tx). 0x80 \<le> x)"
        using decode_ints_wide [of "uint b" "map uint bs" bb n] False d Cons unfolding list.set_map [symmetric] take_map [symmetric]
        by (simp add: decode_rune_def)
      then have w: "0x80 \<le> bb" "1 \<le> n" "n \<le> length tx" "\<forall>x \<in> set (take n tx). 0x80 \<le> uint x" by auto
      have k: "k = n" using w(2) by (simp add: k_def)
      have "esc bb = None" using w(1) assms(1) by (simp add: ascii_only_def)
      then have "esc_loop esc (pre @ tx) (range_runes (length pre) tx) lst buf =
          buf @ drop lst (pre @ take n tx) @ concat (map (esc_byte esc) (drop n tx))"
        using IH [of lst buf] w(3) 1(2) r k by simp
      also have "\<dots> = buf @ drop lst pre @ concat (map (esc_byte esc) (take n tx)) @ concat (map (esc_byte esc) (drop n tx))"
        using esc_byte_wide [OF assms(1) w(4)] 1(2) by simp
      also have "\<dots> = buf @ drop lst pre @ concat (map (esc_byte esc) tx)"
        by (metis append_take_drop_id concat_append map_append)
      finally show ?thesis .
    qed
  qed
qed

lemma ascii_only_tables: "ascii_only esc_string" "ascii_only esc_quotes"
  by (auto simp: ascii_only_def esc_string_def esc_quotes_def)

lemma escape_bytes:
  "escapeString tx = concat (map (esc_byte esc_string) tx)" "escapeQuotes tx = concat (map (esc_byte esc_quotes) tx)"
  using esc_loop_bytes [of _ 0 "[]" tx "[]"] ascii_only_tables by (simp_all add: escapeString_def escapeQuotes_def)

section \<open>What the server reads\<close>

text \<open>
  A literal in single quotes, behind its first quote, in a character set in which no byte of a longer
  character is ASCII: its text and what follows it.  With \<open>nb\<close>, the mode \<open>NO_BACKSLASH_ESCAPES\<close>, a backslash
  is an ordinary character.
\<close>

definition unescaped :: "byte \<Rightarrow> byte list" where
  "unescaped b =
     (if b = 48 then [0] else if b = 98 then [8] else if b = 110 then [10] else if b = 114 then [13] else if b = 116 then [9]
      else if b = 90 then [26] else if b = 37 \<or> b = 95 then [92, b] else [b])"

definition put_front :: "byte list \<Rightarrow> (byte list \<times> byte list) option \<Rightarrow> (byte list \<times> byte list) option" where
  "put_front a r = map_option (\<lambda>(t, rest). (a @ t, rest)) r"

fun lex_literal :: "bool \<Rightarrow> byte list \<Rightarrow> (byte list \<times> byte list) option" where
  "lex_literal nb [] = None"
| "lex_literal nb [b] = (if b = 39 then Some ([], []) else None)"
| "lex_literal nb (b # c # bs) =
     (if b = 39 then (if c = 39 then put_front [39] (lex_literal nb bs) else Some ([], c # bs))
      else if b = 92 \<and> \<not> nb then put_front (unescaped c) (lex_literal nb bs)
      else put_front [b] (lex_literal nb (c # bs)))"

lemma lex_plain:
  "b \<noteq> 39 \<Longrightarrow> b \<noteq> 92 \<or> nb \<Longrightarrow> lex_literal nb (b # bs) = put_front [b] (lex_literal nb bs)"
  by (cases bs) (auto simp: put_front_def)

lemma lex_esc_byte:
  "lex_literal False (esc_byte esc_string b @ bs) = put_front [b] (lex_literal False bs)"
  "lex_literal True (esc_byte esc_quotes b @ bs) = put_front [b] (lex_literal True bs)"
proof -
  have u: "uint b = n \<longleftrightarrow> b = word_of_int n" if "0 \<le> n" "n < 256" for n
    using that by (auto simp: uint_word_of_int)
  show "lex_literal False (esc_byte esc_string b @ bs) = put_front [b] (lex_literal False bs)"
    by (auto simp: esc_byte_def esc_string_def u unescaped_def lex_plain split: if_splits)
  show "lex_literal True (esc_byte esc_quotes b @ bs) = put_front [b] (lex_literal True bs)"
    by (auto simp: esc_byte_def esc_quotes_def u lex_plain)
qed

lemma put_front_append: "put_front a (put_front b r) = put_front (a @ b) r"
  by (cases r) (auto simp: put_front_def)

lemma lex_escaped:
  "lex_literal False (concat (map (esc_byte esc_string) tx) @ bs) = put_front tx (lex_literal False bs)"
  "lex_literal True (concat (map (esc_byte esc_quotes) tx) @ bs) = put_front tx (lex_literal True bs)"
  by (induction tx; simp add: lex_esc_byte put_front_append; simp add: put_front_def option.map_ident)+

text \<open>
  C28. Text that goes through \<open>Escape\<close> cannot leave the literal it is put into: with the mode that the
  server last reported, the literal between single quotes ends where the text ends and its value is
  the text, whatever bytes the text holds.
\<close>

theorem escaped_text_stays_inside:
  assumes "rest = [] \<or> hd rest \<noteq> 39"
  shows "lex_literal (and st SERVER_STATUS_NO_BACKSLASH_ESCAPES \<noteq> 0) (Escape st tx @ [39] @ rest) = Some (tx, rest)"
proof -
  have q: "lex_literal nb (39 # rest) = Some ([], rest)" for nb
    using assms by (cases rest) auto
  show ?thesis by (simp add: Escape_def escape_bytes lex_escaped q put_front_def)
qed

theorem escaped_text_stays_inside_witness:
  "lex_literal False (Escape 2 [39, 32, 79, 82, 32, 39, 49, 92] @ [39, 59]) = Some ([39, 32, 79, 82, 32, 39, 49, 92], [59])"
proof -
  have "and 2 SERVER_STATUS_NO_BACKSLASH_ESCAPES = 0" by (simp add: SERVER_STATUS_NO_BACKSLASH_ESCAPES_def)
  then show ?thesis using escaped_text_stays_inside [of "[59]" 2 "[39, 32, 79, 82, 32, 39, 49, 92]"] by simp
qed

text \<open>With \<open>NO_BACKSLASH_ESCAPES\<close> double quotes are left alone: \<open>Escape\<close> protects literals in single quotes only.\<close>

lemma Escape_keeps_double_quotes:
  "and st SERVER_STATUS_NO_BACKSLASH_ESCAPES \<noteq> 0 \<Longrightarrow> Escape st [34] = [34]"
  by (simp add: Escape_def escape_bytes esc_byte_def esc_quotes_def)

end
