(* ===== verification/My_Thrsafe.thy ===== *)
theory My_Thrsafe
  imports My_Login
begin

text \<open>
  The engine that the scheduler uses (\<open>thrsafe/thrsafe.go\<close>): a native connection behind a mutex, which is
  held from the start of a query until its last row has been read, and a goroutine that pings an idle server.

  One goroutine is followed at a time.  \<open>Hang\<close> is a wait for a mutex that this goroutine, or one that will
  never release it, holds; releasing a free mutex ends the program.
\<close>

section \<open>Connection objects\<close>

text \<open>
  The connection and every transaction on it have an object of their own with a mutex; they share the native
  connection.  The objects are numbered, the connection itself is number 0.  \<open>l_stop\<close> is the channel
  \<open>stopPinger\<close>: \<open>None\<close> is the nil channel, \<open>Some True\<close> a closed one.
\<close>

record lock_obj =
  l_mutex :: bool
  l_lastUsed :: int
  l_stop :: "bool option"

record thr_conn = my_conn +
  l_objs :: "lock_obj list"
  l_now :: int
  l_pingers :: nat

definition new_obj :: lock_obj where
  "new_obj = \<lparr>l_mutex = False, l_lastUsed = 0, l_stop = None\<rparr>"

definition on_thr :: "int \<Rightarrow> my_conn \<Rightarrow> thr_conn" where
  "on_thr now c = my_conn.extend c (thr_conn.fields [new_obj] now 0)"

definition t_New :: "int \<Rightarrow> byte list \<Rightarrow> byte list \<Rightarrow> byte list list \<Rightarrow> thr_conn go" where
  "t_New now us pw db = go_bind (New us pw db) (\<lambda>c. Ret (on_thr now c))"

definition t_Clone :: "int \<Rightarrow> my_conn \<Rightarrow> thr_conn go" where
  "t_Clone now c = go_bind (Clone c) (\<lambda>d. Ret (on_thr now d))"

definition upd_obj :: "nat \<Rightarrow> (lock_obj \<Rightarrow> lock_obj) \<Rightarrow> 'a thr_conn_scheme \<Rightarrow> 'a thr_conn_scheme" where
  "upd_obj i f c = c\<lparr>l_objs := (l_objs c)[i := f (l_objs c ! i)]\<rparr>"

definition mutex_Lock :: "nat \<Rightarrow> ('a thr_conn_scheme, unit) pm" where
  "mutex_Lock i c = (if l_mutex (l_objs c ! i) then Hang else Ret (Inr (), upd_obj i (\<lambda>x. x\<lparr>l_mutex := True\<rparr>) c))"

definition mutex_Unlock :: "nat \<Rightarrow> ('a thr_conn_scheme, unit) pm" where
  "mutex_Unlock i c =
     (if l_mutex (l_objs c ! i) then Ret (Inr (), upd_obj i (\<lambda>x. x\<lparr>l_mutex := False\<rparr>) c)
      else Panic (Explicit_Panic ''sync: unlock of unlocked mutex''))"

definition t_lock :: "nat \<Rightarrow> ('a thr_conn_scheme, unit) pm" where
  "t_lock i = mutex_Lock i"

definition t_unlock :: "nat \<Rightarrow> ('a thr_conn_scheme, unit) pm" where
  "t_unlock i = pbind (modify (\<lambda>c. upd_obj i (\<lambda>x. x\<lparr>l_lastUsed := l_now c\<rparr>) c)) (\<lambda>_. mutex_Unlock i)"

text \<open>An operation under the lock, which is released when it returns, with or without an error.\<close>

definition under_lock :: "nat \<Rightarrow> ('a thr_conn_scheme, 'b) pm \<Rightarrow> ('a thr_conn_scheme, 'b) pm" where
  "under_lock i m =
     pbind (t_lock i) (\<lambda>_. pbind (attempt m) (\<lambda>r. pbind (t_unlock i) (\<lambda>_. case r of Inl e \<Rightarrow> raise e | Inr x \<Rightarrow> pret x)))"

section \<open>Connecting and pinging\<close>

definition start_pinger :: "('a thr_conn_scheme, unit) pm" where
  "start_pinger = modify (\<lambda>c. c\<lparr>l_pingers := l_pingers c + 1\<rparr>)"

definition t_Connect :: "nat \<Rightarrow> (my_err + socket option) option \<Rightarrow> my_err + socket \<Rightarrow> ('a thr_conn_scheme, unit) pm" where
  "t_Connect i dialer dflt =
     under_lock i (pbind (modify (upd_obj i (\<lambda>x. x\<lparr>l_stop := Some False\<rparr>))) (\<lambda>_. pbind start_pinger (\<lambda>_. Connect dialer dflt)))"

definition close_chan :: "nat \<Rightarrow> ('a thr_conn_scheme, unit) pm" where
  "close_chan i =
     pbind (gets (\<lambda>c. l_stop (l_objs c ! i))) (\<lambda>ch. case ch of
       None \<Rightarrow> crash (Explicit_Panic ''close of nil channel'')
     | Some True \<Rightarrow> crash (Explicit_Panic ''close of closed channel'')
     | Some False \<Rightarrow> modify (upd_obj i (\<lambda>x. x\<lparr>l_stop := Some True\<rparr>)))"

definition t_Close :: "nat \<Rightarrow> my_err option \<Rightarrow> ('a thr_conn_scheme, unit) pm" where
  "t_Close i ce = pbind (close_chan i) (\<lambda>_. under_lock i (Close ce))"

definition t_Reconnect :: "nat \<Rightarrow> my_err option \<Rightarrow> (my_err + socket option) option \<Rightarrow> my_err + socket \<Rightarrow>
    ((32 word \<times> nat) list \<Rightarrow> (32 word \<times> nat) list) \<Rightarrow> ('a thr_conn_scheme, unit) pm" where
  "t_Reconnect i ce dialer dflt order =
     under_lock i (pbind (gets (\<lambda>c. l_stop (l_objs c ! i))) (\<lambda>ch.
       pbind (if ch = None then start_pinger else pret ()) (\<lambda>_. Reconnect ce dialer dflt order)))"

definition t_Use :: "nat \<Rightarrow> byte list \<Rightarrow> ('a thr_conn_scheme, unit) pm" where
  "t_Use i db = under_lock i (Use db)"

definition t_Ping :: "nat \<Rightarrow> ('a thr_conn_scheme, unit) pm" where
  "t_Ping i = under_lock i Ping"

definition t_Status :: "nat \<Rightarrow> ('a thr_conn_scheme, 16 word) pm" where
  "t_Status i = under_lock i (gets status)"

text \<open>The pinger wakes up when its timer fires, at the times \<open>ts\<close>, until it is stopped (\<open>None\<close>).  The inner \<open>sleep\<close> is
  a new variable: the outer one, which sets the timer, keeps its value.\<close>

definition pinger_to :: int where
  "pinger_to = 60"

definition pinger_wakes :: "nat \<Rightarrow> int \<Rightarrow> ('a thr_conn_scheme, bool) pm" where
  "pinger_wakes i t =
     pbind (mutex_Lock i) (\<lambda>_. pbind (gets (\<lambda>c. l_lastUsed (l_objs c ! i))) (\<lambda>lastUsed. pbind (mutex_Unlock i) (\<lambda>_.
       let sleep = pinger_to - (t - lastUsed) in
       if sleep \<le> 0 then pbind (attempt (t_Ping i)) (\<lambda>r. pret (case r of Inl _ \<Rightarrow> False | Inr _ \<Rightarrow> True))
       else pret True)))"

fun pinger :: "nat \<Rightarrow> int option list \<Rightarrow> ('a thr_conn_scheme, unit) pm" where
  "pinger i [] = pret ()"
| "pinger i (None # ts) = pret ()"
| "pinger i (Some t # ts) =
     pbind (modify (\<lambda>c. c\<lparr>l_now := t\<rparr>)) (\<lambda>_. pbind (pinger_wakes i t) (\<lambda>go_on. if go_on then pinger i ts else pret ()))"

section \<open>Queries\<close>

text \<open>The mutex stays locked while there are rows or results to come.\<close>

definition release_if_complete :: "nat \<Rightarrow> my_result \<Rightarrow> ('a thr_conn_scheme, my_result) pm" where
  "release_if_complete i res =
     pbind (if status_only res \<and> \<not> MoreResults res then t_unlock i else pret ()) (\<lambda>_. pret res)"

definition t_Start :: "nat \<Rightarrow> byte list \<Rightarrow> ('a thr_conn_scheme, my_result) pm" where
  "t_Start i sql =
     pbind (t_lock i) (\<lambda>_. pbind (attempt (Start sql)) (\<lambda>r.
       case r of Inl e \<Rightarrow> pbind (t_unlock i) (\<lambda>_. raise e) | Inr res \<Rightarrow> release_if_complete i res))"

definition t_ScanRow :: "nat \<Rightarrow> nat option \<Rightarrow> my_result \<Rightarrow> ('a thr_conn_scheme, my_val list option \<times> my_result) pm" where
  "t_ScanRow i row res =
     pbind (attempt (ScanRow row res)) (\<lambda>r. case r of
       Inr (Some vs, res') \<Rightarrow> pret (Some vs, res')
     | Inr (None, res') \<Rightarrow>
         pbind (if \<not> status_only res' \<and> \<not> MoreResults res' then t_unlock i else pret ()) (\<lambda>_. pret (None, res'))
     | Inl e \<Rightarrow> if e = ErrReadAfterEOR then raise e else pbind (t_unlock i) (\<lambda>_. raise e))"

definition t_NextResult :: "nat \<Rightarrow> my_result \<Rightarrow> ('a thr_conn_scheme, my_result option) pm" where
  "t_NextResult i res =
     pbind (NextResult res) (\<lambda>nr. case nr of
       None \<Rightarrow> pret None
     | Some r \<Rightarrow> pmap Some (release_if_complete i r))"

definition t_GetRow :: "nat \<Rightarrow> my_result \<Rightarrow> ('a thr_conn_scheme, my_val list option \<times> my_result) pm" where
  "t_GetRow i res = t_ScanRow i (Some (field_count res)) res"

lemma t_ScanRow_row:
  assumes "t_ScanRow i row res s = Ret (Inr (Some vs, res'), t)"
  shows "ScanRow row res s = Ret (Inr (Some vs, res'), t)"
proof -
  obtain r u where r: "ScanRow row res s = Ret (r, u)"
    using assms by (cases "ScanRow row res s") (auto simp: t_ScanRow_def attempt_def pbind_def)
  then show ?thesis
    using assms
    by (cases r) (auto simp: t_ScanRow_def attempt_def pbind_eq_Inr pret_def raise_def split: option.splits if_splits)
qed

lemma t_GetRow_less: "t_GetRow i res s = Ret (Inr (Some vs, res'), t) \<Longrightarrow> in_left t < in_left s"
  using t_ScanRow_row ScanRow_less unfolding t_GetRow_def by blast

function t_GetRows :: "nat \<Rightarrow> my_result \<Rightarrow> ('a thr_conn_scheme, my_val list list \<times> my_err option \<times> my_result) pm" where
  "t_GetRows i res s =
     pbind (attempt (t_GetRow i res)) (\<lambda>r s1.
       case r of
         Inl e \<Rightarrow> pret ([], Some e, res) s1
       | Inr (None, res') \<Rightarrow> pret ([], None, res') s1
       | Inr (Some row, res') \<Rightarrow> pbind (t_GetRows i res') (\<lambda>(rows, e, res''). pret (row # rows, e, res'')) s1) s"
  by pat_completeness auto
termination
  by (relation "measure (in_left \<circ> snd \<circ> snd)") (auto simp: attempt_def dest: t_GetRow_less)

function t_last_loop :: "nat \<Rightarrow> my_val list \<Rightarrow> my_result \<Rightarrow> ('a thr_conn_scheme, my_val list option \<times> my_err option \<times> my_result) pm" where
  "t_last_loop i row res s =
     pbind (attempt (t_GetRow i res)) (\<lambda>r s1.
       case r of
         Inl e \<Rightarrow> pret (None, Some e, res) s1
       | Inr (None, res') \<Rightarrow> pret (Some row, None, res') s1
       | Inr (Some row', res') \<Rightarrow> t_last_loop i row' res' s1) s"
  by pat_completeness auto
termination
  by (relation "measure (in_left \<circ> snd \<circ> snd \<circ> snd)") (auto simp: attempt_def dest: t_GetRow_less)

declare t_GetRows.simps [simp del] t_last_loop.simps [simp del]

definition t_GetLastRow :: "nat \<Rightarrow> my_result \<Rightarrow> ('a thr_conn_scheme, my_val list option \<times> my_err option \<times> my_result) pm" where
  "t_GetLastRow i res =
     pbind (attempt (t_GetRow i res)) (\<lambda>r.
       case r of
         Inl e \<Rightarrow> pret (None, Some e, res)
       | Inr (None, res') \<Rightarrow> pret (None, None, res')
       | Inr (Some row, res') \<Rightarrow> t_last_loop i row res')"

definition t_End :: "nat \<Rightarrow> my_result \<Rightarrow> ('a thr_conn_scheme, my_err option \<times> my_result) pm" where
  "t_End i res = pbind (t_GetLastRow i res) (\<lambda>(_, e, res'). pret (e, res'))"

definition t_GetFirstRow :: "nat \<Rightarrow> my_result \<Rightarrow> ('a thr_conn_scheme, my_val list option \<times> my_err option \<times> my_result) pm" where
  "t_GetFirstRow i res =
     pbind (attempt (t_GetRow i res)) (\<lambda>r.
       case r of
         Inl e \<Rightarrow> pret (None, Some e, res)
       | Inr (None, res') \<Rightarrow> pret (None, None, res')
       | Inr (Some row, res') \<Rightarrow> pbind (t_End i res') (\<lambda>(e, res''). pret (Some row, e, res'')))"

definition t_Query :: "nat \<Rightarrow> byte list \<Rightarrow> ('a thr_conn_scheme, my_val list list \<times> my_result option \<times> my_err option) pm" where
  "t_Query i sql = after_start (t_GetRows i) [] (t_Start i sql)"

definition t_QueryFirst :: "nat \<Rightarrow> byte list \<Rightarrow> ('a thr_conn_scheme, my_val list option \<times> my_result option \<times> my_err option) pm" where
  "t_QueryFirst i sql = after_start (t_GetFirstRow i) None (t_Start i sql)"

definition t_QueryLast :: "nat \<Rightarrow> byte list \<Rightarrow> ('a thr_conn_scheme, my_val list option \<times> my_result option \<times> my_err option) pm" where
  "t_QueryLast i sql = after_start (t_GetLastRow i) None (t_Start i sql)"

section \<open>Statements\<close>

text \<open>A statement is a native statement with the number of the connection object it uses.\<close>

definition t_Prepare :: "nat \<Rightarrow> byte list \<Rightarrow> ('a thr_conn_scheme, nat \<times> nat) pm" where
  "t_Prepare i sql = under_lock i (pmap (\<lambda>st. (st, i)) (Prepare sql))"

fun t_Run :: "nat \<times> nat \<Rightarrow> bind_args \<Rightarrow> ('a thr_conn_scheme, my_result) pm" where
  "t_Run (st, i) args =
     pbind (t_lock i) (\<lambda>_. pbind (attempt (Run st args)) (\<lambda>r.
       case r of Inl e \<Rightarrow> pbind (t_unlock i) (\<lambda>_. raise e) | Inr res \<Rightarrow> release_if_complete i res))"

fun t_Delete :: "nat \<times> nat \<Rightarrow> ('a thr_conn_scheme, unit) pm" where
  "t_Delete (st, i) = under_lock i (Delete st)"

fun t_Reset :: "nat \<times> nat \<Rightarrow> ('a thr_conn_scheme, unit) pm" where
  "t_Reset (st, i) = under_lock i (Reset st)"

fun t_SendLongData :: "nat \<times> nat \<Rightarrow> int \<Rightarrow> data_source \<Rightarrow> int \<Rightarrow> ('a thr_conn_scheme, unit) pm" where
  "t_SendLongData (st, i) pnum dat pkt_size = under_lock i (SendLongData st pnum dat pkt_size)"

definition t_Exec :: "nat \<times> nat \<Rightarrow> bind_args \<Rightarrow> ('a thr_conn_scheme, my_val list list \<times> my_result option \<times> my_err option) pm" where
  "t_Exec st args = after_start (t_GetRows (snd st)) [] (t_Run st args)"

definition t_ExecFirst :: "nat \<times> nat \<Rightarrow> bind_args \<Rightarrow> ('a thr_conn_scheme, my_val list option \<times> my_result option \<times> my_err option) pm" where
  "t_ExecFirst st args = after_start (t_GetFirstRow (snd st)) None (t_Run st args)"

definition t_ExecLast :: "nat \<times> nat \<Rightarrow> bind_args \<Rightarrow> ('a thr_conn_scheme, my_val list option \<times> my_result option \<times> my_err option) pm" where
  "t_ExecLast st args = after_start (t_GetLastRow (snd st)) None (t_Run st args)"

section \<open>Transactions\<close>

text \<open>A transaction has an object of its own and remembers the one it was begun on, which stays locked until the end
  of the transaction.  An ended one has neither.\<close>

record transaction =
  tr_Conn :: "nat option"
  tr_conn :: "nat option"

definition t_Begin :: "nat \<Rightarrow> ('a thr_conn_scheme, transaction) pm" where
  "t_Begin i =
     pbind (t_lock i) (\<lambda>_. pbind (gets (\<lambda>c. length (l_objs c))) (\<lambda>j. pbind (modify (\<lambda>c. c\<lparr>l_objs := l_objs c @ [new_obj]\<rparr>)) (\<lambda>_.
     pbind (attempt (Start (bytes_of_string ''START TRANSACTION''))) (\<lambda>r. case r of
       Inl e \<Rightarrow> pbind (t_unlock i) (\<lambda>_. raise e)
     | Inr _ \<Rightarrow> pret \<lparr>tr_Conn = Some j, tr_conn = Some i\<rparr>))))"

definition t_end :: "string \<Rightarrow> transaction \<Rightarrow> ('a thr_conn_scheme, transaction \<times> my_err option) pm" where
  "t_end cr tr =
     (case (tr_Conn tr, tr_conn tr) of
        (Some j, Some i) \<Rightarrow>
          pbind (t_lock j) (\<lambda>_. pbind (attempt (Start (bytes_of_string cr))) (\<lambda>r. pbind (t_unlock i) (\<lambda>_. pbind (mutex_Unlock j) (\<lambda>_.
            pret (\<lparr>tr_Conn = None, tr_conn = None\<rparr>, case r of Inl e \<Rightarrow> Some e | Inr _ \<Rightarrow> None)))))
      | _ \<Rightarrow> crash Nil_Deref)"

definition t_Commit :: "transaction \<Rightarrow> ('a thr_conn_scheme, transaction \<times> my_err option) pm" where
  "t_Commit = t_end ''COMMIT''"

definition t_Rollback :: "transaction \<Rightarrow> ('a thr_conn_scheme, transaction \<times> my_err option) pm" where
  "t_Rollback = t_end ''ROLLBACK''"

definition t_IsValid :: "transaction \<Rightarrow> bool" where
  "t_IsValid tr \<longleftrightarrow> tr_Conn tr \<noteq> None"

definition t_Do :: "transaction \<Rightarrow> nat \<times> nat \<Rightarrow> (nat \<times> nat option) go" where
  "t_Do tr st =
     (if Some (snd st) = tr_conn tr then Ret (fst st, tr_Conn tr)
      else Panic (Explicit_Panic ''Transaction and statement doesn't belong to the same connection''))"


section \<open>What the native operations leave alone\<close>

lemma l_objs_more: "my_conn.more t = my_conn.more s \<Longrightarrow> l_objs t = l_objs s" for s t :: "'a thr_conn_scheme"
  by (cases s; cases t) simp

lemma keeping_more_modify: "keeping my_conn.more (modify (\<lambda>c. c\<lparr>unreaded_reply := b\<rparr>))"
  by (simp add: keeping_def modify_def)

lemma keeping_more_getResponse: "keeping my_conn.more getResponse"
  unfolding getResponse_def
  by (intro keeping_rules holding_getResult [THEN keeping_held(4)])
    (auto split: got.split intro!: keeping_rules keeping_more_modify)

lemma keeping_on_idle:
  assumes "keeping f m"
  shows "keeping f (on_idle m)"
proof -
  have "keeping f (\<lambda>c. if \<not> connected c then raise ErrNotConn c else if unreaded_reply c then raise ErrUnreadedReply c else m c)"
    using assms by (auto simp: keeping_def raise_def)
  from keeping_catch(1) [OF this] show ?thesis by (simp add: keeping_def on_idle_def)
qed

lemma keeping_more_Start: "keeping my_conn.more (Start sql)"
  unfolding Start_def
  by (intro keeping_on_idle keeping_rules holding_commands [THEN keeping_held(4)] keeping_more_getResponse)

lemma keeping_more_ScanRow: "keeping my_conn.more (ScanRow row res)"
proof (cases row)
  case (Some n)
  then show ?thesis
    by (auto simp: ScanRow_def intro!: keeping_rules holding_getRow [THEN keeping_held(4)] keeping_more_modify split: got.split)
qed (simp add: ScanRow_def keeping_basic)

lemma keeping_more_NextResult: "keeping my_conn.more (NextResult res)"
  unfolding NextResult_def nextResult_def pmap_def by (intro keeping_rules keeping_more_getResponse)

text \<open>A result that \<open>getResult\<close> returns has not been read to its end.\<close>

lemma getResult_flags:
  "getResult ro n s = Ret (Inr (Got_result r), t) \<Longrightarrow> (\<forall>x. ro = Some x \<longrightarrow> \<not> eor_returned x \<and> \<not> status_only x) \<Longrightarrow>
     \<not> eor_returned r \<and> (ro \<noteq> None \<longrightarrow> \<not> status_only r)"
proof (induction ro n s arbitrary: t rule: getResult.induct)
  case (1 ro n s)
  obtain b u where b: "open_packet s = Ret (Inr b, u)"
    using "1.prems"(1) by (subst (asm) getResult.simps) (auto simp: pbind_eq_Inr)
  have ne: "b \<noteq> 255"
  proof
    assume "b = 255"
    then have "getErrorPacket u = Ret (Inr (Got_result r), t)"
      using "1.prems"(1) b by (subst (asm) getResult.simps) simp
    then show False by (auto simp: getErrorPacket_def pbind_eq_Inr raise_def split: if_splits)
  qed
  show ?case
  proof (cases ro)
    case None
    consider "b = 0" | "b \<noteq> 0" "b < 251" | "b \<noteq> 0" "\<not> b < 251" "b = 251" | "b \<noteq> 0" "\<not> b < 251" "b \<noteq> 251" by blast
    then show ?thesis
    proof cases
      case 1
      then have "getOkPacket u = Ret (Inr r, t)"
        using "1.prems"(1) b ne None by (subst (asm) getResult.simps) (auto simp: pmap_def pbind_eq_Inr pret_def)
      then show ?thesis using None by (auto simp: getOkPacket_def pbind_eq_Inr pret_def new_result_def)
    next
      case 2
      then obtain res v where v: "getResSetHeadPacket u = Ret (Inr res, v)" "getResult (Some res) n v = Ret (Inr (Got_result r), t)"
        using "1.prems"(1) b ne None by (subst (asm) getResult.simps) (auto simp: pbind_eq_Inr)
      have "\<not> eor_returned res \<and> \<not> status_only res"
        using v(1) by (auto simp: getResSetHeadPacket_def pbind_eq_Inr pret_def raise_def crash_def new_result_def split: if_splits)
      then show ?thesis using "1.IH"(1) [OF b ne None 2 v] None by simp
    next
      case 3
      then have v: "getResult None n u = Ret (Inr (Got_result r), t)"
        using "1.prems"(1) b ne None by (subst (asm) getResult.simps) simp
      then show ?thesis using "1.IH"(2) [OF b ne None 3 v] None by simp
    next
      case 4
      then show ?thesis using "1.prems"(1) b ne None
        by (subst (asm) getResult.simps) (auto simp: pret_def raise_def split: if_splits)
    qed
  next
    case (Some res)
    note f = "1.prems"(2) [rule_format, OF Some]
    consider (eof) "b = 254" | (field) "b \<noteq> 254" "0 < b \<and> b < 251 \<and> field_count res < n_fields res"
      | (other) "b \<noteq> 254" "\<not> (0 < b \<and> b < 251 \<and> field_count res < n_fields res)" by blast
    then show ?thesis
    proof cases
      case eof
      then show ?thesis
        using "1.prems"(1) b ne Some f by (subst (asm) getResult.simps) (auto simp: pbind_eq_Inr pret_def)
    next
      case field
      then obtain fl v where fl: "getFieldPacket u = Ret (Inr fl, v)"
        and v: "getResult (Some (res\<lparr>rfields := rfields res @ [fl], fc_map := (fc_map res)(Name fl \<mapsto> field_count res)\<rparr>)) n v = Ret (Inr (Got_result r), t)"
        using "1.prems"(1) b ne Some by (subst (asm) getResult.simps) (auto simp: pbind_eq_Inr)
      show ?thesis using "1.IH"(3) [OF b ne Some field fl v] f Some by simp
    next
      case other
      then show ?thesis
        using "1.prems"(1) b ne Some
        by (subst (asm) getResult.simps) (auto simp: pmap_def pbind_eq_Inr pret_def raise_def split: if_splits)
    qed
  qed
qed

lemma Start_flags: "Start sql s = Ret (Inr r, t) \<Longrightarrow> \<not> eor_returned r"
proof -
  assume "Start sql s = Ret (Inr r, t)"
  then obtain u where "getResponse u = Ret (Inr r, t)"
    by (auto simp: Start_def on_idle_def catchError_eq_Inr pbind_eq_Inr raise_def split: if_splits)
  then obtain g v where "getResult None 0 u = Ret (Inr g, v)"
      "(case g of Got_result res \<Rightarrow> pbind (modify (\<lambda>c. c\<lparr>unreaded_reply := \<not> status_only res\<rparr>)) (\<lambda>_. pret res) | _ \<Rightarrow> raise ErrBadResult) v
        = Ret (Inr r, t)"
    by (auto simp: getResponse_def pbind_eq_Inr)
  then have "getResult None 0 u = Ret (Inr (Got_result r), v)" by (cases g) (auto simp: pret_def raise_def)
  from getResult_flags [OF this] show ?thesis by simp
qed


section \<open>Queries are atomic\<close>

definition taken :: "nat \<Rightarrow> 'a thr_conn_scheme \<Rightarrow> 'a thr_conn_scheme" where
  "taken i c = upd_obj i (\<lambda>x. x\<lparr>l_mutex := True\<rparr>) c"

definition released :: "nat \<Rightarrow> 'a thr_conn_scheme \<Rightarrow> 'a thr_conn_scheme" where
  "released i c = upd_obj i (\<lambda>x. x\<lparr>l_lastUsed := l_now c, l_mutex := False\<rparr>) c"

definition holds :: "nat \<Rightarrow> 'a thr_conn_scheme \<Rightarrow> bool" where
  "holds i c \<longleftrightarrow> i < length (l_objs c) \<and> l_mutex (l_objs c ! i)"

definition free :: "nat \<Rightarrow> 'a thr_conn_scheme \<Rightarrow> bool" where
  "free i c \<longleftrightarrow> i < length (l_objs c) \<and> \<not> l_mutex (l_objs c ! i)"

lemma t_lock_free: "free i c \<Longrightarrow> t_lock i c = Ret (Inr (), taken i c)"
  by (simp add: free_def t_lock_def mutex_Lock_def taken_def)

lemma t_lock_holds: "holds i c \<Longrightarrow> t_lock i c = Hang"
  by (simp add: holds_def t_lock_def mutex_Lock_def)

lemma t_unlock_holds: "holds i c \<Longrightarrow> t_unlock i c = Ret (Inr (), released i c)"
  by (simp add: holds_def t_unlock_def mutex_Unlock_def released_def upd_obj_def modify_def)

lemma holds_simps [simp]: "free i c \<Longrightarrow> holds i (taken i c)" "holds i c \<Longrightarrow> free i (released i c)"
  by (simp_all add: free_def holds_def taken_def released_def upd_obj_def)

lemma keeping_holds: "keeping my_conn.more m \<Longrightarrow> m s = Ret (r, t) \<Longrightarrow> holds i t = holds i s" for s t :: "'a thr_conn_scheme"
  unfolding holds_def by (metis keepingD l_objs_more)

lemma status_only_EOF:
  "status_only res \<Longrightarrow> \<not> eor_returned res \<Longrightarrow> GetRow res s = Ret (Inr (None, res\<lparr>eor_returned := True\<rparr>), s)"
  by (simp add: GetRow_def ScanRow_def pret_def)

lemma ScanRow_flags:
  "ScanRow row res s = Ret (Inr (vs, res'), t) \<Longrightarrow> \<not> eor_returned res \<and>
     (vs \<noteq> None \<longrightarrow> res' = res) \<and> status_only res' = status_only res"
proof -
  assume a: "ScanRow row res s = Ret (Inr (vs, res'), t)"
  then have e: "\<not> eor_returned res" by (auto simp: ScanRow_def raise_def split: option.splits if_splits)
  show ?thesis
  proof (cases "status_only res")
    case True
    then show ?thesis using a e by (auto simp: ScanRow_def raise_def pret_def split: option.splits if_splits)
  next
    case False
    then obtain n g u where g: "getRow res n s = Ret (Inr g, u)" and k: "(case g of
              Got_result res' \<Rightarrow>
                pbind (if MoreResults res' then pret () else modify (\<lambda>c. c\<lparr>unreaded_reply := False\<rparr>)) (\<lambda>_.
                  pret (None, res'\<lparr>eor_returned := True\<rparr>))
            | Got_row vs \<Rightarrow> pret (Some vs, res)
            | Got_nil \<Rightarrow> pret (Some [], res)) u = Ret (Inr (vs, res'), t)"
      using a e by (auto simp: ScanRow_def pbind_eq_Inr raise_def split: option.splits if_splits)
    show ?thesis
    proof (cases g)
      case (Got_result r)
      then have "getResult (Some res) n s = Ret (Inr (Got_result r), u)" using g by (simp add: getRow_def catchError_eq_Inr)
      from getResult_flags [OF this] have "\<not> status_only r" using e False by simp
      then show ?thesis using k Got_result e False by (auto simp: pbind_eq_Inr pret_def)
    qed (use k e False in \<open>auto simp: pret_def\<close>)
  qed
qed

text \<open>\<open>GetRows\<close> with the lock held: the same rows, and the lock is released at the end or at an error, unless more
  results follow.\<close>

lemma t_GetRows_ok:
  assumes "GetRows res s = Ret (Inr (rows, e, res'), t)" and "holds i s" and "\<not> eor_returned res" and "e \<noteq> Some ErrReadAfterEOR"
    and "status_only res \<longrightarrow> MoreResults res"
  shows "holds i t \<and> t_GetRows i res s = Ret (Inr (rows, e, res'), if e = None \<and> MoreResults res' then t else released i t)"
  using assms
proof (induction res s arbitrary: rows res' t rule: GetRows.induct)
  case (1 res s)
  obtain r u where r: "GetRow res s = Ret (r, u)"
      and k: "(case r of
         Inl e \<Rightarrow> pret ([], Some e, res) u
       | Inr (None, res') \<Rightarrow> pret ([], None, res') u
       | Inr (Some row, res') \<Rightarrow> pbind (GetRows res') (\<lambda>(rows, e, res''). pret (row # rows, e, res'')) u)
        = Ret (Inr (rows, e, res'), t)"
    using trans [OF GetRows.simps [symmetric] "1.prems"(1)] by (auto simp: pbind_eq_Inr attempt_def)
  have h: "holds i u" using keeping_holds [OF keeping_more_ScanRow r [unfolded GetRow_def]] "1.prems"(2) by simp
  show ?case
  proof (cases r)
    case (Inl x)
    then have x: "e = Some x" "rows = []" "t = u" "res' = res" using k by (auto simp: pret_def)
    then have "t_GetRow i res s = Ret (Inl x, released i u)"
      using r Inl "1.prems"(4) t_unlock_holds [OF h]
      by (simp add: t_GetRow_def t_ScanRow_def GetRow_def attempt_def raise_def)
    then show ?thesis using x h by (simp add: t_GetRows.simps attempt_def pret_def)
  next
    case (Inr y)
    obtain vs res1 where y: "y = (vs, res1)" by (cases y)
    note sr = r [unfolded GetRow_def Inr y]
    note fl = ScanRow_flags [OF sr]
    show ?thesis
    proof (cases vs)
      case None
      then have x: "e = None" "rows = []" "t = u" "res' = res1" using k Inr y by (auto simp: pret_def)
      have m: "status_only res1 \<longrightarrow> MoreResults res1"
      proof
        assume "status_only res1"
        then have "status_only res" using fl by simp
        then have "MoreResults res" "res1 = res\<lparr>eor_returned := True\<rparr>"
          using "1.prems"(3,5) status_only_EOF [of res s] r Inr y by auto
        then show "MoreResults res1" by (simp add: MoreResults_def)
      qed
      have "t_GetRow i res s = Ret (Inr (None, res1), if MoreResults res1 then u else released i u)"
        using sr None m t_unlock_holds [OF h]
        by (auto simp: t_GetRow_def t_ScanRow_def attempt_def pret_def)
      then show ?thesis using x h by (simp add: t_GetRows.simps attempt_def pret_def)
    next
      case (Some row)
      then have res1: "res1 = res" using fl by simp
      obtain rows' where g: "GetRows res u = Ret (Inr (rows', e, res'), t)" and rows: "rows = row # rows'"
        using k Inr y Some res1 by (auto simp: pbind_eq_Inr pret_def split: prod.splits)
      have a: "attempt (GetRow res) s = Ret (Inr (Inr (Some row, res)), u)" using r Inr y Some res1 by (simp add: attempt_def)
      have IH: "holds i t \<and> t_GetRows i res u = Ret (Inr (rows', e, res'), if e = None \<and> MoreResults res' then t else released i t)"
        using "1.IH" [OF a refl refl refl g h "1.prems"(3-5)] .
      have "t_GetRow i res s = Ret (Inr (Some row, res), u)"
        using sr Some res1 by (simp add: t_GetRow_def t_ScanRow_def attempt_def pret_def)
      then show ?thesis using IH rows by (simp add: t_GetRows.simps [of i res s] attempt_def pret_def)
    qed
  qed
qed

text \<open>
  C14. A query through the thread-safe engine is the native query between taking and releasing the mutex: the
  results are the same, the connection is not available to others while rows are read, and it is afterwards,
  after an error as well; only an announced further result keeps it locked.
\<close>

theorem query_holds_lock:
  assumes "free i s" and "Query sql (taken i s) = Ret (Inr (rows, res, e), t)" and "e \<noteq> Some ErrReadAfterEOR"
  shows "holds i t \<and> t_Query i sql s = Ret (Inr (rows, res, e),
    if e = None \<and> (\<exists>r. res = Some r \<and> MoreResults r) then t else released i t)"
proof -
  have h0: "holds i (taken i s)" using assms(1) by simp
  obtain r u where r: "Start sql (taken i s) = Ret (r, u)"
    using assms(2) by (cases "Start sql (taken i s)") (auto simp: Query_def after_start_def attempt_def pbind_def)
  have h: "holds i u" using keeping_holds [OF keeping_more_Start r] h0 by simp
  show ?thesis
  proof (cases r)
    case (Inl x)
    then have q: "rows = []" "res = None" "e = Some x" "t = u"
      using assms(2) r by (auto simp: Query_def after_start_def attempt_def pret_def)
    have "t_Start i sql s = Ret (Inl x, released i u)"
      using r Inl t_lock_free [OF assms(1)] t_unlock_holds [OF h] by (simp add: t_Start_def attempt_def raise_def)
    then show ?thesis using q h by (simp add: t_Query_def after_start_def attempt_def pret_def)
  next
    case (Inr res0)
    obtain res1 where g: "GetRows res0 u = Ret (Inr (rows, e, res1), t)" and res: "res = Some res1"
      using assms(2) r Inr by (auto simp: Query_def after_start_def attempt_def pbind_eq_Inr pret_def)
    have eor: "\<not> eor_returned res0" using Start_flags r Inr by simp
    show ?thesis
    proof (cases "status_only res0 \<and> \<not> MoreResults res0")
      case True
      have "GetRow res0 v = Ret (Inr (None, res0\<lparr>eor_returned := True\<rparr>), v)" for v :: "'a thr_conn_scheme"
        using status_only_EOF [OF _ eor] True by blast
      moreover from this have "GetRows res0 u = Ret (Inr ([], None, res0\<lparr>eor_returned := True\<rparr>), u)"
        by (simp add: GetRows.simps [of res0 u] attempt_def pret_def)
      then have q: "rows = []" "e = None" "res1 = res0\<lparr>eor_returned := True\<rparr>" "t = u" using g by simp_all
      moreover have "t_Start i sql s = Ret (Inr res0, released i u)"
        using r Inr True t_lock_free [OF assms(1)] t_unlock_holds [OF h]
        by (simp add: t_Start_def attempt_def release_if_complete_def pret_def)
      moreover have "t_GetRow i res0 v = Ret (Inr (None, res0\<lparr>eor_returned := True\<rparr>), v)" for v :: "'a thr_conn_scheme"
        using calculation(1) [of v] True by (simp add: t_GetRow_def t_ScanRow_def GetRow_def attempt_def pret_def)
      ultimately show ?thesis
        using res h True by (simp add: t_Query_def after_start_def attempt_def pret_def t_GetRows.simps MoreResults_def)
    next
      case False
      have "t_Start i sql s = Ret (Inr res0, u)"
        using r Inr False t_lock_free [OF assms(1)] by (auto simp: t_Start_def attempt_def release_if_complete_def pret_def)
      moreover have "holds i t \<and> t_GetRows i res0 u = Ret (Inr (rows, e, res1), if e = None \<and> MoreResults res1 then t else released i t)"
        using t_GetRows_ok [OF g h eor assms(3)] False by blast
      ultimately show ?thesis using res by (simp add: t_Query_def after_start_def attempt_def pret_def)
    qed
  qed
qed


definition sample_thr :: "byte list list \<Rightarrow> thr_conn" where
  "sample_thr ps = on_thr 100 (conn_with ps)"

lemma sample_thr_simps [simp]:
  "free 0 (sample_thr ps)" "my_idle (taken 0 (sample_thr ps))" "rd (taken 0 (sample_thr ps)) = rd (conn_with ps)"
  by (simp_all add: sample_thr_def on_thr_def my_conn.defs thr_conn.defs free_def new_obj_def my_idle_def taken_def upd_obj_def
      conn_with_def healthy_def)

theorem query_holds_lock_witness:
  "\<exists>res t. t_Query 0 [83] (sample_thr [stream 1 sample_reply]) = Ret (Inr ([[V_nil], [V_bytes [49, 50]]], Some res, None), t) \<and> free 0 t"
proof -
  let ?s = "sample_thr [stream 1 sample_reply]"
  have r: "cells_ok [None]" "cells_ok [Some [49, 50]]"
    by (simp_all add: cells_ok_def row_bytes_def small_bin_def lenBin_def lenLCB_def max_pkt_def)
  have n: "nframes [COM_QUERY, 83] = 1" by (simp add: nframes_def max_pkt_def)
  have u: "unreads (rd (taken 0 ?s)) = stream (of_nat (nframes (COM_QUERY # [83]))) sample_reply @ []"
    by (simp add: unreads_def n) (simp add: conn_with_def)
  have i: "my_idle (taken 0 ?s)" by simp
  have m: "and (2 :: 16 word) SERVER_MORE_RESULTS_EXISTS = 0" by (simp add: SERVER_MORE_RESULTS_EXISTS_def)
  obtain res t where q: "Query [83] (taken 0 ?s) = Ret (Inr ([[V_nil], [V_bytes [49, 50]]], Some res, None), t)" "r_status res = 2"
    using Query_table [OF i [unfolded sample_reply_def] _ _ _ _ u [unfolded sample_reply_def]] sample_field_ok r m
    unfolding sample_reply_def by fastforce
  have "free 0 ?s" by simp
  from query_holds_lock [OF this q(1)] q(2) m show ?thesis by (auto simp: MoreResults_def)
qed

section \<open>Locks that are lost\<close>

text \<open>
  C16. \<open>NextResult\<close> does not release the mutex when it fails: the connection stays locked, and every later operation
  of any goroutine waits for ever, \<open>Close\<close>, the pinger and a new query included.
\<close>

theorem failed_NextResult_deadlocks:
  assumes "holds i s" and "NextResult res s = Ret (Inl e, t)"
  shows "t_NextResult i res s = Ret (Inl e, t) \<and> t_Start i sql t = Hang \<and> t_Ping i t = Hang \<and> t_Prepare i sql t = Hang
    \<and> (l_stop (l_objs t ! i) = Some False \<longrightarrow> t_Close i ce t = Hang) \<and> pinger_wakes i now t = Hang"
proof -
  have h: "holds i t" using keeping_holds [OF keeping_more_NextResult assms(2)] assms(1) by simp
  have c: "t_Close i ce t = Hang" if "l_stop (l_objs t ! i) = Some False"
  proof -
    have "holds i (upd_obj i (\<lambda>x. x\<lparr>l_stop := Some True\<rparr>) t)" using h by (simp add: holds_def upd_obj_def)
    then show ?thesis using that by (simp add: t_Close_def close_chan_def under_lock_def gets_def modify_def pbind_def t_lock_holds)
  qed
  have "pinger_wakes i now t = Hang" using t_lock_holds [OF h] by (simp add: pinger_wakes_def t_lock_def)
  then show ?thesis
    using c t_lock_holds [OF h] assms(2) by (simp add: t_NextResult_def t_Start_def t_Ping_def t_Prepare_def under_lock_def)
qed

theorem failed_NextResult_deadlocks_witness:
  "\<exists>e t. t_NextResult 0 (new_result\<lparr>r_status := 8\<rparr>) (taken 0 (sample_thr [])) = Ret (Inl e, t) \<and> t_Start 0 [83] t = Hang"
proof -
  define c where "c = taken 0 (sample_thr [])"
  define d where "d = c\<lparr>remain := 0, last_pkt := False, rd := rd c\<rparr>"
  have r: "rd_Read 3 (rd c) = (Inl IO_EOF, rd c)"
    by (simp add: c_def rd_Read_def avail_def) (simp add: conn_with_def)
  then have "open_packet c = Ret (Inl IO_EOF, d)"
    by (simp add: open_packet_def newPktReader_def readByte_def next_header_def readHeader_def header_loop.simps on_rd_def d_def)
  then have "getResult None 0 c = Ret (Inl IO_EOF, d)" by (simp add: getResult.simps)
  then have n: "NextResult (new_result\<lparr>r_status := 8\<rparr>) c = Ret (Inl Unexpected_EOF, d)"
    by (simp add: NextResult_def nextResult_def MoreResults_def SERVER_MORE_RESULTS_EXISTS_def pmap_def getResponse_def
        catchError_def caught_def)
  have "holds 0 c" by (simp add: c_def)
  from failed_NextResult_deadlocks [OF this n] show ?thesis unfolding c_def by blast
qed

text \<open>A row that is scanned into the nil slice releases the mutex although rows are still to come; reading them
  to their end releases it again and ends the program.\<close>

lemma nil_row_releases:
  assumes "holds i s"
  shows "t_ScanRow i None res s = Ret (Inl ErrRowLength, released i s)"
  using t_unlock_holds [OF assms]
  by (simp add: t_ScanRow_def ScanRow_def attempt_def raise_def ErrRowLength_def ErrReadAfterEOR_def)

lemma end_after_release:
  assumes "free i s" and "ScanRow row res s = Ret (Inr (None, res'), t)" and "\<not> status_only res'" and "\<not> MoreResults res'"
  shows "t_ScanRow i row res s = Panic (Explicit_Panic ''sync: unlock of unlocked mutex'')"
proof -
  have "l_objs t = l_objs s" using keepingD [OF keeping_more_ScanRow assms(2)] l_objs_more by blast
  then have "t_unlock i t = Panic (Explicit_Panic ''sync: unlock of unlocked mutex'')"
    using assms(1) by (simp add: free_def t_unlock_def mutex_Unlock_def upd_obj_def modify_def)
  then show ?thesis using assms(2-4) by (simp add: t_ScanRow_def attempt_def)
qed

text \<open>\<open>Close\<close> of a connection that was never connected closes the nil channel.\<close>

lemma Close_unconnected_panics:
  "l_stop (l_objs s ! i) = None \<Longrightarrow> t_Close i ce s = Panic (Explicit_Panic ''close of nil channel'')"
  by (simp add: t_Close_def close_chan_def crash_def gets_def pbind_def)

section \<open>Transactions\<close>



lemma Start_ok:
  assumes "my_idle s" and "nframes (COM_QUERY # sql) = 1" and "unreads (rd s) = frames 1 (ok_bytes 0 0 2 0 []) @ rest"
  obtains r t where "Start sql s = Ret (Inr r, t)" "my_idle t" "unreads (rd t) = rest"
proof -
  obtain s1 where s1: "sendCmdStr COM_QUERY sql s = Ret (Inr (), s1)" "moved_wr s s1" "healthy (wr s1)" "wbuf (wr s1) = []" "pkt_seq s1 = 1"
    using sendCmdStr_ok [OF assms(1), of COM_QUERY sql] assms(2) by auto
  have "next_packet s1 (ok_bytes 0 0 2 0 []) rest"
    using moved_wr_conn [OF s1(2)] s1(5) assms(3) sample_facts(9) by (simp add: next_packet_def)
  then obtain res t where t: "getResult None 0 s1 = Ret (Inr (Got_result res), t\<lparr>status := 2\<rparr>)" "status_only res"
      "after_packet s1 (ok_bytes 0 0 2 0 []) rest t"
    by (rule getResult_ok [where n = 0]) (rule that, assumption, simp, assumption)
  have m: "moved_rd s1 t" "unreads (rd t) = rest" using t(3) by (simp_all add: after_packet_def)
  show thesis
    using that [of res "t\<lparr>status := 2, unreaded_reply := False\<rparr>"] s1 t(1,2) m assms(1) moved_rd_conn [OF m(1)] moved_wr_conn [OF s1(2)]
    by (simp add: Start_def on_idle_def catchError_eq_Inr getResponse_def my_idle_def modify_def pret_def)
qed


end
