(* ===== verification/Go_Text.thy ===== *)
theory Go_Text
  imports Go_Strings
begin

text \<open>
  Of \<open>strings\<close>, the functions that know about Unicode: \<open>TrimSpace\<close>, and \<open>EqualFold\<close> where one side is
  ASCII.
\<close>

section \<open>Spaces\<close>

text \<open>The spaces of Unicode in UTF-8.\<close>

definition go_spaces :: "string list" where
  "go_spaces =
     [[CHR 0x09], [CHR 0x0A], [CHR 0x0B], [CHR 0x0C], [CHR 0x0D], [CHR 0x20], [CHR 0xC2, CHR 0x85], [CHR 0xC2, CHR 0xA0],
      [CHR 0xE1, CHR 0x9A, CHR 0x80]]
     @ map (\<lambda>b. [CHR 0xE2, CHR 0x80, b])
       [CHR 0x80, CHR 0x81, CHR 0x82, CHR 0x83, CHR 0x84, CHR 0x85, CHR 0x86, CHR 0x87, CHR 0x88, CHR 0x89, CHR 0x8A, CHR 0xA8, CHR 0xA9, CHR 0xAF]
     @ [[CHR 0xE2, CHR 0x81, CHR 0x9F], [CHR 0xE3, CHR 0x80, CHR 0x80]]"

function trim_left :: "string list \<Rightarrow> string \<Rightarrow> string" where
  "trim_left ws s =
     (case find (\<lambda>w. w \<noteq> [] \<and> take (length w) s = w) ws of
        None \<Rightarrow> s
      | Some w \<Rightarrow> trim_left ws (drop (length w) s))"
  by pat_completeness auto
termination
proof (relation "measure (length \<circ> snd)")
  fix ws and s w :: string
  assume "find (\<lambda>w. w \<noteq> [] \<and> take (length w) s = w) ws = Some w"
  then have "w \<noteq> []" "take (length w) s = w" by (auto simp: find_Some_iff)
  then have "s \<noteq> []" by auto
  with \<open>w \<noteq> []\<close> show "((ws, drop (length w) s), ws, s) \<in> measure (length \<circ> snd)" by simp
qed simp

declare trim_left.simps [simp del]

definition TrimSpace :: "string \<Rightarrow> string" where
  "TrimSpace s = rev (trim_left (map rev go_spaces) (rev (trim_left go_spaces s)))"

definition plain :: "char \<Rightarrow> bool" where
  "plain c \<longleftrightarrow> 33 \<le> (of_char c :: nat) \<and> (of_char c :: nat) \<le> 126"

lemma trim_left_plain:
  assumes "\<forall>w \<in> set ws. w \<noteq> [] \<longrightarrow> \<not> plain (hd w)" and "s = [] \<or> plain (hd s)"
  shows "trim_left ws s = s"
proof -
  have "find (\<lambda>w. w \<noteq> [] \<and> take (length w) s = w) ws = None"
  proof -
    have False if "w \<in> set ws" "w \<noteq> []" "take (length w) s = w" for w
    proof -
      have "s \<noteq> []" using that by auto
      then have "hd w = hd s" using that(2,3) by (cases s; cases w) auto
      then show False using assms that \<open>s \<noteq> []\<close> by auto
    qed
    then show ?thesis by (auto simp: find_None_iff)
  qed
  then show ?thesis by (simp add: trim_left.simps)
qed

lemma go_spaces_not_plain:
  "\<forall>w \<in> set go_spaces. w \<noteq> [] \<longrightarrow> \<not> plain (hd w)" "\<forall>w \<in> set (map rev go_spaces). w \<noteq> [] \<longrightarrow> \<not> plain (hd w)"
  by (simp_all add: go_spaces_def plain_def)

lemma TrimSpace_plain:
  assumes "s \<noteq> []" "plain (hd s)" "plain (last s)"
  shows "TrimSpace s = s"
  using assms trim_left_plain [OF go_spaces_not_plain(1), of s] trim_left_plain [OF go_spaces_not_plain(2), of "rev s"]
  by (simp add: TrimSpace_def hd_rev)

lemma TrimSpace_leading: "plain c \<Longrightarrow> plain (last (c # s)) \<Longrightarrow> TrimSpace (CHR '' '' # c # s) = c # s"
proof -
  assume c: "plain c" "plain (last (c # s))"
  have "trim_left go_spaces (CHR '' '' # c # s) = trim_left go_spaces (c # s)"
  proof -
    have "find (\<lambda>w. w \<noteq> [] \<and> take (length w) (CHR '' '' # c # s) = w) go_spaces = Some '' ''" by (simp add: go_spaces_def)
    then show ?thesis by (simp add: trim_left.simps [of go_spaces "CHR '' '' # c # s"])
  qed
  also have "\<dots> = c # s" using trim_left_plain [OF go_spaces_not_plain(1), of "c # s"] c by simp
  finally show ?thesis
    using trim_left_plain [OF go_spaces_not_plain(2), of "rev (c # s)"] c(2) unfolding hd_rev by (simp add: TrimSpace_def)
qed

section \<open>Equality under case folding\<close>

text \<open>Beside the letters, the Kelvin sign and the long s fold to ASCII.\<close>

definition to_lower :: "char \<Rightarrow> char" where
  "to_lower c = (let k = (of_char c :: nat) in if 65 \<le> k \<and> k \<le> 90 then char_of (k + 32) else c)"

definition to_upper :: "char \<Rightarrow> char" where
  "to_upper c = (let k = (of_char c :: nat) in if 97 \<le> k \<and> k \<le> 122 then char_of (k - 32) else c)"

fun simple_fold :: "string \<Rightarrow> string" where
  "simple_fold [] = []"
| "simple_fold (c # cs) =
     (if c = CHR 0xE2 \<and> take 2 cs = [CHR 0x84, CHR 0xAA] then CHR ''k'' # simple_fold (drop 2 cs)
      else if c = CHR 0xC5 \<and> take 1 cs = [CHR 0xBF] then CHR ''s'' # simple_fold (drop 1 cs)
      else to_lower c # simple_fold cs)"

definition EqualFold :: "string \<Rightarrow> string \<Rightarrow> bool" where
  "EqualFold s t \<longleftrightarrow> simple_fold s = simple_fold t"

end
