(* ===== verification/My_Text.thy ===== *)
theory My_Text
  imports My_Codecs Go_Text
begin

text \<open>
  Dates, times and durations as text (\<open>mysql/types.go\<close>): what the driver prints, and what it accepts in the rows of
  a text reply.

  Of \<open>strconv\<close> and \<open>time\<close> this follows Go 1.6 to 1.12.  A time is its calendar fields (\<open>mtime\<close>); the
  location they are read in is not part of it, and locations in which a calendar time does not exist are left out.
\<close>

section \<open>Strings\<close>

text \<open>\<open>%0wd\<close> of \<open>fmt\<close>, and the zero-padded numbers of \<open>time.Format\<close>.\<close>

definition pad :: "nat \<Rightarrow> nat \<Rightarrow> string" where
  "pad w n = (let s = nat_digits n in replicate (w - length s) (CHR ''0'') @ s)"

definition fmt_0d :: "nat \<Rightarrow> int \<Rightarrow> string" where
  "fmt_0d w i = (if i < 0 then CHR ''-'' # pad (w - 1) (nat (- i)) else pad w (nat i))"

definition append_int :: "nat \<Rightarrow> int \<Rightarrow> string" where
  "append_int w i = (if i < 0 then CHR ''-'' # pad w (nat (- i)) else pad w (nat i))"

text \<open>\<open>Num_Error\<close> is a \<open>*strconv.NumError\<close>, \<open>Bare_Range\<close> the value \<open>strconv.ErrRange\<close> itself, \<open>Time_Syntax\<close> any
  \<open>*time.ParseError\<close>.\<close>

datatype conv_err =
    Num_Error num_error
  | Bare_Range
  | Os_Invalid
  | Bad_Text string
  | Time_Syntax

section \<open>Dates\<close>

definition Date_String :: "my_date \<Rightarrow> string" where
  "Date_String d =
     fmt_0d 4 (sint (d_year d)) @ CHR ''-'' # fmt_0d 2 (uint (d_month d)) @ CHR ''-'' # fmt_0d 2 (uint (d_day d))"

definition no_date :: my_date where
  "no_date = \<lparr>d_year = 0, d_month = 0, d_day = 0\<rparr>"

definition Date_Time :: "my_date \<Rightarrow> mtime" where
  "Date_Time d =
     (if Date_IsZero d then zero_time else time_Date (sint (d_year d)) (uint (d_month d)) (uint (d_day d)) 0 0 0 0)"

definition Date_Localtime :: "my_date \<Rightarrow> mtime" where
  "Date_Localtime d = Date_Time d"

definition no_such_day :: "int \<Rightarrow> int \<Rightarrow> bool" where
  "no_such_day m d \<longleftrightarrow>
     (if m \<in> {1, 3, 5, 7, 8, 10, 12} then 31 < d else if m \<in> {4, 6, 9, 11} then 30 < d else if m = 2 then 29 < d else False)"

definition ParseDate :: "string \<Rightarrow> my_date \<times> conv_err option" where
  "ParseDate str0 =
     (let str = TrimSpace str0; invalid = (no_date, Some (Bad_Text (''Invalid MySQL DATE string: '' @ str))) in
      if str = ''0000-00-00'' then (no_date, None)
      else if length str \<noteq> 10 \<or> str ! 4 \<noteq> CHR ''-'' \<or> str ! 7 \<noteq> CHR ''-'' then invalid
      else case ParseInt (take 4 str) of
        (_, Some e) \<Rightarrow> (no_date, Some (Num_Error e))
      | (y, None) \<Rightarrow> (case ParseInt (take 2 (drop 5 str)) of
          (_, Some e) \<Rightarrow> (no_date, Some (Num_Error e))
        | (m, None) \<Rightarrow>
            if m < 0 \<or> 12 < m then invalid
            else (case ParseInt (take 2 (drop 8 str)) of
              (_, Some e) \<Rightarrow> (no_date, Some (Num_Error e))
            | (d, None) \<Rightarrow>
                if d < 0 \<or> no_such_day m d then invalid
                else (\<lparr>d_year = word_of_int y, d_month = word_of_int m, d_day = word_of_int d\<rparr>, None))))"

section \<open>Times\<close>

definition TimeString :: "mtime \<Rightarrow> string" where
  "TimeString t =
     (if t = zero_time then ''0000-00-00 00:00:00''
      else append_int 4 (t_year t) @ CHR ''-'' # append_int 2 (t_month t) @ CHR ''-'' # append_int 2 (t_day t)
        @ CHR '' '' # append_int 2 (t_hour t) @ CHR '':'' # append_int 2 (t_min t) @ CHR '':'' # append_int 2 (t_sec t)
        @ (if t_nsec t = 0 then [] else CHR ''.'' # append_int 9 (t_nsec t)))"

text \<open>\<open>time.ParseInLocation\<close> for the two layouts in use.  A space of the layout stands for any number of spaces, the
  hour may have one digit, and a fraction may follow the seconds.\<close>

definition skip_lit :: "char \<Rightarrow> string \<Rightarrow> string option" where
  "skip_lit c v =
     (if c = CHR '' '' then (if v = [] \<or> hd v = CHR '' '' then Some (dropWhile (\<lambda>x. x = CHR '' '') v) else None)
      else case v of [] \<Rightarrow> None | x # xs \<Rightarrow> if x = c then Some xs else None)"

fun getnum :: "bool \<Rightarrow> string \<Rightarrow> (int \<times> string) option" where
  "getnum fixed [] = None"
| "getnum fixed (c # cs) =
     (case char_digit c of
        None \<Rightarrow> None
      | Some d \<Rightarrow> (case cs of
            [] \<Rightarrow> if fixed then None else Some (int d, cs)
          | c' # cs' \<Rightarrow> (case char_digit c' of
                None \<Rightarrow> if fixed then None else Some (int d, cs)
              | Some d' \<Rightarrow> Some (int (d * 10 + d'), cs'))))"

definition get_year :: "string \<Rightarrow> (int \<times> string) option" where
  "get_year v =
     (if length v < 4 \<or> char_digit (hd v) = None then None
      else case ParseInt (take 4 v) of (y, None) \<Rightarrow> Some (y, drop 4 v) | _ \<Rightarrow> None)"

definition is_dig :: "char \<Rightarrow> bool" where
  "is_dig c \<longleftrightarrow> char_digit c \<noteq> None"

fun dec_value :: "nat \<Rightarrow> string \<Rightarrow> nat" where
  "dec_value n [] = n"
| "dec_value n (c # cs) = dec_value (n * 10 + (case char_digit c of Some d \<Rightarrow> d | None \<Rightarrow> 0)) cs"

definition fraction :: "string \<Rightarrow> (int \<times> string) option" where
  "fraction v =
     (case v of
        p # d # ds \<Rightarrow>
          if p = CHR ''.'' \<and> is_dig d then
            (let digits = takeWhile is_dig (d # ds); n = dec_value 0 digits in
             if 1000000000 \<le> n then None
             else Some (int (n * 10 ^ (9 - length digits)), dropWhile is_dig (d # ds)))
          else Some (0, v)
      | _ \<Rightarrow> Some (0, v))"

definition in_range :: "int \<Rightarrow> int \<Rightarrow> int \<times> string \<Rightarrow> (int \<times> string) option" where
  "in_range lo hi r = (if lo \<le> fst r \<and> fst r \<le> hi then Some r else None)"

definition parse_date_part :: "string \<Rightarrow> ((int \<times> int \<times> int) \<times> string) option" where
  "parse_date_part v =
     Option.bind (get_year v) (\<lambda>(y, v). Option.bind (skip_lit (CHR ''-'') v) (\<lambda>v.
     Option.bind (Option.bind (getnum True v) (in_range 1 12)) (\<lambda>(m, v). Option.bind (skip_lit (CHR ''-'') v) (\<lambda>v.
     Option.bind (getnum True v) (\<lambda>(d, v). Some ((y, m, d), v))))))"

definition parse_clock_part :: "string \<Rightarrow> ((int \<times> int \<times> int \<times> int) \<times> string) option" where
  "parse_clock_part v =
     Option.bind (Option.bind (getnum False v) (in_range 0 23)) (\<lambda>(h, v). Option.bind (skip_lit (CHR '':'') v) (\<lambda>v.
     Option.bind (Option.bind (getnum True v) (in_range 0 59)) (\<lambda>(m, v). Option.bind (skip_lit (CHR '':'') v) (\<lambda>v.
     Option.bind (Option.bind (getnum True v) (in_range 0 59)) (\<lambda>(s, v). Option.bind (fraction v) (\<lambda>(n, v).
     Some ((h, m, s, n), v)))))))"

definition day_checked :: "int \<times> int \<times> int \<Rightarrow> int \<times> int \<times> int \<times> int \<Rightarrow> string \<Rightarrow> mtime option" where
  "day_checked = (\<lambda>(y, m, d) (h, mi, s, n) rest.
     if rest \<noteq> [] \<or> d < 1 \<or> days_in y m < d then None
     else Some \<lparr>t_year = y, t_month = m, t_day = d, t_hour = h, t_min = mi, t_sec = s, t_nsec = n\<rparr>)"

definition time_Parse :: "bool \<Rightarrow> string \<Rightarrow> mtime option" where
  "time_Parse date_only v =
     Option.bind (parse_date_part v) (\<lambda>(ymd, v).
       if date_only then day_checked ymd (0, 0, 0, 0) v
       else Option.bind (skip_lit (CHR '' '') v) (\<lambda>v. Option.bind (parse_clock_part v) (\<lambda>(hms, v). day_checked ymd hms v)))"

definition ParseTime :: "string \<Rightarrow> mtime \<times> conv_err option" where
  "ParseTime str0 =
     (let str = TrimSpace str0 in
      if str = ''0000-00-00'' \<or> str = ''0000-00-00 00:00:00'' then (zero_time, None)
      else case time_Parse (length str = 10) str of
        None \<Rightarrow> (zero_time, Some Time_Syntax)
      | Some t \<Rightarrow> (t, None))"

section \<open>Durations\<close>

text \<open>A duration is an \<open>int64\<close> of nanoseconds.\<close>

definition DurationString :: "int \<Rightarrow> string" where
  "DurationString d0 =
     (let sign = (if d0 < 0 then -1 else 1);
          d = (if d0 < 0 then wrap64 (- d0) else d0);
          ns = go_rem d 1000000000; d1 = go_quot d 1000000000;
          sec = go_rem d1 60; d2 = go_quot d1 60;
          mins = go_rem d2 60; hour = go_quot d2 60 * sign
      in Itoa hour @ CHR '':'' # fmt_0d 2 mins @ CHR '':'' # fmt_0d 2 sec
         @ (if ns = 0 then [] else CHR ''.'' # fmt_0d 9 ns))"

definition split_sign :: "string \<Rightarrow> int \<times> string" where
  "split_sign s = (if hd s = CHR ''-'' then (-1, tl s) else if hd s = CHR ''+'' then (1, tl s) else (1, s))"

definition ParseDuration :: "string \<Rightarrow> (int \<times> conv_err option) go" where
  "ParseDuration str0 =
     (let orig = TrimSpace str0; invalid = Ret (0, Some (Bad_Text (''invalid MySQL TIME string: '' @ orig))) in
      if orig = [] then Panic Index_Out_Of_Range
      else
        (let (sign, s) = split_sign orig in
         if CHR '':'' \<notin> set s then invalid
         else case ParseInt (takeWhile (\<lambda>c. c \<noteq> CHR '':'') s) of
           (_, Some e) \<Rightarrow> Ret (0, Some (Num_Error e))
         | (h, None) \<Rightarrow>
             (let str = tl (dropWhile (\<lambda>c. c \<noteq> CHR '':'') s) in
              if length str \<noteq> 5 \<and> length str \<noteq> 15 \<or> str ! 2 \<noteq> CHR '':'' then invalid
              else case ParseInt (take 2 str) of
                (_, Some e) \<Rightarrow> Ret (0, Some (Num_Error e))
              | (m, None) \<Rightarrow>
                  if m < 0 \<or> 59 < m then invalid
                  else (case ParseInt (take 2 (drop 3 str)) of
                    (_, Some e) \<Rightarrow> Ret (0, Some (Num_Error e))
                  | (sec, None) \<Rightarrow>
                      if sec < 0 \<or> 59 < sec then invalid
                      else
                        (let d = wrap64 (wrap64 (wrap64 (wrap64 (h * 3600) + m * 60) + sec) * 1000000000) in
                         if length str \<noteq> 15 then Ret (wrap64 (d * sign), None)
                         else if str ! 5 \<noteq> CHR ''.'' then invalid
                         else case ParseInt (take 9 (drop 6 str)) of
                           (_, Some e) \<Rightarrow> Ret (0, Some (Num_Error e))
                         | (n, None) \<Rightarrow> Ret (wrap64 (wrap64 (d + n) * sign), None))))))"

section \<open>Lemmas on numbers as text\<close>

lemma digit_char_facts [simp]:
  assumes "d < 10"
  shows "plain (digit_char d)" "is_dig (digit_char d)" "digit_char d \<noteq> CHR '':''" "digit_char d \<noteq> CHR ''-''"
    "digit_char d \<noteq> CHR ''+''" "digit_char d \<noteq> CHR ''.''" "digit_char d \<noteq> CHR '' ''"
  using assms of_char_digit_char [OF assms] by (auto simp: plain_def is_dig_def)

lemma nat_digits_length: "0 < w \<Longrightarrow> n < 10 ^ w \<Longrightarrow> length (nat_digits n) \<le> w"
proof (induction n arbitrary: w rule: nat_digits.induct)
  case (1 n)
  show ?case
  proof (cases "n < 10")
    case True
    then show ?thesis using "1.prems" by (simp add: nat_digits.simps [of n])
  next
    case False
    obtain v where v: "w = Suc v" using "1.prems"(1) by (cases w) auto
    have v0: "0 < v" using "1.prems"(2) False v by (cases v) auto
    then have "n div 10 < 10 ^ v" using "1.prems"(2) v by (simp add: less_mult_imp_div_less mult.commute)
    then show ?thesis using "1.IH" [OF False v0] False v by (simp add: nat_digits.simps [of n])
  qed
qed

lemma length_pad: "0 < w \<Longrightarrow> n < 10 ^ w \<Longrightarrow> length (pad w n) = w"
  using nat_digits_length [of w n] by (simp add: pad_def Let_def)

lemma zero_char: "CHR ''0'' = digit_char 0"
  by code_simp

lemma pad_chars: "c \<in> set (pad w n) \<Longrightarrow> \<exists>d < 10. c = digit_char d"
proof -
  assume "c \<in> set (pad w n)"
  then have "c = digit_char 0 \<or> c \<in> set (nat_digits n)" by (auto simp: pad_def Let_def zero_char)
  then show ?thesis using nat_digits_chars [of c n] by (metis zero_less_numeral)
qed

lemma pad_nonempty [simp]: "pad w n \<noteq> []"
  by (simp add: pad_def Let_def)

lemma pad_hd: "\<exists>d < 10. hd (pad w n) = digit_char d"
  by (rule pad_chars [of _ w n]) simp

lemma pad_last: "\<exists>d < 10. last (pad w n) = digit_char d"
  by (rule pad_chars [of _ w n]) simp

lemma parse_uint_zeros: "parse_uint_loop 0 (replicate k (CHR ''0'') @ s) = parse_uint_loop 0 s"
  by (induction k) (simp_all add: zero_char)

lemma ParseUint_pad: "n < 2 ^ 64 \<Longrightarrow> ParseUint (pad w n) = (n, None)"
  using pad_nonempty [of w n] parse_uint_zeros parse_nat_digits by (simp add: ParseUint_def) (simp add: pad_def Let_def)

lemma ParseInt_pad: "n < 2 ^ 63 \<Longrightarrow> ParseInt (pad w n) = (int n, None)"
proof -
  assume n: "n < 2 ^ 63"
  obtain c cs where cs: "pad w n = c # cs" by (cases "pad w n") auto
  then obtain d where "d < 10" "c = digit_char d" using pad_hd [of w n] by auto
  then show ?thesis using ParseUint_pad [of n w] n cs by (simp add: ParseInt_def Let_def)
qed

lemma dec_value_append: "dec_value n (xs @ ys) = dec_value (dec_value n xs) ys"
  by (induction n xs rule: dec_value.induct) simp_all

lemma dec_value_digits: "dec_value 0 (nat_digits n) = n"
proof (induction n rule: nat_digits.induct)
  case (1 n)
  then show ?case by (cases "n < 10") (simp_all add: nat_digits.simps [of n] dec_value_append)
qed

lemma dec_value_pad [simp]: "dec_value 0 (pad w n) = n"
proof -
  have "dec_value 0 (replicate k (CHR ''0'')) = 0" for k by (induction k) (simp_all add: zero_char)
  then show ?thesis by (simp add: pad_def Let_def dec_value_append dec_value_digits)
qed

lemma pad_2: "n < 100 \<Longrightarrow> pad 2 n = [digit_char (n div 10), digit_char (n mod 10)]"
  using zero_char by (cases "n < 10") (simp_all add: pad_def nat_digits.simps [of n] nat_digits.simps [of "n div 10"] Let_def numeral_2_eq_2)

lemma getnum_pad: "n < 100 \<Longrightarrow> getnum b (pad 2 n @ rest) = Some (int n, rest)"
  by (simp add: pad_2)

lemma takeWhile_pad: "\<forall>d < 10. P (digit_char d) \<Longrightarrow> takeWhile P (pad w n @ s) = pad w n @ takeWhile P s"
  using pad_chars [of _ w n] by (subst takeWhile_append2) auto

lemma dropWhile_pad: "\<forall>d < 10. P (digit_char d) \<Longrightarrow> dropWhile P (pad w n @ s) = dropWhile P s"
  using pad_chars [of _ w n] by (subst dropWhile_append2) auto

lemma fraction_pad: "n < 1000000000 \<Longrightarrow> fraction (CHR ''.'' # pad 9 n) = Some (int n, [])"
proof -
  assume n: "n < 1000000000"
  have t: "takeWhile is_dig (pad 9 n) = pad 9 n" "dropWhile is_dig (pad 9 n) = []"
    using takeWhile_pad [of is_dig 9 n "[]"] dropWhile_pad [of is_dig 9 n "[]"] by simp_all
  have v: "dec_value 0 (pad 9 n) = n" "length (pad 9 n) = 9" using n length_pad [of 9 n] by simp_all
  obtain d where "d < 10" "hd (pad 9 n) = digit_char d" using pad_hd by blast
  then obtain cs where cs: "pad 9 n = digit_char d # cs" by (cases "pad 9 n") auto
  then have "length cs = 8" using v(2) by simp
  with cs show ?thesis
    using n \<open>d < 10\<close> unfolding cs
    by (simp add: fraction_def Let_def t [unfolded cs] v [unfolded cs] del: dec_value.simps takeWhile.simps dropWhile.simps)
qed

lemma get_year_pad: "n < 10000 \<Longrightarrow> get_year (pad 4 n @ rest) = Some (int n, rest)"
proof -
  assume n: "n < 10000"
  then have l: "length (pad 4 n) = 4" using length_pad [of 4 n] by simp
  have "hd (pad 4 n @ rest) = hd (pad 4 n)" by simp
  then show ?thesis
    using pad_hd [of 4 n] l ParseInt_pad [of n 4] n by (auto simp: get_year_def)
qed

section \<open>Printing and parsing\<close>

lemma date_fields:
  assumes "length a = 4" "length b = 2" "length c = 2"
  shows "(a @ x # b @ y # c) ! 4 = x" "(a @ x # b @ y # c) ! 7 = y" "length (a @ x # b @ y # c) = 10"
    "take 4 (a @ x # b @ y # c) = a" "take 2 (drop 5 (a @ x # b @ y # c)) = b" "take 2 (drop 8 (a @ x # b @ y # c)) = c"
proof -
  obtain a1 a2 a3 a4 where a: "a = [a1, a2, a3, a4]" using assms(1) by (auto simp: numeral_eq_Suc length_Suc_conv)
  obtain b1 b2 where b: "b = [b1, b2]" using assms(2) by (auto simp: numeral_eq_Suc length_Suc_conv)
  obtain c1 c2 where c: "c = [c1, c2]" using assms(3) by (auto simp: numeral_eq_Suc length_Suc_conv)
  show "(a @ x # b @ y # c) ! 4 = x" "(a @ x # b @ y # c) ! 7 = y" "length (a @ x # b @ y # c) = 10"
    "take 4 (a @ x # b @ y # c) = a" "take 2 (drop 5 (a @ x # b @ y # c)) = b" "take 2 (drop 8 (a @ x # b @ y # c)) = c"
    by (simp_all add: a b c)
qed

lemma ParseDate_String:
  assumes "sint (d_year d) = int y" "y < 10000" and "Date_IsZero d \<or> uint (d_month d) \<le> 12 \<and> \<not> no_such_day (uint (d_month d)) (uint (d_day d))"
    and "uint (d_day d) < 100"
  shows "ParseDate (Date_String d) = (d, None)"
proof -
  define m where "m = unat (d_month d)"
  define k where "k = unat (d_day d)"
  let ?s = "pad 4 y @ CHR ''-'' # pad 2 m @ CHR ''-'' # pad 2 k"
  have m: "m < 100" "k < 100"
  proof -
    have "uint (d_month d) < 100" using assms(3) by (auto simp: Date_IsZero_def)
    moreover have "int m = uint (d_month d)" "int k = uint (d_day d)" by (simp_all add: m_def k_def)
    ultimately show "m < 100" "k < 100" using assms(4) by linarith+
  qed
  have s: "Date_String d = ?s"
    using assms(1) by (simp add: Date_String_def fmt_0d_def m_def k_def)
  have l: "length (pad 4 y) = 4" "length (pad 2 m) = 2" "length (pad 2 k) = 2"
    using assms(2) m by (simp_all add: length_pad)
  have t: "TrimSpace ?s = ?s"
    using pad_hd [of 4 y] pad_last [of 2 k] by (intro TrimSpace_plain) auto
  note n = date_fields [OF l, of "CHR ''-''" "CHR ''-''"]
  have p: "ParseInt (pad 4 y) = (int y, None)" "ParseInt (pad 2 m) = (int m, None)" "ParseInt (pad 2 k) = (int k, None)"
    using assms(2) m by (simp_all add: ParseInt_pad)
  have w: "word_of_int (int y) = d_year d" "word_of_int (int m) = d_month d" "word_of_int (int k) = d_day d"
    using assms(1) by (simp_all add: m_def k_def) (metis of_int_of_nat_eq of_int_sint scast_id)
  show ?thesis
  proof (cases "?s = ''0000-00-00''")
    case True
    then have "take 4 ?s = ''0000''" "take 2 (drop 5 ?s) = ''00''" "take 2 (drop 8 ?s) = ''00''" by simp_all
    then have "pad 4 y = ''0000''" "pad 2 m = ''00''" "pad 2 k = ''00''" unfolding n(4-6) .
    then have "dec_value 0 ''0000'' = y" "dec_value 0 ''00'' = m" "dec_value 0 ''00'' = k" by (metis dec_value_pad)+
    then have "y = 0" "m = 0" "k = 0" by (simp_all add: zero_char)
    then have "d = no_date" using w by (simp add: no_date_def)
    then show ?thesis using True t s by (simp add: ParseDate_def)
  next
    case False
    have "int m \<le> 12 \<and> \<not> no_such_day (int m) (int k)"
      using assms(3) by (auto simp: m_def k_def Date_IsZero_def no_such_day_def)
    moreover define z where "z = ?s"
    moreover have "\<lparr>d_year = word_of_int (int y), d_month = word_of_int (int m), d_day = word_of_int (int k)\<rparr> = d"
      using w by (cases d) simp
    ultimately show ?thesis
      using False unfolding s by (simp add: ParseDate_def Let_def t [folded z_def] n [folded z_def] p flip: z_def)
  qed
qed

lemma ParseTime_String:
  assumes "valid_time t" and "0 \<le> t_year t" and "t_year t < 10000"
  shows "ParseTime (TimeString t) = (t, None)"
proof (cases "t = zero_time")
  case True
  have "TrimSpace ''0000-00-00 00:00:00'' = ''0000-00-00 00:00:00''"
    by (rule TrimSpace_plain) (simp_all add: plain_def)
  then show ?thesis using True by (simp add: ParseTime_def TimeString_def Let_def)
next
  case False
  obtain y mo d h mi s n where t: "t = \<lparr>t_year = int y, t_month = int mo, t_day = int d, t_hour = int h, t_min = int mi,
      t_sec = int s, t_nsec = int n\<rparr>"
    using assms that [of "nat (t_year t)" "nat (t_month t)" "nat (t_day t)" "nat (t_hour t)" "nat (t_min t)" "nat (t_sec t)" "nat (t_nsec t)"]
    by (cases t) (simp add: valid_time_def)
  have b: "y < 10000" "1 \<le> mo" "mo \<le> 12" "1 \<le> d" "int d \<le> days_in (int y) (int mo)" "h < 24" "mi < 60" "s < 60" "n < 1000000000"
    using assms by (simp_all add: t valid_time_def)
  have d: "d < 100" using b(5) by (simp add: days_in_def split: if_splits)
  let ?clock = "pad 2 h @ CHR '':'' # pad 2 mi @ CHR '':'' # pad 2 s @ (if n = 0 then [] else CHR ''.'' # pad 9 n)"
  let ?s = "pad 4 y @ CHR ''-'' # pad 2 mo @ CHR ''-'' # pad 2 d @ CHR '' '' # ?clock"
  have s: "TimeString t = ?s" using False by (simp add: TimeString_def append_int_def t)
  have "plain (last ?s)" using pad_last [of 2 s] pad_last [of 9 n] by auto
  then have trim: "TrimSpace ?s = ?s" using pad_hd [of 4 y] by (intro TrimSpace_plain) auto
  have l: "length ?s \<noteq> 10" using b d by (simp add: length_pad)
  have dp: "parse_date_part ?s = Some ((int y, int mo, int d), CHR '' '' # ?clock)"
    using b d by (simp add: parse_date_part_def get_year_pad getnum_pad skip_lit_def in_range_def)
  have f: "fraction (if n = 0 then [] else CHR ''.'' # pad 9 n) = Some (int n, [])"
    using fraction_pad [OF b(9)] by (simp add: fraction_def)
  have cp: "parse_clock_part ?clock = Some ((int h, int mi, int s, int n), [])"
    using b f by (simp add: parse_clock_part_def getnum_pad skip_lit_def in_range_def)
  have sk: "skip_lit (CHR '' '') (CHR '' '' # ?clock) = Some ?clock"
    using pad_hd [of 2 h] by (cases "pad 2 h") (auto simp: skip_lit_def)
  have "time_Parse False ?s = Some t"
    using b d by (simp add: time_Parse_def dp sk cp day_checked_def t del: append_Cons append_assoc)
  moreover have "?s \<noteq> ''0000-00-00 00:00:00''"
  proof
    assume z: "?s = ''0000-00-00 00:00:00''"
    have "parse_date_part ''0000-00-00 00:00:00'' = None"
      by (simp add: parse_date_part_def get_year_def ParseInt_def ParseUint_def char_digit_def skip_lit_def in_range_def)
    then show False using dp unfolding z by simp
  qed
  moreover have "?s \<noteq> ''0000-00-00''" using l by (rule contrapos_nn) (simp only: list.size)
  ultimately show ?thesis using trim l unfolding s by (simp add: ParseTime_def Let_def del: append_Cons append_assoc)
qed

lemma nat_digits_plain:
  "plain (hd (nat_digits n))" "hd (nat_digits n) \<noteq> CHR ''-''" "hd (nat_digits n) \<noteq> CHR ''+''" "CHR '':'' \<notin> set (nat_digits n)"
proof -
  obtain d where "d < 10" "hd (nat_digits n) = digit_char d" using nat_digits_chars [of "hd (nat_digits n)" n] by auto
  then show "plain (hd (nat_digits n))" "hd (nat_digits n) \<noteq> CHR ''-''" "hd (nat_digits n) \<noteq> CHR ''+''" by simp_all
  show "CHR '':'' \<notin> set (nat_digits n)"
    using nat_digits_chars [of "CHR '':''" n] digit_char_facts(3) by metis
qed

lemma ParseDuration_String:
  assumes "is_int64 d" and "d \<noteq> - (2 ^ 63)"
  shows "ParseDuration (DurationString d) = Ret (if - 3600000000000 < d then \<bar>d\<bar> else d, None)"
proof -
  define a where "a = nat \<bar>d\<bar>"
  define n s m h where nsmh: "n = a mod 1000000000" "s = a div 1000000000 mod 60" "m = a div 1000000000 div 60 mod 60"
    "h = a div 1000000000 div 60 div 60"
  have a: "a < 2 ^ 63" "int a = \<bar>d\<bar>" using assms by (auto simp: a_def is_int64_def)
  have b: "n < 1000000000" "s < 60" "m < 60" "h < 2 ^ 63" using a(1) by (simp_all add: nsmh)
  have parts: "a = ((h * 60 + m) * 60 + s) * 1000000000 + n" unfolding nsmh by (simp only: div_mult_mod_eq)
  let ?clock = "pad 2 m @ CHR '':'' # pad 2 s @ (if n = 0 then [] else CHR ''.'' # pad 9 n)"
  let ?sg = "if d < 0 \<and> 0 < h then ''-'' else []"
  let ?s = "?sg @ nat_digits h @ CHR '':'' # ?clock"
  have abs: "(if d < 0 then wrap64 (- d) else d) = int a"
    using assms by (auto simp: a_def is_int64_def wrap64_def)
  have q: "go_rem (int a) 1000000000 = int n" "go_quot (int a) 1000000000 = int (a div 1000000000)"
    "go_rem (int (a div 1000000000)) 60 = int s" "go_quot (int (a div 1000000000)) 60 = int (a div 1000000000 div 60)"
    "go_rem (int (a div 1000000000 div 60)) 60 = int m" "go_quot (int (a div 1000000000 div 60)) 60 = int h"
    by (simp_all add: nsmh go_rem_nonneg zdiv_int zmod_int)
  have str: "DurationString d = ?s"
    unfolding DurationString_def Let_def abs q by (simp add: Itoa_def fmt_0d_def)
  have "plain (last ?s)" using pad_last [of 2 s] pad_last [of 9 n] by auto
  then have trim: "TrimSpace ?s = ?s" using nat_digits_plain [of h] by (intro TrimSpace_plain) (auto simp: plain_def)
  have sign: "split_sign ?s = (if d < 0 \<and> 0 < h then -1 else 1, nat_digits h @ CHR '':'' # ?clock)"
    using nat_digits_plain [of h] by (simp add: split_sign_def)
  have tw: "takeWhile (\<lambda>c. c \<noteq> CHR '':'') (nat_digits h @ CHR '':'' # x) = nat_digits h"
    "dropWhile (\<lambda>c. c \<noteq> CHR '':'') (nat_digits h @ CHR '':'' # x) = CHR '':'' # x" for x
    using nat_digits_plain(4) [of h] by (subst takeWhile_append2 dropWhile_append2; force)+
  have l: "length (pad 2 m) = 2" "length (pad 2 s) = 2" "length (pad 9 n) = 9" using b by (simp_all add: length_pad)
  have f: "?clock ! 2 = CHR '':''" "take 2 ?clock = pad 2 m" "take 2 (drop 3 ?clock) = pad 2 s"
    "length ?clock = (if n = 0 then 5 else 15)" "n \<noteq> 0 \<longrightarrow> ?clock ! 5 = CHR ''.'' \<and> take 9 (drop 6 ?clock) = pad 9 n"
    using l by (simp_all add: nth_append)
  have p: "ParseInt (nat_digits h) = (int h, None)" "ParseInt (pad 2 m) = (int m, None)" "ParseInt (pad 2 s) = (int s, None)"
    "ParseInt (pad 9 n) = (int n, None)"
    using b by (simp_all add: ParseInt_digits ParseInt_pad)
  have w: "wrap64 (int h * 3600) = int h * 3600" "wrap64 (int h * 3600 + int m * 60) = int h * 3600 + int m * 60"
    "wrap64 (int h * 3600 + int m * 60 + int s) = int h * 3600 + int m * 60 + int s"
    "wrap64 ((int h * 3600 + int m * 60 + int s) * 1000000000) = (int h * 3600 + int m * 60 + int s) * 1000000000"
    "(int h * 3600 + int m * 60 + int s) * 1000000000 + int n = int a" "wrap64 (int a) = int a" "wrap64 (- int a) = - int a"
    using a(1) b unfolding parts by (simp_all add: is_int64_def)
  have "Ret (wrap64 (int a * (if d < 0 \<and> 0 < h then -1 else 1)), None) = (Ret (if - 3600000000000 < d then \<bar>d\<bar> else d, None) :: (int \<times> conv_err option) go)"
    using a(2) b w(6,7) parts by (auto simp: abs_if)
  moreover define k z sg where "k = ?clock" "z = ?s" "sg = (if d < 0 \<and> 0 < h then -1 else 1 :: int)"
  have zk: "TrimSpace z = z" "z \<noteq> []" "split_sign z = (sg, nat_digits h @ CHR '':'' # k)" "k ! 2 = CHR '':''" "take 2 k = pad 2 m"
    "take 2 (drop 3 k) = pad 2 s" "length k = (if n = 0 then 5 else 15)" "n \<noteq> 0 \<longrightarrow> k ! 5 = CHR ''.'' \<and> take 9 (drop 6 k) = pad 9 n"
    using trim sign f unfolding k_z_sg_def by simp_all
  have T: "wrap64 (wrap64 (wrap64 (wrap64 (int h * 3600) + int m * 60) + int s) * 1000000000) = int a - int n" using w(1-5) by simp
  have "ParseDuration z = Ret (wrap64 (int a * sg), None)"
    using zk(7,8) b by (cases "n = 0") (simp_all add: ParseDuration_def Let_def zk(1-6) tw p w(6) T l(3))
  ultimately show ?thesis unfolding str k_z_sg_def by simp
qed

end
