(* ===== verification/My_Row.thy ===== *)
theory My_Row
  imports My_Text My_Result
begin

text \<open>
  The conversions of the cells of a row (\<open>mysql/row.go\<close>).  Each kind has a function that returns the value with an error,
  one that panics with the error, and one that drops it.

  The text that \<open>fmt.Print\<close> makes of floating-point numbers, times and durations is the parameter \<open>pr\<close>, the result
  of \<open>strconv.ParseFloat\<close> the parameter \<open>pf\<close>.
\<close>

section \<open>Numbers in any base\<close>

text \<open>\<open>strconv.ParseUint(s, 0, 64)\<close> takes the base from the prefix: \<open>0x\<close> for hexadecimal, \<open>0\<close> for octal.\<close>

definition digit_val :: "char \<Rightarrow> nat option" where
  "digit_val c =
     (let k = (of_char c :: nat) in
      if 48 \<le> k \<and> k \<le> 57 then Some (k - 48)
      else if 97 \<le> k \<and> k \<le> 122 then Some (k - 87)
      else if 65 \<le> k \<and> k \<le> 90 then Some (k - 55)
      else None)"

fun parse_base_loop :: "nat \<Rightarrow> nat \<Rightarrow> string \<Rightarrow> nat \<times> num_error option" where
  "parse_base_loop b n [] = (n, None)"
| "parse_base_loop b n (c # cs) =
     (case digit_val c of
        None \<Rightarrow> (0, Some ErrSyntax)
      | Some d \<Rightarrow>
          if b \<le> d then (0, Some ErrSyntax)
          else if n * b + d > 2 ^ 64 - 1 then (2 ^ 64 - 1, Some ErrRange)
          else parse_base_loop b (n * b + d) cs)"

definition ParseUint_0 :: "string \<Rightarrow> nat \<times> num_error option" where
  "ParseUint_0 s =
     (if s = [] then (0, Some ErrSyntax)
      else if hd s \<noteq> CHR ''0'' then parse_base_loop 10 0 s
      else if tl s \<noteq> [] \<and> (hd (tl s) = CHR ''x'' \<or> hd (tl s) = CHR ''X'') then
        (if length s < 3 then (0, Some ErrSyntax) else parse_base_loop 16 0 (drop 2 s))
      else parse_base_loop 8 0 (tl s))"

definition ParseInt_0 :: "string \<Rightarrow> int \<times> num_error option" where
  "ParseInt_0 s =
     (case s of
        [] \<Rightarrow> (0, Some ErrSyntax)
      | c # cs \<Rightarrow>
          let neg = (c = CHR ''-'');
              body = (if c = CHR ''+'' \<or> c = CHR ''-'' then cs else s)
          in case ParseUint_0 body of
               (_, Some ErrSyntax) \<Rightarrow> (0, Some ErrSyntax)
             | (un, _) \<Rightarrow>
                 if \<not> neg \<and> un \<ge> 2 ^ 63 then (2 ^ 63 - 1, Some ErrRange)
                 else if neg \<and> un > 2 ^ 63 then (- (2 ^ 63), Some ErrRange)
                 else (if neg then - int un else int un, None))"

definition num_result :: "int \<times> num_error option \<Rightarrow> int \<times> conv_err option" where
  "num_result r = (fst r, map_option Num_Error (snd r))"

section \<open>Errors and access\<close>

datatype row_err =
    Conv_Err conv_err
  | Cant_Convert my_val

fun row_err_text :: "row_err \<Rightarrow> string" where
  "row_err_text (Conv_Err (Num_Error ErrSyntax)) = ''strconv: invalid syntax''"
| "row_err_text (Conv_Err (Num_Error ErrRange)) = ''strconv: value out of range''"
| "row_err_text (Conv_Err Bare_Range) = ''value out of range''"
| "row_err_text (Conv_Err Os_Invalid) = ''invalid argument''"
| "row_err_text (Conv_Err (Bad_Text s)) = s"
| "row_err_text (Conv_Err Time_Syntax) = ''parsing time''"
| "row_err_text (Cant_Convert v) = ''Can't convert to time.Duration''"

text \<open>\<open>tr[nn]\<close> of a cell that does not exist panics.\<close>

definition cell :: "my_val list \<Rightarrow> int \<Rightarrow> (my_val \<Rightarrow> ('v \<times> conv_err option) go) \<Rightarrow> ('v \<times> row_err option) go" where
  "cell tr nn f = go_bind (slice_get tr nn) (\<lambda>data. go_bind (f data) (\<lambda>(v, e). Ret (v, map_option Conv_Err e)))"

definition must :: "('v \<times> row_err option) go \<Rightarrow> 'v go" where
  "must m = go_bind m (\<lambda>(v, e). case e of None \<Rightarrow> Ret v | Some x \<Rightarrow> Panic (Explicit_Panic (row_err_text x)))"

definition force :: "('v \<times> row_err option) go \<Rightarrow> 'v go" where
  "force m = go_bind m (\<lambda>(v, e). Ret v)"

section \<open>Bytes and strings\<close>

fun fmt_Print :: "(my_val \<Rightarrow> string) \<Rightarrow> my_val \<Rightarrow> string" where
  "fmt_Print pr (V_int8 w) = Itoa (sint w)"
| "fmt_Print pr (V_uint8 w) = Itoa (uint w)"
| "fmt_Print pr (V_int16 w) = Itoa (sint w)"
| "fmt_Print pr (V_uint16 w) = Itoa (uint w)"
| "fmt_Print pr (V_int32 w) = Itoa (sint w)"
| "fmt_Print pr (V_uint32 w) = Itoa (uint w)"
| "fmt_Print pr (V_int64 w) = Itoa (sint w)"
| "fmt_Print pr (V_uint64 w) = Itoa (uint w)"
| "fmt_Print pr (V_date d) = Date_String d"
| "fmt_Print pr v = pr v"

definition Row_Bin :: "(my_val \<Rightarrow> string) \<Rightarrow> my_val list \<Rightarrow> int \<Rightarrow> byte list go" where
  "Row_Bin pr tr nn =
     go_bind (slice_get tr nn) (\<lambda>data. Ret (case data of
       V_nil \<Rightarrow> []
     | V_bytes b \<Rightarrow> b
     | _ \<Rightarrow> bytes_of_string (fmt_Print pr data)))"

definition Row_Str :: "(my_val \<Rightarrow> string) \<Rightarrow> my_val list \<Rightarrow> int \<Rightarrow> string go" where
  "Row_Str pr tr nn =
     go_bind (slice_get tr nn) (\<lambda>data. Ret (case data of
       V_nil \<Rightarrow> []
     | V_bytes b \<Rightarrow> string_of_bytes b
     | V_time t \<Rightarrow> TimeString t
     | V_duration d \<Rightarrow> DurationString d
     | _ \<Rightarrow> fmt_Print pr data))"

section \<open>Integers\<close>

definition MAX_INT :: int where "MAX_INT = 2 ^ 63 - 1"
definition MIN_INT :: int where "MIN_INT = - MAX_INT - 1"
definition MAX_UINT :: int where "MAX_UINT = 2 ^ 64 - 1"

definition Row_IntErr :: "my_val list \<Rightarrow> int \<Rightarrow> (int \<times> row_err option) go" where
  "Row_IntErr tr nn = cell tr nn (\<lambda>data. Ret (case data of
       V_nil \<Rightarrow> (0, None)
     | V_int32 w \<Rightarrow> (sint w, None)
     | V_int16 w \<Rightarrow> (sint w, None)
     | V_uint16 w \<Rightarrow> (uint w, None)
     | V_int8 w \<Rightarrow> (sint w, None)
     | V_uint8 w \<Rightarrow> (uint w, None)
     | V_bytes b \<Rightarrow> num_result (ParseInt (string_of_bytes b))
     | V_int64 w \<Rightarrow> if MIN_INT \<le> sint w \<and> sint w \<le> MAX_INT then (sint w, None) else (0, Some Bare_Range)
     | V_uint32 w \<Rightarrow> if uint w \<le> MAX_INT then (uint w, None) else (0, Some Bare_Range)
     | V_uint64 w \<Rightarrow> if uint w \<le> MAX_INT then (uint w, None) else (0, Some Bare_Range)
     | _ \<Rightarrow> (0, Some Os_Invalid)))"

definition Row_Int :: "my_val list \<Rightarrow> int \<Rightarrow> int go" where
  "Row_Int tr nn = must (Row_IntErr tr nn)"

definition Row_ForceInt :: "my_val list \<Rightarrow> int \<Rightarrow> int go" where
  "Row_ForceInt tr nn = force (Row_IntErr tr nn)"

text \<open>The signed integers of all widths share a branch, and so do the unsigned ones.\<close>

fun signed_cell :: "my_val \<Rightarrow> int option" where
  "signed_cell (V_int8 w) = Some (sint w)"
| "signed_cell (V_int16 w) = Some (sint w)"
| "signed_cell (V_int32 w) = Some (sint w)"
| "signed_cell (V_int64 w) = Some (sint w)"
| "signed_cell _ = None"

fun unsigned_cell :: "my_val \<Rightarrow> int option" where
  "unsigned_cell (V_uint8 w) = Some (uint w)"
| "unsigned_cell (V_uint16 w) = Some (uint w)"
| "unsigned_cell (V_uint32 w) = Some (uint w)"
| "unsigned_cell (V_uint64 w) = Some (uint w)"
| "unsigned_cell _ = None"

definition Row_UintErr :: "my_val list \<Rightarrow> int \<Rightarrow> (int \<times> row_err option) go" where
  "Row_UintErr tr nn = cell tr nn (\<lambda>data. Ret (case data of
       V_nil \<Rightarrow> (0, None)
     | V_uint32 w \<Rightarrow> (uint w, None)
     | V_uint16 w \<Rightarrow> (uint w, None)
     | V_uint8 w \<Rightarrow> (uint w, None)
     | V_bytes b \<Rightarrow> num_result (map_prod int id (ParseUint_0 (string_of_bytes b)))
     | V_uint64 w \<Rightarrow> if uint w \<le> MAX_UINT then (uint w, None) else (0, Some Bare_Range)
     | _ \<Rightarrow> (case signed_cell data of
           Some v \<Rightarrow> if 0 \<le> v \<and> v \<le> MAX_UINT then (v, None) else (0, Some Bare_Range)
         | None \<Rightarrow> (0, Some Os_Invalid))))"

definition Row_Uint :: "my_val list \<Rightarrow> int \<Rightarrow> int go" where
  "Row_Uint tr nn = must (Row_UintErr tr nn)"

definition Row_ForceUint :: "my_val list \<Rightarrow> int \<Rightarrow> int go" where
  "Row_ForceUint tr nn = force (Row_UintErr tr nn)"

definition Row_Int64Err :: "my_val list \<Rightarrow> int \<Rightarrow> (int \<times> row_err option) go" where
  "Row_Int64Err tr nn = cell tr nn (\<lambda>data. Ret (case data of
       V_nil \<Rightarrow> (0, None)
     | V_bytes b \<Rightarrow> num_result (ParseInt (string_of_bytes b))
     | _ \<Rightarrow> (case signed_cell data of
           Some i \<Rightarrow> (i, None)
         | None \<Rightarrow> (case unsigned_cell data of
               Some u \<Rightarrow> if 2 ^ 63 - 1 < u then (0, Some Bare_Range) else (u, None)
             | None \<Rightarrow> (0, Some Os_Invalid)))))"

definition Row_Int64 :: "my_val list \<Rightarrow> int \<Rightarrow> int go" where
  "Row_Int64 tr nn = must (Row_Int64Err tr nn)"

definition Row_ForceInt64 :: "my_val list \<Rightarrow> int \<Rightarrow> int go" where
  "Row_ForceInt64 tr nn = force (Row_Int64Err tr nn)"

definition Row_Uint64Err :: "my_val list \<Rightarrow> int \<Rightarrow> (int \<times> row_err option) go" where
  "Row_Uint64Err tr nn = cell tr nn (\<lambda>data. Ret (case data of
       V_nil \<Rightarrow> (0, None)
     | V_bytes b \<Rightarrow> num_result (map_prod int id (ParseUint (string_of_bytes b)))
     | _ \<Rightarrow> (case unsigned_cell data of
           Some u \<Rightarrow> (u, None)
         | None \<Rightarrow> (case signed_cell data of
               Some i \<Rightarrow> if i < 0 then (0, Some Bare_Range) else (i, None)
             | None \<Rightarrow> (0, Some Os_Invalid)))))"

definition Row_Uint64 :: "my_val list \<Rightarrow> int \<Rightarrow> int go" where
  "Row_Uint64 tr nn = must (Row_Uint64Err tr nn)"

definition Row_ForceUint64 :: "my_val list \<Rightarrow> int \<Rightarrow> int go" where
  "Row_ForceUint64 tr nn = force (Row_Uint64Err tr nn)"

definition Row_BoolErr :: "my_val list \<Rightarrow> int \<Rightarrow> (bool \<times> row_err option) go" where
  "Row_BoolErr tr nn = cell tr nn (\<lambda>data. Ret (case data of
       V_nil \<Rightarrow> (False, None)
     | V_int8 w \<Rightarrow> (w \<noteq> 0, None) | V_int32 w \<Rightarrow> (w \<noteq> 0, None) | V_int16 w \<Rightarrow> (w \<noteq> 0, None) | V_int64 w \<Rightarrow> (w \<noteq> 0, None)
     | V_uint8 w \<Rightarrow> (w \<noteq> 0, None) | V_uint32 w \<Rightarrow> (w \<noteq> 0, None) | V_uint16 w \<Rightarrow> (w \<noteq> 0, None) | V_uint64 w \<Rightarrow> (w \<noteq> 0, None)
     | V_bytes b \<Rightarrow> map_prod (\<lambda>v. v \<noteq> 0) id (num_result (ParseInt_0 (string_of_bytes b)))
     | _ \<Rightarrow> (False, Some Os_Invalid)))"

definition Row_Bool :: "my_val list \<Rightarrow> int \<Rightarrow> bool go" where
  "Row_Bool tr nn = must (Row_BoolErr tr nn)"

definition Row_ForceBool :: "my_val list \<Rightarrow> int \<Rightarrow> bool go" where
  "Row_ForceBool tr nn = force (Row_BoolErr tr nn)"

section \<open>Floating-point numbers\<close>

text \<open>A \<open>float64\<close> with an integer value, a widened \<open>float32\<close>, one given by its bits, or the one nearest to a decimal text.
  Integers of less than 54 bits are rounded to 53 bits, ties to even.\<close>

datatype go_float = F_int int | F_32 "32 word" | F_64 "64 word" | F_decimal string

definition float64_of :: "int \<Rightarrow> int" where
  "float64_of i = (if \<bar>i\<bar> \<le> 2 ^ 53 \<or> even i then i else if i mod 4 = 1 then i - 1 else i + 1)"

definition Row_FloatErr ::
    "(string \<Rightarrow> go_float \<times> num_error option) \<Rightarrow> my_val list \<Rightarrow> int \<Rightarrow> (go_float \<times> row_err option) go" where
  "Row_FloatErr pf tr nn = cell tr nn (\<lambda>data. Ret (case data of
       V_nil \<Rightarrow> (F_int 0, None)
     | V_float64 w \<Rightarrow> (F_64 w, None)
     | V_decimal s \<Rightarrow> (F_decimal s, None)
     | V_float32 w \<Rightarrow> (F_32 w, None)
     | V_bytes b \<Rightarrow> map_prod id (map_option Num_Error) (pf (string_of_bytes b))
     | _ \<Rightarrow> (case signed_cell data of
           Some i \<Rightarrow> if push_bit 53 2 \<le> i \<or> i \<le> - push_bit 53 2 then (F_int 0, Some Bare_Range) else (F_int (float64_of i), None)
         | None \<Rightarrow> (case unsigned_cell data of
               Some u \<Rightarrow> if push_bit 53 2 \<le> u then (F_int 0, Some Bare_Range) else (F_int (float64_of u), None)
             | None \<Rightarrow> (F_int 0, Some Os_Invalid)))))"

definition Row_Float :: "(string \<Rightarrow> go_float \<times> num_error option) \<Rightarrow> my_val list \<Rightarrow> int \<Rightarrow> go_float go" where
  "Row_Float pf tr nn = must (Row_FloatErr pf tr nn)"

definition Row_ForceFloat :: "(string \<Rightarrow> go_float \<times> num_error option) \<Rightarrow> my_val list \<Rightarrow> int \<Rightarrow> go_float go" where
  "Row_ForceFloat pf tr nn = force (Row_FloatErr pf tr nn)"

section \<open>Dates, times and durations\<close>

text \<open>Cells of any other type give the zero value here, without an error.\<close>

definition Row_DateErr :: "my_val list \<Rightarrow> int \<Rightarrow> (my_date \<times> row_err option) go" where
  "Row_DateErr tr nn = cell tr nn (\<lambda>data. Ret (case data of
       V_date d \<Rightarrow> (d, None)
     | V_bytes b \<Rightarrow> ParseDate (string_of_bytes b)
     | _ \<Rightarrow> (no_date, None)))"

definition Row_Date :: "my_val list \<Rightarrow> int \<Rightarrow> my_date go" where
  "Row_Date tr nn = must (Row_DateErr tr nn)"

definition Row_ForceDate :: "my_val list \<Rightarrow> int \<Rightarrow> my_date go" where
  "Row_ForceDate tr nn = force (Row_DateErr tr nn)"

text \<open>\<open>loc\<close> tells whether the location is \<open>time.Local\<close>.  For another one the nanoseconds are those of the result \<open>t\<close>,
  which is still the zero time.\<close>

definition Row_TimeErr :: "my_val list \<Rightarrow> int \<Rightarrow> bool \<Rightarrow> (mtime \<times> row_err option) go" where
  "Row_TimeErr tr nn loc = cell tr nn (\<lambda>data. Ret (case data of
       V_time t \<Rightarrow>
         (if loc then t
          else time_Date (t_year t) (t_month t) (t_day t) (t_hour t) (t_min t) (t_sec t) (t_nsec zero_time), None)
     | V_date d \<Rightarrow> (Date_Time d, None)
     | V_bytes b \<Rightarrow> ParseTime (string_of_bytes b)
     | _ \<Rightarrow> (zero_time, None)))"

definition Row_Time :: "my_val list \<Rightarrow> int \<Rightarrow> bool \<Rightarrow> mtime go" where
  "Row_Time tr nn loc = must (Row_TimeErr tr nn loc)"

definition Row_ForceTime :: "my_val list \<Rightarrow> int \<Rightarrow> bool \<Rightarrow> mtime go" where
  "Row_ForceTime tr nn loc = force (Row_TimeErr tr nn loc)"

definition Row_LocaltimeErr :: "my_val list \<Rightarrow> int \<Rightarrow> (mtime \<times> row_err option) go" where
  "Row_LocaltimeErr tr nn = cell tr nn (\<lambda>data. Ret (case data of
       V_time t \<Rightarrow> (t, None)
     | V_date d \<Rightarrow> (Date_Time d, None)
     | V_bytes b \<Rightarrow> ParseTime (string_of_bytes b)
     | _ \<Rightarrow> (zero_time, None)))"

definition Row_Localtime :: "my_val list \<Rightarrow> int \<Rightarrow> mtime go" where
  "Row_Localtime tr nn = must (Row_LocaltimeErr tr nn)"

definition Row_ForceLocaltime :: "my_val list \<Rightarrow> int \<Rightarrow> mtime go" where
  "Row_ForceLocaltime tr nn = force (Row_LocaltimeErr tr nn)"

definition Row_DurationErr :: "my_val list \<Rightarrow> int \<Rightarrow> (int \<times> row_err option) go" where
  "Row_DurationErr tr nn =
     go_bind (slice_get tr nn) (\<lambda>data. case data of
       V_nil \<Rightarrow> Ret (0, None)
     | V_duration d \<Rightarrow> Ret (d, None)
     | V_bytes b \<Rightarrow> go_bind (ParseDuration (string_of_bytes b)) (\<lambda>(v, e). Ret (v, map_option Conv_Err e))
     | _ \<Rightarrow> Ret (0, Some (Cant_Convert data)))"

definition Row_Duration :: "my_val list \<Rightarrow> int \<Rightarrow> int go" where
  "Row_Duration tr nn = must (Row_DurationErr tr nn)"

definition Row_ForceDuration :: "my_val list \<Rightarrow> int \<Rightarrow> int go" where
  "Row_ForceDuration tr nn = force (Row_DurationErr tr nn)"

section \<open>Decimal text\<close>

lemma parse_uint_loop_digits:
  "parse_uint_loop 0 (nat_digits n) = (if n < 2 ^ 64 then (n, None) else (2 ^ 64 - 1, Some ErrRange))"
proof (induction n rule: nat_digits.induct)
  case (1 n)
  show ?case
  proof (cases "n < 2 ^ 64")
    case True
    then show ?thesis by (simp add: parse_nat_digits)
  next
    case False
    then have "\<not> n < 10" by simp
    from "1.IH" [OF this] have "parse_uint_loop 0 (nat_digits (n div 10)) =
        (if n div 10 < 2 ^ 64 then (n div 10, None) else (2 ^ 64 - 1, Some ErrRange))" .
    moreover have "n div 10 * 10 + n mod 10 > 2 ^ 64 - 1" using False by simp
    ultimately show ?thesis
      using False by (subst nat_digits.simps) (simp add: parse_uint_loop_append)
  qed
qed

lemma parse_base_loop_10: "\<forall>c \<in> set s. \<exists>d < 10. c = digit_char d \<Longrightarrow> parse_base_loop 10 n s = parse_uint_loop n s"
proof (induction s arbitrary: n)
  case (Cons c s)
  then obtain d where "d < 10" "c = digit_char d" by auto
  moreover from this have "digit_val c = Some d" by (simp add: digit_val_def of_char_digit_char Let_def)
  ultimately show ?case using Cons by simp
qed simp

lemma ParseUint_digits:
  "ParseUint (nat_digits n) = (if n < 2 ^ 64 then (n, None) else (2 ^ 64 - 1, Some ErrRange))"
  by (simp add: ParseUint_def parse_uint_loop_digits)

lemma nat_digits_hd_0: "0 < n \<Longrightarrow> hd (nat_digits n) \<noteq> CHR ''0''"
proof (induction n rule: nat_digits.induct)
  case (1 n)
  show ?case
  proof (cases "n < 10")
    case True
    then have "char_digit (digit_char n) = Some n" by simp
    then show ?thesis using "1.prems" True by (auto simp: nat_digits.simps [of n] char_digit_def)
  next
    case False
    then show ?thesis using "1.IH" [OF False] by (subst nat_digits.simps) simp
  qed
qed

lemma ParseUint_0_digits: "ParseUint_0 (nat_digits n) = ParseUint (nat_digits n)"
proof (cases "n = 0")
  case True
  then show ?thesis by (simp add: nat_digits.simps [of 0] ParseUint_0_def ParseUint_def char_digit_def flip: zero_char)
next
  case False
  then show ?thesis
    using nat_digits_hd_0 [of n] nat_digits_chars [of _ n] by (simp add: ParseUint_0_def ParseUint_def parse_base_loop_10)
qed

definition saturated :: "int \<Rightarrow> int \<times> num_error option" where
  "saturated n = (if is_int64 n then (n, None) else if n < 0 then (- (2 ^ 63), Some ErrRange) else (2 ^ 63 - 1, Some ErrRange))"

lemma minus_digits: "hd (nat_digits n) \<noteq> CHR ''+''" "hd (nat_digits n) \<noteq> CHR ''-''"
  using nat_digits_plain by auto

lemma ParseInt_Itoa_any: "ParseInt (Itoa n) = saturated n"
proof (cases "n < 0")
  case True
  then show ?thesis by (auto simp: Itoa_def ParseInt_def ParseUint_digits saturated_def is_int64_def Let_def)
next
  case False
  then show ?thesis
    using minus_digits [of "nat n"] ParseUint_digits [of "nat n"]
    by (cases "nat_digits (nat n)") (auto simp: Itoa_def ParseInt_def saturated_def is_int64_def Let_def nat_less_iff split: if_splits)
qed

lemma ParseInt_0_Itoa_any: "ParseInt_0 (Itoa n) = saturated n"
proof -
  have "ParseInt_0 (Itoa n) = ParseInt (Itoa n)"
  proof (cases "n < 0")
    case True
    then show ?thesis by (simp add: Itoa_def ParseInt_0_def ParseInt_def ParseUint_0_digits)
  next
    case False
    then show ?thesis
      using minus_digits [of "nat n"] ParseUint_0_digits [of "nat n"]
      by (cases "nat_digits (nat n)") (auto simp: Itoa_def ParseInt_0_def ParseInt_def)
  qed
  then show ?thesis by (simp add: ParseInt_Itoa_any)
qed

lemma minus_char: "char_digit (CHR ''-'') = None" "digit_val (CHR ''-'') = None"
  by (simp_all add: char_digit_def digit_val_def)

lemma ParseUint_Itoa:
  "ParseUint (Itoa n) = (if n < 0 then (0, Some ErrSyntax) else if n < 2 ^ 64 then (nat n, None) else (2 ^ 64 - 1, Some ErrRange))"
  by (simp add: Itoa_def ParseUint_digits nat_less_iff) (simp add: ParseUint_def minus_char)

lemma ParseUint_0_Itoa: "ParseUint_0 (Itoa n) = ParseUint (Itoa n)"
  by (simp add: Itoa_def ParseUint_0_digits) (simp add: ParseUint_0_def ParseUint_def minus_char)

section \<open>Integers keep their value\<close>

text \<open>A cell that holds the integer \<open>n\<close>: of any integer type, as a binary reply has it, or its decimal text.\<close>

definition int_cell :: "my_val \<Rightarrow> int \<Rightarrow> bool" where
  "int_cell v n \<longleftrightarrow> signed_cell v = Some n \<or> unsigned_cell v = Some n \<or> v = V_bytes (bytes_of_string (Itoa n))"

lemma cell_Ret: "slice_get tr i = Ret v \<Longrightarrow> f v = Ret (x, e) \<Longrightarrow> cell tr i f = Ret (x, map_option Conv_Err e)"
  by (simp add: cell_def)

lemma sint_bounds:
  "is_int64 (sint (a :: 8 word))" "is_int64 (sint (b :: 16 word))" "is_int64 (sint (c :: 32 word))" "is_int64 (sint (w :: 64 word))"
  using sint_ge [of a] sint_lt [of a] sint_ge [of b] sint_lt [of b] sint_ge [of c] sint_lt [of c] sint_ge [of w] sint_lt [of w]
  by (simp_all add: is_int64_def)

lemma sint_eq_0: "sint (w :: 'a::len word) = 0 \<longleftrightarrow> w = 0"
  by (metis signed_word_eqI sint_0)

lemma uint_eq_0: "uint (w :: 'a::len word) = 0 \<longleftrightarrow> w = 0"
  by (metis uint_0_eq unsigned_word_eqI)

lemma small_uints:
  "uint (a :: 8 word) < 2 ^ 63" "uint (b :: 16 word) < 2 ^ 63" "uint (c :: 32 word) < 2 ^ 63"
  using uint_bounded [of a] uint_bounded [of b] uint_bounded [of c] by simp_all

lemma signed_cell_int64: "signed_cell v = Some n \<Longrightarrow> is_int64 n"
  by (cases v) (auto simp: sint_bounds)

lemma unsigned_cell_uint64: "unsigned_cell v = Some n \<Longrightarrow> 0 \<le> n \<and> n < 2 ^ 64"
  using uint_bounded [where 'a = 8] uint_bounded [where 'a = 16] uint_bounded [where 'a = 32] uint_bounded [where 'a = 64]
  by (cases v) (auto intro: order.strict_trans)



text \<open>The functions that should return 0 where a conversion is impossible return the nearest bound for text out of range,
  and a leading zero makes the text octal for \<open>Uint\<close> and \<open>Bool\<close> only.\<close>

lemma ForceInt64_saturates:
  "slice_get tr i = Ret (V_bytes (bytes_of_string (Itoa n))) \<Longrightarrow> Row_ForceInt64 tr i = Ret (max (- (2 ^ 63)) (min n (2 ^ 63 - 1)))"
  by (auto simp: Row_ForceInt64_def force_def Row_Int64Err_def cell_def num_result_def ParseInt_Itoa_any saturated_def is_int64_def comp_def)

lemma leading_zero:
  "Row_UintErr [V_bytes (bytes_of_string ''010'')] 0 = Ret (8, None)" "Row_Uint64Err [V_bytes (bytes_of_string ''010'')] 0 = Ret (10, None)"
  by (simp_all add: Row_UintErr_def Row_Uint64Err_def cell_def slice_get_def num_result_def ParseUint_0_def ParseUint_def char_digit_def
      digit_val_def)

text \<open>Integers of 54 bits are converted to floating point without an error although 53 bits are kept.\<close>

lemma Float_inexact: "Row_FloatErr pf [V_int64 (2 ^ 53 + 1)] 0 = Ret (F_int (2 ^ 53), None)"
  by (simp add: Row_FloatErr_def cell_def slice_get_def float64_of_def push_bit_eq_mult)

section \<open>Times and durations as text\<close>

text \<open>
  C13. A duration that is turned into text and read back from a text cell is the same one, except that a negative duration
  of less than an hour loses its sign; only the smallest 64-bit value is left out.
\<close>

theorem duration_text_roundtrip:
  assumes "slice_get tr i = Ret (V_duration d)" and "is_int64 d" and "d \<noteq> - (2 ^ 63)"
  shows "\<exists>s. Row_Str pr tr i = Ret s \<and>
    Row_DurationErr [V_bytes (bytes_of_string s)] 0 = Ret (if - 3600000000000 < d then \<bar>d\<bar> else d, None)"
  using assms(1) ParseDuration_String [OF assms(2,3)] by (simp add: Row_Str_def Row_DurationErr_def slice_get_def comp_def)

theorem duration_text_roundtrip_witness:
  "\<exists>s. Row_Str (\<lambda>_. []) [V_nil, V_duration (- 30000000000)] 1 = Ret s \<and> Row_DurationErr [V_bytes (bytes_of_string s)] 0 = Ret (30000000000, None)"
  using duration_text_roundtrip [of "[V_nil, V_duration (- 30000000000)]" 1 "- 30000000000" "\<lambda>_. []"]
  by (simp add: slice_get_def is_int64_def)

text \<open>
  A calendar time of the years 0 to 9999 that is turned into text and read back from a text cell is the same one, to
  the nanosecond, in any location; so is a date, which may have a zero month or day.
\<close>

lemma time_text_roundtrip:
  assumes "slice_get tr i = Ret (V_time t)" and "valid_time t" and "0 \<le> t_year t" and "t_year t < 10000"
    and "slice_get tr j = Ret (V_date d)" and "0 \<le> sint (d_year d)" and "sint (d_year d) < 10000"
    and "uint (d_month d) \<le> 12" and "uint (d_day d) < 100" and "\<not> no_such_day (uint (d_month d)) (uint (d_day d))"
  shows "(\<exists>s. Row_Str pr tr i = Ret s \<and> Row_TimeErr [V_bytes (bytes_of_string s)] 0 loc = Ret (t, None)) \<and>
    (\<exists>s. Row_Str pr tr j = Ret s \<and> Row_DateErr [V_bytes (bytes_of_string s)] 0 = Ret (d, None))"
proof -
  obtain y where y: "sint (d_year d) = int y" using assms(6) by (metis zero_le_imp_eq_int)
  then have "ParseDate (Date_String d) = (d, None)" using assms(7-10) by (intro ParseDate_String) auto
  then show ?thesis
    using assms(1,5) ParseTime_String [OF assms(2-4)]
    by (simp add: Row_Str_def Row_TimeErr_def Row_DateErr_def cell_def slice_get_def comp_def)
qed

text \<open>A text cell of blanks makes \<open>DurationErr\<close> panic; \<open>DateErr\<close> of a number is the zero date without an error; a time
  in another location than the local one loses its nanoseconds.\<close>

lemma blank_duration_panics: "Row_DurationErr [V_bytes []] 0 = Panic Index_Out_Of_Range"
  by (simp add: Row_DurationErr_def slice_get_def ParseDuration_def TrimSpace_def
      trim_left_plain [OF go_spaces_not_plain(1)] trim_left_plain [OF go_spaces_not_plain(2)])

lemma number_is_no_date: "Row_DateErr [V_int64 w] 0 = Ret (no_date, None)"
  by (simp add: Row_DateErr_def cell_def slice_get_def)

lemma Time_drops_nanoseconds:
  "valid_time t \<Longrightarrow> Row_TimeErr [V_time t] 0 False = Ret (t\<lparr>t_nsec := 0\<rparr>, None)"
  using time_Date_valid [of "t\<lparr>t_nsec := 0\<rparr>"] by (simp add: Row_TimeErr_def cell_def slice_get_def zero_time_def valid_time_def)

end
