(* ===== verification/Ws_Upgrade.thy ===== *)
theory Ws_Upgrade
  imports Ws_Conn Go_Crypto Go_Text "HOL-Library.AList"
begin

text \<open>
  The opening handshake of a websocket (\<open>gorilla/websocket/server.go\<close>, \<open>client.go\<close>, \<open>util.go\<close>): the
  \<open>Upgrader\<close> that \<open>routes.go\<close> declares, and the request and the test of the answer on the dialing side.  Proxies, TLS
  and the connecting itself are left out.

  A header is the list of its entries in the order in which the map is walked.  Of \<open>net/http\<close> the model has what the two
  sides rely on: canonical names, and how a response is cut into lines.  Deadlines are left out; the
  bytes of the response also land in the write buffer, whose contents do not matter before the first message.
\<close>

section \<open>Headers\<close>

type_synonym header = "(string \<times> string list) list"

definition values_of :: "header \<Rightarrow> string \<Rightarrow> string list" where
  "values_of h k = (case map_of h k of None \<Rightarrow> [] | Some vs \<Rightarrow> vs)"

definition header_Get :: "header \<Rightarrow> string \<Rightarrow> string" where
  "header_Get h k = (case values_of h k of [] \<Rightarrow> [] | v # _ \<Rightarrow> v)"

definition tokenListContainsValue :: "header \<Rightarrow> string \<Rightarrow> string \<Rightarrow> bool" where
  "tokenListContainsValue h name val \<longleftrightarrow>
     (\<exists>v \<in> set (values_of h name). \<exists>s \<in> set (go_split (CHR '','') v). EqualFold val (TrimSpace s))"

definition keyGUID :: string where
  "keyGUID = ''258EAFA5-E914-47DA-95CA-C5AB0DC85B11''"

definition computeAcceptKey :: "string \<Rightarrow> string" where
  "computeAcceptKey challengeKey = b64_encode (sha1 (bytes_of_string challengeKey @ bytes_of_string keyGUID))"

text \<open>The sixteen bytes come from \<open>rand.Reader\<close>.\<close>

definition generateChallengeKey :: "string + byte list \<Rightarrow> string + string" where
  "generateChallengeKey rnd = map_sum id b64_encode rnd"

section \<open>The server\<close>

record http_req =
  hr_Method :: string
  hr_Host :: string
  hr_Header :: header

text \<open>\<open>Error\<close> is only tested for being set; a size of 0 selects the default.\<close>

record Upgrader =
  u_WriteBufferSize :: nat
  u_Subprotocols :: "string list option"
  u_Error :: bool
  u_CheckOrigin :: "(http_req \<Rightarrow> bool) option"

text \<open>
  Refused with the status that \<open>http.Error\<close> sends, if it is not the business of \<open>Error\<close>; closed because
  of early input or a failed write; or open with the chosen subprotocol.
\<close>

datatype upgraded =
    Refused "int option" string
  | Dropped ws_err Conn
  | Opened string Conn

text \<open>What \<open>Hijack\<close> gives: the connection's input, the state of the reader's buffer, and the outcomes of the writes.\<close>

datatype hijack =
    No_Hijacker
  | Hijack_Error string
  | Hijacked bool "byte list list" ws_err "(nat \<times> ws_err) option list"

definition returnError :: "Upgrader \<Rightarrow> int \<Rightarrow> string \<Rightarrow> upgraded" where
  "returnError u st reason = Refused (if u_Error u then None else Some st) reason"

text \<open>\<open>url.Parse\<close> is the parameter \<open>url_host\<close>: the host, or \<open>None\<close> for an error.\<close>

definition checkSameOrigin :: "(string \<Rightarrow> string option) \<Rightarrow> http_req \<Rightarrow> bool" where
  "checkSameOrigin url_host r =
     (case values_of (hr_Header r) ''Origin'' of
        [] \<Rightarrow> True
      | orig # _ \<Rightarrow> (case url_host orig of None \<Rightarrow> False | Some h \<Rightarrow> h = hr_Host r))"

definition Subprotocols :: "http_req \<Rightarrow> string list" where
  "Subprotocols r =
     (let h = TrimSpace (header_Get (hr_Header r) ''Sec-Websocket-Protocol'') in
      if h = [] then [] else map TrimSpace (go_split (CHR '','') h))"

fun first_common :: "string list \<Rightarrow> string list \<Rightarrow> string" where
  "first_common [] cs = []"
| "first_common (s # ss) cs = (if s \<in> set cs then s else first_common ss cs)"

definition selectSubprotocol :: "Upgrader \<Rightarrow> http_req \<Rightarrow> header option \<Rightarrow> string" where
  "selectSubprotocol u r responseHeader =
     (case u_Subprotocols u of
        Some ps \<Rightarrow> first_common ps (Subprotocols r)
      | None \<Rightarrow> (case responseHeader of Some h \<Rightarrow> header_Get h ''Sec-Websocket-Protocol'' | None \<Rightarrow> []))"

definition crlf :: string where
  "crlf = [CHR 0x0D, CHR 0x0A]"

definition no_splitting :: "char \<Rightarrow> char" where
  "no_splitting b = (if (of_char b :: nat) \<le> 31 then CHR '' '' else b)"

definition header_lines :: "header \<Rightarrow> string list" where
  "header_lines h =
     concat (map (\<lambda>(k, vs). if k = ''Sec-Websocket-Protocol'' then [] else map (\<lambda>v. k @ '': '' @ map no_splitting v) vs) h)"

definition response_lines :: "string \<Rightarrow> string \<Rightarrow> header option \<Rightarrow> string list" where
  "response_lines challengeKey subprotocol responseHeader =
     [''HTTP/1.1 101 Switching Protocols'', ''Upgrade: websocket'', ''Connection: Upgrade'',
      ''Sec-WebSocket-Accept: '' @ computeAcceptKey challengeKey]
     @ (if subprotocol \<noteq> [] then [''Sec-Websocket-Protocol: '' @ subprotocol] else [])
     @ header_lines (case responseHeader of None \<Rightarrow> [] | Some h \<Rightarrow> h) @ [[]]"

definition response_text :: "string \<Rightarrow> string \<Rightarrow> header option \<Rightarrow> string" where
  "response_text challengeKey subprotocol responseHeader =
     concat (map (\<lambda>l. l @ crlf) (response_lines challengeKey subprotocol responseHeader))"

definition Upgrader_Upgrade ::
    "(string \<Rightarrow> string option) \<Rightarrow> Upgrader \<Rightarrow> http_req \<Rightarrow> hijack \<Rightarrow> 32 word list \<Rightarrow> header option \<Rightarrow> upgraded" where
  "Upgrader_Upgrade url_host u r hj rands responseHeader =
     (let h = hr_Header r; versions = values_of h ''Sec-Websocket-Version'' in
      if hr_Method r \<noteq> ''GET'' then returnError u 405 ''websocket: method not GET''
      else if versions = [] \<or> hd versions \<noteq> ''13'' then returnError u 400 ''websocket: version != 13''
      else if \<not> tokenListContainsValue h ''Connection'' ''upgrade'' then
        returnError u 400 (''websocket: could not find connection header with token 'upgrade'' @ [CHR 0x27])
      else if \<not> tokenListContainsValue h ''Upgrade'' ''websocket'' then
        returnError u 400 (''websocket: could not find upgrade header with token 'websocket'' @ [CHR 0x27])
      else if \<not> (case u_CheckOrigin u of None \<Rightarrow> checkSameOrigin url_host | Some f \<Rightarrow> f) r then
        returnError u 403 ''websocket: origin not allowed''
      else
        (let challengeKey = header_Get h ''Sec-Websocket-Key'' in
         if challengeKey = [] then returnError u 400 ''websocket: key missing or blank''
         else
           (let subprotocol = selectSubprotocol u r responseHeader in
            case hj of
              No_Hijacker \<Rightarrow> returnError u 500 ''websocket: response does not implement http.Hijacker''
            | Hijack_Error e \<Rightarrow> returnError u 500 e
            | Hijacked early input input_end writes \<Rightarrow>
                (let c = (newConn True (u_WriteBufferSize u) input input_end rands)\<lparr>write_script := writes\<rparr> in
                 if early then Dropped (Err_Text ''websocket: client sent data before handshake is complete'') (ws_Close c)
                 else
                   (let (_, err, c') = net_Write (bytes_of_string (response_text challengeKey subprotocol responseHeader)) c in
                    case err of Some e \<Rightarrow> Dropped e (ws_Close c') | None \<Rightarrow> Opened subprotocol c')))))"

text \<open>The deprecated function: no origin check, and errors are left to the caller.\<close>

definition Upgrade ::
    "(string \<Rightarrow> string option) \<Rightarrow> http_req \<Rightarrow> hijack \<Rightarrow> 32 word list \<Rightarrow> header option \<Rightarrow> nat \<Rightarrow> upgraded" where
  "Upgrade url_host r hj rands responseHeader writeBufSize =
     Upgrader_Upgrade url_host
       \<lparr>u_WriteBufferSize = writeBufSize, u_Subprotocols = None, u_Error = True, u_CheckOrigin = Some (\<lambda>_. True)\<rparr>
       r hj rands responseHeader"

text \<open>The upgrader of \<open>routes.go\<close>.\<close>

definition upgrader :: Upgrader where
  "upgrader = \<lparr>u_WriteBufferSize = 1024, u_Subprotocols = None, u_Error = False, u_CheckOrigin = Some (\<lambda>_. True)\<rparr>"

section \<open>The client\<close>

record url =
  u_Scheme :: string
  u_Opaque :: string
  u_Host :: string
  u_RawQuery :: string

definition parseURL :: "string \<Rightarrow> url option" where
  "parseURL s0 =
     (let scheme = (if take 5 s0 = ''ws://'' then Some (''ws'', drop 5 s0) else if take 6 s0 = ''wss://'' then Some (''wss'', drop 6 s0) else None) in
      case scheme of
        None \<Rightarrow> None
      | Some (sch, s) \<Rightarrow>
          (let query = (if CHR ''?'' \<in> set s then tl (dropWhile (\<lambda>c. c \<noteq> CHR ''?'') s) else []);
               s1 = takeWhile (\<lambda>c. c \<noteq> CHR ''?'') s;
               path = (if CHR ''/'' \<in> set s1 then dropWhile (\<lambda>c. c \<noteq> CHR ''/'') s1 else ''/'');
               host = takeWhile (\<lambda>c. c \<noteq> CHR ''/'') s1
           in if CHR ''@'' \<in> set host then None
              else Some \<lparr>u_Scheme = sch, u_Opaque = path, u_Host = host, u_RawQuery = query\<rparr>))"

text \<open>\<open>strings.LastIndex\<close> of a single byte, -1 if it does not occur.\<close>

definition LastIndex :: "string \<Rightarrow> char \<Rightarrow> int" where
  "LastIndex s c = (if c \<in> set s then int (length s) - 1 - int (length (takeWhile (\<lambda>x. x \<noteq> c) (rev s))) else -1)"

definition hostPortNoPort :: "url \<Rightarrow> string \<times> string" where
  "hostPortNoPort u =
     (let i = LastIndex (u_Host u) (CHR '':'') in
      if LastIndex (u_Host u) (CHR '']'') < i then (u_Host u, take (nat i) (u_Host u))
      else (u_Host u @ (if u_Scheme u = ''wss'' \<or> u_Scheme u = ''https'' then '':443'' else '':80''), u_Host u))"

fun join_comma :: "string list \<Rightarrow> string" where
  "join_comma [] = []"
| "join_comma [s] = s"
| "join_comma (s # t # ss) = s @ '', '' @ join_comma (t # ss)"

text \<open>The request: the headers of the caller must not repeat those of the handshake; \<open>Host\<close> replaces the host.\<close>

definition client_header :: "string \<Rightarrow> string list \<Rightarrow> header" where
  "client_header challengeKey protocols =
     [(''Upgrade'', [''websocket'']), (''Connection'', [''Upgrade'']), (''Sec-WebSocket-Key'', [challengeKey]),
      (''Sec-WebSocket-Version'', [''13''])]
     @ (if protocols \<noteq> [] then [(''Sec-WebSocket-Protocol'', [join_comma protocols])] else [])"

fun add_headers :: "string list \<Rightarrow> header \<Rightarrow> http_req \<Rightarrow> string + http_req" where
  "add_headers protocols [] req = Inr req"
| "add_headers protocols ((k, vs) # h) req =
     (if k = ''Host'' then add_headers protocols h (if vs \<noteq> [] then req\<lparr>hr_Host := hd vs\<rparr> else req)
      else if k \<in> {''Upgrade'', ''Connection'', ''Sec-Websocket-Key'', ''Sec-Websocket-Version''}
           \<or> k = ''Sec-Websocket-Protocol'' \<and> protocols \<noteq> [] then
        Inl (''websocket: duplicate header not allowed: '' @ k)
      else add_headers protocols h (req\<lparr>hr_Header := AList.update k vs (hr_Header req)\<rparr>))"

definition dial_request :: "string \<Rightarrow> string list \<Rightarrow> header \<Rightarrow> string \<Rightarrow> string + (url \<times> http_req)" where
  "dial_request challengeKey protocols requestHeader urlStr =
     (case parseURL urlStr of
        None \<Rightarrow> Inl ''malformed ws or wss URL''
      | Some u \<Rightarrow>
          map_sum id (\<lambda>req. (u\<lparr>u_Scheme := if u_Scheme u = ''ws'' then ''http'' else ''https''\<rparr>, req))
            (add_headers protocols requestHeader
              \<lparr>hr_Method = ''GET'', hr_Host = u_Host u, hr_Header = client_header challengeKey protocols\<rparr>))"

text \<open>The answer that the client accepts, with the subprotocol it takes from it.\<close>

definition accept_response :: "string \<Rightarrow> int \<times> header \<Rightarrow> string option" where
  "accept_response challengeKey resp =
     (let (st, h) = resp in
      if st \<noteq> 101 \<or> \<not> EqualFold (header_Get h ''Upgrade'') ''websocket'' \<or> \<not> EqualFold (header_Get h ''Connection'') ''upgrade''
         \<or> header_Get h ''Sec-Websocket-Accept'' \<noteq> computeAcceptKey challengeKey
      then None
      else Some (header_Get h ''Sec-Websocket-Protocol''))"

section \<open>Responses as lines\<close>

text \<open>
  How \<open>net/http\<close> reads a response: lines end with a line feed, before which a carriage return is dropped; a header
  line is cut at its first colon, its name is made canonical, and blanks around the value go.
\<close>

definition text_lines :: "string \<Rightarrow> string list" where
  "text_lines s = map (\<lambda>l. if l \<noteq> [] \<and> last l = CHR 0x0D then butlast l else l) (go_split newline s)"

definition token_char :: "char \<Rightarrow> bool" where
  "token_char c \<longleftrightarrow>
     (let k = (of_char c :: nat) in 48 \<le> k \<and> k \<le> 57 \<or> 65 \<le> k \<and> k \<le> 90 \<or> 97 \<le> k \<and> k \<le> 122) \<or> c \<in> set ''!#$%&'*+-.^_`|~''"

fun canonical :: "bool \<Rightarrow> string \<Rightarrow> string" where
  "canonical up [] = []"
| "canonical up (c # cs) = (if up then to_upper c else to_lower c) # canonical (c = CHR ''-'') cs"

definition CanonicalHeaderKey :: "string \<Rightarrow> string" where
  "CanonicalHeaderKey k = (if list_all token_char k then canonical True k else k)"

definition trim_blanks :: "string \<Rightarrow> string" where
  "trim_blanks s = (let f = dropWhile (\<lambda>c. c = CHR '' '' \<or> c = CHR 0x09) in rev (f (rev (f s))))"

definition header_field :: "string \<Rightarrow> string \<times> string list" where
  "header_field l =
     (CanonicalHeaderKey (takeWhile (\<lambda>c. c \<noteq> CHR '':'') l), [trim_blanks (tl (dropWhile (\<lambda>c. c \<noteq> CHR '':'') l))])"

definition ReadResponse :: "string \<Rightarrow> int \<times> header" where
  "ReadResponse s =
     (let ls = text_lines s in
      (fst (ParseInt (take 3 (drop 9 (hd ls)))), map header_field (takeWhile (\<lambda>l. l \<noteq> []) (tl ls))))"

definition received :: "http_req \<Rightarrow> http_req" where
  "received r = r\<lparr>hr_Header := map (\<lambda>(k, vs). (CanonicalHeaderKey k, vs)) (hr_Header r)\<rparr>"

lemma go_split_lines:
  "\<forall>l \<in> set ls. newline \<notin> set l \<Longrightarrow> go_split newline (concat (map (\<lambda>l. l @ crlf) ls)) = map (\<lambda>l. l @ [CHR 0x0D]) ls @ [[]]"
proof (induction ls)
  case (Cons l ls)
  then have "newline \<notin> set (l @ [CHR 0x0D])" by auto
  from go_split_append_sep [OF this] Cons show ?case by (simp add: crlf_def)
qed simp

lemma text_lines_concat:
  "\<forall>l \<in> set ls. newline \<notin> set l \<Longrightarrow> text_lines (concat (map (\<lambda>l. l @ crlf) ls)) = ls @ [[]]"
  by (simp add: text_lines_def go_split_lines comp_def)

lemma no_splitting_newline: "newline \<notin> set (map no_splitting v)"
  by (auto simp: no_splitting_def split: if_splits)

definition no_newline :: "string \<Rightarrow> bool" where
  "no_newline s \<longleftrightarrow> newline \<notin> set s"

lemma b64_char_plain: "unat n < 64 \<Longrightarrow> plain (b64_char n) \<and> b64_char n \<noteq> CHR '':''"
proof -
  let ?s = "''ABCDEFGHIJKLMNOPQRSTUVWXYZabcdefghijklmnopqrstuvwxyz0123456789+/''"
  assume "unat n < 64"
  then have "b64_char n \<in> set ?s" unfolding b64_char_def by (intro nth_mem) simp
  moreover have "\<forall>c \<in> set ?s. plain c \<and> c \<noteq> CHR '':''" by (simp add: plain_def)
  ultimately show ?thesis by blast
qed

lemma unat_less_64: "take_bit 6 n = n \<Longrightarrow> unat (n :: byte) < 64"
proof -
  assume n: "take_bit 6 n = n"
  have "unat (take_bit 6 n) = take_bit 6 (unat n)" by (rule unsigned_take_bit_eq)
  then show ?thesis using take_bit_nat_less_exp [of 6 "unat n"] unfolding n by simp
qed

lemma byte_masks: "(3 :: byte) = mask 2" "(15 :: byte) = mask 4" "(63 :: byte) = mask 6"
  by (simp_all add: mask_eq_exp_minus_1)

lemma b64_indices:
  "unat (drop_bit 2 a) < 64" "unat (push_bit 4 (a AND 3)) < 64" "unat (push_bit 4 (a AND 3) OR drop_bit 4 b) < 64"
  "unat (push_bit 2 (b AND 15)) < 64" "unat (push_bit 2 (b AND 15) OR drop_bit 6 c) < 64" "unat (c AND 63) < 64" for a b c :: byte
  unfolding byte_masks by (rule unat_less_64, rule bit_word_eqI, auto simp: bit_simps dest: bit_imp_le_length)+

lemma b64_plain: "c \<in> set (b64_encode bs) \<Longrightarrow> plain c \<and> c \<noteq> CHR '':''"
  using b64_char_plain b64_indices by (induction bs rule: b64_encode.induct) (auto simp: plain_def)

lemma plain_not_newline: "plain c \<Longrightarrow> c \<noteq> newline" "plain c \<Longrightarrow> c \<noteq> CHR '' ''" "plain c \<Longrightarrow> c \<noteq> CHR 0x09"
  by (auto simp: plain_def)

lemma header_lines_newline: "\<forall>(k, vs) \<in> set h. no_newline k \<Longrightarrow> \<forall>l \<in> set (header_lines h). newline \<notin> set l"
  using no_splitting_newline by (fastforce simp: header_lines_def no_newline_def split: if_splits)

lemma response_lines_newline:
  assumes "no_newline sp" and "case rh of None \<Rightarrow> True | Some h \<Rightarrow> \<forall>(k, vs) \<in> set h. no_newline k"
  shows "\<forall>l \<in> set (response_lines key sp rh). newline \<notin> set l"
proof -
  have "newline \<notin> set (computeAcceptKey key)"
    using b64_plain plain_not_newline unfolding computeAcceptKey_def by blast
  moreover have "newline \<notin> set ''HTTP/1.1 101 Switching Protocols''" "newline \<notin> set ''Upgrade: websocket''"
    "newline \<notin> set ''Connection: Upgrade''" "newline \<notin> set ''Sec-WebSocket-Accept: ''" "newline \<notin> set ''Sec-Websocket-Protocol: ''"
    by simp_all
  moreover have "\<forall>l \<in> set (header_lines (case rh of None \<Rightarrow> [] | Some h \<Rightarrow> h)). newline \<notin> set l"
    using assms(2) by (intro header_lines_newline) (auto split: option.splits)
  ultimately show ?thesis
    using assms(1) unfolding response_lines_def no_newline_def by (simp only: set_append set_simps ball_Un if_split list.set) simp
qed



text \<open>The subprotocol of the response header is copied as it is, so it can add a line.\<close>

lemma subprotocol_splits:
  assumes "u_Subprotocols u = None"
  defines "h \<equiv> [(''Sec-Websocket-Protocol'', [''a'' @ crlf @ ''Set-Cookie: b''])]"
  shows "(''Set-Cookie'', [''b'']) \<in> set (snd (ReadResponse (response_text key (selectSubprotocol u r (Some h)) (Some h))))"
proof -
  let ?ls = "[''HTTP/1.1 101 Switching Protocols'', ''Upgrade: websocket'', ''Connection: Upgrade'',
      ''Sec-WebSocket-Accept: '' @ computeAcceptKey key, ''Sec-Websocket-Protocol: a'', ''Set-Cookie: b'', []]"
  have "newline \<notin> set (computeAcceptKey key)"
    using b64_plain plain_not_newline unfolding computeAcceptKey_def by blast
  then have "text_lines (concat (map (\<lambda>l. l @ crlf) ?ls)) = ?ls @ [[]]" by (intro text_lines_concat) simp
  moreover have "response_text key (selectSubprotocol u r (Some h)) (Some h) = concat (map (\<lambda>l. l @ crlf) ?ls)"
    by (simp add: response_text_def response_lines_def selectSubprotocol_def assms header_lines_def header_Get_def values_of_def)
  moreover have "header_field ''Set-Cookie: b'' = (''Set-Cookie'', [''b''])" by code_simp
  ultimately show ?thesis by (simp add: ReadResponse_def Let_def)
qed

section \<open>Both ends agree\<close>

definition protocol_name :: "string \<Rightarrow> bool" where
  "protocol_name p \<longleftrightarrow> p \<noteq> [] \<and> (\<forall>c \<in> set p. plain c \<and> c \<noteq> CHR '','')"

lemma name_plain: "protocol_name p \<Longrightarrow> no_newline p \<and> plain (hd p) \<and> plain (last p)"
  using plain_not_newline(1) unfolding protocol_name_def no_newline_def by (metis hd_in_set last_in_set)

lemma TrimSpace_name: "protocol_name p \<Longrightarrow> TrimSpace p = p" "protocol_name p \<Longrightarrow> TrimSpace (CHR '' '' # p) = p"
  using TrimSpace_plain [of p] TrimSpace_leading [of "hd p" "tl p"] by (auto simp: protocol_name_def)

lemma join_comma_ends: "ps \<noteq> [] \<Longrightarrow> \<forall>p \<in> set ps. protocol_name p \<Longrightarrow>
    join_comma ps \<noteq> [] \<and> plain (hd (join_comma ps)) \<and> plain (last (join_comma ps))"
proof (induction ps rule: join_comma.induct)
  case (3 s t ss)
  then show ?case by (auto simp: protocol_name_def)
qed (auto simp: protocol_name_def)

lemma split_join_comma: "ps \<noteq> [] \<Longrightarrow> \<forall>p \<in> set ps. protocol_name p \<Longrightarrow>
    go_split (CHR '','') (join_comma ps) = hd ps # map (\<lambda>p. CHR '' '' # p) (tl ps)"
proof (induction ps rule: join_comma.induct)
  case (2 s)
  then show ?case by (auto simp: protocol_name_def intro!: go_split_no_sep)
next
  case (3 s t ss)
  then have "CHR '','' \<notin> set s" by (auto simp: protocol_name_def)
  from go_split_append_sep [OF this] 3 show ?case by simp
qed simp

lemma Subprotocols_of_client:
  assumes "header_Get (hr_Header r) ''Sec-Websocket-Protocol'' = join_comma ps" and "\<forall>p \<in> set ps. protocol_name p"
  shows "Subprotocols r = ps"
proof (cases ps)
  case Nil
  then show ?thesis using assms(1) trim_left_plain [OF go_spaces_not_plain(1), of "[]"] trim_left_plain [OF go_spaces_not_plain(2), of "[]"]
    by (simp add: Subprotocols_def TrimSpace_def)
next
  case (Cons q qs)
  have n: "ps \<noteq> []" using Cons by simp
  have "TrimSpace (join_comma ps) = join_comma ps" using join_comma_ends [OF n assms(2)] by (intro TrimSpace_plain) auto
  moreover have "map TrimSpace (map (\<lambda>p. CHR '' '' # p) qs) = qs"
    using assms(2) Cons TrimSpace_name by (simp add: map_idI)
  ultimately show ?thesis
    using assms Cons join_comma_ends [OF n assms(2)] split_join_comma [OF n assms(2)] TrimSpace_name by (simp add: Subprotocols_def)
qed

lemma first_common_in: "first_common ss cs \<noteq> [] \<Longrightarrow> first_common ss cs \<in> set cs"
  by (induction ss cs rule: first_common.induct) (auto split: if_splits)

lemma header_field_value:
  assumes "CHR '':'' \<notin> set k" and "v = [] \<or> plain (hd v) \<and> plain (last v)"
  shows "header_field (k @ '': '' @ v) = (CanonicalHeaderKey k, [v])"
proof -
  have "takeWhile (\<lambda>c. c \<noteq> CHR '':'') (k @ '': '' @ v) = k" "dropWhile (\<lambda>c. c \<noteq> CHR '':'') (k @ '': '' @ v) = '': '' @ v"
    using assms(1) by (subst takeWhile_append2 dropWhile_append2; force)+
  moreover have "trim_blanks ('' '' @ v) = v"
  proof (cases "v = []")
    case False
    then have "plain (hd v)" "plain (hd (rev v))" "rev v \<noteq> []" using assms(2) by (simp_all add: hd_rev)
    then have "dropWhile (\<lambda>c. c = CHR '' '' \<or> c = CHR 0x09) v = v" "dropWhile (\<lambda>c. c = CHR '' '' \<or> c = CHR 0x09) (rev v) = rev v"
      using plain_not_newline by (auto simp: dropWhile_eq_self_iff)
    then show ?thesis by (simp add: trim_blanks_def)
  qed (simp add: trim_blanks_def)
  ultimately show ?thesis by (simp add: header_field_def)
qed

lemma received_client:
  "map (\<lambda>(k, vs). (CanonicalHeaderKey k, vs)) (client_header key ps) =
     [(''Upgrade'', [''websocket'']), (''Connection'', [''Upgrade'']), (''Sec-Websocket-Key'', [key]), (''Sec-Websocket-Version'', [''13''])]
     @ (if ps \<noteq> [] then [(''Sec-Websocket-Protocol'', [join_comma ps])] else [])"
proof -
  have "CanonicalHeaderKey ''Upgrade'' = ''Upgrade''" "CanonicalHeaderKey ''Connection'' = ''Connection''"
    "CanonicalHeaderKey ''Sec-WebSocket-Key'' = ''Sec-Websocket-Key''"
    "CanonicalHeaderKey ''Sec-WebSocket-Version'' = ''Sec-Websocket-Version''"
    "CanonicalHeaderKey ''Sec-WebSocket-Protocol'' = ''Sec-Websocket-Protocol''" by code_simp+
  then show ?thesis by (simp add: client_header_def)
qed

lemma tokens_found:
  "EqualFold ''upgrade'' (TrimSpace ''Upgrade'')" "EqualFold ''websocket'' (TrimSpace ''websocket'')"
  "EqualFold ''Upgrade'' ''upgrade''" "EqualFold ''websocket'' ''websocket''"
proof -
  have "TrimSpace ''Upgrade'' = ''Upgrade''" "TrimSpace ''websocket'' = ''websocket''"
    by (rule TrimSpace_plain; simp add: plain_def)+
  then show "EqualFold ''upgrade'' (TrimSpace ''Upgrade'')" "EqualFold ''websocket'' (TrimSpace ''websocket'')"
    "EqualFold ''Upgrade'' ''upgrade''" "EqualFold ''websocket'' ''websocket''" by (simp_all, code_simp+)
qed

text \<open>The fields that the client sees.\<close>

lemma response_fields:
  assumes "no_newline sp" and "sp = [] \<or> plain (hd sp) \<and> plain (last sp)"
  shows "ReadResponse (response_text key sp None) =
    (101, [(''Upgrade'', [''websocket'']), (''Connection'', [''Upgrade'']), (''Sec-Websocket-Accept'', [computeAcceptKey key])]
       @ (if sp \<noteq> [] then [(''Sec-Websocket-Protocol'', [sp])] else []))"
proof -
  let ?a = "computeAcceptKey key"
  have "?a \<noteq> []" using length_b64_encode [of "sha1 (bytes_of_string key @ bytes_of_string keyGUID)"] by (auto simp: computeAcceptKey_def)
  moreover have "\<forall>c \<in> set ?a. plain c" using b64_plain unfolding computeAcceptKey_def by blast
  ultimately have "header_field (''Sec-WebSocket-Accept'' @ '': '' @ ?a) = (''Sec-Websocket-Accept'', [?a])"
    by (subst header_field_value) (simp_all, code_simp)
  moreover have "header_field (''Sec-Websocket-Protocol'' @ '': '' @ sp) = (''Sec-Websocket-Protocol'', [sp])"
    using assms(2) by (subst header_field_value) (simp_all, code_simp)
  moreover have "header_field ''Upgrade: websocket'' = (''Upgrade'', [''websocket''])"
    "header_field ''Connection: Upgrade'' = (''Connection'', [''Upgrade''])" by code_simp+
  moreover have "text_lines (response_text key sp None) = response_lines key sp None @ [[]]"
    unfolding response_text_def using assms(1) by (intro text_lines_concat response_lines_newline) simp_all
  moreover have "ParseInt ''101'' = (101, None)" by (simp add: ParseInt_def ParseUint_def char_digit_def)
  ultimately show ?thesis by (simp add: ReadResponse_def response_lines_def header_lines_def Let_def)
qed

text \<open>
  C7. A client and a server that allows its origin complete the handshake: the request that \<open>Dial\<close> sends is upgraded,
  the client accepts the answer, and both take the first of the server's subprotocols that the client offers.
\<close>

theorem handshake_opens:
  assumes "generateChallengeKey (Inr rnd) = Inr key" and "length rnd = 16"
    and "dial_request key ps [] urlStr = Inr (u, req)" and "\<forall>p \<in> set ps. protocol_name p"
    and "case u_CheckOrigin up of None \<Rightarrow> True | Some f \<Rightarrow> f (received req)"
  shows "\<exists>sp c. Upgrader_Upgrade url_host up (received req) (Hijacked False input e []) rands None = Opened sp c
    \<and> accept_response key (ReadResponse (string_of_bytes (sent c))) = Some sp
    \<and> sp = (case u_Subprotocols up of None \<Rightarrow> [] | Some qs \<Rightarrow> first_common qs ps) \<and> (sp \<noteq> [] \<longrightarrow> sp \<in> set ps)"
proof -
  define sp where "sp = (case u_Subprotocols up of None \<Rightarrow> [] | Some qs \<Rightarrow> first_common qs ps)"
  have key: "key \<noteq> []" using assms(1,2) length_b64_encode [of rnd] by (auto simp: generateChallengeKey_def)
  have req: "hr_Method req = ''GET''" "hr_Header (received req) =
      [(''Upgrade'', [''websocket'']), (''Connection'', [''Upgrade'']), (''Sec-Websocket-Key'', [key]), (''Sec-Websocket-Version'', [''13''])]
      @ (if ps \<noteq> [] then [(''Sec-Websocket-Protocol'', [join_comma ps])] else [])"
    using assms(3) by (auto simp: dial_request_def received_def received_client split: option.splits)
  have h: "values_of (hr_Header (received req)) ''Sec-Websocket-Version'' = [''13'']"
    "values_of (hr_Header (received req)) ''Connection'' = [''Upgrade'']" "values_of (hr_Header (received req)) ''Upgrade'' = [''websocket'']"
    "values_of (hr_Header (received req)) ''Origin'' = []" "header_Get (hr_Header (received req)) ''Sec-Websocket-Key'' = key"
    "header_Get (hr_Header (received req)) ''Sec-Websocket-Protocol'' = join_comma ps"
    unfolding req(2) by (simp_all add: values_of_def header_Get_def)
  have sel: "selectSubprotocol up (received req) None = sp"
    using Subprotocols_of_client [OF h(6) assms(4)] by (simp add: selectSubprotocol_def sp_def split: option.splits)
  have "sp \<in> set ps" if "sp \<noteq> []" using that first_common_in by (auto simp: sp_def split: option.splits)
  then have p: "sp \<noteq> [] \<longrightarrow> sp \<in> set ps" "no_newline sp" "sp = [] \<or> plain (hd sp) \<and> plain (last sp)"
    using assms(4) name_plain by (blast, cases "sp = []", simp add: no_newline_def, blast, blast)
  define c where "c = (newConn True (u_WriteBufferSize up) input e rands)\<lparr>sent := bytes_of_string (response_text key sp None)\<rparr>"
  have nw: "net_Write (bytes_of_string (response_text key sp None)) ((newConn True (u_WriteBufferSize up) input e rands)\<lparr>write_script := []\<rparr>)
      = (length (response_text key sp None), None, c)"
    by (simp add: net_Write_def newConn_def c_def)
  have m: "hr_Method (received req) = ''GET''" using req(1) by (simp add: received_def)
  have tok: "tokenListContainsValue (hr_Header (received req)) ''Connection'' ''upgrade''"
    "tokenListContainsValue (hr_Header (received req)) ''Upgrade'' ''websocket''"
    using tokens_found by (simp_all add: tokenListContainsValue_def h)
  have org: "(case u_CheckOrigin up of None \<Rightarrow> checkSameOrigin url_host | Some f \<Rightarrow> f) (received req)"
    using assms(5) h(4) by (auto simp: checkSameOrigin_def split: option.splits)
  have "Upgrader_Upgrade url_host up (received req) (Hijacked False input e []) rands None = Opened sp c"
    unfolding Upgrader_Upgrade_def Let_def by (simp only: m h(1,5) tok org sel nw key hijack.case list.sel list.distinct simp_thms if_True if_False
        prod.case option.case)
  moreover have "accept_response key (ReadResponse (string_of_bytes (sent c))) = Some sp"
    using tokens_found(3,4) by (simp add: c_def accept_response_def response_fields [OF p(2,3)] header_Get_def values_of_def)
  ultimately show ?thesis using p(1) sp_def by blast
qed

theorem handshake_opens_witness:
  "\<exists>req c. dial_request (b64_encode (replicate 16 0)) [''chat'', ''v2''] [] ''ws://h/x'' =
      Inr (\<lparr>u_Scheme = ''http'', u_Opaque = ''/x'', u_Host = ''h'', u_RawQuery = []\<rparr>, req)
    \<and> Upgrader_Upgrade (\<lambda>_. None) \<lparr>u_WriteBufferSize = 1024, u_Subprotocols = Some [''v3'', ''v2''], u_Error = False, u_CheckOrigin = None\<rparr>
      (received req) (Hijacked False [] EOF []) [] None = Opened ''v2'' c"
proof -
  let ?up = "\<lparr>u_WriteBufferSize = 1024, u_Subprotocols = Some [''v3'', ''v2''], u_Error = False, u_CheckOrigin = None\<rparr>"
  define key where "key = b64_encode (replicate 16 0)"
  have g: "generateChallengeKey (Inr (replicate 16 0)) = Inr key" by (simp add: generateChallengeKey_def key_def)
  have "parseURL ''ws://h/x'' = Some \<lparr>u_Scheme = ''ws'', u_Opaque = ''/x'', u_Host = ''h'', u_RawQuery = []\<rparr>" by (simp add: parseURL_def)
  then obtain req where d: "dial_request key [''chat'', ''v2''] [] ''ws://h/x'' =
      Inr (\<lparr>u_Scheme = ''http'', u_Opaque = ''/x'', u_Host = ''h'', u_RawQuery = []\<rparr>, req)"
    by (simp add: dial_request_def)
  have "\<forall>p \<in> set [''chat'', ''v2'']. protocol_name p" by (simp add: protocol_name_def plain_def)
  from handshake_opens [OF g _ d this, of ?up "\<lambda>_. None" "[]" EOF "[]"] d show ?thesis by (auto simp: key_def)
qed

end
