(* ===== verification/Spec2Isabelle.thy ===== *)
theory Spec2Isabelle
  imports Routes Distributor Mapping_Call Ws_Pump Queue_Interleaving My_Autorc My_Escape My_Thrsafe My_Row Ws_Upgrade
begin

text \<open>
  GrandmaSchedulingServices (GSS): a server that accepts messages over HTTP, keeps them in a database
  until they are due, and delivers them by HTTP calls, push notifications, SMS, mail or websockets.  A
  master can distribute messages to slaves over TCP.  This development models the Go sources of the
  program, the websocket connection it writes to, and the MySQL driver below its database.

  \<^bold>\<open>How the parts work together.\<close>  \<open>main\<close> (\<open>src/server.go\<close>) reads flags and configuration, sets up the network
  and the scheduler, and serves.  \<open>handler\<close> turns a request into a message, \<open>DistCalls\<close> hands it to the
  scheduler of this node or to a slave.  \<open>NewSchedule\<close> records it in the database; a message that is due
  goes to the sending queue, any other to the store of schedules, from where the timer fires it.
  \<open>ProcessMessageQueue\<close> takes messages off the sending queue and starts the sender of their type; the
  websocket sender goes through the hub to the write pumps of the addressed connections.

  \<^bold>\<open>Theories and sources\<close> (paths under \<open>src/src\<close> unless they start at \<open>src\<close>).
  \<^item> \<open>Go_Prelude\<close>, \<open>Go_Strings\<close>, \<open>Go_Text\<close>, \<open>Go_Crypto\<close>, \<open>Go_Json\<close>: what the sources use of Go and its standard library.  Panics
    and permanent blocking are values of the type \<open>go\<close>, error results are sums or pairs.
  \<^item> \<open>Ring_Queue\<close>, \<open>Queue_Interleaving\<close>: \<open>queue/queue.go\<close>, once with atomic operations against the locale
    \<open>bounded_deque\<close>, once with every locked section as a step of concurrent goroutines.
  \<^item> \<open>Messages\<close>: \<open>message/message.go\<close>, \<open>message/utils.go\<close>.
  \<^item> \<open>Keystore\<close>, \<open>Timer\<close>: \<open>schedule/keystore.go\<close>, \<open>schedule/timer.go\<close>; the wall clock is an argument of every tick.
  \<^item> \<open>Schedules\<close>: \<open>schedule/schedule.go\<close>, \<open>schedule/connector.go\<close>.  The database is a parameter; the locale
    \<open>schedule_db\<close> states what its statements do, and a table of rows is the interpretation.
  \<^item> \<open>Framed_Stream\<close>: the contract of a reader of framed messages, provided by \<open>Frames\<close> and \<open>Ws_Read\<close>.
  \<^item> \<open>Frames\<close>, \<open>Node_Heap\<close>, \<open>Handshake\<close>, \<open>Cluster\<close>: \<open>clustering/network.go\<close>, \<open>manage.go\<close>, \<open>clustering.go\<close>,
    \<open>clusterqueue.go\<close>, \<open>bytesutils.go\<close>.  Nodes are objects behind pointers (\<open>nodes\<close>), and the mutex \<open>RWLock\<close> is part of the
    state, so that locking it twice is visible.
  \<^item> \<open>Config\<close>: \<open>conf/config.go\<close>; \<open>Json_Wrapper\<close>: \<open>jsonwrapper/jsonwrapper.go\<close>; \<open>Mapping_Call\<close>: \<open>mapping/mapping.go\<close>,
    \<open>mapping/payload.go\<close>; \<open>Signature\<close>: \<open>signature/signature.go\<close>.
  \<^item> \<open>Distributor\<close>: \<open>distributor/*.go\<close>, with the answers of the network as arguments.
  \<^item> \<open>Websocket_Hub\<close>: \<open>ws/ws.go\<close>; \<open>Ws_Conn\<close>, \<open>Ws_Read\<close>: the writing and the reading half of
    \<open>github.com/gorilla/websocket/conn.go\<close>; \<open>Ws_Pump\<close>: the pumps of \<open>ws/ws.go\<close> on such a connection;
    \<open>Ws_Upgrade\<close>: the opening handshake, \<open>server.go\<close>, \<open>util.go\<close> and the request and test of \<open>client.go\<close> there.
  \<^item> \<open>My_Packet\<close>, \<open>My_Codecs\<close>, \<open>My_Result\<close>, \<open>My_Client\<close>, \<open>My_Stmt\<close>, \<open>My_Passwd\<close>, \<open>My_Connect\<close>,
    \<open>My_Login\<close>, \<open>My_Escape\<close>, \<open>My_Autorc\<close>, \<open>My_Thrsafe\<close>, \<open>My_Text\<close>, \<open>My_Row\<close>: the MySQL
    driver, \<open>github.com/ziutek/mymysql/native/*.go\<close> and the parts of \<open>mymysql/mysql/*.go\<close> that go with it; packets
    over buffered streams, encodings, replies, queries, prepared statements, passwords, connecting, quoting,
    reconnection after network errors (\<open>mymysql/autorc\<close>) and the locking engine (\<open>mymysql/thrsafe\<close>) that the scheduler uses, and the
    conversions of the cells of a row.
  \<^item> \<open>Routes\<close>: \<open>src/routes.go\<close>.  This theory: \<open>src/server.go\<close> and the properties that span components.

  \<^bold>\<open>What the lemmas show.\<close>  Queue: refinement of a bounded list; order and exactly-once delivery under
  concurrency with one producer; what goes wrong with two producers and with a signal sent outside the lock.
  Scheduler: the store's two maps stay inverse, every schedule fires once and not early, all slots
  are visited, recovery takes up every unsent row.  Cluster: frames are reassembled from any pieces of
  two bytes or more, the ranking is a heap, both ends of a handshake agree and a slave accepts only the
  secret.  Websocket: what one side writes the other reads, under any fragmentation, masking, pings and
  segmentation; the opening handshake is completed and its answer cannot be split; the read limit and how it is bypassed.  MySQL: packets and encodings are inverse to their
  readers for every length and segmentation, a query returns the table that the server sent, a statement
  sends its parameters, a login proves its password, quoted text stays inside its literal; cells keep their values
  through conversions and text; a query through the locking engine is the native query with the connection locked, a transaction shuts others out; what
  blocks a connection for ever, and what repeating a query cannot repair.  End to end: a request reaches
  its sender, a message sent to a slave reaches its queue, a restarted node recovers its schedules.
  Several properties state defects of the code, as the code has them.

  \<^bold>\<open>Bounds and fuel.\<close>  The JSON parser has a bound on its calls that is never exhausted (\<open>parse_fuel_enough\<close>).  The
  frame and websocket loops end because every round takes bytes off the input (their termination proofs);
  a websocket writer without room in its buffer would loop for ever and is \<open>Hang\<close>.  Loops that wait for events
  (timer, listener, pumps, distributor, reconnection) are functions of a finite sequence of events.

  \<^bold>\<open>Not modelled.\<close>  \<open>clustering/cross.go\<close>, \<open>crossnetwork.go\<close> and the websocket route are commented out; \<open>distributor/rabbit.go\<close>
  and \<open>topic.go\<close> hold no code.  Logging, deadlines of sockets, and the listening side of \<open>net/http\<close> are left out, as are
  \<open>messageWriter.ReadFrom\<close>, the accessors and JSON helpers of the websocket connection, and how its client connects.  The scheduler sees the database
  through the contract of the statements it runs.  Of the driver, the
  \<open>database/sql\<close> front end, debug output and \<open>NewFromCF\<close> are left out.  Data races on the maps of the
  scheduler and of the hub, which the sources do not lock everywhere, are outside the model: there each
  operation is one step.
\<close>

section \<open>The program\<close>

text \<open>
  \<open>server.go\<close>: what the process does with its arguments.  An unknown flag ends it with status 2;
  once it serves, the handlers of \<open>Routes\<close>, the ticks of \<open>Timer\<close> and the activations of
  \<open>ProcessMessageQueue\<close> act on the state it has reached.
\<close>

datatype 'd outcome =
    Exited int
  | Stopped
  | Serving conf string "'d app"

definition main ::
  "'d mysql \<Rightarrow> filesys \<Rightarrow> (string list \<Rightarrow> string list) \<Rightarrow> (string \<Rightarrow> dial_outcome) \<Rightarrow> bool \<Rightarrow> bool \<Rightarrow>
   accept_outcome list \<Rightarrow> (nat \<Rightarrow> int) \<Rightarrow> string list \<Rightarrow> 'd app \<Rightarrow> 'd outcome go" where
  "main my fs order dial resolves listens accepts clock args a =
     (case ReadFlags args initial_conf of
        None \<Rightarrow> Ret (Exited 2)
      | Some (run, c0) \<Rightarrow>
          if run then
            go_bind (Configure fs order c0) (\<lambda>c.
            go_bind (Network c dial resolves listens accepts (cl a)) (\<lambda>(success, conn, g).
            if \<not> success then Ret Stopped
            else
              go_bind (InitScheduler my c clock conn (wd a)) (\<lambda>w.
              Ret (Serving c (GetPort c) (a\<lparr>cl := g, wd := w\<rparr>)))))
          else Ret Stopped)"

section \<open>Master and slave\<close>

text \<open>The master sends a sequence of payloads to one slave; the slave handles what its listener delivers.\<close>

fun send_all :: "byte list list \<Rightarrow> int \<Rightarrow> cluster \<Rightarrow> cluster go" where
  "send_all [] i g = Ret g"
| "send_all (bs # bss) i g = go_bind (sendSlave bs i g) (\<lambda>(_, _, g'). send_all bss i g')"

fun handle_all :: "'d mysql \<Rightarrow> conf \<Rightarrow> (byte list \<times> int \<times> int) list \<Rightarrow> 'd app \<Rightarrow> 'd app go" where
  "handle_all my c [] a = Ret a"
| "handle_all my c ((bs, now1, now2) # rs) a = go_bind (slaveHandler my c now1 now2 bs a) (handle_all my c rs)"

definition command :: "Obj \<Rightarrow> byte list" where
  "command m = COMM_TYPE_SCHEDULE # GetMessagePayload m"

lemma send_all_ok:
  assumes "nodes_inv g" and "i < length (slave_connections g)" and "p = slave_connections g ! i"
    and "\<not> closed (nodes g ! p)" and "conn (nodes g ! p) = Some t" and "\<not> tx_fails t"
  shows "\<exists>g'. send_all bss (int i) g = Ret g' \<and> conn (nodes g' ! p) = Some (t\<lparr>tx := tx t @ concat (map frame bss)\<rparr>)"
  using assms
proof (induction bss arbitrary: g t)
  case (Cons bs bss)
  let ?t = "t\<lparr>tx := tx t @ frame bs\<rparr>" and ?g = "set_conn p (t\<lparr>tx := tx t @ frame bs\<rparr>) g"
  have "p < length (nodes g)" using Cons.prems by (simp add: nodes_inv_def)
  then have n: "nodes ?g ! p = (nodes g ! p)\<lparr>conn := Some ?t\<rparr>" by (simp add: nodes_set_conn)
  obtain g' where "send_all bss (int i) ?g = Ret g'" "conn (nodes g' ! p) = Some (?t\<lparr>tx := tx ?t @ concat (map frame bss)\<rparr>)"
    using Cons.IH [of ?g ?t] Cons.prems n by auto
  then show ?case
    using sendSlave_ok [OF Cons.prems] by simp
qed simp

lemma handle_command:
  assumes "schedule_db my (records_table c) rows last_id ready" and "world_inv c rows ready (wd a)"
    and "valid_obj m" and "newline \<notin> set (Endpoint m)" and "newline \<notin> set (MessageBody m)" and "Expiration m < 1000"
    and "fits_record (MessageType m) (Endpoint m) (MessageBody m) (wrap64 (now1 + Expiration m))" and "0 < room c (wd a)"
  shows "\<exists>a'. slaveHandler my c now1 now2 (command m) a = Ret a' \<and> world_inv c rows ready (wd a') \<and>
     queued c (wd a') = queued c (wd a) @ [m\<lparr>Expiration := 0\<rparr>]"
proof -
  have "NewMessageFromPayload (GetMessagePayload m) = Ret (Inr m)"
    using payload_read [of m] valid_obj_int64 [OF assms(3)] assms(3-5) by simp
  moreover obtain s w' where "NewSchedule my c now1 now2 (Some m) (wd a) = Ret (Inr s, w')" "world_inv c rows ready w'"
      "queued c w' = queued c (wd a) @ [m\<lparr>Expiration := 0\<rparr>]"
    using schedule_db.new_immediate [OF assms(1,2) refl assms(7,6,8)] by blast
  ultimately show ?thesis
    by (simp add: slaveHandler_def command_def consumeLevel1Calls_def)
qed

lemma handle_commands:
  assumes "schedule_db my (records_table c) rows last_id ready" and "world_inv c rows ready (wd a)"
    and "\<forall>m \<in> set ms. valid_obj m \<and> newline \<notin> set (Endpoint m) \<and> newline \<notin> set (MessageBody m) \<and> Expiration m < 1000 \<and>
       (\<forall>now \<in> set nows. fits_record (MessageType m) (Endpoint m) (MessageBody m) (wrap64 (fst now + Expiration m)))"
    and "length nows = length ms" and "length ms \<le> room c (wd a)"
  shows "\<exists>a'. handle_all my c (zip (map command ms) nows) a = Ret a' \<and>
     queued c (wd a') = queued c (wd a) @ map (\<lambda>m. m\<lparr>Expiration := 0\<rparr>) ms"
  using assms(2-)
proof (induction ms arbitrary: a nows)
  case (Cons m ms)
  obtain now1 now2 nows' where nows: "nows = (now1, now2) # nows'" using Cons.prems(3) by (cases nows) auto
  obtain a1 where a1: "slaveHandler my c now1 now2 (command m) a = Ret a1" "world_inv c rows ready (wd a1)"
      "queued c (wd a1) = queued c (wd a) @ [m\<lparr>Expiration := 0\<rparr>]"
    using handle_command [OF assms(1) Cons.prems(1), of m now1 now2] Cons.prems nows by auto
  then have "length ms \<le> room c (wd a1)" using Cons.prems(4) by (simp add: room_def)
  then show ?case
    using Cons.IH [OF a1(2), of nows'] Cons.prems a1 nows by auto
qed simp

section \<open>Properties\<close>



text \<open>
  C2. From the request to the sender.  An authorised request with a valid message that is due at
  once is answered with 200 and appended to the sending queue, and the distributor then starts the
  senders of everything that was queued and of this message, in this order.
\<close>

theorem request_is_sent:
  assumes "schedule_db my (records_table c) rows last_id ready" and "world_inv c rows ready (wd a)"
    and "master_connection (cl a) \<noteq> None" and "requests body m" and "valid_obj m" and "Expiration m < 1000"
    and "fits_record (MessageType m) (Endpoint m) (MessageBody m) (wrap64 (now1 + Expiration m))" and "0 < room c (wd a)"
  shows "\<exists>r a' q. handler my c now1 now2 ''POST'' time ''test'' (Some body) a = Ret (r, a') \<and> Routes.status r = 200 \<and>
     process_n (Suc (length (queued c (wd a)))) (nat (GetQueueLength c)) (main_queue (wd a')) =
       Ret (List.map_filter sender_of (queued c (wd a) @ [m\<lparr>Expiration := 0\<rparr>]), q)"
proof -
  obtain s w' where s: "NewSchedule my c now1 now2 (Some m) (wd a) = Ret (Inr s, w')" "world_inv c rows ready w'"
      "queued c w' = queued c (wd a) @ [m\<lparr>Expiration := 0\<rparr>]"
    using schedule_db.new_immediate [OF assms(1,2) refl assms(7,6,8)] by blast
  obtain k a' where d: "DistCalls my c now1 now2 m a = Ret (k, a')" "wd a' = w'"
    using s(1) assms(3) by (cases "MessageType m = 105")
      (auto simp: DistCalls_def distLevel1Calls_def distLevel2Calls_def set_complexity_def Let_def)
  have "ring_inv (nat (GetQueueLength c)) (main_queue w')" using s(2) by (simp add: world_inv_def)
  then have "\<exists>q. process_n (Suc (length (queued c (wd a)))) (nat (GetQueueLength c)) (main_queue w') =
       Ret (List.map_filter sender_of (queued c (wd a) @ [m\<lparr>Expiration := 0\<rparr>]), q)"
    using process_n_all s(3) unfolding queued_def by (metis length_append_singleton)
  moreover have "handler my c now1 now2 ''POST'' time ''test'' (Some body) a = Ret (respond 200 (accepted (Endpoint m)), a')"
    by (simp add: handler_valid [OF assms(4,5)] d)
  ultimately show ?thesis
    using d(2) by (intro exI [of _ "respond 200 (accepted (Endpoint m))"] exI [of _ a']) (simp add: respond_def del: process_n.simps)
qed


theorem request_is_sent_witness:
  "\<exists>r a' q. handler (table_mysql (records_table initial_conf)) initial_conf 1500 1500 ''POST'' ''0'' ''test'' (Some sample_request) sample_app =
       Ret (r, a') \<and> Routes.status r = 200 \<and> process_n 1 1000 (main_queue (wd a')) = Ret ([Send_REST ''GET x'' []], q)"
proof -
  have "fits_record (MessageType sample_message) (Endpoint sample_message) (MessageBody sample_message)
      (wrap64 (1500 + Expiration sample_message))" "Expiration sample_message < 1000"
    by (simp_all add: fits_record_def sample_message_def is_int64_def)
  moreover have "wd sample_app = sample_world" "master_connection (cl sample_app) \<noteq> None" "nat (GetQueueLength initial_conf) = 1000"
    by (simp_all add: sample_app_def GetQueueLength_def initial_conf_def DEFAULT_QUEUE_LENGTH_def)
  moreover have "List.map_filter sender_of [sample_message\<lparr>Expiration := 0\<rparr>] = [Send_REST ''GET x'' []]"
    by (simp add: map_filter_simps sender_of_def sample_message_def)
  ultimately show ?thesis
    using request_is_sent [OF tdb.schedule_db_axioms, of initial_conf sample_app sample_request sample_message 1500 1500 "''0''"]
      sample_world_inv sample_world_room sample_request_ok by (simp del: process_n.simps)
qed

text \<open>
  C4. A single node recovers its schedules at start-up.  Started without cluster mode on a database
  that its initialisation leaves ready, the program serves on the configured port, having pushed
  the unsent rows that are due to the sending queue and stored all others at their due slots.
\<close>

theorem start_up_recovers:
  assumes "ReadFlags args initial_conf = Some (True, c0)" and "Configure fs order c0 = Ret c" and "\<not> GetClusterMode c"
    and "schedule_db my (records_table c) rows last_id ready"
    and "w = (wd a)\<lparr>tcp := None, sdb := snd (initializeMySQLDatabase my c (sdb (wd a)))\<rparr>" and "world_inv c rows ready w"
    and "time_table (store w) = Map.empty"
    and "rs = zip (filter (\<lambda>r. \<not> r_sent r) (rows (sdb w))) (map clock [0..<length (filter (\<lambda>r. \<not> r_sent r) (rows (sdb w)))])"
    and "\<forall>rn \<in> set rs. row_ok rn" and "length (filter due rs) \<le> room c w"
  shows "\<exists>a'. main my fs order dial rv ls accepts clock args a = Ret (Serving c (CHR '':'' # bind_port c) a') \<and>
     world_inv c rows ready (wd a') \<and> queued c (wd a') = queued c w @ map (msg_of \<circ> fst) (filter due rs) \<and>
     time_table (store (wd a')) = map_of (map (\<lambda>rn. (r_id (fst rn), later_slot rn)) (filter (\<lambda>rn. \<not> due rn) rs))"
proof -
  obtain w' where w': "recoverSchedule my c clock w = Ret (None, w')" "world_inv c rows ready w'"
      "queued c w' = queued c w @ map (msg_of \<circ> fst) (filter due rs)"
      "time_table (store w') = map_of (map (\<lambda>rn. (r_id (fst rn), later_slot rn)) (filter (\<lambda>rn. \<not> due rn) rs))"
    using recovery_spec [OF assms(4,6-10)] by blast
  have "InitScheduler my c clock None (wd a) = Ret w'"
    using w'(1) by (simp add: InitScheduler_def assms(5) Let_def)
  then show ?thesis
    using assms(1-3) w'(2-4) by (simp add: main_def Network_def GetPort_def)
qed


theorem start_up_recovers_witness:
  "\<exists>c a'. main (table_mysql (records_table c)) no_files id (\<lambda>_. Dial_Error) True True [] (\<lambda>_. 5000) []
       (sample_app\<lparr>wd := crashed_world\<rparr>) = Ret (Serving c '':443'' a') \<and>
     queued c (wd a') = [\<lparr>MessageType = 107, Endpoint = ''e'', MessageBody = ''a'', Expiration = 0\<rparr>] \<and>
     time_table (store (wd a')) = [2 \<mapsto> 900]"
proof -
  obtain c0 where c0: "ReadFlags [] initial_conf = Some (True, c0)" "path_conf c0 = []" "bind_port c0 = ''443''"
      "queue_length c0 = 1000" "\<not> cluster_mode c0"
    by (simp add: ReadFlags_def initial_conf_def DEFAULT_QUEUE_LENGTH_def DEFAULT_BIND_PORT_def)
  let ?c = "setDefault c0"
  have c: "Configure no_files id c0 = Ret ?c" "\<not> GetClusterMode ?c" "GetQueueLength ?c = 1000" "bind_port ?c = ''443''"
    using c0 by (simp_all add: Configure_def readConfigFromFile_def setDefault_def no_files_def DEFAULT_CONF_NAME_def
        GetClusterMode_def GetQueueLength_def)
  note facts = crashed_world_facts [OF c(3)]
  have w: "crashed_world = (wd (sample_app\<lparr>wd := crashed_world\<rparr>))\<lparr>tcp := None, sdb := snd (initializeMySQLDatabase
      (table_mysql (records_table ?c)) ?c (sdb (wd (sample_app\<lparr>wd := crashed_world\<rparr>))))\<rparr>"
    by (simp add: initializeMySQLDatabase_def table_mysql_def table_query_def table_run_def Let_def crashed_world_def sample_world_def)
  show ?thesis
    using start_up_recovers [OF c0(1) c(1,2) tdb.schedule_db_axioms w facts(1,4) refl,
        of "\<lambda>_. 5000" "\<lambda>_. Dial_Error" True True "[]"]
    unfolding crashed_rows facts c(4) by (auto simp: row_ok_def valid_now_def due_def msg_of_def later_slot_def max_delay_def)
qed

end
